(* ===== verification/Prelude.thy ===== *)
theory Prelude
  imports Complex_Main "HOL-Library.Extended_Nat" "HOL-Library.Word"
begin

text \<open>
  Shared ground of the development: the collections the component proofs use, the type
  of bytes, and the facts about lists, maps and words that more than one component needs.

  \<^item> \<open>handler_defs\<close> collects the unfolding equations of small, non-recursive
    operations whose proofs always start by opening them;
  \<^item> \<open>byte_arith\<close> collects the facts that read bytes as numbers.
\<close>

named_theorems handler_defs \<open>operations that proofs open\<close>
named_theorems byte_arith \<open>bytes read as numbers\<close>

text \<open>A \<open>Uint8Array\<close> or \<open>Buffer\<close>, as the sequence of its bytes.\<close>

type_synonym bytes = "8 word list"

text \<open>An exception of the source is the left summand; the normal result the right one.\<close>

type_synonym ('e, 'a) result = "'e + 'a"

text \<open>
  A method that may throw after it has already changed its object: the state comes back
  with the exception as well as with the result.
\<close>

type_synonym ('s, 'e, 'a) throwing = "'s \<Rightarrow> ('e, 'a) result \<times> 's"

definition done_with :: "'a \<Rightarrow> ('s, 'e, 'a) throwing" where
  "done_with x s = (Inr x, s)"

definition throw :: "'e \<Rightarrow> ('s, 'e, 'a) throwing" where
  "throw e s = (Inl e, s)"

definition and_then :: "('s, 'e, 'a) throwing \<Rightarrow> ('a \<Rightarrow> ('s, 'e, 'b) throwing) \<Rightarrow> ('s, 'e, 'b) throwing" where
  "and_then m f s = (case m s of (Inl e, t) \<Rightarrow> (Inl e, t) | (Inr x, t) \<Rightarrow> f x t)"

lemmas method_defs = done_with_def throw_def and_then_def

subsection \<open>Lists\<close>

text \<open>
  \<open>chunks n xs\<close>: the list cut at every \<open>n\<close>-th element, as the loops
  \<open>for (let at = 0; at < xs.length; at += n) subarray(at, at + n)\<close> cut it.
\<close>

function chunks :: "nat \<Rightarrow> 'a list \<Rightarrow> 'a list list" where
  "chunks n xs = (if xs = [] \<or> n = 0 then [] else take n xs # chunks n (drop n xs))"
  by pat_completeness auto
termination
  by (relation "measure (\<lambda>(n, xs). length xs)") auto

declare chunks.simps [simp del]

lemma chunks_Nil [simp]: "chunks n [] = []"
  by (simp add: chunks.simps)

lemma concat_chunks [simp]: "0 < n \<Longrightarrow> concat (chunks n xs) = xs"
proof (induction n xs rule: chunks.induct)
  case (1 n xs)
  show ?case
  proof (cases "xs = []")
    case False
    with 1 have "concat (chunks n (drop n xs)) = drop n xs" by simp
    with False 1 show ?thesis by (simp add: chunks.simps [of n xs])
  qed simp
qed

lemma chunks_length: "c \<in> set (chunks n xs) \<Longrightarrow> length c \<le> n \<and> c \<noteq> []"
proof (induction n xs rule: chunks.induct)
  case (1 n xs)
  show ?case
  proof (cases "xs = [] \<or> n = 0")
    case True
    with "1.prems" show ?thesis by (simp add: chunks.simps [of n xs])
  next
    case False
    with "1.prems" have "c = take n xs \<or> c \<in> set (chunks n (drop n xs))"
      by (simp add: chunks.simps [of n xs])
    with 1 False show ?thesis by auto
  qed
qed

lemma chunks_short: "xs \<noteq> [] \<Longrightarrow> length xs \<le> n \<Longrightarrow> chunks n xs = [xs]"
  by (cases "n = 0") (auto simp: chunks.simps [of n xs])

lemma sum_list_map_take_le:
  "sum_list (map f (take n xs)) \<le> (sum_list (map f xs) :: nat)"
  by (induction xs arbitrary: n) (auto simp: take_Cons' )

lemma sum_list_map_drop_le:
  "sum_list (map f (drop n xs)) \<le> (sum_list (map f xs) :: nat)"
  by (induction xs arbitrary: n) (auto simp: drop_Cons' trans_le_add2)

subsection \<open>Bytes and numbers\<close>

lemma unat_byte_lt [simp, byte_arith]: "unat (b :: 8 word) < 256"
proof -
  have "unat b < 2 ^ LENGTH(8)" by (rule unsigned_less)
  then show ?thesis by simp
qed

lemma unat_word_of_nat_byte [byte_arith]: "unat (word_of_nat n :: 8 word) = n mod 256"
  by (simp add: unat_of_nat)

end
