(* ===== verification/JsText.thy ===== *)
theory JsText
  imports Prelude
begin

text \<open>
  JavaScript text and JSON, as far as the program measures, cuts and compares them.

  A string is the sequence of its UTF-16 code units (\<open>length\<close> is
  \<open>String.prototype.length\<close>, \<open>take\<close> and \<open>drop\<close> are \<open>slice\<close>). A lone surrogate is
  a legal code unit, so well-formedness is a predicate and not part of the type.
  \<open>utf8_round_trip\<close> is \<open>Buffer.from(s, "utf8").toString("utf8")\<close>: it keeps paired
  surrogates and turns each lone one into U+FFFD.

  JSON values are what \<open>JSON.parse\<close> yields. A number carries its value (\<open>None\<close>
  when the literal overflowed to an infinity) and the text \<open>JSON.stringify\<close> gives it.
\<close>

type_synonym ustring = "nat list"

definition asc :: "string \<Rightarrow> ustring" where
  "asc s = map of_char s"

lemma length_asc [simp]: "length (asc s) = length s"
  by (simp add: asc_def)

lemma asc_append: "asc (s @ t) = asc s @ asc t"
  by (simp add: asc_def)

lemma asc_inject: "asc s = asc t \<longleftrightarrow> s = t"
proof -
  have "inj (of_char :: char \<Rightarrow> nat)" by (simp add: inj_def)
  then show ?thesis by (simp add: asc_def inj_map_eq_map)
qed

subsection \<open>Surrogates\<close>

definition high_surrogate :: "nat \<Rightarrow> bool" where
  "high_surrogate c \<longleftrightarrow> 0xd800 \<le> c \<and> c \<le> 0xdbff"

definition low_surrogate :: "nat \<Rightarrow> bool" where
  "low_surrogate c \<longleftrightarrow> 0xdc00 \<le> c \<and> c \<le> 0xdfff"

lemma surrogates_disjoint [simp]: "high_surrogate c \<Longrightarrow> \<not> low_surrogate c"
  by (simp add: high_surrogate_def low_surrogate_def)

text \<open>\<open>String.prototype.isWellFormed\<close>.\<close>

fun well_formed :: "ustring \<Rightarrow> bool" where
  "well_formed [] = True"
| "well_formed [c] = (\<not> high_surrogate c \<and> \<not> low_surrogate c)"
| "well_formed (c # d # cs) =
     (if high_surrogate c then low_surrogate d \<and> well_formed cs
      else \<not> low_surrogate c \<and> well_formed (d # cs))"

fun utf8_round_trip :: "ustring \<Rightarrow> ustring" where
  "utf8_round_trip [] = []"
| "utf8_round_trip [c] = [if high_surrogate c \<or> low_surrogate c then 0xfffd else c]"
| "utf8_round_trip (c # d # cs) =
     (if high_surrogate c then
        (if low_surrogate d then c # d # utf8_round_trip cs
         else 0xfffd # utf8_round_trip (d # cs))
      else (if low_surrogate c then 0xfffd else c) # utf8_round_trip (d # cs))"

lemma length_utf8_round_trip [simp]: "length (utf8_round_trip s) = length s"
  by (induction s rule: utf8_round_trip.induct) auto

lemma not_surrogate_fffd [simp]: "\<not> high_surrogate 0xfffd" "\<not> low_surrogate 0xfffd"
  by (simp_all add: high_surrogate_def low_surrogate_def)

lemma well_formed_Cons_plain:
  "\<not> high_surrogate c \<Longrightarrow> well_formed (c # cs) \<longleftrightarrow> \<not> low_surrogate c \<and> well_formed cs"
  by (cases cs) auto

lemma well_formed_utf8_round_trip [simp]: "well_formed (utf8_round_trip s)"
  by (induction s rule: utf8_round_trip.induct)
    (auto simp: well_formed_Cons_plain)

lemma utf8_round_trip_id: "well_formed s \<Longrightarrow> utf8_round_trip s = s"
  by (induction s rule: utf8_round_trip.induct) (auto split: if_splits)

text \<open>
  Cutting a well-formed string anywhere but between the halves of a pair leaves a
  well-formed prefix.
\<close>

lemma well_formed_take:
  "well_formed s \<Longrightarrow> n \<le> length s \<Longrightarrow> n = 0 \<or> \<not> high_surrogate (s ! (n - 1)) \<Longrightarrow>
    well_formed (take n s)"
proof (induction s arbitrary: n rule: well_formed.induct)
  case (2 c)
  then show ?case by (cases n) auto
next
  case (3 c d cs)
  show ?case
  proof (cases "high_surrogate c")
    case True
    show ?thesis
    proof (cases "n < 2")
      case True
      with "3.prems" \<open>high_surrogate c\<close> show ?thesis
        by (cases n) auto
    next
      case False
      then obtain m where n: "n = Suc (Suc m)" by (metis add_2_eq_Suc le_Suc_ex not_less)
      from "3.prems" True n have "m = 0 \<or> \<not> high_surrogate (cs ! (m - 1))"
        by (cases m) auto
      with "3.IH"(1) [OF True, of m] "3.prems" True n show ?thesis by auto
    qed
  next
    case False
    show ?thesis
    proof (cases n)
      case 0
      then show ?thesis by simp
    next
      case (Suc m)
      with "3.prems" False have "m = 0 \<or> \<not> high_surrogate ((d # cs) ! (m - 1))"
        by (cases m) auto
      with "3.IH"(2) [OF False, of m] "3.prems" False Suc show ?thesis
        by (auto simp: well_formed_Cons_plain)
    qed
  qed
qed simp

lemma well_formed_high:
  "well_formed s \<Longrightarrow> i < length s \<Longrightarrow> high_surrogate (s ! i) \<Longrightarrow>
    Suc i < length s \<and> low_surrogate (s ! Suc i)"
proof (induction s arbitrary: i rule: well_formed.induct)
  case (3 c d cs)
  show ?case
  proof (cases "high_surrogate c")
    case True
    with "3.prems" have low: "low_surrogate d" and wf: "well_formed cs" by simp_all
    then have "\<not> high_surrogate d" using surrogates_disjoint by blast
    with "3.prems" low "3.IH"(1) [OF True wf, of "i - 2"] show ?thesis
      by (cases i; cases "i - 1") auto
  next
    case False
    with "3.prems" "3.IH"(2) [OF False, of "i - 1"] show ?thesis
      by (cases i) auto
  qed
qed auto

lemma well_formed_append:
  "well_formed s \<Longrightarrow> well_formed t \<Longrightarrow> well_formed (s @ t)"
proof (induction s rule: well_formed.induct)
  case (2 c)
  then show ?case by (auto simp: well_formed_Cons_plain)
qed (auto split: if_splits)

lemma well_formed_plain:
  "\<forall>c\<in>set s. \<not> high_surrogate c \<and> \<not> low_surrogate c \<Longrightarrow> well_formed s"
  by (induction s) (auto simp: well_formed_Cons_plain)

subsection \<open>UTF-8 weight\<close>

text \<open>
  \<open>Buffer.byteLength(s, "utf8")\<close>: a pair is four bytes, a lone surrogate the three of
  U+FFFD.
\<close>

fun utf8_bytes :: "ustring \<Rightarrow> nat" where
  "utf8_bytes [] = 0"
| "utf8_bytes [c] = (if c < 0x80 then 1 else if c < 0x800 then 2 else 3)"
| "utf8_bytes (c # d # cs) =
     (if high_surrogate c \<and> low_surrogate d then 4 + utf8_bytes cs
      else (if c < 0x80 then 1 else if c < 0x800 then 2 else 3) + utf8_bytes (d # cs))"

lemma length_le_utf8_bytes: "length s \<le> utf8_bytes s"
  by (induction s rule: utf8_bytes.induct) auto

lemma utf8_bytes_le: "utf8_bytes s \<le> 3 * length s"
  by (induction s rule: utf8_bytes.induct) auto

text \<open>
  \<open>TextEncoder.encode\<close>: the UTF-8 bytes of a string, a lone surrogate written as U+FFFD.
\<close>

definition utf8_point :: "nat \<Rightarrow> bytes" where
  "utf8_point p =
     (if p < 0x80 then [word_of_nat p]
      else if p < 0x800 then [word_of_nat (0xc0 + p div 64), word_of_nat (0x80 + p mod 64)]
      else if p < 0x10000 then
        [word_of_nat (0xe0 + p div 4096), word_of_nat (0x80 + p div 64 mod 64),
         word_of_nat (0x80 + p mod 64)]
      else
        [word_of_nat (0xf0 + p div 262144), word_of_nat (0x80 + p div 4096 mod 64),
         word_of_nat (0x80 + p div 64 mod 64), word_of_nat (0x80 + p mod 64)])"

definition surrogate_pair :: "nat \<Rightarrow> nat \<Rightarrow> nat" where
  "surrogate_pair c d = 0x10000 + (c - 0xd800) * 1024 + (d - 0xdc00)"

definition scalar_of :: "nat \<Rightarrow> nat" where
  "scalar_of c = (if high_surrogate c \<or> low_surrogate c then 0xfffd else c)"

fun utf8_encode :: "ustring \<Rightarrow> bytes" where
  "utf8_encode [] = []"
| "utf8_encode [c] = utf8_point (scalar_of c)"
| "utf8_encode (c # d # cs) =
     (if high_surrogate c \<and> low_surrogate d
      then utf8_point (surrogate_pair c d) @ utf8_encode cs
      else utf8_point (scalar_of c) @ utf8_encode (d # cs))"

lemma length_utf8_point_scalar:
  "c < 0x10000 \<Longrightarrow> length (utf8_point (scalar_of c)) =
    (if c < 0x80 then 1 else if c < 0x800 then 2 else 3)"
  by (simp add: utf8_point_def scalar_of_def high_surrogate_def low_surrogate_def)

lemma length_utf8_point_pair: "length (utf8_point (surrogate_pair c d)) = 4"
  by (simp add: utf8_point_def surrogate_pair_def)

text \<open>The weight \<open>Buffer.byteLength\<close> reports is the length of what is encoded.\<close>

lemma length_utf8_encode:
  "\<forall>c\<in>set s. c < 0x10000 \<Longrightarrow> length (utf8_encode s) = utf8_bytes s"
  by (induction s rule: utf8_encode.induct)
    (auto simp: length_utf8_point_scalar length_utf8_point_pair)

subsection \<open>Decimal text\<close>

text \<open>\<open>String(n)\<close> of a non-negative integer.\<close>

fun decimal :: "nat \<Rightarrow> ustring" where
  "decimal n = (if n < 10 then [48 + n] else decimal (n div 10) @ [48 + n mod 10])"

declare decimal.simps [simp del]

lemma decimal_digits: "c \<in> set (decimal n) \<Longrightarrow> 48 \<le> c \<and> c \<le> 57"
proof (induction n rule: decimal.induct)
  case (1 n)
  then show ?case by (cases "n < 10") (auto simp: decimal.simps [of n])
qed

lemma length_decimal: "0 < k \<Longrightarrow> n < 10 ^ k \<Longrightarrow> length (decimal n) \<le> k"
proof (induction n arbitrary: k rule: decimal.induct)
  case (1 n)
  show ?case
  proof (cases "n < 10")
    case True
    with 1 show ?thesis by (simp add: decimal.simps [of n])
  next
    case False
    with "1.prems" obtain j where k: "k = Suc j" "0 < j" "n div 10 < 10 ^ j"
      by (cases k; cases "k - 1") (auto simp: less_mult_imp_div_less mult.commute)
    with False "1.IH" [of j] show ?thesis by (simp add: decimal.simps [of n])
  qed
qed

subsection \<open>JSON\<close>

datatype json =
    JNull
  | JBool bool
  | JNum (num_value: "rat option") (num_text: ustring)
  | JStr ustring
  | JArr "json list"
  | JObj "(ustring \<times> json) list"

text \<open>\<open>fields["name"]\<close>: the property of an object, \<open>None\<close> for \<open>undefined\<close>.\<close>

fun field_of :: "json \<Rightarrow> ustring \<Rightarrow> json option" where
  "field_of (JObj kvs) k = map_of kvs k"
| "field_of _ k = None"

definition json_num :: "nat \<Rightarrow> json" where
  "json_num n = JNum (Some (of_nat n)) (decimal n)"

text \<open>\<open>Number.isInteger\<close> of a finite number, and the truth value a condition gives a property.\<close>

definition is_integer :: "rat \<Rightarrow> bool" where
  "is_integer r \<longleftrightarrow> r = of_int (floor r)"

fun truthy :: "json option \<Rightarrow> bool" where
  "truthy None = False"
| "truthy (Some JNull) = False"
| "truthy (Some (JBool b)) = b"
| "truthy (Some (JNum v t)) = (v \<noteq> Some 0)"
| "truthy (Some (JStr s)) = (s \<noteq> [])"
| "truthy (Some _) = True"

fun is_object :: "json \<Rightarrow> bool" where
  "is_object (JObj _) = True"
| "is_object _ = False"

text \<open>The own entries of a value: what \<open>Object.entries\<close> lists and a spread copies.\<close>

fun spread_of :: "json \<Rightarrow> (ustring \<times> json) list" where
  "spread_of (JObj kvs) = kvs"
| "spread_of (JArr xs) = zip (map decimal [0..<length xs]) xs"
| "spread_of (JStr s) = zip (map decimal [0..<length s]) (map (\<lambda>c. JStr [c]) s)"
| "spread_of _ = []"

definition hex_digit :: "nat \<Rightarrow> nat" where
  "hex_digit d = (if d < 10 then 48 + d else 87 + d)"

text \<open>The \<open>\u00xx\<close> escape of a code unit, four lower-case hexadecimal digits.\<close>

definition hex_escape :: "nat \<Rightarrow> ustring" where
  "hex_escape c = [92, 117, hex_digit (c div 4096 mod 16), hex_digit (c div 256 mod 16),
     hex_digit (c div 16 mod 16), hex_digit (c mod 16)]"

definition escape_unit :: "nat \<Rightarrow> ustring" where
  "escape_unit c =
     (if c = 8 then [92, 98] else if c = 9 then [92, 116] else if c = 10 then [92, 110]
      else if c = 12 then [92, 102] else if c = 13 then [92, 114]
      else if c = 34 then [92, 34] else if c = 92 then [92, 92]
      else if c < 32 then hex_escape c else [c])"

fun escape_string :: "ustring \<Rightarrow> ustring" where
  "escape_string [] = []"
| "escape_string [c] = (if high_surrogate c \<or> low_surrogate c then hex_escape c else escape_unit c)"
| "escape_string (c # d # cs) =
     (if high_surrogate c \<and> low_surrogate d then c # d # escape_string cs
      else (if high_surrogate c \<or> low_surrogate c then hex_escape c else escape_unit c)
        @ escape_string (d # cs))"

definition json_quote :: "ustring \<Rightarrow> ustring" where
  "json_quote s = [34] @ escape_string s @ [34]"

fun join :: "ustring \<Rightarrow> ustring list \<Rightarrow> ustring" where
  "join sep [] = []"
| "join sep [x] = x"
| "join sep (x # y # ys) = x @ sep @ join sep (y # ys)"

fun stringify :: "json \<Rightarrow> ustring" where
  "stringify JNull = asc ''null''"
| "stringify (JBool b) = (if b then asc ''true'' else asc ''false'')"
| "stringify (JNum v t) = t"
| "stringify (JStr s) = json_quote s"
| "stringify (JArr xs) = [91] @ join [44] (map stringify xs) @ [93]"
| "stringify (JObj kvs) = [123] @ join [44] (map (\<lambda>(k, v). json_quote k @ [58] @ stringify v) kvs) @ [125]"

lemma length_join:
  "length (join sep xs) = sum_list (map length xs) + length sep * (length xs - 1)"
  by (induction sep xs rule: join.induct) auto

subsection \<open>\<open>String.prototype.trim\<close>\<close>

definition js_space :: "nat \<Rightarrow> bool" where
  "js_space c \<longleftrightarrow> 9 \<le> c \<and> c \<le> 13 \<or> c = 32 \<or> c = 0xa0 \<or> c = 0x1680 \<or> 0x2000 \<le> c \<and> c \<le> 0x200a
     \<or> c = 0x2028 \<or> c = 0x2029 \<or> c = 0x202f \<or> c = 0x205f \<or> c = 0x3000 \<or> c = 0xfeff"

definition js_trim :: "ustring \<Rightarrow> ustring" where
  "js_trim s = rev (dropWhile js_space (rev (dropWhile js_space s)))"

lemma length_js_trim: "length (js_trim s) \<le> length s"
  using length_dropWhile_le [of js_space "rev (dropWhile js_space s)"] length_dropWhile_le [of js_space s]
  by (simp add: js_trim_def)

lemma dropWhile_rev_dropWhile:
  "dropWhile P (rev (dropWhile P (rev (dropWhile P s)))) = rev (dropWhile P (rev (dropWhile P s)))"
proof (cases "rev (dropWhile P (rev (dropWhile P s)))")
  case (Cons x xs)
  then have "x # xs @ rev (takeWhile P (rev (dropWhile P s))) = dropWhile P s"
    by (metis append_Cons rev_append rev_rev_ident takeWhile_dropWhile_id)
  then have "\<not> P x" by (metis dropWhile_eq_Cons_conv)
  with Cons show ?thesis by simp
next
  case Nil
  then show ?thesis by (simp only: dropWhile.simps)
qed

lemma js_trim_idem [simp]: "js_trim (js_trim s) = js_trim s"
proof -
  have "dropWhile js_space (js_trim s) = js_trim s"
    unfolding js_trim_def by (rule dropWhile_rev_dropWhile)
  then show ?thesis unfolding js_trim_def by simp
qed

text \<open>
  \<open>toLowerCase\<close> on the letters of ASCII, which is what a comparison with a header name sees of it: no
  letter of those names is the lower case of anything but its capital.
\<close>

definition lowered :: "ustring \<Rightarrow> ustring" where
  "lowered s = map (\<lambda>c. if 65 \<le> c \<and> c \<le> 90 then c + 32 else c) s"

end
