(* ===== verification/Frames.thy ===== *)
theory Frames
  imports JsText
begin

text \<open>
  \<open>packages/protocol/src/frames.ts\<close>: what travels inside the encrypted channel. Typed
  frames and their size limit, socket messages cut into \<open>MESSAGE\<close> frames and put back
  together by \<open>MessageAssembler\<close>, and the two-byte length prefix that
  \<open>LengthReader\<close> takes off an arbitrary byte stream.

  A \<open>throw\<close> is a \<open>frame_error\<close> on the left. \<open>JSON.parse\<close> after \<open>TextDecoder.decode\<close>
  is the argument \<open>parse\<close> of the functions that read JSON.

  The locale \<open>stream_reader\<close> is the contract of an incremental reader: feeding a
  concatenation is feeding its parts. Its lemma \<open>feed_chunking\<close> is the reason a
  message may be split anywhere, and \<open>LengthReader\<close> is shown to meet it.
\<close>

datatype frame_error = PayloadTooLarge | DescriptionTooLarge | NoiseMessageTooLarge

datatype frame_type =
    HELLO | READY
  | REQUEST | REQUEST_BODY | REQUEST_END
  | RESPONSE | RESPONSE_BODY | RESPONSE_END
  | OPEN | OPENED | MESSAGE | CLOSE | MESSAGE_END
  | FAILED

fun FRAME :: "frame_type \<Rightarrow> 8 word" where
  "FRAME HELLO = 0x01"
| "FRAME READY = 0x02"
| "FRAME REQUEST = 0x10"
| "FRAME REQUEST_BODY = 0x11"
| "FRAME REQUEST_END = 0x12"
| "FRAME RESPONSE = 0x20"
| "FRAME RESPONSE_BODY = 0x21"
| "FRAME RESPONSE_END = 0x22"
| "FRAME OPEN = 0x30"
| "FRAME OPENED = 0x31"
| "FRAME MESSAGE = 0x32"
| "FRAME CLOSE = 0x33"
| "FRAME MESSAGE_END = 0x34"
| "FRAME FAILED = 0x40"

lemma FRAME_inj [simp]: "FRAME s = FRAME t \<longleftrightarrow> s = t"
  by (cases s; cases t) simp_all

declare FRAME.simps [simp del]

definition MAX_FRAME_PAYLOAD :: nat where
  "MAX_FRAME_PAYLOAD = 65535 - 16 - 1"

definition MAX_HEADER_JSON_BYTES :: nat where
  "MAX_HEADER_JSON_BYTES = MAX_FRAME_PAYLOAD"

definition MAX_SOCKET_MESSAGE_BYTES :: nat where
  "MAX_SOCKET_MESSAGE_BYTES = 1024 * 1024"

subsection \<open>Frames\<close>

definition encodeFrame :: "frame_type \<Rightarrow> bytes \<Rightarrow> (frame_error, bytes) result" where
  "encodeFrame t payload =
     (if length payload > MAX_FRAME_PAYLOAD then Inl PayloadTooLarge
      else Inr (FRAME t # payload))"

definition decodeFrame :: "bytes \<Rightarrow> (8 word \<times> bytes) option" where
  "decodeFrame frame = (case frame of [] \<Rightarrow> None | t # payload \<Rightarrow> Some (t, payload))"

definition tryEncodeJsonFrame :: "frame_type \<Rightarrow> json \<Rightarrow> (frame_error, bytes option) result" where
  "tryEncodeJsonFrame t v =
     (let json = utf8_encode (stringify v)
      in if length json > MAX_HEADER_JSON_BYTES then Inr None
         else map_sum id Some (encodeFrame t json))"

definition encodeJsonFrame :: "frame_type \<Rightarrow> json \<Rightarrow> (frame_error, bytes) result" where
  "encodeJsonFrame t v =
     (case tryEncodeJsonFrame t v of
        Inl e \<Rightarrow> Inl e
      | Inr None \<Rightarrow> Inl DescriptionTooLarge
      | Inr (Some frame) \<Rightarrow> Inr frame)"

definition decodeJson :: "(bytes \<Rightarrow> json option) \<Rightarrow> bytes \<Rightarrow> json option" where
  "decodeJson parse payload =
     (if length payload > MAX_HEADER_JSON_BYTES then None
      else case parse payload of
        None \<Rightarrow> None
      | Some parsed \<Rightarrow> if is_object parsed then Some parsed else None)"

lemma encodeFrame_decode: "encodeFrame t p = Inr f \<Longrightarrow> decodeFrame f = Some (FRAME t, p)"
  by (auto simp: encodeFrame_def decodeFrame_def split: if_splits)

text \<open>
  The two limits are one number, so the refusal of an oversized description is always
  the \<open>null\<close> of \<open>tryEncodeJsonFrame\<close> and never a throw of \<open>encodeFrame\<close> underneath it.
\<close>

lemma tryEncodeJsonFrame_cases:
  "tryEncodeJsonFrame t v =
     Inr (if length (utf8_encode (stringify v)) \<le> MAX_FRAME_PAYLOAD
          then Some (FRAME t # utf8_encode (stringify v)) else None)"
  by (simp add: tryEncodeJsonFrame_def encodeFrame_def MAX_HEADER_JSON_BYTES_def Let_def)

lemma encodeJsonFrame_decode:
  assumes "encodeJsonFrame t v = Inr f"
    and "parse (utf8_encode (stringify v)) = Some v" and "is_object v"
  shows "\<exists>p. decodeFrame f = Some (FRAME t, p) \<and> decodeJson parse p = Some v"
proof -
  from assms(1) have "length (utf8_encode (stringify v)) \<le> MAX_FRAME_PAYLOAD"
    and "f = FRAME t # utf8_encode (stringify v)"
    by (auto simp: encodeJsonFrame_def tryEncodeJsonFrame_cases split: if_splits)
  with assms(2,3) show ?thesis
    by (simp add: decodeFrame_def decodeJson_def MAX_HEADER_JSON_BYTES_def)
qed

subsection \<open>Socket messages\<close>

text \<open>
  The loop pushes one \<open>MESSAGE\<close> frame per \<open>subarray(at, at + MAX_FRAME_PAYLOAD)\<close>; a throw
  of \<open>encodeFrame\<close> inside it would be the result of the whole function.
\<close>

fun message_frames :: "bytes list \<Rightarrow> (frame_error, bytes list) result" where
  "message_frames [] = map_sum id (\<lambda>f. [f]) (encodeFrame MESSAGE_END [])"
| "message_frames (c # cs) =
     (case encodeFrame MESSAGE c of
        Inl e \<Rightarrow> Inl e
      | Inr f \<Rightarrow> map_sum id (\<lambda>fs. f # fs) (message_frames cs))"

definition encodeMessageFrames :: "bytes \<Rightarrow> (frame_error, bytes list) result" where
  "encodeMessageFrames message = message_frames (chunks MAX_FRAME_PAYLOAD message)"

lemma message_frames_ok:
  "\<forall>c\<in>set cs. length c \<le> MAX_FRAME_PAYLOAD \<Longrightarrow>
    message_frames cs = Inr (map (\<lambda>c. FRAME MESSAGE # c) cs @ [[FRAME MESSAGE_END]])"
  by (induction cs) (auto simp: encodeFrame_def)

lemma MAX_FRAME_PAYLOAD_pos [simp]: "0 < MAX_FRAME_PAYLOAD"
  by (simp add: MAX_FRAME_PAYLOAD_def)

lemma encodeMessageFrames_eq:
  "encodeMessageFrames m =
     Inr (map (\<lambda>c. FRAME MESSAGE # c) (chunks MAX_FRAME_PAYLOAD m) @ [[FRAME MESSAGE_END]])"
  unfolding encodeMessageFrames_def
  by (rule message_frames_ok) (use chunks_length in blast)

record assembler =
  as_chunks :: "bytes list"
  as_bytes :: nat
  as_overflowed :: bool

definition new_assembler :: assembler where
  "new_assembler = \<lparr>as_chunks = [], as_bytes = 0, as_overflowed = False\<rparr>"

definition assembler_push :: "assembler \<Rightarrow> bytes \<Rightarrow> bool \<times> assembler" where
  "assembler_push a payload =
     (if as_overflowed a then (False, a)
      else if as_bytes a + length payload > MAX_SOCKET_MESSAGE_BYTES
      then (False, a\<lparr>as_overflowed := True, as_chunks := [], as_bytes := 0\<rparr>)
      else (True, a\<lparr>as_chunks := as_chunks a @ [payload],
                    as_bytes := as_bytes a + length payload\<rparr>))"

definition assembler_end :: "assembler \<Rightarrow> bytes option \<times> assembler" where
  "assembler_end a =
     (if as_overflowed a then (None, a\<lparr>as_overflowed := False\<rparr>)
      else (Some (concat (as_chunks a)), a\<lparr>as_chunks := [], as_bytes := 0\<rparr>))"

text \<open>
  The held bytes are exactly what is counted, the count never passes the bound, and an
  overflowed assembler holds nothing.
\<close>

definition assembler_inv :: "assembler \<Rightarrow> bool" where
  "assembler_inv a \<longleftrightarrow>
     as_bytes a = sum_list (map length (as_chunks a)) \<and>
     as_bytes a \<le> MAX_SOCKET_MESSAGE_BYTES \<and>
     (as_overflowed a \<longrightarrow> as_chunks a = [])"

lemma new_assembler_inv: "assembler_inv new_assembler"
  by (simp add: assembler_inv_def new_assembler_def)

lemma assembler_push_inv: "assembler_inv a \<Longrightarrow> assembler_inv (snd (assembler_push a p))"
  by (simp add: assembler_inv_def assembler_push_def)

lemma assembler_end_inv: "assembler_inv a \<Longrightarrow> assembler_inv (snd (assembler_end a))"
  by (auto simp: assembler_inv_def assembler_end_def)

lemma assembler_end_new: "assembler_inv a \<Longrightarrow> snd (assembler_end a) = new_assembler"
  by (auto simp: assembler_inv_def assembler_end_def new_assembler_def)

fun assembler_push_all :: "assembler \<Rightarrow> bytes list \<Rightarrow> assembler" where
  "assembler_push_all a [] = a"
| "assembler_push_all a (p # ps) = assembler_push_all (snd (assembler_push a p)) ps"

lemma assembler_push_all_inv: "assembler_inv a \<Longrightarrow> assembler_inv (assembler_push_all a ps)"
  by (induction ps arbitrary: a) (simp_all add: assembler_push_inv)

lemma assembler_push_all_overflowed:
  "as_overflowed a \<Longrightarrow> assembler_push_all a ps = a"
  by (induction ps) (simp_all add: assembler_push_def)

lemma assembler_push_all_result:
  assumes "assembler_inv a" and "\<not> as_overflowed a"
  shows "fst (assembler_end (assembler_push_all a ps)) =
    (if as_bytes a + length (concat ps) \<le> MAX_SOCKET_MESSAGE_BYTES
     then Some (concat (as_chunks a) @ concat ps) else None)"
  using assms
proof (induction ps arbitrary: a)
  case Nil
  then show ?case by (simp add: assembler_end_def assembler_inv_def)
next
  case (Cons p ps)
  show ?case
  proof (cases "as_bytes a + length p > MAX_SOCKET_MESSAGE_BYTES")
    case True
    with Cons.prems show ?thesis
      by (simp add: assembler_push_def assembler_push_all_overflowed assembler_end_def)
  next
    case False
    with Cons.prems show ?thesis
      by (subst assembler_push_all.simps, subst Cons.IH)
        (simp_all add: assembler_push_inv, simp_all add: assembler_push_def add.assoc)
  qed
qed

subsection \<open>The incremental reader as an interface\<close>

text \<open>Feeding a reader chunk after chunk, collecting what it hands out.\<close>

primrec feed :: "('s \<Rightarrow> 'b list \<Rightarrow> 'm list \<times> 's) \<Rightarrow> 's \<Rightarrow> 'b list list \<Rightarrow> 'm list \<times> 's" where
  "feed push s [] = ([], s)"
| "feed push s (c # cs) =
     (fst (push s c) @ fst (feed push (snd (push s c)) cs), snd (feed push (snd (push s c)) cs))"

text \<open>
  \<open>ready s\<close> says that the state holds no complete message. The two laws are what a
  client of such a reader relies on: reading one chunk after another is reading their
  concatenation, and between reads nothing is left undelivered.
\<close>

locale stream_reader =
  fixes push :: "'s \<Rightarrow> 'b list \<Rightarrow> 'm list \<times> 's"
    and ready :: "'s \<Rightarrow> bool"
  assumes push_append:
      "push s (a @ b) =
        (fst (push s a) @ fst (push (snd (push s a)) b), snd (push (snd (push s a)) b))"
    and push_ready: "ready (snd (push s a))"
    and push_Nil: "ready s \<Longrightarrow> push s [] = ([], s)"
begin

lemma feed_concat: "ready s \<Longrightarrow> feed push s cs = push s (concat cs)"
proof (induction cs arbitrary: s)
  case Nil
  then show ?case by (simp add: push_Nil)
next
  case (Cons c cs)
  have "feed push (snd (push s c)) cs = push (snd (push s c)) (concat cs)"
    by (rule Cons.IH) (rule push_ready)
  then show ?case by (simp add: push_append [of s c])
qed

lemma feed_chunking: "ready s \<Longrightarrow> concat cs = concat ds \<Longrightarrow> feed push s cs = feed push s ds"
  by (simp add: feed_concat)

end

subsection \<open>Length-prefixed framing\<close>

definition frameLength :: "bytes \<Rightarrow> (frame_error, bytes) result" where
  "frameLength message =
     (if length message > 65535 then Inl NoiseMessageTooLarge
      else Inr (word_of_nat (length message div 256) # word_of_nat (length message) # message))"

text \<open>
  The body of \<open>push\<close> is the loop over \<open>at\<close>; here the loop variable is what is left of
  \<open>merged\<close> from \<open>at\<close> on. It stops with fewer than two bytes, or with fewer than the
  announced length after them.
\<close>

definition announced :: "8 word \<Rightarrow> 8 word \<Rightarrow> nat" where
  "announced hi lo = unat hi * 256 + unat lo"

function whole_messages :: "bytes \<Rightarrow> bytes list \<times> bytes" where
  "whole_messages merged =
     (case merged of
        hi # lo # rest \<Rightarrow>
          if length rest < announced hi lo then ([], merged)
          else (let (out, held) = whole_messages (drop (announced hi lo) rest)
                in (take (announced hi lo) rest # out, held))
      | _ \<Rightarrow> ([], merged))"
  by pat_completeness auto
termination
  by (relation "measure length") auto

declare whole_messages.simps [simp del]

record length_reader =
  lr_held :: bytes

definition new_length_reader :: length_reader where
  "new_length_reader = \<lparr>lr_held = []\<rparr>"

definition length_reader_push :: "length_reader \<Rightarrow> bytes \<Rightarrow> bytes list \<times> length_reader" where
  "length_reader_push r chunk =
     (let (out, held) = whole_messages (lr_held r @ chunk) in (out, r\<lparr>lr_held := held\<rparr>))"

lemma whole_messages_short [simp]:
  "whole_messages [] = ([], [])" "whole_messages [x] = ([], [x])"
  by (simp_all add: whole_messages.simps)

lemma whole_messages_partial:
  "length rest < announced hi lo \<Longrightarrow> whole_messages (hi # lo # rest) = ([], hi # lo # rest)"
  by (simp add: whole_messages.simps)

lemma whole_messages_step:
  "\<not> length rest < announced hi lo \<Longrightarrow> whole_messages (hi # lo # rest) =
     (take (announced hi lo) rest # fst (whole_messages (drop (announced hi lo) rest)),
      snd (whole_messages (drop (announced hi lo) rest)))"
  by (subst whole_messages.simps) (simp add: case_prod_beta Let_def)

lemma whole_messages_append:
  "whole_messages (xs @ ys) =
    (fst (whole_messages xs) @ fst (whole_messages (snd (whole_messages xs) @ ys)),
     snd (whole_messages (snd (whole_messages xs) @ ys)))"
proof (induction xs rule: whole_messages.induct)
  case (1 xs)
  show ?case
  proof (cases "\<exists>hi lo rest. xs = hi # lo # rest \<and> \<not> length rest < announced hi lo")
    case True
    then obtain hi lo rest
      where xs: "xs = hi # lo # rest" and len: "\<not> length rest < announced hi lo" by blast
    then have "whole_messages (drop (announced hi lo) rest @ ys) =
        (fst (whole_messages (drop (announced hi lo) rest)) @
           fst (whole_messages (snd (whole_messages (drop (announced hi lo) rest)) @ ys)),
         snd (whole_messages (snd (whole_messages (drop (announced hi lo) rest)) @ ys)))"
      using "1.IH" [OF xs refl] by simp
    with xs len show ?thesis by (simp add: whole_messages_step)
  next
    case False
    then have "whole_messages xs = ([], xs)"
      by (auto simp: whole_messages.simps [of xs] split: list.splits)
    then show ?thesis by simp
  qed
qed

lemma whole_messages_rest: "whole_messages (snd (whole_messages xs)) = ([], snd (whole_messages xs))"
proof (induction xs rule: whole_messages.induct)
  case (1 xs)
  show ?case
  proof (cases "\<exists>hi lo rest. xs = hi # lo # rest \<and> \<not> length rest < announced hi lo")
    case True
    with 1 show ?thesis by (auto simp: whole_messages_step)
  next
    case False
    then have "whole_messages xs = ([], xs)"
      by (auto simp: whole_messages.simps [of xs] split: list.splits)
    then show ?thesis by simp
  qed
qed

definition length_reader_ready :: "length_reader \<Rightarrow> bool" where
  "length_reader_ready r \<longleftrightarrow> whole_messages (lr_held r) = ([], lr_held r)"

interpretation lr: stream_reader length_reader_push length_reader_ready
proof unfold_locales
  fix s :: length_reader and a b
  show "length_reader_push s (a @ b) =
      (fst (length_reader_push s a) @ fst (length_reader_push (snd (length_reader_push s a)) b),
       snd (length_reader_push (snd (length_reader_push s a)) b))"
    using whole_messages_append [of "lr_held s @ a" b]
    by (simp add: length_reader_push_def case_prod_beta Let_def)
  show "length_reader_ready (snd (length_reader_push s a))"
    by (simp add: length_reader_ready_def length_reader_push_def case_prod_beta Let_def
        whole_messages_rest)
  show "length_reader_push s [] = ([], s)" if "length_reader_ready s"
    using that by (simp add: length_reader_ready_def length_reader_push_def)
qed

lemma announced_frameLength:
  "length m \<le> 65535 \<Longrightarrow>
    announced (word_of_nat (length m div 256)) (word_of_nat (length m)) = length m"
  by (simp add: announced_def byte_arith)

lemma whole_messages_frames:
  "list_all2 (\<lambda>m w. frameLength m = Inr w) ms ws \<Longrightarrow> whole_messages (concat ws) = (ms, [])"
proof (induction ms ws rule: list_all2_induct)
  case (Cons m ms w ws)
  then have len: "length m \<le> 65535"
    and w: "w = word_of_nat (length m div 256) # word_of_nat (length m) # m"
    by (auto simp: frameLength_def split: if_splits)
  with Cons.IH announced_frameLength [OF len] show ?case
    by (simp add: whole_messages_step)
qed simp

subsection \<open>Properties\<close>

text \<open>
  The receiving side of a socket, as both ends of the channel run it: a \<open>MESSAGE\<close> is pushed,
  a \<open>MESSAGE_END\<close> hands out what \<open>end()\<close> answers, and anything else hands out nothing here.
\<close>

fun deliver :: "assembler \<Rightarrow> bytes list \<Rightarrow> bytes option list \<times> assembler" where
  "deliver a [] = ([], a)"
| "deliver a (f # fs) =
     (case decodeFrame f of
        None \<Rightarrow> deliver a fs
      | Some (t, payload) \<Rightarrow>
          if t = FRAME MESSAGE then deliver (snd (assembler_push a payload)) fs
          else if t = FRAME MESSAGE_END
          then (let (m, a') = assembler_end a; (ms, a'') = deliver a' fs in (m # ms, a''))
          else deliver a fs)"

lemma deliver_append:
  "deliver a (fs @ gs) =
    (fst (deliver a fs) @ fst (deliver (snd (deliver a fs)) gs),
     snd (deliver (snd (deliver a fs)) gs))"
  by (induction fs arbitrary: a) (auto simp: case_prod_beta Let_def split: option.splits)

lemma deliver_messages:
  "deliver a (map (\<lambda>c. FRAME MESSAGE # c) cs) = ([], assembler_push_all a cs)"
  by (induction cs arbitrary: a) (simp_all add: decodeFrame_def)

lemma deliver_one:
  "deliver new_assembler (map (\<lambda>c. FRAME MESSAGE # c) (chunks MAX_FRAME_PAYLOAD m) @
      [[FRAME MESSAGE_END]]) =
    ([if length m \<le> MAX_SOCKET_MESSAGE_BYTES then Some m else None], new_assembler)"
proof -
  let ?a = "assembler_push_all new_assembler (chunks MAX_FRAME_PAYLOAD m)"
  have "fst (assembler_end ?a) = (if length m \<le> MAX_SOCKET_MESSAGE_BYTES then Some m else None)"
    using assembler_push_all_result [OF new_assembler_inv, of "chunks MAX_FRAME_PAYLOAD m"]
    by (simp add: new_assembler_def)
  moreover have "snd (assembler_end ?a) = new_assembler"
    by (intro assembler_end_new assembler_push_all_inv new_assembler_inv)
  ultimately show ?thesis
    by (simp add: deliver_append deliver_messages decodeFrame_def case_prod_beta Let_def)
qed

text \<open>
  C21. Length-prefixed framing survives any segmentation of the stream: for Noise messages
  of at most 65535 bytes, written one after another by \<open>frameLength\<close> and read by a fresh
  \<open>LengthReader\<close> in chunks cut anywhere, the reader hands out exactly those messages, in
  order, and holds nothing afterwards.
\<close>

theorem length_reader_reassembles:
  assumes "list_all2 (\<lambda>m w. frameLength m = Inr w) ms ws"
    and "concat cs = concat ws"
  shows "feed length_reader_push new_length_reader cs = (ms, new_length_reader)"
proof -
  have "feed length_reader_push new_length_reader cs =
      length_reader_push new_length_reader (concat ws)"
    by (simp add: lr.feed_concat length_reader_ready_def new_length_reader_def assms(2))
  with whole_messages_frames [OF assms(1)] show ?thesis
    by (simp add: length_reader_push_def new_length_reader_def)
qed

theorem length_reader_reassembles_witness:
  "feed length_reader_push new_length_reader [[0], [2, 7], [8, 0, 0, 0], [1, 9]] =
    ([[7, 8], [], [9]], new_length_reader)"
  by (rule length_reader_reassembles
      [where ws = "[[0, 2, 7, 8], [0, 0], [0, 1, 9]]"]) (simp_all add: frameLength_def)

text \<open>
  Socket messages survive being cut into frames: encoding any sequence of messages with
  \<open>encodeMessageFrames\<close> never throws, and delivering the frames to a fresh \<open>MessageAssembler\<close>
  gives each message back whole, in order, empty ones included; a message over
  \<open>MAX_SOCKET_MESSAGE_BYTES\<close> is answered with \<open>null\<close>, never with a part of it, and the
  messages after it are unharmed.
\<close>

theorem socket_messages_round_trip:
  "\<exists>fss. map encodeMessageFrames ms = map Inr fss \<and>
     deliver new_assembler (concat fss) =
       (map (\<lambda>m. if length m \<le> MAX_SOCKET_MESSAGE_BYTES then Some m else None) ms,
        new_assembler)"
proof (induction ms)
  case (Cons m ms)
  then obtain fss where "map encodeMessageFrames ms = map Inr fss"
    and "deliver new_assembler (concat fss) =
       (map (\<lambda>m. if length m \<le> MAX_SOCKET_MESSAGE_BYTES then Some m else None) ms,
        new_assembler)" by blast
  then show ?case
    by (intro exI [of _ "(map (\<lambda>c. FRAME MESSAGE # c) (chunks MAX_FRAME_PAYLOAD m) @
        [[FRAME MESSAGE_END]]) # fss"])
      (simp add: encodeMessageFrames_eq [of m] deliver_one deliver_append [of _ "map _ _ @ _"]
        del: append_assoc)
qed simp

text \<open>
  The assembler never holds more than the bound, whatever frames arrive: after any
  frames at all, starting fresh, the bytes held are the bytes counted and at most
  \<open>MAX_SOCKET_MESSAGE_BYTES\<close>, and once a message has overflowed nothing of it is held.
\<close>

theorem assembler_memory_bounded:
  "assembler_inv (snd (deliver new_assembler fs))"
proof -
  have "assembler_inv a \<Longrightarrow> assembler_inv (snd (deliver a fs))" for a
    by (induction fs arbitrary: a)
      (auto simp: case_prod_beta Let_def assembler_push_inv assembler_end_inv split: option.splits)
  then show ?thesis using new_assembler_inv by blast
qed

end
