(* ===== verification/Noise.thy ===== *)
theory Noise
  imports Prelude
begin

text \<open>
  \<open>packages/protocol/src/noise.ts\<close>: the \<open>Noise_IK_25519_ChaChaPoly_BLAKE2s\<close> handshake
  and the transport ciphers it ends in.

  The primitives of \<open>@noble\<close> are third-party code: they are the fields of a \<open>crypto\<close>
  record, an argument of every function that uses one. \<open>crypto_ok\<close> is what the
  handshake relies on: X25519 agrees from both ends and answers for generated keys,
  opening undoes sealing under the same key, nonce and associated data, and the sizes.
  A primitive that throws answers \<open>None\<close>.

  A handshake method may throw after it has changed the object, so each is a \<open>throwing\<close> of
  the prelude: the changed object is returned with the exception too. The random source
  of ephemerals is \<open>hs_supply\<close>, of which \<open>hs_drawn\<close> were taken.
\<close>

record crypto =
  c_blake2s :: "bytes \<Rightarrow> bytes"
  c_hmac :: "bytes \<Rightarrow> bytes \<Rightarrow> bytes"
  c_seal :: "bytes \<Rightarrow> bytes \<Rightarrow> bytes \<Rightarrow> bytes \<Rightarrow> bytes"
  c_open :: "bytes \<Rightarrow> bytes \<Rightarrow> bytes \<Rightarrow> bytes \<Rightarrow> bytes option"
  c_public :: "bytes \<Rightarrow> bytes"
  c_shared :: "bytes \<Rightarrow> bytes \<Rightarrow> bytes option"

datatype noise_error =
    NonceOutsideRange | NonceExhausted | AuthenticationFailed | SharedSecretFailed
  | NeedsResponderKey | NotADhToken | NoMoreToWrite | OtherEndsTurn | NoMoreToRead
  | ThisEndsTurn | HandshakeShort | HandshakeUnfinished | MissingKey

definition KEY_BYTES :: nat where "KEY_BYTES = 32"
definition HASH_BYTES :: nat where "HASH_BYTES = 32"
definition TAG_BYTES :: nat where "TAG_BYTES = 16"

definition PROTOCOL_NAME :: bytes where
  "PROTOCOL_NAME = map of_char ''Noise_IK_25519_ChaChaPoly_BLAKE2s''"

definition crypto_ok :: "crypto \<Rightarrow> bool" where
  "crypto_ok c \<longleftrightarrow>
     (\<forall>k n a p. c_open c k n a (c_seal c k n a p) = Some p) \<and>
     (\<forall>k n a p. length (c_seal c k n a p) = length p + TAG_BYTES) \<and>
     (\<forall>s. length s = KEY_BYTES \<longrightarrow> length (c_public c s) = KEY_BYTES) \<and>
     (\<forall>s t. length s = KEY_BYTES \<longrightarrow> length t = KEY_BYTES \<longrightarrow>
        (\<exists>z. c_shared c s (c_public c t) = Some z \<and> c_shared c t (c_public c s) = Some z))"

subsection \<open>Keys\<close>

record static_key =
  sk_public :: bytes
  sk_dh :: "bytes \<Rightarrow> bytes option"

definition localStaticKey :: "crypto \<Rightarrow> bytes \<Rightarrow> static_key" where
  "localStaticKey c secretKey =
     \<lparr>sk_public = c_public c secretKey, sk_dh = (\<lambda>peer. c_shared c secretKey peer)\<rparr>"

record ephemeral =
  eph_secret :: bytes
  eph_public :: bytes

definition ephemeral_of :: "crypto \<Rightarrow> bytes \<Rightarrow> ephemeral" where
  "ephemeral_of c secretKey = \<lparr>eph_secret = secretKey, eph_public = c_public c secretKey\<rparr>"

subsection \<open>Key derivation and nonces\<close>

text \<open>The outputs are the first two or three blocks; each later one chains the one before.\<close>

definition hkdf :: "crypto \<Rightarrow> bytes \<Rightarrow> bytes \<Rightarrow> nat \<Rightarrow> bytes list" where
  "hkdf c chainingKey material outputs =
     (let tempKey = c_hmac c chainingKey material;
          first = c_hmac c tempKey [1];
          second = c_hmac c tempKey (first @ [2])
      in if outputs = 2 then [first, second]
         else [first, second, c_hmac c tempKey (second @ [3])])"

text \<open>\<open>setBigUint64(4, counter, true)\<close>: eight bytes, the least significant first.\<close>

definition little_endian64 :: "nat \<Rightarrow> bytes" where
  "little_endian64 n = map (\<lambda>i. word_of_nat (n div 256 ^ i)) [0..<8]"

definition nonceBytes :: "nat \<Rightarrow> bytes" where
  "nonceBytes counter = replicate 4 0 @ little_endian64 counter"

definition RESERVED_NONCE :: nat where
  "RESERVED_NONCE = 2 ^ 64 - 1"

lemma RESERVED_NONCE_pos [simp]: "0 < RESERVED_NONCE"
  by (simp add: RESERVED_NONCE_def)

subsection \<open>CipherState\<close>

record cipher_state =
  cs_key :: "bytes option"
  cs_counter :: nat

definition new_cipher :: "bytes option \<Rightarrow> cipher_state" where
  "new_cipher key = \<lparr>cs_key = key, cs_counter = 0\<rparr>"

definition cipher_at :: "bytes option \<Rightarrow> int \<Rightarrow> (noise_error, cipher_state) result" where
  "cipher_at key counter =
     (if counter < 0 \<or> int RESERVED_NONCE < counter then Inl NonceOutsideRange
      else Inr ((new_cipher key)\<lparr>cs_counter := nat counter\<rparr>))"

definition hasKey :: "cipher_state \<Rightarrow> bool" where
  "hasKey s \<longleftrightarrow> cs_key s \<noteq> None"

definition cipher_encrypt ::
    "crypto \<Rightarrow> bytes \<Rightarrow> bytes \<Rightarrow> (cipher_state, noise_error, bytes) throwing" where
  "cipher_encrypt c ad plaintext s =
     (case cs_key s of
        None \<Rightarrow> (Inr plaintext, s)
      | Some key \<Rightarrow>
          if RESERVED_NONCE \<le> cs_counter s then (Inl NonceExhausted, s)
          else (Inr (c_seal c key (nonceBytes (cs_counter s)) ad plaintext),
                s\<lparr>cs_counter := cs_counter s + 1\<rparr>))"

definition cipher_decrypt ::
    "crypto \<Rightarrow> bytes \<Rightarrow> bytes \<Rightarrow> (cipher_state, noise_error, bytes) throwing" where
  "cipher_decrypt c ad ciphertext s =
     (case cs_key s of
        None \<Rightarrow> (Inr ciphertext, s)
      | Some key \<Rightarrow>
          if RESERVED_NONCE \<le> cs_counter s then (Inl NonceExhausted, s)
          else (case c_open c key (nonceBytes (cs_counter s)) ad ciphertext of
                  None \<Rightarrow> (Inl AuthenticationFailed, s)
                | Some opened \<Rightarrow> (Inr opened, s\<lparr>cs_counter := cs_counter s + 1\<rparr>)))"

subsection \<open>SymmetricState\<close>

record symmetric_state =
  ss_chaining_key :: bytes
  ss_hash :: bytes
  ss_cipher :: cipher_state

definition new_symmetric :: "crypto \<Rightarrow> bytes \<Rightarrow> symmetric_state" where
  "new_symmetric c name =
     (let h = (if length name \<le> HASH_BYTES
               then name @ replicate (HASH_BYTES - length name) 0 else c_blake2s c name)
      in \<lparr>ss_chaining_key = h, ss_hash = h, ss_cipher = new_cipher None\<rparr>)"

definition mixKey :: "crypto \<Rightarrow> bytes \<Rightarrow> symmetric_state \<Rightarrow> symmetric_state" where
  "mixKey c material s =
     (let ks = hkdf c (ss_chaining_key s) material 2
      in s\<lparr>ss_chaining_key := ks ! 0, ss_cipher := new_cipher (Some (take KEY_BYTES (ks ! 1)))\<rparr>)"

definition mixHash :: "crypto \<Rightarrow> bytes \<Rightarrow> symmetric_state \<Rightarrow> symmetric_state" where
  "mixHash c data s = s\<lparr>ss_hash := c_blake2s c (ss_hash s @ data)\<rparr>"

definition encryptAndHash ::
    "crypto \<Rightarrow> bytes \<Rightarrow> (symmetric_state, noise_error, bytes) throwing" where
  "encryptAndHash c plaintext s =
     (case cipher_encrypt c (ss_hash s) plaintext (ss_cipher s) of
        (Inl e, ci) \<Rightarrow> (Inl e, s\<lparr>ss_cipher := ci\<rparr>)
      | (Inr ciphertext, ci) \<Rightarrow> (Inr ciphertext, mixHash c ciphertext (s\<lparr>ss_cipher := ci\<rparr>)))"

definition decryptAndHash ::
    "crypto \<Rightarrow> bytes \<Rightarrow> (symmetric_state, noise_error, bytes) throwing" where
  "decryptAndHash c ciphertext s =
     (case cipher_decrypt c (ss_hash s) ciphertext (ss_cipher s) of
        (Inl e, ci) \<Rightarrow> (Inl e, s\<lparr>ss_cipher := ci\<rparr>)
      | (Inr plaintext, ci) \<Rightarrow> (Inr plaintext, mixHash c ciphertext (s\<lparr>ss_cipher := ci\<rparr>)))"

definition symmetric_split :: "crypto \<Rightarrow> symmetric_state \<Rightarrow> cipher_state \<times> cipher_state" where
  "symmetric_split c s =
     (let ks = hkdf c (ss_chaining_key s) [] 2
      in (new_cipher (Some (take KEY_BYTES (ks ! 0))), new_cipher (Some (take KEY_BYTES (ks ! 1)))))"

subsection \<open>The handshake\<close>

record noise_transport =
  nt_send :: cipher_state
  nt_receive :: cipher_state
  nt_handshake_hash :: bytes

datatype token = Tok_e | Tok_s | Tok_ee | Tok_es | Tok_se | Tok_ss

definition MESSAGES :: "token list list" where
  "MESSAGES = [[Tok_e, Tok_es, Tok_s, Tok_ss], [Tok_e, Tok_ee, Tok_se]]"

record handshake =
  hs_initiator :: bool
  hs_static :: static_key
  hs_supply :: "nat \<Rightarrow> ephemeral"
  hs_drawn :: nat
  hs_symmetric :: symmetric_state
  hs_ephemeral :: "ephemeral option"
  hs_remote_static :: "bytes option"
  hs_remote_ephemeral :: "bytes option"
  hs_step :: nat
  hs_transport :: "noise_transport option"

text \<open>
  \<open>NoiseHandshake.start\<close> and the constructor it calls. An initiator without a 32-byte
  responder key is refused before anything is built.
\<close>

definition noise_start ::
    "crypto \<Rightarrow> bool \<Rightarrow> static_key \<Rightarrow> bytes option \<Rightarrow> bytes \<Rightarrow> (nat \<Rightarrow> ephemeral) \<Rightarrow>
      (noise_error, handshake) result" where
  "noise_start c initiator staticKey remoteStatic prologue supply =
     (if initiator \<and> (case remoteStatic of None \<Rightarrow> True | Some r \<Rightarrow> length r \<noteq> KEY_BYTES)
      then Inl NeedsResponderKey
      else Inr \<lparr>hs_initiator = initiator, hs_static = staticKey, hs_supply = supply, hs_drawn = 0,
        hs_symmetric =
          mixHash c (if initiator then the remoteStatic else sk_public staticKey)
            (mixHash c prologue (new_symmetric c PROTOCOL_NAME)),
        hs_ephemeral = None, hs_remote_static = remoteStatic, hs_remote_ephemeral = None,
        hs_step = 0, hs_transport = None\<rparr>)"

definition complete :: "handshake \<Rightarrow> bool" where
  "complete h \<longleftrightarrow> hs_transport h \<noteq> None"

definition mix_secret :: "crypto \<Rightarrow> bytes option \<Rightarrow> (handshake, noise_error, unit) throwing" where
  "mix_secret c secret h =
     (case secret of
        None \<Rightarrow> (Inl SharedSecretFailed, h)
      | Some z \<Rightarrow> (Inr (), h\<lparr>hs_symmetric := mixKey c z (hs_symmetric h)\<rparr>))"

text \<open>
  \<open>mixDh\<close>. A key the source asserts with \<open>!\<close> and that is absent is a \<open>TypeError\<close> there
  and \<open>MissingKey\<close> here.
\<close>

fun mixDh :: "crypto \<Rightarrow> token \<Rightarrow> (handshake, noise_error, unit) throwing" where
  "mixDh c Tok_ee h =
     (case (hs_ephemeral h, hs_remote_ephemeral h) of
        (Some e, Some re) \<Rightarrow> mix_secret c (c_shared c (eph_secret e) re) h
      | _ \<Rightarrow> throw MissingKey h)"
| "mixDh c Tok_es h =
     (if hs_initiator h
      then (case (hs_ephemeral h, hs_remote_static h) of
              (Some e, Some rs) \<Rightarrow> mix_secret c (c_shared c (eph_secret e) rs) h
            | _ \<Rightarrow> throw MissingKey h)
      else (case hs_remote_ephemeral h of
              Some re \<Rightarrow> mix_secret c (sk_dh (hs_static h) re) h
            | None \<Rightarrow> throw MissingKey h))"
| "mixDh c Tok_se h =
     (if hs_initiator h
      then (case hs_remote_ephemeral h of
              Some re \<Rightarrow> mix_secret c (sk_dh (hs_static h) re) h
            | None \<Rightarrow> throw MissingKey h)
      else (case (hs_ephemeral h, hs_remote_static h) of
              (Some e, Some rs) \<Rightarrow> mix_secret c (c_shared c (eph_secret e) rs) h
            | _ \<Rightarrow> throw MissingKey h))"
| "mixDh c Tok_ss h =
     (case hs_remote_static h of
        Some rs \<Rightarrow> mix_secret c (sk_dh (hs_static h) rs) h
      | None \<Rightarrow> throw MissingKey h)"
| "mixDh c _ h = throw NotADhToken h"

declare mixDh.simps [simp del]

definition on_symmetric ::
    "(symmetric_state, noise_error, 'a) throwing \<Rightarrow> (handshake, noise_error, 'a) throwing" where
  "on_symmetric m h = (let (r, s) = m (hs_symmetric h) in (r, h\<lparr>hs_symmetric := s\<rparr>))"

text \<open>One round of the loop over the tokens of the message being written; the parts in order.\<close>

definition write_token :: "crypto \<Rightarrow> token \<Rightarrow> (handshake, noise_error, bytes) throwing" where
  "write_token c t h =
     (case t of
        Tok_e \<Rightarrow>
          (let e = hs_supply h (hs_drawn h)
           in (Inr (eph_public e),
               h\<lparr>hs_ephemeral := Some e, hs_drawn := hs_drawn h + 1,
                 hs_symmetric := mixHash c (eph_public e) (hs_symmetric h)\<rparr>))
      | Tok_s \<Rightarrow> on_symmetric (encryptAndHash c (sk_public (hs_static h))) h
      | _ \<Rightarrow> and_then (mixDh c t) (\<lambda>_. done_with []) h)"

fun write_tokens :: "crypto \<Rightarrow> token list \<Rightarrow> (handshake, noise_error, bytes) throwing" where
  "write_tokens c [] = done_with []"
| "write_tokens c (t # ts) =
     and_then (write_token c t) (\<lambda>p. and_then (write_tokens c ts) (\<lambda>ps. done_with (p @ ps)))"

definition maybeSplit :: "crypto \<Rightarrow> handshake \<Rightarrow> handshake" where
  "maybeSplit c h =
     (if hs_step h < length MESSAGES then h
      else let (first, second) = symmetric_split c (hs_symmetric h)
        in h\<lparr>hs_transport := Some
          (if hs_initiator h
           then \<lparr>nt_send = first, nt_receive = second, nt_handshake_hash = ss_hash (hs_symmetric h)\<rparr>
           else \<lparr>nt_send = second, nt_receive = first,
                 nt_handshake_hash = ss_hash (hs_symmetric h)\<rparr>)\<rparr>)"

definition next_step :: "crypto \<Rightarrow> handshake \<Rightarrow> handshake" where
  "next_step c h = maybeSplit c (h\<lparr>hs_step := hs_step h + 1\<rparr>)"

definition writeMessage :: "crypto \<Rightarrow> bytes \<Rightarrow> (handshake, noise_error, bytes) throwing" where
  "writeMessage c payload h =
     (if length MESSAGES \<le> hs_step h then throw NoMoreToWrite h
      else if (hs_step h mod 2 = 0) \<noteq> hs_initiator h then throw OtherEndsTurn h
      else and_then (write_tokens c (MESSAGES ! hs_step h))
        (\<lambda>parts. and_then (on_symmetric (encryptAndHash c payload))
          (\<lambda>sealed k. (Inr (parts @ sealed), next_step c k))) h)"

text \<open>One round of the reading loop: what is left of the message is threaded through.\<close>

definition read_token :: "crypto \<Rightarrow> token \<Rightarrow> bytes \<Rightarrow> (handshake, noise_error, bytes) throwing" where
  "read_token c t rest h =
     (case t of
        Tok_e \<Rightarrow>
          if length rest < KEY_BYTES then throw HandshakeShort h
          else (let re = take KEY_BYTES rest
                in (Inr (drop KEY_BYTES rest),
                    h\<lparr>hs_remote_ephemeral := Some re, hs_symmetric := mixHash c re (hs_symmetric h)\<rparr>))
      | Tok_s \<Rightarrow>
          (let n = (if hasKey (ss_cipher (hs_symmetric h)) then KEY_BYTES + TAG_BYTES else KEY_BYTES)
           in if length rest < n then throw HandshakeShort h
              else and_then (on_symmetric (decryptAndHash c (take n rest)))
                (\<lambda>rs k. (Inr (drop n rest), k\<lparr>hs_remote_static := Some rs\<rparr>)) h)
      | _ \<Rightarrow> and_then (mixDh c t) (\<lambda>_. done_with rest) h)"

fun read_tokens :: "crypto \<Rightarrow> token list \<Rightarrow> bytes \<Rightarrow> (handshake, noise_error, bytes) throwing" where
  "read_tokens c [] rest = done_with rest"
| "read_tokens c (t # ts) rest = and_then (read_token c t rest) (\<lambda>r. read_tokens c ts r)"

definition readMessage :: "crypto \<Rightarrow> bytes \<Rightarrow> (handshake, noise_error, bytes) throwing" where
  "readMessage c message h =
     (if length MESSAGES \<le> hs_step h then throw NoMoreToRead h
      else if (hs_step h mod 2 = 0) = hs_initiator h then throw ThisEndsTurn h
      else and_then (read_tokens c (MESSAGES ! hs_step h) message)
        (\<lambda>rest. and_then (on_symmetric (decryptAndHash c rest))
          (\<lambda>payload k. (Inr payload, next_step c k))) h)"

definition noise_split :: "handshake \<Rightarrow> (noise_error, noise_transport) result" where
  "noise_split h =
     (case hs_transport h of None \<Rightarrow> Inl HandshakeUnfinished | Some t \<Rightarrow> Inr t)"

subsection \<open>What the primitives give\<close>

lemma crypto_open [simp]: "crypto_ok c \<Longrightarrow> c_open c k n a (c_seal c k n a p) = Some p"
  unfolding crypto_ok_def by blast

lemma crypto_seal_length [simp]:
  "crypto_ok c \<Longrightarrow> length (c_seal c k n a p) = length p + TAG_BYTES"
  unfolding crypto_ok_def by blast

lemma crypto_public_length [simp]:
  "crypto_ok c \<Longrightarrow> length s = KEY_BYTES \<Longrightarrow> length (c_public c s) = KEY_BYTES"
  unfolding crypto_ok_def by blast

lemma crypto_agree:
  "crypto_ok c \<Longrightarrow> length s = KEY_BYTES \<Longrightarrow> length t = KEY_BYTES \<Longrightarrow>
    \<exists>z. c_shared c s (c_public c t) = Some z \<and> c_shared c t (c_public c s) = Some z"
  unfolding crypto_ok_def by blast

lemma length_little_endian64 [simp]: "length (little_endian64 n) = 8"
  by (simp add: little_endian64_def)

lemma length_nonceBytes [simp]: "length (nonceBytes n) = 12"
  by (simp add: nonceBytes_def)

text \<open>
  Below \<open>2 ^ 64\<close> the encoding of the counter is injective, so distinct counters give
  distinct nonces.
\<close>

fun little_endian_value :: "bytes \<Rightarrow> nat" where
  "little_endian_value [] = 0"
| "little_endian_value (b # bs) = unat b + 256 * little_endian_value bs"

lemma little_endian_value_map:
  "little_endian_value (map (\<lambda>i. word_of_nat (n div 256 ^ i)) [j..<j + k]) =
    n div 256 ^ j mod 256 ^ k"
proof (induction k arbitrary: j)
  case (Suc k)
  have "little_endian_value (map (\<lambda>i. word_of_nat (n div 256 ^ i)) [j..<j + Suc k]) =
      n div 256 ^ j mod 256 + 256 * (n div 256 ^ Suc j mod 256 ^ k)"
    using Suc.IH [of "Suc j"]
    by (simp add: upt_conv_Cons [of j "Suc (j + k)"] unat_word_of_nat_byte del: upt_Suc)
  also have "n div 256 ^ Suc j = n div 256 ^ j div 256"
    by (simp add: div_mult2_eq [symmetric] mult.commute)
  also have "n div 256 ^ j mod 256 + 256 * (n div 256 ^ j div 256 mod 256 ^ k) =
      n div 256 ^ j mod 256 ^ Suc k"
    by (simp add: mod_mult2_eq)
  finally show ?case .
qed simp

lemma nonceBytes_inj:
  assumes "nonceBytes m = nonceBytes n" and "m < 2 ^ 64" and "n < 2 ^ 64"
  shows "m = n"
proof -
  have read: "little_endian_value (little_endian64 k) = k mod 2 ^ 64" for k
    using little_endian_value_map [of k 0 8] by (simp add: little_endian64_def)
  from assms(1) have "little_endian64 m = little_endian64 n" by (simp add: nonceBytes_def)
  then have "m mod 2 ^ 64 = n mod 2 ^ 64" by (metis read)
  with assms(2,3) show ?thesis by simp
qed

subsection \<open>Transport\<close>

fun encrypt_all :: "crypto \<Rightarrow> bytes list \<Rightarrow> (cipher_state, noise_error, bytes list) throwing" where
  "encrypt_all c [] = done_with []"
| "encrypt_all c (p # ps) =
     and_then (cipher_encrypt c [] p) (\<lambda>w. and_then (encrypt_all c ps) (\<lambda>ws. done_with (w # ws)))"

text \<open>A receiver that goes on after a failed open, keeping what it could read.\<close>

fun decrypt_each :: "crypto \<Rightarrow> bytes list \<Rightarrow> cipher_state \<Rightarrow> bytes list \<times> cipher_state" where
  "decrypt_each c [] s = ([], s)"
| "decrypt_each c (w # ws) s =
     (case cipher_decrypt c [] w s of
        (Inl e, t) \<Rightarrow> decrypt_each c ws t
      | (Inr p, t) \<Rightarrow> (p # fst (decrypt_each c ws t), snd (decrypt_each c ws t)))"

lemma cipher_decrypt_error: "cipher_decrypt c a w s = (Inl e, t) \<Longrightarrow> t = s"
  by (auto simp: cipher_decrypt_def split: option.splits if_splits)

lemma cipher_encrypt_error: "cipher_encrypt c a w s = (Inl e, t) \<Longrightarrow> t = s"
  by (auto simp: cipher_encrypt_def split: option.splits if_splits)

lemma cipher_decrypt_encrypt:
  assumes "crypto_ok c" and "cipher_encrypt c a p s = (Inr w, t)"
  shows "cipher_decrypt c a w s = (Inr p, t)"
  using assms by (auto simp: cipher_encrypt_def cipher_decrypt_def split: option.splits if_splits)

text \<open>
  What arrives on a channel somebody else writes to as well: the sealed frames in order, with forged
  ones anywhere between them. A frame is forged when the primitive does not open it under the key and
  the number of the next sealed frame; what the receiver does of it is not said here.
\<close>

inductive interferes :: "crypto \<Rightarrow> bytes \<Rightarrow> nat \<Rightarrow> bytes list \<Rightarrow> bytes list \<Rightarrow> bool" for c key where
  interferes_Nil: "interferes c key n [] []"
| interferes_forged: "c_open c key (nonceBytes n) [] b = None \<Longrightarrow> interferes c key n sealed arrived \<Longrightarrow> interferes c key n sealed (b # arrived)"
| interferes_sealed: "interferes c key (n + 1) sealed arrived \<Longrightarrow> interferes c key n (w # sealed) (w # arrived)"

lemma encrypt_all_decrypt_each:
  assumes "crypto_ok c"
  shows "encrypt_all c ps s = (Inr ws, t) \<Longrightarrow> decrypt_each c ws s = (ps, t)"
proof (induction ps arbitrary: s ws)
  case (Cons p ps)
  from Cons.prems obtain w u vs
    where w: "cipher_encrypt c [] p s = (Inr w, u)"
      and vs: "encrypt_all c ps u = (Inr vs, t)" and ws: "ws = w # vs"
    by (auto simp: method_defs split: sum.splits prod.splits)
  from cipher_decrypt_encrypt [OF assms w] Cons.IH [OF vs] ws show ?case by simp
qed (simp add: method_defs)

lemma encrypt_all_fits:
  "cs_counter s + length ps \<le> RESERVED_NONCE \<Longrightarrow>
    \<exists>ws. encrypt_all c ps s = (Inr ws, if cs_key s = None then s
      else s\<lparr>cs_counter := cs_counter s + length ps\<rparr>)"
proof (induction ps arbitrary: s)
  case (Cons p ps)
  define u where "u = snd (cipher_encrypt c [] p s)"
  from Cons.prems have w: "\<exists>w. cipher_encrypt c [] p s = (Inr w, u)"
    and u: "u = (if cs_key s = None then s else s\<lparr>cs_counter := cs_counter s + 1\<rparr>)"
    by (auto simp: u_def cipher_encrypt_def split: option.splits)
  from Cons.prems u have "cs_counter u + length ps \<le> RESERVED_NONCE" by simp
  from Cons.IH [OF this] w u show ?case by (auto simp: method_defs)
qed (simp add: method_defs)

lemma decrypt_each_forged:
  "cs_key s = Some key \<Longrightarrow> c_open c key (nonceBytes (cs_counter s)) [] b = None \<Longrightarrow> decrypt_each c (b # arrived) s = decrypt_each c arrived s"
  by (simp add: cipher_decrypt_def)

lemma decrypt_each_interferes:
  "interferes c key n ws arrived \<Longrightarrow> crypto_ok c \<Longrightarrow> cs_key s = Some key \<Longrightarrow> cs_counter s = n \<Longrightarrow> encrypt_all c ps s = (Inr ws, t)
    \<Longrightarrow> decrypt_each c arrived s = (ps, t)"
proof (induction arbitrary: s ps rule: interferes.induct)
  case (interferes_Nil n)
  then show ?case by (cases ps) (auto simp: method_defs split: prod.splits sum.splits)
next
  case (interferes_forged n b sealed arrived)
  with decrypt_each_forged [of s key c b arrived] show ?case by simp
next
  case (interferes_sealed n sealed arrived w)
  note prems = interferes_sealed.prems
  obtain p qs u where ps: "ps = p # qs" and w: "cipher_encrypt c [] p s = (Inr w, u)" and rest: "encrypt_all c qs u = (Inr sealed, t)"
    using prems(4) by (cases ps) (auto simp: method_defs split: prod.splits sum.splits)
  have "cs_key u = Some key" "cs_counter u = n + 1" using w prems(2,3) by (auto simp: cipher_encrypt_def split: if_splits)
  from interferes_sealed.IH [OF prems(1) this rest] cipher_decrypt_encrypt [OF prems(1) w] show ?case by (simp add: ps)
qed

text \<open>Every call of \<open>encrypt\<close> of a run, refused or not, with associated data of its own.\<close>

fun encrypt_each :: "crypto \<Rightarrow> (bytes \<times> bytes) list \<Rightarrow> cipher_state \<Rightarrow> (noise_error, bytes) result list" where
  "encrypt_each c [] s = []"
| "encrypt_each c ((a, p) # aps) s = (let (r, t) = cipher_encrypt c a p s in r # encrypt_each c aps t)"

lemma encrypt_each_sealed:
  "cs_key s = Some key \<Longrightarrow> cs_counter s \<le> RESERVED_NONCE \<Longrightarrow>
    encrypt_each c aps s =
      (let ns = map nonceBytes [cs_counter s..<min (cs_counter s + length aps) RESERVED_NONCE]
       in map (\<lambda>((a, p), n). Inr (c_seal c key n a p)) (zip aps ns) @ replicate (length aps - length ns) (Inl NonceExhausted))"
proof (induction aps arbitrary: s)
  case (Cons ap aps)
  obtain a p where ap: "ap = (a, p)" by (cases ap)
  show ?case
  proof (cases "cs_counter s = RESERVED_NONCE")
    case True
    with Cons.IH [of s] Cons.prems show ?thesis by (simp add: ap cipher_encrypt_def Let_def)
  next
    case False
    let ?t = "s\<lparr>cs_counter := cs_counter s + 1\<rparr>" let ?stop = "min (cs_counter s + length (ap # aps)) RESERVED_NONCE"
    have "cipher_encrypt c a p s = (Inr (c_seal c key (nonceBytes (cs_counter s)) a p), ?t)"
      using False Cons.prems by (simp add: cipher_encrypt_def)
    moreover have "[cs_counter s..<?stop] = cs_counter s # [Suc (cs_counter s)..<?stop]"
      using False Cons.prems by (intro upt_conv_Cons) simp
    moreover have "?stop = min (cs_counter ?t + length aps) RESERVED_NONCE" by simp
    moreover have "length (ap # aps) - length [cs_counter s..<?stop] = length aps - length [cs_counter ?t..<?stop]"
      using False Cons.prems by simp
    ultimately show ?thesis using Cons.IH [of ?t] False Cons.prems by (simp add: ap Let_def)
  qed
qed (simp add: Let_def)

lemma nonces_distinct:
  assumes "e \<le> RESERVED_NONCE"
  shows "distinct (map nonceBytes [b..<e])" and "nonceBytes RESERVED_NONCE \<notin> set (map nonceBytes [b..<e])"
proof -
  have same: "m = n" if "nonceBytes m = nonceBytes n" "m \<le> RESERVED_NONCE" "n \<le> RESERVED_NONCE" for m n
    using that nonceBytes_inj [of m n] by (simp add: RESERVED_NONCE_def)
  have "inj_on nonceBytes (set [b..<e])" using assms by (intro inj_onI same) auto
  then show "distinct (map nonceBytes [b..<e])" by (simp add: distinct_map)
  have "nonceBytes RESERVED_NONCE \<noteq> nonceBytes n" if "n \<in> set [b..<e]" for n
    using same [of RESERVED_NONCE n] assms that by auto
  then show "nonceBytes RESERVED_NONCE \<notin> set (map nonceBytes [b..<e])" unfolding set_map image_iff by blast
qed

subsection \<open>Both ends of a handshake in step\<close>

lemma mixKey_cipher [simp]:
  "cs_counter (ss_cipher (mixKey c z s)) = 0" "hasKey (ss_cipher (mixKey c z s))"
  by (simp_all add: mixKey_def new_cipher_def hasKey_def Let_def)

lemma encryptAndHash_decryptAndHash:
  assumes "crypto_ok c" and "cs_counter (ss_cipher s) < RESERVED_NONCE" and "hasKey (ss_cipher s)"
  shows "\<exists>w t. encryptAndHash c p s = (Inr w, t) \<and> decryptAndHash c w s = (Inr p, t) \<and>
    length w = length p + TAG_BYTES"
proof -
  from assms(3) obtain k where "cs_key (ss_cipher s) = Some k" by (auto simp: hasKey_def)
  with assms show ?thesis
    by (auto simp: encryptAndHash_def decryptAndHash_def cipher_encrypt_def cipher_decrypt_def)
qed

lemmas message_defs = writeMessage_def readMessage_def MESSAGES_def write_token_def read_token_def
  mix_secret_def mixDh.simps on_symmetric_def next_step_def Let_def

text \<open>
  The first message: \<open>e, es, s, ss\<close> and the payload leave both symmetric states equal.
\<close>

lemma first_message:
  assumes ok: "crypto_ok c"
    and I: "hs_initiator I" "hs_step I = 0" "hs_static I = localStaticKey c si"
      "hs_remote_static I = Some (c_public c sr)" "hs_supply I (hs_drawn I) = ephemeral_of c ei"
    and R: "\<not> hs_initiator R" "hs_step R = 0" "hs_static R = localStaticKey c sr"
    and same: "hs_symmetric R = hs_symmetric I"
    and len: "length si = KEY_BYTES" "length ei = KEY_BYTES"
    and es: "c_shared c ei (c_public c sr) = Some es" "c_shared c sr (c_public c ei) = Some es"
    and ss: "c_shared c si (c_public c sr) = Some ss" "c_shared c sr (c_public c si) = Some ss"
  obtains m I1 R1 where "writeMessage c p I = (Inr m, I1)" "readMessage c m R = (Inr p, R1)"
    "hs_symmetric R1 = hs_symmetric I1"
    "I1 = I\<lparr>hs_symmetric := hs_symmetric I1, hs_ephemeral := Some (ephemeral_of c ei),
       hs_drawn := hs_drawn I + 1, hs_step := 1\<rparr>"
    "R1 = R\<lparr>hs_symmetric := hs_symmetric I1, hs_remote_ephemeral := Some (c_public c ei),
       hs_remote_static := Some (c_public c si), hs_step := 1\<rparr>"
    "length m = 2 * KEY_BYTES + 2 * TAG_BYTES + length p"
proof -
  define s1 where "s1 = mixKey c es (mixHash c (c_public c ei) (hs_symmetric I))"
  obtain w1 t1 where w1: "encryptAndHash c (c_public c si) s1 = (Inr w1, t1)"
    "decryptAndHash c w1 s1 = (Inr (c_public c si), t1)" "length w1 = KEY_BYTES + TAG_BYTES"
    using encryptAndHash_decryptAndHash [OF ok, of s1 "c_public c si"] ok len
    by (auto simp: s1_def)
  obtain w2 t2 where w2: "encryptAndHash c p (mixKey c ss t1) = (Inr w2, t2)"
    "decryptAndHash c w2 (mixKey c ss t1) = (Inr p, t2)" "length w2 = length p + TAG_BYTES"
    using encryptAndHash_decryptAndHash [OF ok, of "mixKey c ss t1" p] by auto
  have key: "hasKey (ss_cipher s1)" by (simp add: s1_def)
  have wrote: "writeMessage c p I = (Inr (c_public c ei @ w1 @ w2),
      I\<lparr>hs_symmetric := t2, hs_ephemeral := Some (ephemeral_of c ei),
        hs_drawn := hs_drawn I + 1, hs_step := 1\<rparr>)"
    using I es ss w1 w2
    by (simp add: message_defs method_defs localStaticKey_def ephemeral_of_def maybeSplit_def
        flip: s1_def)
  have got: "readMessage c (c_public c ei @ w1 @ w2) R = (Inr p,
      R\<lparr>hs_symmetric := t2, hs_remote_ephemeral := Some (c_public c ei),
        hs_remote_static := Some (c_public c si), hs_step := 1\<rparr>)"
    using R es ss w1 w2 ok len key same
    by (simp add: message_defs method_defs localStaticKey_def maybeSplit_def flip: s1_def)
  from that [OF wrote got] show thesis using w1(3) w2(3) ok len by simp
qed

text \<open>The second message: \<open>e, ee, se\<close> and the payload, after which both ends split.\<close>

lemma second_message:
  assumes ok: "crypto_ok c"
    and I: "hs_initiator I" "hs_step I = 1" "hs_static I = localStaticKey c si"
      "hs_ephemeral I = Some (ephemeral_of c ei)"
    and R: "\<not> hs_initiator R" "hs_step R = 1" "hs_remote_ephemeral R = Some (c_public c ei)"
      "hs_remote_static R = Some (c_public c si)" "hs_supply R (hs_drawn R) = ephemeral_of c er"
    and same: "hs_symmetric R = hs_symmetric I"
    and len: "length er = KEY_BYTES"
    and ee: "c_shared c ei (c_public c er) = Some ee" "c_shared c er (c_public c ei) = Some ee"
    and se: "c_shared c si (c_public c er) = Some se" "c_shared c er (c_public c si) = Some se"
  obtains m I1 R1 t where "writeMessage c p R = (Inr m, R1)" "readMessage c m I = (Inr p, I1)"
    "hs_remote_static R1 = hs_remote_static R"
    "hs_transport I1 = Some \<lparr>nt_send = fst (symmetric_split c t),
       nt_receive = snd (symmetric_split c t), nt_handshake_hash = ss_hash t\<rparr>"
    "hs_transport R1 = Some \<lparr>nt_send = snd (symmetric_split c t),
       nt_receive = fst (symmetric_split c t), nt_handshake_hash = ss_hash t\<rparr>"
    "length m = KEY_BYTES + TAG_BYTES + length p"
proof -
  define s1 where "s1 = mixKey c se (mixKey c ee (mixHash c (c_public c er) (hs_symmetric I)))"
  obtain w t where w: "encryptAndHash c p s1 = (Inr w, t)" "decryptAndHash c w s1 = (Inr p, t)"
    and long: "length w = length p + TAG_BYTES"
    using encryptAndHash_decryptAndHash [OF ok, of s1 p] by (auto simp: s1_def)
  have wrote: "\<exists>R1. writeMessage c p R = (Inr (c_public c er @ w), R1) \<and>
      hs_remote_static R1 = hs_remote_static R \<and>
      hs_transport R1 = Some \<lparr>nt_send = snd (symmetric_split c t),
       nt_receive = fst (symmetric_split c t), nt_handshake_hash = ss_hash t\<rparr>"
    using R ee se w same
    by (simp add: message_defs method_defs ephemeral_of_def maybeSplit_def case_prod_beta
        flip: s1_def)
  have got: "\<exists>I1. readMessage c (c_public c er @ w) I = (Inr p, I1) \<and>
      hs_transport I1 = Some \<lparr>nt_send = fst (symmetric_split c t),
       nt_receive = snd (symmetric_split c t), nt_handshake_hash = ss_hash t\<rparr>"
    using I ee se w ok len
    by (simp add: message_defs method_defs localStaticKey_def ephemeral_of_def maybeSplit_def
        case_prod_beta flip: s1_def)
  have "length (c_public c er @ w) = KEY_BYTES + TAG_BYTES + length p" using ok len long by simp
  with wrote got that show thesis by blast
qed


lemma ik_agrees:
  assumes ok: "crypto_ok c"
    and lengths: "length si = KEY_BYTES" "length sr = KEY_BYTES"
      "length ei = KEY_BYTES" "length er = KEY_BYTES"
    and I: "noise_start c True (localStaticKey c si) (Some (c_public c sr)) prologue
        (\<lambda>_. ephemeral_of c ei) = Inr I"
    and R: "noise_start c False (localStaticKey c sr) None prologue
        (\<lambda>_. ephemeral_of c er) = Inr R"
  shows "\<exists>m1 I1 R1 m2 R2 I2 tI tR.
     writeMessage c p1 I = (Inr m1, I1) \<and> readMessage c m1 R = (Inr p1, R1) \<and>
     writeMessage c p2 R1 = (Inr m2, R2) \<and> readMessage c m2 I1 = (Inr p2, I2) \<and>
     hs_remote_static R2 = Some (c_public c si) \<and>
     noise_split I2 = Inr tI \<and> noise_split R2 = Inr tR \<and>
     nt_send tI = nt_receive tR \<and> nt_receive tI = nt_send tR \<and>
     nt_handshake_hash tI = nt_handshake_hash tR \<and> length m2 = KEY_BYTES + TAG_BYTES + length p2 \<and>
     length m1 = 2 * KEY_BYTES + 2 * TAG_BYTES + length p1 \<and>
     cs_counter (nt_send tI) = 0 \<and> cs_counter (nt_receive tI) = 0"
proof -
  from crypto_agree [OF ok, of ei sr] crypto_agree [OF ok, of si sr]
    crypto_agree [OF ok, of ei er] crypto_agree [OF ok, of si er] lengths
  obtain es ss ee se where dh:
    "c_shared c ei (c_public c sr) = Some es" "c_shared c sr (c_public c ei) = Some es"
    "c_shared c si (c_public c sr) = Some ss" "c_shared c sr (c_public c si) = Some ss"
    "c_shared c ei (c_public c er) = Some ee" "c_shared c er (c_public c ei) = Some ee"
    "c_shared c si (c_public c er) = Some se" "c_shared c er (c_public c si) = Some se"
    by auto
  from I R have start:
    "hs_initiator I" "hs_step I = 0" "hs_static I = localStaticKey c si"
    "hs_remote_static I = Some (c_public c sr)" "hs_supply I = (\<lambda>_. ephemeral_of c ei)"
    "\<not> hs_initiator R" "hs_step R = 0" "hs_static R = localStaticKey c sr"
    "hs_supply R = (\<lambda>_. ephemeral_of c er)" "hs_symmetric R = hs_symmetric I"
    by (auto simp: noise_start_def localStaticKey_def split: if_splits)
  with lengths dh obtain m1 I1 R1
    where 1: "writeMessage c p1 I = (Inr m1, I1)" "readMessage c m1 R = (Inr p1, R1)"
    "hs_symmetric R1 = hs_symmetric I1"
    "I1 = I\<lparr>hs_symmetric := hs_symmetric I1, hs_ephemeral := Some (ephemeral_of c ei),
       hs_drawn := hs_drawn I + 1, hs_step := 1\<rparr>"
    "R1 = R\<lparr>hs_symmetric := hs_symmetric I1, hs_remote_ephemeral := Some (c_public c ei),
       hs_remote_static := Some (c_public c si), hs_step := 1\<rparr>"
    "length m1 = 2 * KEY_BYTES + 2 * TAG_BYTES + length p1"
    using first_message [OF ok, of I si sr ei R es ss p1] by auto
  have I1: "hs_initiator I1" "hs_step I1 = 1" "hs_static I1 = localStaticKey c si"
    "hs_ephemeral I1 = Some (ephemeral_of c ei)"
    using start by (subst 1(4), simp)+
  have R1: "\<not> hs_initiator R1" "hs_step R1 = 1" "hs_remote_ephemeral R1 = Some (c_public c ei)"
    "hs_remote_static R1 = Some (c_public c si)" "hs_supply R1 (hs_drawn R1) = ephemeral_of c er"
    using start by (subst 1(5), simp)+
  from second_message [OF ok I1 R1 1(3) lengths(4) dh(5-8), of p2]
  obtain m2 I2 R2 t where
    "writeMessage c p2 R1 = (Inr m2, R2)" "readMessage c m2 I1 = (Inr p2, I2)"
    "hs_remote_static R2 = hs_remote_static R1"
    "hs_transport I2 = Some \<lparr>nt_send = fst (symmetric_split c t),
       nt_receive = snd (symmetric_split c t), nt_handshake_hash = ss_hash t\<rparr>"
    "hs_transport R2 = Some \<lparr>nt_send = snd (symmetric_split c t),
       nt_receive = fst (symmetric_split c t), nt_handshake_hash = ss_hash t\<rparr>"
    "length m2 = KEY_BYTES + TAG_BYTES + length p2" by metis
  with 1 R1 show ?thesis by (simp add: noise_split_def symmetric_split_def new_cipher_def Let_def)
qed

subsection \<open>Properties\<close>

text \<open>
  C3. A completed IK handshake agrees. Between an initiator that holds the responder's static
  key and that responder, with the same prologue and generated 32-byte keys, the two messages
  go through with whatever payloads they carry; each side reads the payload the other wrote,
  the responder learns the initiator's static key, and both ends finish with the same
  handshake hash and with transport ciphers that face each other: what one sends under, the
  other receives under.
\<close>

theorem noise_ik_agrees:
  assumes ok: "crypto_ok c"
    and lengths: "length si = KEY_BYTES" "length sr = KEY_BYTES"
      "length ei = KEY_BYTES" "length er = KEY_BYTES"
    and I: "noise_start c True (localStaticKey c si) (Some (c_public c sr)) prologue
        (\<lambda>_. ephemeral_of c ei) = Inr I"
    and R: "noise_start c False (localStaticKey c sr) None prologue
        (\<lambda>_. ephemeral_of c er) = Inr R"
  shows "\<exists>m1 I1 R1 m2 R2 I2 tI tR.
     writeMessage c p1 I = (Inr m1, I1) \<and> readMessage c m1 R = (Inr p1, R1) \<and>
     writeMessage c p2 R1 = (Inr m2, R2) \<and> readMessage c m2 I1 = (Inr p2, I2) \<and>
     hs_remote_static R2 = Some (c_public c si) \<and>
     noise_split I2 = Inr tI \<and> noise_split R2 = Inr tR \<and>
     nt_send tI = nt_receive tR \<and> nt_receive tI = nt_send tR \<and>
     nt_handshake_hash tI = nt_handshake_hash tR"
  using ik_agrees [OF assms, of p1 p2] by blast

text \<open>
  A concrete set of primitives with the assumed laws, for the witnesses: the shared secret is
  the bytewise sum of the two keys, a seal is the plaintext with a tag of sixteen zero bytes,
  and opening checks that tag.
\<close>

definition toy_crypto :: crypto where
  "toy_crypto = \<lparr>c_blake2s = (\<lambda>d. take 32 (d @ replicate 32 0)),
     c_hmac = (\<lambda>k d. take 32 (k @ d @ replicate 32 0)),
     c_seal = (\<lambda>k n a p. p @ replicate 16 0),
     c_open = (\<lambda>k n a w. if drop (length w - 16) w = replicate 16 0
                then Some (take (length w - 16) w) else None),
     c_public = (\<lambda>s. s),
     c_shared = (\<lambda>s t. Some (map2 (+) s t))\<rparr>"

lemma map2_add_commute: "map2 (+) s t = map2 (+) t (s :: bytes)"
  by (induction s t rule: list_induct2') (simp_all add: add.commute)

lemma toy_crypto_ok: "crypto_ok toy_crypto"
  by (simp add: crypto_ok_def toy_crypto_def TAG_BYTES_def map2_add_commute)

definition toy_key :: "8 word \<Rightarrow> bytes" where
  "toy_key b = replicate 32 b"

lemma length_toy_key [simp]: "length (toy_key b) = KEY_BYTES"
  by (simp add: toy_key_def KEY_BYTES_def)

theorem noise_ik_agrees_witness:
  "\<exists>I R m1 I1 R1 m2 R2 I2 tI tR.
     noise_start toy_crypto True (localStaticKey toy_crypto (toy_key 1))
       (Some (c_public toy_crypto (toy_key 2))) [] (\<lambda>_. ephemeral_of toy_crypto (toy_key 3)) = Inr I \<and>
     noise_start toy_crypto False (localStaticKey toy_crypto (toy_key 2)) None []
       (\<lambda>_. ephemeral_of toy_crypto (toy_key 4)) = Inr R \<and>
     writeMessage toy_crypto [] I = (Inr m1, I1) \<and> readMessage toy_crypto m1 R = (Inr [], R1) \<and>
     writeMessage toy_crypto [] R1 = (Inr m2, R2) \<and> readMessage toy_crypto m2 I1 = (Inr [], I2) \<and>
     noise_split I2 = Inr tI \<and> noise_split R2 = Inr tR \<and> nt_send tI = nt_receive tR"
proof -
  obtain I where I: "noise_start toy_crypto True (localStaticKey toy_crypto (toy_key 1))
      (Some (c_public toy_crypto (toy_key 2))) []
      (\<lambda>_. ephemeral_of toy_crypto (toy_key 3)) = Inr I"
    using toy_crypto_ok by (simp add: noise_start_def)
  obtain R where R: "noise_start toy_crypto False (localStaticKey toy_crypto (toy_key 2)) None []
      (\<lambda>_. ephemeral_of toy_crypto (toy_key 4)) = Inr R"
    by (simp add: noise_start_def)
  from noise_ik_agrees [OF toy_crypto_ok _ _ _ _ I R, of "[]" "[]"] I R show ?thesis by auto
qed

text \<open>
  C22. The transport is lossless and keeps in step through noise. If the receiver's cipher
  equals the sender's and the counter has room, then sealing any messages and opening what
  arrives, with frames mixed in anywhere that the primitive does not open under the key and the
  next number, gives exactly the messages in order and leaves both ends with the same counter.
\<close>

theorem transport_survives_forgeries:
  assumes "crypto_ok c" and "cs_key s = Some key" and "cs_counter s + length ps \<le> RESERVED_NONCE"
  shows "\<exists>ws t. encrypt_all c ps s = (Inr ws, t) \<and> cs_counter t = cs_counter s + length ps \<and>
    (\<forall>arrived. interferes c key (cs_counter s) ws arrived \<longrightarrow> decrypt_each c arrived s = (ps, t))"
proof -
  from encrypt_all_fits [OF assms(3)] assms(2) obtain ws t where ws: "encrypt_all c ps s = (Inr ws, t)" "cs_counter t = cs_counter s + length ps"
    by fastforce
  with decrypt_each_interferes [OF _ assms(1,2) refl ws(1)] show ?thesis by blast
qed

theorem transport_survives_forgeries_witness:
  "\<exists>w v t. encrypt_all toy_crypto [[1, 2], []] (new_cipher (Some [7])) = (Inr [w, v], t) \<and>
    decrypt_each toy_crypto [[9], w, [8, 8], v, [9]] (new_cipher (Some [7])) = ([[1, 2], []], t) \<and> cs_counter t = 2"
proof -
  let ?s = "new_cipher (Some [7])"
  have forged: "c_open toy_crypto k n a [b] = None" "c_open toy_crypto k n a [b, d] = None" for k n a b d
    by (simp_all add: toy_crypto_def numeral_eq_Suc)
  from transport_survives_forgeries [OF toy_crypto_ok, of ?s "[7]" "[[1, 2], []]"] obtain ws t where
    ws: "encrypt_all toy_crypto [[1, 2], []] ?s = (Inr ws, t)" "cs_counter t = 2"
      "\<forall>arrived. interferes toy_crypto [7] 0 ws arrived \<longrightarrow> decrypt_each toy_crypto arrived ?s = ([[1, 2], []], t)"
    by (auto simp: new_cipher_def RESERVED_NONCE_def)
  have "length vs = length ps" if "encrypt_all c ps s = (Inr vs, u)" for c ps s vs u
    using that by (induction ps arbitrary: s vs) (auto simp: method_defs split: prod.splits sum.splits)
  from this [OF ws(1)] obtain w v where wv: "ws = [w, v]" by (auto simp: length_Suc_conv numeral_2_eq_2)
  have "interferes toy_crypto [7] 0 [w, v] [[9], w, [8, 8], v, [9]]"
    by (intro interferes.intros forged)
  with ws wv show ?thesis by blast
qed

text \<open>
  C23. No nonce is used twice under a key, and the reserved one never. Whatever is sealed, with
  whatever associated data, the nonces given to the primitive are pairwise distinct and none is the
  reserved one: as many calls as the counter has room for seal each under a nonce of its own,
  whichever primitive it is, and every further call is refused.
\<close>

theorem nonces_never_repeat:
  assumes "cs_key s = Some key" and "cs_counter s \<le> RESERVED_NONCE"
  shows "\<exists>ns. distinct ns \<and> nonceBytes RESERVED_NONCE \<notin> set ns \<and> length ns = min (length aps) (RESERVED_NONCE - cs_counter s) \<and>
    (\<forall>c. encrypt_each c aps s =
      map (\<lambda>((a, p), n). Inr (c_seal c key n a p)) (zip aps ns) @ replicate (length aps - length ns) (Inl NonceExhausted))"
proof -
  define ns where "ns = map nonceBytes [cs_counter s..<min (cs_counter s + length aps) RESERVED_NONCE]"
  have "length ns = min (length aps) (RESERVED_NONCE - cs_counter s)" using assms(2) by (auto simp: ns_def)
  with nonces_distinct [of "min (cs_counter s + length aps) RESERVED_NONCE" "cs_counter s"] encrypt_each_sealed [OF assms, of _ aps]
  show ?thesis by (intro exI [of _ ns]) (simp add: ns_def Let_def)
qed

text \<open>The witness stands one message short of the reserved nonce: it seals that and no more.\<close>

theorem nonces_never_repeat_witness:
  "\<exists>n. n \<noteq> nonceBytes RESERVED_NONCE \<and> encrypt_each (toy_crypto\<lparr>c_seal := \<lambda>k n a p. n\<rparr>) [([], [1]), ([], [2])]
      \<lparr>cs_key = Some [7], cs_counter = RESERVED_NONCE - 1\<rparr> = [Inr n, Inl NonceExhausted]"
proof -
  let ?s = "\<lparr>cs_key = Some [7], cs_counter = RESERVED_NONCE - 1\<rparr>" let ?aps = "[([], [1]), ([], [2])] :: (bytes \<times> bytes) list"
  from nonces_never_repeat [of ?s "[7]" ?aps] obtain ns where
    ns: "nonceBytes RESERVED_NONCE \<notin> set ns" "length ns = 1" "\<forall>c. encrypt_each c ?aps ?s =
      map (\<lambda>((a, p), n). Inr (c_seal c [7] n a p)) (zip ?aps ns) @ replicate (2 - length ns) (Inl NonceExhausted)"
    by (auto simp: RESERVED_NONCE_def)
  then obtain n where "ns = [n]" by (cases ns) auto
  with ns(1) ns(3) [rule_format, of "toy_crypto\<lparr>c_seal := \<lambda>k n a p. n\<rparr>"] show ?thesis by (intro exI [of _ n]) auto
qed

text \<open>
  The two handshake messages go in turn, and nothing is handed out early. A message is
  written only in a step that is this end's, and read only in a step that is the other's;
  either way the step advances by one. Out of turn, or with both messages through, the call
  throws and the handshake is unchanged. A started handshake hands out no transport.
\<close>

lemma mixDh_step: "mixDh c t h = (r, k) \<Longrightarrow> hs_step k = hs_step h"
  by (cases t) (auto simp: mixDh.simps mix_secret_def throw_def split: option.splits if_splits)

lemma on_symmetric_step: "on_symmetric m h = (r, k) \<Longrightarrow> hs_step k = hs_step h"
  by (auto simp: on_symmetric_def split: prod.splits)

lemma write_tokens_step: "write_tokens c ts h = (r, k) \<Longrightarrow> hs_step k = hs_step h"
proof (induction ts arbitrary: h r)
  case (Cons t ts)
  have "write_token c t h = (q, l) \<Longrightarrow> hs_step l = hs_step h" for q l
    by (cases t) (auto simp: write_token_def method_defs Let_def
        dest: mixDh_step on_symmetric_step split: sum.splits prod.splits)
  with Cons show ?case
    by (fastforce simp: method_defs split: sum.splits prod.splits)
qed (simp add: method_defs)

lemma read_tokens_step: "read_tokens c ts m h = (r, k) \<Longrightarrow> hs_step k = hs_step h"
proof (induction ts arbitrary: h r m)
  case (Cons t ts)
  have "read_token c t m h = (q, l) \<Longrightarrow> hs_step l = hs_step h" for q l
    by (cases t) (auto simp: read_token_def method_defs Let_def
        dest: mixDh_step on_symmetric_step split: sum.splits prod.splits if_splits)
  with Cons show ?case
    by (fastforce simp: method_defs split: sum.splits prod.splits)
qed (simp add: method_defs)

lemma next_step_step [simp]: "hs_step (next_step c h) = Suc (hs_step h)"
  by (simp add: next_step_def maybeSplit_def case_prod_beta Let_def)

lemma writeMessage_turn:
  assumes "writeMessage c p h = (r, k)"
  shows "case r of
      Inl e \<Rightarrow> (2 \<le> hs_step h \<longrightarrow> e = NoMoreToWrite) \<and> hs_step k = hs_step h \<and>
        (2 \<le> hs_step h \<or> even (hs_step h) \<noteq> hs_initiator h \<longrightarrow> k = h)
    | Inr m \<Rightarrow> hs_step h < 2 \<and> even (hs_step h) = hs_initiator h \<and>
        hs_step k = Suc (hs_step h)"
proof (cases "2 \<le> hs_step h \<or> even (hs_step h) \<noteq> hs_initiator h")
  case True
  with assms show ?thesis
    by (auto simp: writeMessage_def MESSAGES_def throw_def even_iff_mod_2_eq_zero split: if_splits)
next
  case False
  then have "writeMessage c p h = and_then (write_tokens c (MESSAGES ! hs_step h))
      (\<lambda>parts. and_then (on_symmetric (encryptAndHash c p))
        (\<lambda>sealed k. (Inr (parts @ sealed), next_step c k))) h"
    by (auto simp: writeMessage_def MESSAGES_def not_le less_2_cases_iff)
  with False assms show ?thesis
    by (auto simp: and_then_def split: sum.splits prod.splits
        dest!: write_tokens_step on_symmetric_step)
qed

lemma readMessage_turn:
  assumes "readMessage c w h = (r, k)"
  shows "case r of
      Inl e \<Rightarrow> (2 \<le> hs_step h \<longrightarrow> e = NoMoreToRead) \<and> hs_step k = hs_step h \<and>
        (2 \<le> hs_step h \<or> even (hs_step h) = hs_initiator h \<longrightarrow> k = h)
    | Inr m \<Rightarrow> hs_step h < 2 \<and> even (hs_step h) \<noteq> hs_initiator h \<and>
        hs_step k = Suc (hs_step h)"
proof (cases "2 \<le> hs_step h \<or> even (hs_step h) = hs_initiator h")
  case True
  with assms show ?thesis
    by (auto simp: readMessage_def MESSAGES_def throw_def even_iff_mod_2_eq_zero split: if_splits)
next
  case False
  then have "readMessage c w h = and_then (read_tokens c (MESSAGES ! hs_step h) w)
      (\<lambda>rest. and_then (on_symmetric (decryptAndHash c rest))
        (\<lambda>payload k. (Inr payload, next_step c k))) h"
    by (auto simp: readMessage_def MESSAGES_def not_le less_2_cases_iff)
  with False assms show ?thesis
    by (auto simp: and_then_def split: sum.splits prod.splits
        dest!: read_tokens_step on_symmetric_step)
qed

theorem handshake_turns:
  "(case writeMessage c p h of
      (Inl e, k) \<Rightarrow> (2 \<le> hs_step h \<longrightarrow> e = NoMoreToWrite) \<and> hs_step k = hs_step h \<and>
        (2 \<le> hs_step h \<or> even (hs_step h) \<noteq> hs_initiator h \<longrightarrow> k = h)
    | (Inr m, k) \<Rightarrow> hs_step h < 2 \<and> even (hs_step h) = hs_initiator h \<and>
        hs_step k = Suc (hs_step h)) \<and>
   (case readMessage c w h of
      (Inl e, k) \<Rightarrow> (2 \<le> hs_step h \<longrightarrow> e = NoMoreToRead) \<and> hs_step k = hs_step h \<and>
        (2 \<le> hs_step h \<or> even (hs_step h) = hs_initiator h \<longrightarrow> k = h)
    | (Inr m, k) \<Rightarrow> hs_step h < 2 \<and> even (hs_step h) \<noteq> hs_initiator h \<and>
        hs_step k = Suc (hs_step h))"
  using writeMessage_turn [of c p h] readMessage_turn [of c w h]
  by (auto split: prod.splits)

theorem handshake_turns_witness:
  "case noise_start toy_crypto False (localStaticKey toy_crypto (toy_key 2)) None []
      (\<lambda>_. ephemeral_of toy_crypto (toy_key 4)) of
     Inl e \<Rightarrow> False
   | Inr h \<Rightarrow> writeMessage toy_crypto [] h = (Inl OtherEndsTurn, h) \<and>
       snd (writeMessage toy_crypto [] h) = h"
proof -
  obtain h where h: "noise_start toy_crypto False (localStaticKey toy_crypto (toy_key 2)) None []
      (\<lambda>_. ephemeral_of toy_crypto (toy_key 4)) = Inr h"
    and turn: "hs_step h = 0" "\<not> hs_initiator h"
    by (simp add: noise_start_def)
  then obtain e k where wrote: "writeMessage toy_crypto [] h = (Inl e, k)" "e = OtherEndsTurn"
    by (simp add: writeMessage_def MESSAGES_def throw_def)
  with handshake_turns [where c = toy_crypto and p = "[]" and h = h and w = "[]"] turn have "k = h" by simp
  with h wrote show ?thesis by simp
qed

end
