(* ===== verification/Events.thy ===== *)
theory Events
  imports JsText
begin

text \<open>
  The event vocabulary of \<open>src/src/events.ts\<close> and the size accounting that bounds
  what one event may cost: \<open>estimateBytes\<close>, \<open>clip\<close>, \<open>clampBlob\<close> and
  \<open>truncateEvent\<close>.

  Each interface is a record with its fields prefixed by a short name of the interface,
  the union \<open>SessionEvent\<close> is a datatype with one constructor per member. Types
  that the source takes from the ACP package (kinds, statuses, stop reasons) are strings,
  as they are on the wire; a value of type \<open>unknown\<close> is the JSON value it was parsed
  from, with \<open>JNull\<close> for both \<open>null\<close> and \<open>undefined\<close>. The identity memo of
  \<open>jsonSize\<close> and \<open>jsonBytes\<close> caches a pure function of an immutable value and
  is left out, and so is the branch for values that do not serialise, which no parsed
  JSON value takes.
\<close>

subsection \<open>The vocabulary\<close>

record file_location =
  loc_path :: ustring
  loc_line :: "int option"

record permission_option =
  po_optionId :: ustring
  po_name :: ustring
  po_kind :: ustring

record elicitation_option =
  eo_value :: ustring
  eo_label :: ustring
  eo_description :: "ustring option"

datatype elicitation_kind = EK_string | EK_number | EK_integer | EK_boolean | EK_multi_select

record elicitation_field =
  ef_key :: ustring
  ef_kind :: elicitation_kind
  ef_title :: "ustring option"
  ef_description :: "ustring option"
  ef_required :: bool
  ef_options :: "elicitation_option list option"
  ef_min :: json
  ef_max :: json
  ef_format :: "ustring option"
  ef_default :: json
  ef_alternativeTo :: "ustring option"

record elicitation_answer =
  ea_key :: ustring
  ea_label :: ustring
  ea_value :: ustring

record agent_mode =
  am_id :: ustring
  am_name :: ustring
  am_description :: "ustring option"

record agent_modes =
  modes_current :: ustring
  modes_available :: "agent_mode list"

record session_started_event =
  ss_agent :: ustring
  ss_sessionId :: ustring
  ss_agentInfo :: "(ustring \<times> ustring) option"
  ss_modes :: "agent_modes option"

record agent_config_choice =
  cc_value :: ustring
  cc_name :: ustring
  cc_description :: "ustring option"
  cc_group :: "ustring option"

datatype config_kind = CK_select | CK_boolean

datatype config_value = CV_text ustring | CV_bool bool

record agent_config_option =
  co_id :: ustring
  co_name :: ustring
  co_description :: "ustring option"
  co_category :: "ustring option"
  co_kind :: config_kind
  co_value :: config_value
  co_choices :: "agent_config_choice list"
  co_truncated :: bool

record agent_config_event =
  ac_modes :: "agent_modes option"
  ac_options :: "agent_config_option list"

record text_event =
  te_role :: ustring
  te_thought :: bool
  te_text :: ustring
  te_messageId :: "ustring option"

record tool_call_event =
  tc_toolCallId :: ustring
  tc_title :: ustring
  tc_kind :: ustring
  tc_status :: ustring
  tc_locations :: "file_location list"
  tc_rawInput :: json
  tc_parentToolCallId :: "ustring option"
  tc_subagent :: bool

record stored_file_ref =
  sf_uploadId :: ustring
  sf_name :: ustring
  sf_mime :: "ustring option"
  sf_bytes :: int

record prompt_attachment_ref = stored_file_ref +
  pa_inlined :: bool

record tool_call_update_event =
  tu_toolCallId :: ustring
  tu_title :: "ustring option"
  tu_status :: "ustring option"
  tu_locations :: "file_location list"
  tu_rawInput :: json
  tu_images :: "stored_file_ref list option"
  tu_content :: "ustring list option"
  tu_parentToolCallId :: "ustring option"
  tu_backgrounded :: bool

datatype change_source = Src_diff | Src_fs_write

record file_change_event =
  fc_path :: ustring
  fc_oldText :: "ustring option"
  fc_newText :: ustring
  fc_source :: change_source
  fc_toolCallId :: "ustring option"

record permission_request_event =
  pr_permissionId :: "ustring option"
  pr_toolCallId :: "ustring option"
  pr_title :: ustring
  pr_options :: "permission_option list"
  pr_decision :: "ustring option"

datatype answer_resolved_by =
    By_client | By_agent_withdrew | By_agent_gone | By_session_stopped | By_turn_ended
  | By_pump_failed | By_no_turn | By_turn_cancelled

datatype permission_outcome = Po_selected | Po_cancelled

record permission_resolved_event =
  pd_permissionId :: ustring
  pd_toolCallId :: "ustring option"
  pd_title :: ustring
  pd_outcome :: permission_outcome
  pd_optionId :: "ustring option"
  pd_by :: answer_resolved_by

record elicitation_request_event =
  er_elicitationId :: ustring
  er_toolCallId :: "ustring option"
  er_message :: ustring

datatype elicitation_action = Ea_accept | Ea_decline | Ea_cancel

record elicitation_resolved_event =
  ed_elicitationId :: ustring
  ed_toolCallId :: "ustring option"
  ed_message :: ustring
  ed_action :: elicitation_action
  ed_answers :: "elicitation_answer list option"
  ed_by :: answer_resolved_by

record plan_entry =
  pe_content :: ustring
  pe_priority :: ustring
  pe_status :: ustring

record plan_event =
  pl_entries :: "plan_entry list"

record prompt_event =
  pm_text :: ustring
  pm_attachments :: "prompt_attachment_ref list option"

record workspace_warning =
  ww_code :: ustring
  ww_message :: ustring

record workspace_event =
  ws_mode :: ustring
  ws_root :: ustring
  ws_requestedCwd :: ustring
  ws_branch :: "ustring option"
  ws_baseCommit :: "ustring option"
  ws_plainReason :: "ustring option"
  ws_warnings :: "workspace_warning list"

datatype session_status =
    Starting | Idle | Running | Blocked | Stopping | Exited | Failed | Interrupted | Parked

datatype exit_reason =
    Ex_stopped | Ex_agent_exited | Ex_start_failed | Ex_start_timeout | Ex_daemon_shutdown
  | Ex_agent_kill_failed | Ex_daemon_restarted | Ex_config_changed | Ex_agent_signed_out
  | Ex_parked

text \<open>How to signal an agent, and how to recognise it after a restart.\<close>

datatype agent_handle =
    Handle_local int
  | Handle_container ustring int int

record session_exit =
  se_reason :: exit_reason
  se_detail :: "ustring option"
  se_at :: int
  se_agentHandle :: "agent_handle option"
  se_agentConfirmedDead :: bool

record status_event =
  st_status :: session_status
  st_exit :: "session_exit option"

record turn_end_event =
  tn_stopReason :: ustring
  tn_usage :: json

record context_cleared_event =
  xc_agentSessionId :: ustring
  xc_previousAgentSessionId :: ustring

record agent_log_event =
  al_line :: ustring

record other_update_event =
  ou_sessionUpdate :: ustring
  ou_raw :: json

record error_event =
  er_text :: ustring
  er_data :: json

datatype session_event =
    SessionStarted session_started_event
  | AgentConfigChanged agent_config_event
  | TextEv text_event
  | ToolCall tool_call_event
  | ToolCallUpdate tool_call_update_event
  | FileChange file_change_event
  | PermissionRequest permission_request_event
  | PermissionResolved permission_resolved_event
  | ElicitationRequest elicitation_request_event
  | ElicitationResolved elicitation_resolved_event
  | PlanEv plan_event
  | PromptEv prompt_event
  | StatusEv status_event
  | WorkspaceEv workspace_event
  | TurnEnd turn_end_event
  | AgentLog agent_log_event
  | ContextCleared context_cleared_event
  | OtherUpdate other_update_event
  | ErrorEv error_event

subsection \<open>How a session ended\<close>

definition DAEMON_EXIT_REASONS :: "exit_reason list" where
  "DAEMON_EXIT_REASONS = [Ex_daemon_restarted, Ex_daemon_shutdown, Ex_config_changed]"

text \<open>\<open>isAuthFailure\<close>: an error event whose data carries the agent's own marker.\<close>

definition isAuthFailure :: "session_event \<Rightarrow> bool" where
  "isAuthFailure event =
     (case event of
        ErrorEv e \<Rightarrow>
          (case field_of (er_data e) (asc ''data'') of
             Some inner \<Rightarrow> field_of inner (asc ''errorKind'') = Some (JStr (asc ''authentication_failed''))
           | None \<Rightarrow> False)
      | _ \<Rightarrow> False)"

definition endedWithDaemon :: "session_exit option \<Rightarrow> bool" where
  "endedWithDaemon exit =
     (case exit of None \<Rightarrow> False | Some x \<Rightarrow> se_reason x \<in> set DAEMON_EXIT_REASONS)"

definition keepsItsConversation :: "session_exit option \<Rightarrow> bool" where
  "keepsItsConversation exit =
     (case exit of None \<Rightarrow> False
      | Some x \<Rightarrow> endedWithDaemon (Some x) \<or> se_reason x = Ex_parked)"

subsection \<open>Size accounting\<close>

definition TRUNCATION_NOTE_BYTES :: nat where
  "TRUNCATION_NOTE_BYTES = 32"

definition opt_length :: "ustring option \<Rightarrow> nat" where
  "opt_length s = (case s of None \<Rightarrow> 0 | Some t \<Rightarrow> length t)"

definition idSize :: "ustring option \<Rightarrow> nat" where
  "idSize i = (case i of None \<Rightarrow> 0 | Some t \<Rightarrow> length t)"

definition refBytes :: "'a stored_file_ref_scheme list option \<Rightarrow> nat" where
  "refBytes refs =
     (case refs of None \<Rightarrow> 0
      | Some rs \<Rightarrow> sum_list (map (\<lambda>r. 96 + length (sf_uploadId r) + length (sf_name r)
          + opt_length (sf_mime r)) rs))"

definition attachmentBytes :: "prompt_attachment_ref list option \<Rightarrow> nat" where
  "attachmentBytes = refBytes"

definition jsonSize :: "json \<Rightarrow> nat" where
  "jsonSize v = (if v = JNull then 0 else length (stringify v))"

definition jsonBytes :: "json \<Rightarrow> nat" where
  "jsonBytes v = (if v = JNull then 0 else utf8_bytes (stringify v))"

definition optionBytes :: "permission_option list \<Rightarrow> nat" where
  "optionBytes opts = sum_list (map (\<lambda>p. length (po_optionId p) + length (po_name p) + 32) opts)"

definition locationBytes :: "file_location list \<Rightarrow> nat" where
  "locationBytes ls = sum_list (map (\<lambda>l. length (loc_path l) + 24) ls)"

definition modesBytes :: "agent_modes option \<Rightarrow> nat" where
  "modesBytes m =
     (case m of None \<Rightarrow> 0
      | Some ms \<Rightarrow> length (modes_current ms)
          + sum_list (map (\<lambda>a. length (am_id a) + length (am_name a) + 32) (modes_available ms)))"

definition choiceBytes :: "agent_config_choice \<Rightarrow> nat" where
  "choiceBytes c = length (cc_value c) + length (cc_name c) + opt_length (cc_description c) + 32"

definition configOptionBytes :: "agent_config_option \<Rightarrow> nat" where
  "configOptionBytes p = length (co_id p) + length (co_name p) + opt_length (co_description p) + 64
     + sum_list (map choiceBytes (co_choices p))"

fun estimateBytes :: "session_event \<Rightarrow> nat" where
  "estimateBytes (TextEv e) = 64 + length (te_text e) + opt_length (te_messageId e)"
| "estimateBytes (PromptEv e) = 64 + length (pm_text e) + attachmentBytes (pm_attachments e)"
| "estimateBytes (AgentLog e) = 64 + length (al_line e)"
| "estimateBytes (ContextCleared e) =
     64 + length (xc_agentSessionId e) + length (xc_previousAgentSessionId e)"
| "estimateBytes (FileChange e) =
     128 + length (fc_path e) + length (fc_newText e) + opt_length (fc_oldText e)"
| "estimateBytes (ToolCall e) =
     256 + length (tc_title e) + jsonSize (tc_rawInput e) + locationBytes (tc_locations e)
       + idSize (Some (tc_toolCallId e)) + idSize (tc_parentToolCallId e)"
| "estimateBytes (ToolCallUpdate e) =
     192 + opt_length (tu_title e) + jsonSize (tu_rawInput e)
       + (case tu_content e of None \<Rightarrow> 0 | Some bs \<Rightarrow> sum_list (map (\<lambda>b. length b + 8) bs))
       + refBytes (tu_images e) + locationBytes (tu_locations e)
       + idSize (Some (tu_toolCallId e)) + idSize (tu_parentToolCallId e)"
| "estimateBytes (OtherUpdate e) = 128 + length (ou_sessionUpdate e) + jsonSize (ou_raw e)"
| "estimateBytes (ErrorEv e) = 256 + length (er_text e) + jsonSize (er_data e)"
| "estimateBytes (PlanEv e) =
     128 + sum_list (map (\<lambda>p. length (pe_content p) + 32) (pl_entries e))"
| "estimateBytes (PermissionRequest e) = 256 + length (pr_title e) + optionBytes (pr_options e)"
| "estimateBytes (PermissionResolved e) = 256 + length (pd_title e)"
| "estimateBytes (ElicitationRequest e) = 256 + length (er_message e)"
| "estimateBytes (ElicitationResolved e) =
     256 + length (ed_message e)
       + (case ed_answers e of None \<Rightarrow> 0
          | Some xs \<Rightarrow> sum_list (map (\<lambda>a. length (ea_key a) + length (ea_label a)
              + length (ea_value a) + 32) xs))"
| "estimateBytes (WorkspaceEv e) =
     256 + length (ws_root e) + length (ws_requestedCwd e)
       + sum_list (map (\<lambda>w. length (ww_message w) + 32) (ws_warnings e))"
| "estimateBytes (AgentConfigChanged e) =
     128 + modesBytes (ac_modes e) + sum_list (map configOptionBytes (ac_options e))"
| "estimateBytes (SessionStarted e) = 192"
| "estimateBytes (StatusEv e) = 192"
| "estimateBytes (TurnEnd e) = 192"

subsection \<open>Cutting\<close>

text \<open>The visible note: \<open>`\<dots>[truncated ${n} bytes]`\<close>.\<close>

definition truncation_note :: "nat \<Rightarrow> ustring" where
  "truncation_note n = [0x2026] @ asc ''[truncated '' @ decimal n @ asc '' bytes]''"

definition ends_high :: "ustring \<Rightarrow> nat \<Rightarrow> bool" where
  "ends_high s kept = (0 < kept \<and> high_surrogate (s ! (kept - 1)))"

definition clip :: "ustring \<Rightarrow> nat \<Rightarrow> ustring" where
  "clip v budget =
     (if length v \<le> budget then v
      else
        let kept = budget - TRUNCATION_NOTE_BYTES;
            kept = (if ends_high v kept then kept - 1 else kept)
        in utf8_round_trip (take kept v) @ truncation_note (length v - kept))"

definition shrink :: "json \<Rightarrow> json" where
  "shrink v = JObj [(asc ''truncated'', JBool True),
     (asc ''bytes'', JNum (Some (of_nat (jsonSize v))) (decimal (jsonSize v)))]"

definition clampBlob :: "json \<Rightarrow> nat \<Rightarrow> json" where
  "clampBlob v maxBytes =
     (if v = JNull then JNull else if jsonSize v \<le> maxBytes then v else shrink v)"

definition cutLocations :: "file_location list \<Rightarrow> file_location list" where
  "cutLocations ls = map (\<lambda>l. l\<lparr>loc_path := clip (loc_path l) 256\<rparr>) (take 32 ls)"

text \<open>The share of the budget one of \<open>n\<close> rows gets.\<close>

definition row_budget :: "nat \<Rightarrow> nat \<Rightarrow> nat" where
  "row_budget maxBytes n = max (maxBytes div max n 1 - 32) 64"

definition plain_option :: "agent_config_option \<Rightarrow> agent_config_option" where
  "plain_option p = p\<lparr>co_description := None,
     co_choices := map (\<lambda>c. c\<lparr>cc_description := None\<rparr>) (co_choices p)\<rparr>"

definition plain_modes :: "agent_modes \<Rightarrow> agent_modes" where
  "plain_modes ms = ms\<lparr>modes_available := map (\<lambda>a. a\<lparr>am_description := None\<rparr>) (modes_available ms)\<rparr>"

fun cut_event :: "session_event \<Rightarrow> nat \<Rightarrow> session_event" where
  "cut_event (TextEv e) m = TextEv (e\<lparr>te_text := clip (te_text e) m\<rparr>)"
| "cut_event (PromptEv e) m =
     PromptEv (e\<lparr>pm_text := clip (pm_text e) (max (m - attachmentBytes (pm_attachments e) - 64) 512)\<rparr>)"
| "cut_event (AgentLog e) m = AgentLog (e\<lparr>al_line := clip (al_line e) m\<rparr>)"
| "cut_event (ElicitationRequest e) m = ElicitationRequest e"
| "cut_event (ElicitationResolved e) m = ElicitationResolved e"
| "cut_event (FileChange e) m =
     FileChange (e\<lparr>fc_oldText := map_option (\<lambda>t. clip t (m div 2)) (fc_oldText e),
       fc_newText := clip (fc_newText e) (m div 2)\<rparr>)"
| "cut_event (ToolCall e) m =
     ToolCall (e\<lparr>tc_title := clip (tc_title e) m, tc_rawInput := shrink (tc_rawInput e),
       tc_locations := cutLocations (tc_locations e)\<rparr>)"
| "cut_event (ToolCallUpdate e) m =
     (let blocks = (case tu_content e of None \<Rightarrow> 0 | Some bs \<Rightarrow> length bs)
      in ToolCallUpdate (e\<lparr>tu_rawInput := shrink (tu_rawInput e),
           tu_content := map_option (map (\<lambda>b. clip b (row_budget m blocks))) (tu_content e),
           tu_locations := cutLocations (tu_locations e)\<rparr>))"
| "cut_event (OtherUpdate e) m = OtherUpdate (e\<lparr>ou_raw := shrink (ou_raw e)\<rparr>)"
| "cut_event (ErrorEv e) m =
     ErrorEv (e\<lparr>er_text := clip (er_text e) m, er_data := shrink (er_data e)\<rparr>)"
| "cut_event (PlanEv e) m =
     PlanEv (e\<lparr>pl_entries := map (\<lambda>p. p\<lparr>pe_content :=
       clip (pe_content p) (row_budget m (length (pl_entries e)))\<rparr>) (pl_entries e)\<rparr>)"
| "cut_event (WorkspaceEv e) m =
     WorkspaceEv (e\<lparr>ws_warnings := map (\<lambda>w. w\<lparr>ww_message :=
       clip (ww_message w) (row_budget m (length (ws_warnings e)))\<rparr>) (ws_warnings e)\<rparr>)"
| "cut_event (AgentConfigChanged e) m =
     AgentConfigChanged (e\<lparr>ac_options := map plain_option (ac_options e),
       ac_modes := map_option plain_modes (ac_modes e)\<rparr>)"
| "cut_event (PermissionRequest e) m = PermissionRequest (e\<lparr>pr_title := clip (pr_title e) m\<rparr>)"
| "cut_event (PermissionResolved e) m = PermissionResolved (e\<lparr>pd_title := clip (pd_title e) m\<rparr>)"
| "cut_event (ContextCleared e) m = ContextCleared e"
| "cut_event (SessionStarted e) m = SessionStarted e"
| "cut_event (StatusEv e) m = StatusEv e"
| "cut_event (TurnEnd e) m = TurnEnd e"

definition truncateEvent :: "session_event \<Rightarrow> nat \<Rightarrow> session_event" where
  "truncateEvent event maxBytes =
     (if estimateBytes event \<le> maxBytes then event else cut_event event maxBytes)"

subsection \<open>What a cut string is\<close>

lemma length_truncation_note:
  "n < 10 ^ 13 \<Longrightarrow> length (truncation_note n) \<le> TRUNCATION_NOTE_BYTES"
  using length_decimal [of 13 n] by (simp add: truncation_note_def TRUNCATION_NOTE_BYTES_def)

lemma well_formed_note: "well_formed (truncation_note n)"
proof (rule well_formed_plain, intro ballI)
  fix c assume "c \<in> set (truncation_note n)"
  then have "c = 0x2026 \<or> c < 128"
    using decimal_digits [of c n]
    by (auto simp: truncation_note_def asc_def of_char_def)
  then show "\<not> high_surrogate c \<and> \<not> low_surrogate c"
    by (auto simp: high_surrogate_def low_surrogate_def)
qed

lemma clip_short [simp]: "length v \<le> budget \<Longrightarrow> clip v budget = v"
  by (simp add: clip_def)

lemma clip_long:
  assumes "budget < length v"
  obtains kept where "clip v budget = utf8_round_trip (take kept v) @ truncation_note (length v - kept)"
    and "kept \<le> budget - TRUNCATION_NOTE_BYTES" and "budget - TRUNCATION_NOTE_BYTES \<le> Suc kept"
    and "well_formed v \<Longrightarrow> \<not> ends_high v kept"
proof -
  let ?room = "budget - TRUNCATION_NOTE_BYTES"
  let ?kept = "if ends_high v ?room then ?room - 1 else ?room"
  have "\<not> ends_high v ?kept" if "well_formed v"
  proof
    assume high: "ends_high v ?kept"
    then have cut: "ends_high v ?room" by (auto split: if_splits)
    with high assms have "1 < ?room" "high_surrogate (v ! (?room - 2))" "?room - 2 < length v"
      by (auto simp: ends_high_def numeral_2_eq_2)
    with well_formed_high [OF that, of "?room - 2"] have "low_surrogate (v ! (?room - 1))"
      by (auto simp: Suc_diff_Suc numeral_2_eq_2)
    with cut show False by (simp add: ends_high_def)
  qed
  then show thesis
    using assms by (intro that [of ?kept]) (auto simp: clip_def Let_def ends_high_def)
qed

lemma length_clip: "length v < 10 ^ 13 \<Longrightarrow> length (clip v budget) \<le> max budget TRUNCATION_NOTE_BYTES"
proof (cases "length v \<le> budget")
  case False
  assume small: "length v < 10 ^ 13"
  from False obtain kept where
    clip: "clip v budget = utf8_round_trip (take kept v) @ truncation_note (length v - kept)"
    and kept: "kept \<le> budget - TRUNCATION_NOTE_BYTES"
    by (rule clip_long [OF not_le_imp_less])
  have "length (truncation_note (length v - kept)) \<le> TRUNCATION_NOTE_BYTES"
    using small by (intro length_truncation_note) auto
  moreover have "length (clip v budget) \<le> kept + length (truncation_note (length v - kept))"
    by (simp add: clip)
  ultimately show ?thesis using kept by linarith
qed auto

lemma length_clip_le: "length v < 10 ^ 13 \<Longrightarrow> 32 \<le> budget \<Longrightarrow> length (clip v budget) \<le> budget"
  using length_clip [of v budget] by (simp add: TRUNCATION_NOTE_BYTES_def)

lemma length_quoted_labels:
  "length (json_quote (asc ''truncated'')) = 11" "length (json_quote (asc ''bytes'')) = 7"
  by (simp_all add: json_quote_def asc_def escape_unit_def high_surrogate_def low_surrogate_def)

lemma jsonSize_shrink: "jsonSize v < 10 ^ 13 \<Longrightarrow> jsonSize (shrink v) \<le> 40"
proof -
  assume "jsonSize v < 10 ^ 13"
  then have "length (decimal (jsonSize v)) \<le> 13" by (intro length_decimal) auto
  moreover have "jsonSize (shrink v) = length (stringify (shrink v))"
    unfolding jsonSize_def [of "shrink v"] by (simp only: shrink_def json.distinct if_False)
  ultimately show ?thesis
    by (simp only: shrink_def stringify.simps list.map join.simps length_append prod.case
        length_quoted_labels if_True length_asc list.size)
qed

lemma locationBytes_cut:
  assumes "\<forall>l\<in>set ls. length (loc_path l) < 10 ^ 13"
  shows "locationBytes (cutLocations ls) \<le> 32 * 280"
proof -
  have "locationBytes (cutLocations ls) \<le> sum_list (map (\<lambda>l. 280) (take 32 ls))"
    unfolding locationBytes_def cutLocations_def map_map
    using assms by (intro sum_list_mono) (auto simp: length_clip_le dest!: in_set_takeD)
  then show ?thesis by (simp add: sum_list_triv)
qed

text \<open>\<open>n\<close> rows cut to the shared budget cost the budget, or the floor each row has.\<close>

lemma rows_bounded:
  assumes "\<forall>r\<in>set rows. f r \<le> row_budget m (length rows) + 32"
  shows "sum_list (map f rows) \<le> m + 96 * length rows"
proof -
  have "sum_list (map f rows) \<le> sum_list (map (\<lambda>r. row_budget m (length rows) + 32) rows)"
    using assms by (intro sum_list_mono) auto
  also have "\<dots> = length rows * (row_budget m (length rows) + 32)"
    by (simp add: sum_list_triv)
  also have "\<dots> \<le> length rows * (m div max (length rows) 1 + 96)"
    by (intro mult_le_mono2) (auto simp: row_budget_def)
  also have "\<dots> \<le> m + 96 * length rows"
    by (cases "rows = []")
      (simp_all add: distrib_left mult.commute [of _ 96] max_def Suc_leI times_div_less_eq_dividend)
  finally show ?thesis .
qed

subsection \<open>What a cut event costs\<close>

text \<open>The rows whose text shares one budget.\<close>

fun cut_rows :: "session_event \<Rightarrow> nat" where
  "cut_rows (ToolCallUpdate e) = (case tu_content e of None \<Rightarrow> 0 | Some bs \<Rightarrow> length bs)"
| "cut_rows (PlanEv e) = length (pl_entries e)"
| "cut_rows (WorkspaceEv e) = length (ws_warnings e)"
| "cut_rows _ = 0"

text \<open>
  What truncation spreads through untouched: identities, references to files, the
  structure of a configuration, and the questions and answers that may not be cut.
\<close>

fun kept_whole :: "session_event \<Rightarrow> nat" where
  "kept_whole (TextEv e) = opt_length (te_messageId e)"
| "kept_whole (PromptEv e) = attachmentBytes (pm_attachments e)"
| "kept_whole (FileChange e) = length (fc_path e)"
| "kept_whole (ToolCall e) = idSize (Some (tc_toolCallId e)) + idSize (tc_parentToolCallId e)"
| "kept_whole (ToolCallUpdate e) =
     opt_length (tu_title e) + refBytes (tu_images e)
       + idSize (Some (tu_toolCallId e)) + idSize (tu_parentToolCallId e)"
| "kept_whole (OtherUpdate e) = length (ou_sessionUpdate e)"
| "kept_whole (WorkspaceEv e) = length (ws_root e) + length (ws_requestedCwd e)"
| "kept_whole (PermissionRequest e) = optionBytes (pr_options e)"
| "kept_whole (ElicitationRequest e) = length (er_message e)"
| "kept_whole (ElicitationResolved e) = estimateBytes (ElicitationResolved e)"
| "kept_whole (ContextCleared e) = estimateBytes (ContextCleared e)"
| "kept_whole (AgentConfigChanged e) =
     modesBytes (ac_modes e)
       + sum_list (map (\<lambda>p. length (co_id p) + length (co_name p) + 64
           + sum_list (map (\<lambda>c. length (cc_value c) + length (cc_name c) + 32) (co_choices p)))
           (ac_options e))"
| "kept_whole _ = 0"

lemma small_member:
  assumes "sum_list (map f xs) < (n :: nat)" and "x \<in> set xs"
  shows "f x < n"
  using assms member_le_sum_list [of "f x" "map f xs"] by auto

lemma configOptionBytes_plain:
  "configOptionBytes (plain_option p) = length (co_id p) + length (co_name p) + 64
     + sum_list (map (\<lambda>c. length (cc_value c) + length (cc_name c) + 32) (co_choices p))"
  by (simp add: configOptionBytes_def plain_option_def choiceBytes_def opt_length_def comp_def)

lemma modesBytes_plain: "modesBytes (map_option plain_modes m) = modesBytes m"
  by (cases m) (simp_all add: modesBytes_def plain_modes_def comp_def)

lemma locations_small:
  "locationBytes ls < n \<Longrightarrow> l \<in> set ls \<Longrightarrow> length (loc_path l) < n"
  using small_member [of "\<lambda>l. length (loc_path l) + 24" ls n l] by (simp add: locationBytes_def)

lemma cut_rows_bounded:
  assumes "sum_list (map (\<lambda>r. length (g r) + k) rows) < 10 ^ 13" and "k \<le> 32"
  shows "sum_list (map (\<lambda>r. length (clip (g r) (row_budget m (length rows))) + k) rows)
    \<le> m + 96 * length rows"
proof (rule rows_bounded, intro ballI)
  fix r assume "r \<in> set rows"
  with assms(1) have "length (g r) < 10 ^ 13"
    using small_member [of "\<lambda>r. length (g r) + k" rows "10 ^ 13" r] by simp
  then have "length (clip (g r) (row_budget m (length rows))) \<le> row_budget m (length rows)"
    by (rule length_clip_le) (simp add: row_budget_def)
  with assms(2) show "length (clip (g r) (row_budget m (length rows))) + k
    \<le> row_budget m (length rows) + 32" by simp
qed

lemma cut_event_cost:
  assumes "estimateBytes e < 10 ^ 13" and "64 \<le> m"
  shows "estimateBytes (cut_event e m) \<le> kept_whole e + m + 96 * cut_rows e + 9500"
proof (cases e)
  case (PromptEv x)
  with assms have "length (clip (pm_text x) (max (m - attachmentBytes (pm_attachments x) - 64) 512))
      \<le> max (m - attachmentBytes (pm_attachments x) - 64) 512"
    by (intro length_clip_le) auto
  with PromptEv show ?thesis by simp
next
  case (FileChange x)
  have "length (clip (fc_newText x) (m div 2)) \<le> m div 2"
    using assms FileChange by (intro length_clip_le) auto
  moreover have "opt_length (map_option (\<lambda>t. clip t (m div 2)) (fc_oldText x)) \<le> m div 2"
    using assms FileChange by (cases "fc_oldText x") (auto simp: opt_length_def intro!: length_clip_le)
  ultimately show ?thesis by (simp add: FileChange)
next
  case (ToolCall x)
  with assms show ?thesis
    using length_clip_le [of "tc_title x" m] jsonSize_shrink [of "tc_rawInput x"]
      locationBytes_cut [of "tc_locations x"] locations_small [of "tc_locations x" "10 ^ 13"]
    by (simp add: idSize_def)
next
  case (ToolCallUpdate x)
  let ?bs = "case tu_content x of None \<Rightarrow> [] | Some bs \<Rightarrow> bs"
  have "sum_list (map (\<lambda>b. length (clip b (row_budget m (length ?bs))) + 8) ?bs)
      \<le> m + 96 * length ?bs"
    using assms(1) ToolCallUpdate
    by (intro cut_rows_bounded) (auto split: option.splits)
  then have "estimateBytes (cut_event e m) \<le> 192 + opt_length (tu_title x)
      + jsonSize (shrink (tu_rawInput x)) + (m + 96 * cut_rows e) + refBytes (tu_images x)
      + locationBytes (cutLocations (tu_locations x))
      + idSize (Some (tu_toolCallId x)) + idSize (tu_parentToolCallId x)"
    using ToolCallUpdate by (cases "tu_content x") (simp_all add: Let_def comp_def)
  with assms ToolCallUpdate show ?thesis
    using jsonSize_shrink [of "tu_rawInput x"] locationBytes_cut [of "tu_locations x"]
      locations_small [of "tu_locations x" "10 ^ 13"]
    by simp
next
  case (PlanEv x)
  with assms show ?thesis
    using cut_rows_bounded [of pe_content 32 "pl_entries x" m] by (simp add: comp_def)
next
  case (WorkspaceEv x)
  with assms show ?thesis
    using cut_rows_bounded [of ww_message 32 "ws_warnings x" m] by (simp add: comp_def)
next
  case (ErrorEv x)
  with assms show ?thesis
    using length_clip_le [of "er_text x" m] jsonSize_shrink [of "er_data x"] by simp
next
  case (OtherUpdate x)
  with assms show ?thesis using jsonSize_shrink [of "ou_raw x"] by simp
next
  case (AgentConfigChanged x)
  then show ?thesis by (simp add: configOptionBytes_plain modesBytes_plain comp_def)
next
  case (TextEv x)
  with assms show ?thesis using length_clip_le [of "te_text x" m] by simp
next
  case (AgentLog x)
  with assms show ?thesis using length_clip_le [of "al_line x" m] by simp
next
  case (PermissionRequest x)
  with assms show ?thesis using length_clip_le [of "pr_title x" m] by simp
next
  case (PermissionResolved x)
  with assms show ?thesis using length_clip_le [of "pd_title x" m] by simp
qed simp_all

text \<open>
  The stand-in is taken even where there was nothing to stand in for: an oversized update
  with no arguments comes out claiming some, where \<open>clampBlob\<close> keeps the absence.
\<close>

lemma truncation_invents_arguments:
  assumes "m < estimateBytes (ToolCallUpdate e)" and "tu_rawInput e = JNull"
  shows "\<exists>f. truncateEvent (ToolCallUpdate e) m = ToolCallUpdate f \<and>
    field_of (tu_rawInput f) (asc ''truncated'') = Some (JBool True) \<and> clampBlob (tu_rawInput e) m = JNull"
  using assms by (simp add: truncateEvent_def Let_def shrink_def clampBlob_def)

subsection \<open>Properties\<close>

text \<open>
  An event that is over its budget is cut down to the budget plus what may not be cut
  (identities, references, structure, questions), 96 units for each row of its lists, and
  9500 for its fixed fields and its cut file list; one that fits is stored as it came.
\<close>

theorem truncateEvent_bounded:
  assumes "estimateBytes e < 10 ^ 13" and "64 \<le> m"
  shows "(estimateBytes e \<le> m \<longrightarrow> truncateEvent e m = e) \<and>
    estimateBytes (truncateEvent e m) \<le> kept_whole e + m + 96 * cut_rows e + 9500"
  using cut_event_cost [OF assms] by (simp add: truncateEvent_def)

theorem truncateEvent_bounded_witness:
  "\<not> estimateBytes (AgentLog \<lparr>al_line = replicate 400 97\<rparr>) \<le> 128 \<and>
    estimateBytes (truncateEvent (AgentLog \<lparr>al_line = replicate 400 97\<rparr>) 128) \<le> 9628"
  using truncateEvent_bounded [of "AgentLog \<lparr>al_line = replicate 400 97\<rparr>" 128] by simp

text \<open>
  Cutting a well-formed string that is too long keeps a prefix of it, at most one
  unit short of the room the note leaves and never ending inside a surrogate pair, says
  in the note how many units are gone, and yields a well-formed string.
\<close>

theorem clip_keeps_a_prefix:
  assumes "well_formed v" and "budget < length v"
  shows "\<exists>kept. clip v budget = take kept v @ truncation_note (length v - kept) \<and>
    kept \<le> budget - TRUNCATION_NOTE_BYTES \<and> budget - TRUNCATION_NOTE_BYTES \<le> Suc kept \<and>
    well_formed (clip v budget)"
proof -
  from assms(2) obtain kept where
    clip: "clip v budget = utf8_round_trip (take kept v) @ truncation_note (length v - kept)"
    and kept: "kept \<le> budget - TRUNCATION_NOTE_BYTES" "budget - TRUNCATION_NOTE_BYTES \<le> Suc kept"
      "\<not> ends_high v kept"
    using assms(1) by (auto elim: clip_long)
  moreover have "well_formed (take kept v)"
    using assms kept by (intro well_formed_take) (auto simp: ends_high_def)
  ultimately show ?thesis
    by (intro exI [of _ kept])
      (simp add: utf8_round_trip_id well_formed_append well_formed_note)
qed

theorem clip_keeps_a_prefix_witness:
  "\<exists>kept. clip (replicate 50 97 @ [0xd83d, 0xde00] @ replicate 50 98) 83
      = take kept (replicate 50 97 @ [0xd83d, 0xde00] @ replicate 50 98) @ truncation_note (102 - kept)
    \<and> kept \<le> 51 \<and> well_formed (clip (replicate 50 97 @ [0xd83d, 0xde00] @ replicate 50 98) 83)"
proof -
  let ?v = "replicate 50 97 @ [0xd83d, 0xde00] @ replicate 50 98 :: ustring"
  have "well_formed [0xd83d, 0xde00]" "well_formed (replicate 50 97)" "well_formed (replicate 50 98)"
    by (simp, auto simp: high_surrogate_def low_surrogate_def intro: well_formed_plain)
  then have wf: "well_formed ?v" by (intro well_formed_append)
  have "83 < length ?v" by simp
  from clip_keeps_a_prefix [OF wf this] obtain kept where
    "clip ?v 83 = take kept ?v @ truncation_note (length ?v - kept)"
    "kept \<le> 83 - TRUNCATION_NOTE_BYTES" "well_formed (clip ?v 83)"
    by blast
  moreover have "length ?v = 102" by simp
  ultimately show ?thesis
    unfolding TRUNCATION_NOTE_BYTES_def by (intro exI [of _ kept]) simp
qed

end
