(* ===== verification/EventStore.thy ===== *)
theory EventStore
  imports Events
begin

text \<open>
  The sequenced log of a session (\<open>src/src/events.ts\<close>): the storage interface
  \<open>EventStore\<close>, its bounded in-memory implementation \<open>MemoryEventStore\<close>, and the
  fan-out \<open>SessionLog\<close> that the server sees.

  The interface is the locale \<open>event_store\<close>: what a store promises of the events it
  still holds (consecutive numbers up to the last one assigned, eviction of a prefix only,
  pages that are prefixes of what a cursor has not seen and are never empty while there is
  something to serve). What a reader may rely on is proved inside it; the in-memory store
  is interpreted at the end. \<open>Infinity\<close> limits are \<open>\<infinity>\<close> of \<open>enat\<close>, the clock
  is an argument, and a sequence number is a natural number (2^53 events are out of reach).
  The branch of \<open>append\<close> that records a failure of the size accounting has no counterpart:
  the accounting is total on well-typed events.
\<close>

subsection \<open>The in-memory store\<close>

record stored_event =
  sv_seq :: nat
  sv_ts :: int
  sv_event :: session_event

record event_store_stats =
  es_firstSeq :: nat
  es_lastSeq :: nat
  es_count :: nat
  es_dropped :: nat
  es_approxBytes :: int

definition oldestAvailable :: "event_store_stats \<Rightarrow> nat" where
  "oldestAvailable s = (if 0 < es_count s then es_firstSeq s else es_lastSeq s + 1)"

definition DEFAULT_MAX_EVENT_BYTES :: nat where
  "DEFAULT_MAX_EVENT_BYTES = 128 * 1024"

definition COMPACT_THRESHOLD :: nat where
  "COMPACT_THRESHOLD = 1024"

record store_options =
  mo_maxEvents :: enat
  mo_maxBytes :: enat
  mo_maxEventBytes :: nat

definition default_options :: store_options where
  "default_options = \<lparr>mo_maxEvents = \<infinity>, mo_maxBytes = \<infinity>,
     mo_maxEventBytes = DEFAULT_MAX_EVENT_BYTES\<rparr>"

record retained =
  rt_stored :: stored_event
  rt_bytes :: nat

record session_state =
  ls_events :: "retained list"
  ls_head :: nat
  ls_nextSeq :: nat
  ls_dropped :: nat
  ls_bytes :: int

type_synonym memory_store = "ustring \<Rightarrow> session_state option"

definition fresh_session :: session_state where
  "fresh_session = \<lparr>ls_events = [], ls_head = 0, ls_nextSeq = 1, ls_dropped = 0, ls_bytes = 0\<rparr>"

definition stateFor :: "memory_store \<Rightarrow> ustring \<Rightarrow> session_state" where
  "stateFor m i = (case m i of None \<Rightarrow> fresh_session | Some s \<Rightarrow> s)"

text \<open>The loop of \<open>evict\<close>, then its compaction.\<close>

definition over_budget :: "store_options \<Rightarrow> session_state \<Rightarrow> bool" where
  "over_budget opts s \<longleftrightarrow>
     \<not> (enat (length (ls_events s) - ls_head s) \<le> mo_maxEvents opts
        \<and> (case mo_maxBytes opts of enat b \<Rightarrow> ls_bytes s \<le> int b | \<infinity> \<Rightarrow> True))"

definition evict_one :: "session_state \<Rightarrow> session_state" where
  "evict_one s = s\<lparr>ls_bytes := ls_bytes s - int (rt_bytes (ls_events s ! ls_head s)),
     ls_head := ls_head s + 1, ls_dropped := ls_dropped s + 1\<rparr>"

function evict_loop :: "store_options \<Rightarrow> session_state \<Rightarrow> session_state" where
  "evict_loop opts s =
     (if length (ls_events s) - ls_head s \<le> 1 then s
      else if over_budget opts s then evict_loop opts (evict_one s)
      else s)"
  by pat_completeness auto
termination
  by (relation "measure (\<lambda>(opts, s). length (ls_events s) - ls_head s)")
    (auto simp: evict_one_def)

declare evict_loop.simps [simp del]

definition compact_events :: "session_state \<Rightarrow> session_state" where
  "compact_events s =
     (if ls_head s > COMPACT_THRESHOLD
      then s\<lparr>ls_events := drop (ls_head s) (ls_events s), ls_head := 0\<rparr> else s)"

definition evict :: "store_options \<Rightarrow> session_state \<Rightarrow> session_state" where
  "evict opts s = compact_events (evict_loop opts s)"

definition record_event :: "stored_event \<Rightarrow> nat \<Rightarrow> session_state \<Rightarrow> session_state" where
  "record_event stored n s = s\<lparr>ls_nextSeq := ls_nextSeq s + 1,
     ls_events := ls_events s @ [\<lparr>rt_stored = stored, rt_bytes = n\<rparr>],
     ls_bytes := ls_bytes s + int n\<rparr>"

definition memory_append ::
  "store_options \<Rightarrow> ustring \<Rightarrow> int \<Rightarrow> session_event \<Rightarrow> memory_store \<Rightarrow> stored_event \<times> memory_store" where
  "memory_append opts i now event m =
     (let s = stateFor m i;
          payload = truncateEvent event (mo_maxEventBytes opts);
          stored = \<lparr>sv_seq = ls_nextSeq s, sv_ts = now, sv_event = payload\<rparr>
      in (stored, m(i \<mapsto> evict opts (record_event stored (estimateBytes payload) s))))"

text \<open>The loop of \<open>read\<close>: at least one event, then as many as both bounds allow.\<close>

fun read_page :: "enat \<Rightarrow> enat \<Rightarrow> stored_event list \<Rightarrow> nat \<Rightarrow> retained list \<Rightarrow> stored_event list" where
  "read_page limit maxBytes out n [] = out"
| "read_page limit maxBytes out n (r # rs) =
     (if \<not> enat (length out) < limit then out
      else if out \<noteq> [] \<and> maxBytes < enat (n + rt_bytes r) then out
      else read_page limit maxBytes (out @ [rt_stored r]) (n + rt_bytes r) rs)"

definition memory_read ::
  "memory_store \<Rightarrow> ustring \<Rightarrow> int \<Rightarrow> enat \<Rightarrow> enat \<Rightarrow> stored_event list" where
  "memory_read m i since limit maxBytes =
     (case m i of None \<Rightarrow> []
      | Some s \<Rightarrow>
          if length (ls_events s) \<le> ls_head s then []
          else
            let first = ls_events s ! ls_head s;
                index = ls_head s + nat (max 0 (since + 1 - int (sv_seq (rt_stored first))))
            in read_page limit maxBytes [] 0 (drop index (ls_events s)))"

definition memory_stats :: "memory_store \<Rightarrow> ustring \<Rightarrow> event_store_stats" where
  "memory_stats m i =
     (case m i of
        None \<Rightarrow> \<lparr>es_firstSeq = 0, es_lastSeq = 0, es_count = 0, es_dropped = 0, es_approxBytes = 0\<rparr>
      | Some s \<Rightarrow>
          let count = length (ls_events s) - ls_head s
          in \<lparr>es_firstSeq = (if 0 < count then sv_seq (rt_stored (ls_events s ! ls_head s)) else 0),
              es_lastSeq = ls_nextSeq s - 1, es_count = count, es_dropped = ls_dropped s,
              es_approxBytes = ls_bytes s\<rparr>)"

definition memory_drop :: "ustring \<Rightarrow> memory_store \<Rightarrow> memory_store" where
  "memory_drop i m = m(i := None)"

subsection \<open>The fan-out\<close>

text \<open>
  Listeners are live callbacks; they are named by numbers in the order they subscribed,
  and whether a callback throws on an event is an argument.
\<close>

record 'st session_log =
  sl_store :: 'st
  sl_listeners :: "nat list"

definition log_subscribe :: "nat \<Rightarrow> 'st session_log \<Rightarrow> 'st session_log" where
  "log_subscribe l g =
     g\<lparr>sl_listeners := (if l \<in> set (sl_listeners g) then sl_listeners g else sl_listeners g @ [l])\<rparr>"

definition log_unsubscribe :: "nat \<Rightarrow> 'st session_log \<Rightarrow> 'st session_log" where
  "log_unsubscribe l g = g\<lparr>sl_listeners := filter (\<lambda>k. k \<noteq> l) (sl_listeners g)\<rparr>"

text \<open>
  One event handed to the snapshot of the listeners: who was called with it, who threw
  and was evicted.
\<close>

fun publish ::
  "(nat \<Rightarrow> stored_event \<Rightarrow> bool) \<Rightarrow> stored_event \<Rightarrow> nat list \<Rightarrow> 'st session_log
    \<Rightarrow> (nat \<times> stored_event) list \<times> nat list \<times> 'st session_log" where
  "publish throws e [] g = ([], [], g)"
| "publish throws e (l # ls) g =
     (let g' = (if throws l e then log_unsubscribe l g else g);
          (called, evicted, g'') = publish throws e ls g'
      in ((l, e) # called, (if throws l e then l # evicted else evicted), g''))"

definition log_append ::
  "('st \<Rightarrow> stored_event \<times> 'st) \<Rightarrow> (nat \<Rightarrow> stored_event \<Rightarrow> bool) \<Rightarrow> 'st session_log
    \<Rightarrow> stored_event \<times> (nat \<times> stored_event) list \<times> nat list \<times> 'st session_log" where
  "log_append store_append throws g =
     (let (stored, st) = store_append (sl_store g)
      in (stored, publish throws stored (sl_listeners g) (g\<lparr>sl_store := st\<rparr>)))"

definition log_drop :: "('st \<Rightarrow> 'st) \<Rightarrow> 'st session_log \<Rightarrow> 'st session_log" where
  "log_drop store_drop g = g\<lparr>sl_listeners := [], sl_store := store_drop (sl_store g)\<rparr>"

subsection \<open>What a store promises, and what a reader gets\<close>

lemma filter_consecutive:
  assumes "map sv_seq xs = [a..<a + length xs]"
  shows "filter (\<lambda>e. c < int (sv_seq e)) xs = drop (nat (c + 1 - int a)) xs"
  using assms
proof (induction xs arbitrary: a)
  case (Cons x xs)
  then have a: "sv_seq x = a" and rest: "map sv_seq xs = [Suc a..<Suc a + length xs]"
    by (simp_all add: upt_conv_Cons del: upt_Suc)
  show ?case
  proof (cases "c < int a")
    case True
    with Cons.IH [OF rest] a show ?thesis by simp
  next
    case False
    then have "nat (c + 1 - int a) = Suc (nat (c + 1 - int (Suc a)))" by simp
    with False Cons.IH [OF rest] a show ?thesis by simp
  qed
qed simp

text \<open>A reader that asks for pages after its cursor until one comes back empty.\<close>

primrec read_all :: "(int \<Rightarrow> stored_event list) \<Rightarrow> nat \<Rightarrow> int \<Rightarrow> stored_event list" where
  "read_all page 0 since = []"
| "read_all page (Suc fuel) since =
     (let es = page since
      in if es = [] then [] else es @ read_all page fuel (int (sv_seq (last es))))"

text \<open>A run of appends to one log: the calls its listeners got, and the log after it.\<close>

fun log_run ::
  "(int \<Rightarrow> session_event \<Rightarrow> 'st \<Rightarrow> stored_event \<times> 'st) \<Rightarrow> (nat \<Rightarrow> stored_event \<Rightarrow> bool)
    \<Rightarrow> (int \<times> session_event) list \<Rightarrow> 'st session_log \<Rightarrow> (nat \<times> stored_event) list \<times> 'st session_log" where
  "log_run store_append throws [] g = ([], g)"
| "log_run store_append throws ((t, e) # es) g =
     (let (stored, called, evicted, g') = log_append (store_append t e) throws g;
          (later, g'') = log_run store_append throws es g'
      in (called @ later, g''))"

definition heard_by :: "nat \<Rightarrow> (nat \<times> stored_event) list \<Rightarrow> stored_event list" where
  "heard_by l calls = map snd (filter (\<lambda>(k, e). k = l) calls)"

lemma publish_spec:
  "publish throws e ls g = (called, evicted, g') \<Longrightarrow>
    called = map (\<lambda>l. (l, e)) ls \<and> sl_store g' = sl_store g \<and>
    sl_listeners g' = filter (\<lambda>l. l \<notin> set ls \<or> \<not> throws l e) (sl_listeners g) \<and>
    evicted = filter (\<lambda>l. throws l e) ls"
proof (induction ls arbitrary: g g' called evicted)
  case (Cons l ls)
  obtain c v k where rest: "publish throws e ls (if throws l e then log_unsubscribe l g else g) = (c, v, k)"
    by (cases "publish throws e ls (if throws l e then log_unsubscribe l g else g)")
  from Cons.IH [OF this] Cons.prems rest show ?case
    by (auto simp: log_unsubscribe_def Let_def intro!: filter_cong)
qed simp

locale event_store =
  fixes append :: "ustring \<Rightarrow> int \<Rightarrow> session_event \<Rightarrow> 'st \<Rightarrow> stored_event \<times> 'st"
    and read :: "'st \<Rightarrow> ustring \<Rightarrow> int \<Rightarrow> enat \<Rightarrow> enat \<Rightarrow> stored_event list"
    and stats :: "'st \<Rightarrow> ustring \<Rightarrow> event_store_stats"
    and forget :: "ustring \<Rightarrow> 'st \<Rightarrow> 'st"
    and held :: "'st \<Rightarrow> ustring \<Rightarrow> stored_event list"
    and sound :: "'st \<Rightarrow> bool"
  assumes append_sound: "sound s \<Longrightarrow> append i t e s = (x, s') \<Longrightarrow> sound s'"
    and forget_sound: "sound s \<Longrightarrow> sound (forget i s)"
    and append_seq: "sound s \<Longrightarrow> append i t e s = (x, s') \<Longrightarrow>
      sv_seq x = Suc (es_lastSeq (stats s i)) \<and> es_lastSeq (stats s' i) = sv_seq x"
    and append_held: "sound s \<Longrightarrow> append i t e s = (x, s') \<Longrightarrow>
      \<exists>n. held s' i = drop n (held s i @ [x]) \<and> held s' i \<noteq> []"
    and append_other: "sound s \<Longrightarrow> append i t e s = (x, s') \<Longrightarrow> j \<noteq> i \<Longrightarrow>
      held s' j = held s j \<and> stats s' j = stats s j"
    and forget_held: "held (forget i s) j = (if j = i then [] else held s j)"
    and held_seqs: "sound s \<Longrightarrow> length (held s i) \<le> es_lastSeq (stats s i) \<and>
      map sv_seq (held s i)
        = [Suc (es_lastSeq (stats s i)) - length (held s i)..<Suc (es_lastSeq (stats s i))]"
    and stats_held: "sound s \<Longrightarrow> es_count (stats s i) = length (held s i) \<and>
      (held s i \<noteq> [] \<longrightarrow> es_firstSeq (stats s i) = sv_seq (hd (held s i)))"
    and read_page_of: "sound s \<Longrightarrow>
      \<exists>k. read s i since limit maxBytes = take k (filter (\<lambda>e. since < int (sv_seq e)) (held s i)) \<and>
        (0 < limit \<longrightarrow> 0 < k)"
begin

lemma unseen_drop:
  assumes "sound s"
  shows "filter (\<lambda>e. c < int (sv_seq e)) (held s i)
    = drop (nat (c + int (length (held s i)) - int (es_lastSeq (stats s i)))) (held s i)"
proof -
  have "filter (\<lambda>e. c < int (sv_seq e)) (held s i)
      = drop (nat (c + 1 - int (Suc (es_lastSeq (stats s i)) - length (held s i)))) (held s i)"
    using held_seqs [OF assms, of i] by (intro filter_consecutive) (simp add: Suc_diff_le)
  then show ?thesis using held_seqs [OF assms, of i] by (simp add: of_nat_diff algebra_simps)
qed

lemma read_all_complete:
  assumes "sound s" and "0 < limit"
  shows "length (filter (\<lambda>e. c < int (sv_seq e)) (held s i)) < fuel \<Longrightarrow>
    read_all (\<lambda>c. read s i c limit maxBytes) fuel c
      = filter (\<lambda>e. c < int (sv_seq e)) (held s i)"
proof (induction fuel arbitrary: c)
  case (Suc fuel)
  let ?xs = "held s i" and ?last = "es_lastSeq (stats s i)"
  let ?d = "nat (c + int (length ?xs) - int ?last)"
  obtain k where page: "read s i c limit maxBytes = take k (drop ?d ?xs)" and k: "0 < k"
    using read_page_of [OF assms(1), of i c limit maxBytes] assms(2)
    by (auto simp: unseen_drop [OF assms(1)])
  show ?case
  proof (cases "drop ?d ?xs = []")
    case True
    with page show ?thesis by (simp add: unseen_drop [OF assms(1)])
  next
    case False
    obtain n where n: "0 < n" "?d + n \<le> length ?xs"
      and es: "take k (drop ?d ?xs) = take n (drop ?d ?xs)"
      using False k by (intro that [of "min k (length ?xs - ?d)"]) (auto simp: min_def)
    have "last (take n (drop ?d ?xs)) = ?xs ! (?d + n - 1)"
    proof -
      have "length (take n (drop ?d ?xs)) = n" using n by simp
      moreover from this have "last (take n (drop ?d ?xs)) = take n (drop ?d ?xs) ! (n - 1)"
        using n by (subst last_conv_nth) auto
      ultimately show ?thesis using n by simp
    qed
    moreover have "sv_seq (?xs ! (?d + n - 1)) = Suc ?last - length ?xs + (?d + n - 1)"
    proof -
      have "map sv_seq ?xs ! (?d + n - 1) = Suc ?last - length ?xs + (?d + n - 1)"
        using held_seqs [OF assms(1), of i] n by (subst conjunct2 [OF held_seqs [OF assms(1)]]) (simp del: upt_Suc)
      then show ?thesis using n by simp
    qed
    ultimately have last: "int (sv_seq (last (take n (drop ?d ?xs))))
        = int ?last - int (length ?xs) + int (?d + n)"
      using held_seqs [OF assms(1), of i] n by (simp add: of_nat_diff)
    then have after: "filter (\<lambda>e. int (sv_seq (last (take n (drop ?d ?xs)))) < int (sv_seq e)) ?xs
        = drop (?d + n) ?xs"
    proof -
      have "nat (int (sv_seq (last (take n (drop ?d ?xs)))) + int (length ?xs) - int ?last) = ?d + n"
        using last by linarith
      then show ?thesis by (simp only: unseen_drop [OF assms(1)])
    qed
    moreover have "length (drop (?d + n) ?xs) < fuel"
      using Suc.prems n by (simp add: unseen_drop [OF assms(1)])
    ultimately have "read_all (\<lambda>c. read s i c limit maxBytes) fuel
        (int (sv_seq (last (take n (drop ?d ?xs))))) = drop (?d + n) ?xs"
      using Suc.IH [of "int (sv_seq (last (take n (drop ?d ?xs))))"] by simp
    moreover have "take n (drop ?d ?xs) \<noteq> []" using n by auto
    moreover have "take n (drop ?d ?xs) @ drop (?d + n) ?xs = drop ?d ?xs"
      by (metis add.commute append_take_drop_id drop_drop)
    ultimately show ?thesis
      using page es by (simp add: Let_def unseen_drop [OF assms(1)])
  qed
qed simp

lemma log_run_sound:
  "sound (sl_store g) \<Longrightarrow> log_run (append i) throws es g = (calls, g') \<Longrightarrow> sound (sl_store g')"
proof (induction es arbitrary: g g' calls)
  case (Cons te es)
  obtain t e where te: "te = (t, e)" by (cases te)
  obtain x st where a: "append i t e (sl_store g) = (x, st)" by fastforce
  obtain c v k where p: "publish throws x (sl_listeners g) (g\<lparr>sl_store := st\<rparr>) = (c, v, k)"
    by (cases "publish throws x (sl_listeners g) (g\<lparr>sl_store := st\<rparr>)")
  have "sound (sl_store k)"
    using publish_spec [OF p] append_sound [OF Cons.prems(1) a] by simp
  from Cons.IH [OF this] Cons.prems(2) show ?case
    by (auto simp: te log_append_def a p split: prod.splits)
qed simp

text \<open>
  A listener that does not throw hears every event once, numbered consecutively from the
  last number before it, whoever else throws.
\<close>

lemma listener_hears_all:
  assumes "\<forall>e. \<not> throws l e"
  shows "sound (sl_store g) \<Longrightarrow> distinct (sl_listeners g) \<Longrightarrow> l \<in> set (sl_listeners g) \<Longrightarrow>
    log_run (append i) throws es g = (calls, g') \<Longrightarrow>
    map sv_seq (heard_by l calls)
      = [Suc (es_lastSeq (stats (sl_store g) i))..<Suc (es_lastSeq (stats (sl_store g) i)) + length es]"
proof (induction es arbitrary: g g' calls)
  case (Cons te es)
  obtain t e where te: "te = (t, e)" by (cases te)
  obtain x st where a: "append i t e (sl_store g) = (x, st)" by fastforce
  obtain c v k where p: "publish throws x (sl_listeners g) (g\<lparr>sl_store := st\<rparr>) = (c, v, k)"
    by (cases "publish throws x (sl_listeners g) (g\<lparr>sl_store := st\<rparr>)")
  note spec = publish_spec [OF p]
  obtain later g2 where run: "log_run (append i) throws es k = (later, g2)" by fastforce
  have calls: "calls = c @ later"
    using Cons.prems(4) by (simp add: te log_append_def a p run)
  have "map sv_seq (heard_by l later)
      = [Suc (es_lastSeq (stats (sl_store k) i))..<Suc (es_lastSeq (stats (sl_store k) i)) + length es]"
    using spec Cons.prems assms append_sound [OF Cons.prems(1) a]
    by (intro Cons.IH [OF _ _ _ run]) auto
  moreover have "heard_by l c = [x]"
  proof -
    have "heard_by l (map (\<lambda>l. (l, x)) ls) = (if l \<in> set ls then [x] else [])" if "distinct ls" for ls
      using that by (induction ls) (auto simp: heard_by_def)
    then show ?thesis using spec Cons.prems by simp
  qed
  moreover have "es_lastSeq (stats (sl_store k) i) = Suc (es_lastSeq (stats (sl_store g) i))"
    "sv_seq x = Suc (es_lastSeq (stats (sl_store g) i))"
    using append_seq [OF Cons.prems(1) a] spec by auto
  ultimately show ?case
    by (simp add: calls heard_by_def upt_conv_Cons del: upt_Suc)
qed (simp add: heard_by_def)

text \<open>
  Catching up and then listening: no number is missed and none comes twice, as long as the
  cursor is not behind what the store still holds.
\<close>

lemma resume_without_gap:
  assumes "sound (sl_store g)" and "distinct (sl_listeners g)" and "l \<notin> set (sl_listeners g)"
    and "\<forall>e. \<not> throws l e" and "0 < limit"
    and "oldestAvailable (stats (sl_store g) i) \<le> c + 1" and "c \<le> es_lastSeq (stats (sl_store g) i)"
    and "log_run (append i) throws es (log_subscribe l g) = (calls, g')"
    and "es_lastSeq (stats (sl_store g) i) < fuel"
  shows "map sv_seq (read_all (\<lambda>c. read (sl_store g) i c limit maxBytes) fuel (int c)
        @ heard_by l calls)
      = [c + 1..<es_lastSeq (stats (sl_store g) i) + 1 + length es]"
proof -
  let ?s = "sl_store g" and ?last = "es_lastSeq (stats (sl_store g) i)"
  let ?xs = "held ?s i"
  have held: "length ?xs \<le> ?last" "map sv_seq ?xs = [Suc ?last - length ?xs..<Suc ?last]"
    using held_seqs [OF assms(1)] by auto
  have cursor: "?last \<le> c + length ?xs"
  proof (cases "?xs = []")
    case True
    with stats_held [OF assms(1), of i] assms(6) show ?thesis by (simp add: oldestAvailable_def)
  next
    case False
    with held have "sv_seq (hd ?xs) = Suc ?last - length ?xs"
      by (metis Suc_diff_le diff_less hd_map hd_upt length_greater_0_conv less_Suc_eq_le zero_less_Suc)
    with False stats_held [OF assms(1), of i] assms(6) held show ?thesis
      by (simp add: oldestAvailable_def)
  qed
  have "map sv_seq (read_all (\<lambda>c. read ?s i c limit maxBytes) fuel (int c)) = [c + 1..<Suc ?last]"
  proof -
    have "read_all (\<lambda>c. read ?s i c limit maxBytes) fuel (int c)
        = drop (nat (int c + int (length ?xs) - int ?last)) ?xs"
    proof -
      have "length (filter (\<lambda>e. int c < int (sv_seq e)) ?xs) < fuel"
        using assms(9) held(1) le_less_trans [OF length_filter_le] by (meson le_less_trans)
      from read_all_complete [OF assms(1,5) this] show ?thesis
        by (simp only: unseen_drop [OF assms(1)])
    qed
    moreover have "nat (int c + int (length ?xs) - int ?last) = c + length ?xs - ?last"
      using cursor by linarith
    ultimately show ?thesis
      using cursor held assms(7) by (simp add: drop_map [symmetric] Suc_diff_le del: upt_Suc)
  qed
  moreover have "map sv_seq (heard_by l calls) = [Suc ?last..<Suc ?last + length es]"
  proof -
    have "map sv_seq (heard_by l calls)
        = [Suc (es_lastSeq (stats (sl_store (log_subscribe l g)) i))
            ..<Suc (es_lastSeq (stats (sl_store (log_subscribe l g)) i)) + length es]"
      using assms by (intro listener_hears_all [OF assms(4) _ _ _ assms(8)]) (auto simp: log_subscribe_def)
    then show ?thesis by (simp add: log_subscribe_def)
  qed
  ultimately show ?thesis
    using assms(7) by (simp add: upt_add_eq_append [of "c + 1" "Suc ?last", simplified])
qed

end

subsection \<open>The in-memory store keeps the promises\<close>

definition live :: "session_state \<Rightarrow> retained list" where
  "live s = drop (ls_head s) (ls_events s)"

definition session_inv :: "session_state \<Rightarrow> bool" where
  "session_inv s \<longleftrightarrow>
     ls_head s \<le> length (ls_events s) \<and>
     ls_dropped s + length (live s) + 1 = ls_nextSeq s \<and>
     map (\<lambda>r. sv_seq (rt_stored r)) (live s) = [ls_nextSeq s - length (live s)..<ls_nextSeq s] \<and>
     ls_bytes s = int (sum_list (map rt_bytes (live s))) \<and>
     (\<forall>r\<in>set (live s). rt_bytes r = estimateBytes (sv_event (rt_stored r)))"

definition session_ok :: "store_options \<Rightarrow> session_state \<Rightarrow> bool" where
  "session_ok opts s \<longleftrightarrow> session_inv s \<and> live s \<noteq> [] \<and> ls_head s \<le> COMPACT_THRESHOLD \<and>
     (length (live s) = 1 \<or> \<not> over_budget opts s)"

definition store_ok :: "store_options \<Rightarrow> memory_store \<Rightarrow> bool" where
  "store_ok opts m \<longleftrightarrow> (\<forall>i s. m i = Some s \<longrightarrow> session_ok opts s)"

definition memory_held :: "memory_store \<Rightarrow> ustring \<Rightarrow> stored_event list" where
  "memory_held m i = (case m i of None \<Rightarrow> [] | Some s \<Rightarrow> map rt_stored (live s))"

lemma live_length [simp]: "length (live s) = length (ls_events s) - ls_head s"
  by (simp add: live_def)

lemma fresh_inv: "session_inv fresh_session"
  by (simp add: session_inv_def fresh_session_def live_def)

lemma evict_one_live:
  assumes "session_inv s" and "live s \<noteq> []"
  shows "session_inv (evict_one s) \<and> live (evict_one s) = tl (live s) \<and>
    ls_nextSeq (evict_one s) = ls_nextSeq s"
proof -
  from assms(2) obtain r rs where live: "live s = r # rs" by (cases "live s") auto
  then have "drop (ls_head s) (ls_events s) \<noteq> []" by (simp add: live_def)
  then have head: "ls_head s < length (ls_events s)" "ls_events s ! ls_head s = r"
    using live nth_via_drop [of "ls_head s" "ls_events s"] by (auto simp: live_def)
  have tail: "live (evict_one s) = rs"
    using live by (simp add: live_def evict_one_def drop_Suc tl_drop [symmetric])
  have len: "length (live s) = Suc (length rs)" "length (live (evict_one s)) = length rs"
    using live tail by (simp_all del: live_length)
  from assms(1) live have seqs: "map (\<lambda>r. sv_seq (rt_stored r)) (r # rs)
      = [ls_nextSeq s - Suc (length rs)..<ls_nextSeq s]" and room: "Suc (length rs) < ls_nextSeq s"
    unfolding session_inv_def len by auto
  have "map (\<lambda>r. sv_seq (rt_stored r)) rs = tl [ls_nextSeq s - Suc (length rs)..<ls_nextSeq s]"
    unfolding seqs [symmetric] by simp
  also have "\<dots> = [ls_nextSeq s - length rs..<ls_nextSeq s]"
    using room by (simp add: tl_upt Suc_diff_Suc del: upt_Suc)
  finally show ?thesis
    using assms(1) live head tail len unfolding session_inv_def
    by (simp add: evict_one_def del: live_length)
qed

lemma evict_loop_live:
  "session_inv s \<Longrightarrow> live s \<noteq> [] \<Longrightarrow>
    session_inv (evict_loop opts s) \<and> ls_nextSeq (evict_loop opts s) = ls_nextSeq s \<and>
    (\<exists>n. live (evict_loop opts s) = drop n (live s)) \<and> live (evict_loop opts s) \<noteq> [] \<and>
    (length (live (evict_loop opts s)) = 1 \<or> \<not> over_budget opts (evict_loop opts s))"
proof (induction opts s rule: evict_loop.induct)
  case (1 opts s)
  show ?case
  proof (cases "length (live s) \<le> 1 \<or> \<not> over_budget opts s")
    case True
    then have stop: "evict_loop opts s = s" by (auto simp: evict_loop.simps [of opts s])
    from True "1.prems"(2) have "length (live s) = 1 \<or> \<not> over_budget opts s"
      by (cases "live s") (auto simp del: live_length)
    with "1.prems" show ?thesis unfolding stop by (auto intro: exI [of _ 0] simp del: live_length)
  next
    case False
    note one = evict_one_live [OF "1.prems"]
    have go: "evict_loop opts s = evict_loop opts (evict_one s)"
      using False by (simp add: evict_loop.simps [of opts s])
    have "tl (live s) \<noteq> []" using False by (cases "live s") (auto simp del: live_length)
    with False one have IH: "session_inv (evict_loop opts (evict_one s)) \<and>
      ls_nextSeq (evict_loop opts (evict_one s)) = ls_nextSeq (evict_one s) \<and>
      (\<exists>n. live (evict_loop opts (evict_one s)) = drop n (live (evict_one s))) \<and>
      live (evict_loop opts (evict_one s)) \<noteq> [] \<and>
      (length (live (evict_loop opts (evict_one s))) = 1
        \<or> \<not> over_budget opts (evict_loop opts (evict_one s)))"
      by (intro "1.IH") auto
    then obtain n where "live (evict_loop opts (evict_one s)) = drop n (tl (live s))"
      using one by auto
    then have "live (evict_loop opts (evict_one s)) = drop (Suc n) (live s)"
      by (simp add: drop_Suc)
    with IH one show ?thesis unfolding go by (auto simp del: live_length)
  qed
qed

lemma compact_live [simp]:
  "live (compact_events s) = live s" "ls_nextSeq (compact_events s) = ls_nextSeq s"
  "ls_dropped (compact_events s) = ls_dropped s" "ls_bytes (compact_events s) = ls_bytes s"
  "ls_head (compact_events s) \<le> COMPACT_THRESHOLD"
  by (auto simp: compact_events_def live_def)

lemma over_budget_live:
  "over_budget opts s \<longleftrightarrow> \<not> (enat (length (live s)) \<le> mo_maxEvents opts
     \<and> (case mo_maxBytes opts of enat b \<Rightarrow> ls_bytes s \<le> int b | \<infinity> \<Rightarrow> True))"
  by (simp add: over_budget_def)

lemma session_inv_compact: "session_inv s \<Longrightarrow> session_inv (compact_events s)"
  by (auto simp: session_inv_def compact_events_def live_def)

lemma evict_live:
  assumes "session_inv s" and "live s \<noteq> []"
  shows "session_ok opts (evict opts s) \<and> ls_nextSeq (evict opts s) = ls_nextSeq s \<and>
    (\<exists>n. live (evict opts s) = drop n (live s))"
  using evict_loop_live [OF assms, of opts] session_inv_compact
  unfolding session_ok_def evict_def over_budget_live
  by (cases "mo_maxBytes opts") (auto simp del: live_length)

lemma record_event_live:
  assumes "session_inv s" and "sv_seq x = ls_nextSeq s" and "n = estimateBytes (sv_event x)"
  shows "session_inv (record_event x n s) \<and> live (record_event x n s) = live s @ [\<lparr>rt_stored = x, rt_bytes = n\<rparr>] \<and>
    ls_nextSeq (record_event x n s) = Suc (ls_nextSeq s)"
proof -
  have live: "live (record_event x n s) = live s @ [\<lparr>rt_stored = x, rt_bytes = n\<rparr>]"
    using assms(1) by (simp add: record_event_def live_def session_inv_def)
  then have "length (live (record_event x n s)) = Suc (length (live s))"
    by (simp del: live_length)
  with live assms show ?thesis
    unfolding session_inv_def by (auto simp: record_event_def simp del: live_length)
qed

lemma memory_append_state:
  assumes "store_ok opts m" and "memory_append opts i t e m = (x, m')"
  obtains s' where "m' = m(i \<mapsto> s')" and "session_ok opts s'"
    and "sv_seq x = ls_nextSeq (stateFor m i)" and "ls_nextSeq s' = Suc (ls_nextSeq (stateFor m i))"
    and "\<exists>n. map rt_stored (live s') = drop n (map rt_stored (live (stateFor m i)) @ [x])"
    and "sv_event x = truncateEvent e (mo_maxEventBytes opts)"
proof -
  let ?s = "stateFor m i" and ?n = "estimateBytes (sv_event x)"
  have inv: "session_inv ?s"
    using assms(1) fresh_inv by (auto simp: stateFor_def store_ok_def session_ok_def split: option.splits)
  have x: "sv_seq x = ls_nextSeq ?s" "sv_event x = truncateEvent e (mo_maxEventBytes opts)"
    and m': "m' = m(i \<mapsto> evict opts (record_event x ?n ?s))"
    using assms(2) by (auto simp: memory_append_def Let_def)
  note rec = record_event_live [OF inv x(1) refl]
  then have "live (record_event x ?n ?s) \<noteq> []" by simp
  note ev = evict_live [OF conjunct1 [OF rec] this, of opts]
  with rec obtain n where "live (evict opts (record_event x ?n ?s))
      = drop n (live ?s @ [\<lparr>rt_stored = x, rt_bytes = ?n\<rparr>])" by auto
  then have "map rt_stored (live (evict opts (record_event x ?n ?s)))
      = drop n (map rt_stored (live ?s) @ [x])"
    by (simp add: drop_map [symmetric] del: drop_append)
  with that m' x ev rec show thesis by auto
qed

lemma read_page_prefix:
  "\<exists>k. read_page limit maxBytes out n rs = out @ map rt_stored (take k rs) \<and>
     (out = [] \<and> 0 < limit \<longrightarrow> 0 < k)"
proof (induction limit maxBytes out n rs rule: read_page.induct)
  case (1 limit maxBytes out n)
  then show ?case by (intro exI [of _ 1]) simp
next
  case (2 limit maxBytes out n r rs)
  show ?case
  proof (cases "\<not> enat (length out) < limit \<or> out \<noteq> [] \<and> maxBytes < enat (n + rt_bytes r)")
    case True
    then show ?thesis by (intro exI [of _ 0]) (auto simp: zero_enat_def)
  next
    case False
    with 2 obtain k where "read_page limit maxBytes (out @ [rt_stored r]) (n + rt_bytes r) rs
        = (out @ [rt_stored r]) @ map rt_stored (take k rs)" by auto
    with False show ?thesis by (intro exI [of _ "Suc k"]) auto
  qed
qed

lemma memory_stats_last: "store_ok opts m \<Longrightarrow> es_lastSeq (memory_stats m i) = ls_nextSeq (stateFor m i) - 1"
  by (simp add: memory_stats_def stateFor_def fresh_session_def Let_def split: option.splits)

lemma memory_held_state: "memory_held m i = map rt_stored (live (stateFor m i))"
  by (simp add: memory_held_def stateFor_def fresh_session_def live_def split: option.splits)

lemma stateFor_inv: "store_ok opts m \<Longrightarrow> session_inv (stateFor m i)"
  using fresh_inv by (auto simp: stateFor_def store_ok_def session_ok_def split: option.splits)

lemma memory_held_seqs:
  assumes "store_ok opts m"
  shows "length (memory_held m i) \<le> es_lastSeq (memory_stats m i) \<and>
    map sv_seq (memory_held m i)
      = [Suc (es_lastSeq (memory_stats m i)) - length (memory_held m i)..<Suc (es_lastSeq (memory_stats m i))]"
proof -
  have "ls_dropped (stateFor m i) + length (live (stateFor m i)) + 1 = ls_nextSeq (stateFor m i)"
    and "map (\<lambda>r. sv_seq (rt_stored r)) (live (stateFor m i))
      = [ls_nextSeq (stateFor m i) - length (live (stateFor m i))..<ls_nextSeq (stateFor m i)]"
    using stateFor_inv [OF assms, of i] unfolding session_inv_def by auto
  then show ?thesis
    using memory_stats_last [OF assms, of i] by (simp add: memory_held_state comp_def del: upt_Suc live_length)
qed

lemma memory_read_prefix:
  assumes "store_ok opts m"
  shows "\<exists>k. memory_read m i c limit maxBytes = take k (filter (\<lambda>e. c < int (sv_seq e)) (memory_held m i)) \<and>
    (0 < limit \<longrightarrow> 0 < k)"
proof (cases "m i")
  case None
  then show ?thesis by (auto simp: memory_read_def memory_held_def)
next
  case (Some s)
  with assms have "session_inv s" "live s \<noteq> []" by (auto simp: store_ok_def session_ok_def)
  then obtain r rs where live: "live s = r # rs" by (cases "live s") auto
  then have "drop (ls_head s) (ls_events s) \<noteq> []" by (simp add: live_def)
  then have head: "ls_head s < length (ls_events s)" "ls_events s ! ls_head s = r"
    using live nth_via_drop [of "ls_head s" "ls_events s"] by (auto simp: live_def)
  let ?d = "nat (c + 1 - int (sv_seq (rt_stored r)))"
  have "map sv_seq (map rt_stored (live s)) = [ls_nextSeq s - length (live s)..<ls_nextSeq s]"
    and len: "length (live s) < ls_nextSeq s"
    using \<open>session_inv s\<close> unfolding session_inv_def by (auto simp: comp_def simp del: live_length)
  then have seqs: "map sv_seq (map rt_stored (live s))
      = [sv_seq (rt_stored r)..<sv_seq (rt_stored r) + length (map rt_stored (live s))]"
    unfolding live by (auto simp: upt_conv_Cons simp del: upt_Suc)
  have page: "memory_read m i c limit maxBytes
      = read_page limit maxBytes [] 0 (drop ?d (live s))"
    using Some head by (simp add: memory_read_def Let_def live_def add.commute max_def nat_le_iff)
  obtain k where "read_page limit maxBytes [] 0 (drop ?d (live s)) = map rt_stored (take k (drop ?d (live s)))"
    and k: "0 < limit \<longrightarrow> 0 < k"
    using read_page_prefix [of limit maxBytes "[]" 0 "drop ?d (live s)"] by auto
  then have "memory_read m i c limit maxBytes = take k (drop ?d (memory_held m i))"
    using page Some by (simp add: memory_held_def take_map drop_map)
  moreover have "drop ?d (memory_held m i) = filter (\<lambda>e. c < int (sv_seq e)) (memory_held m i)"
    using filter_consecutive [OF seqs, of c] Some by (simp add: memory_held_def)
  ultimately show ?thesis using k by metis
qed

interpretation mem: event_store "memory_append opts" memory_read memory_stats memory_drop
  memory_held "store_ok opts" for opts
proof unfold_locales
  fix s s' :: memory_store and i j t e x
  assume ok: "store_ok opts s" and app: "memory_append opts i t e s = (x, s')"
  obtain u where u: "s' = s(i \<mapsto> u)" "session_ok opts u" "sv_seq x = ls_nextSeq (stateFor s i)"
    "ls_nextSeq u = Suc (ls_nextSeq (stateFor s i))"
    "\<exists>n. map rt_stored (live u) = drop n (map rt_stored (live (stateFor s i)) @ [x])"
    by (rule memory_append_state [OF ok app])
  show ok': "store_ok opts s'" using ok u by (auto simp: store_ok_def)
  have "0 < ls_nextSeq (stateFor s i)"
    using stateFor_inv [OF ok, of i] unfolding session_inv_def by auto
  then show "sv_seq x = Suc (es_lastSeq (memory_stats s i)) \<and> es_lastSeq (memory_stats s' i) = sv_seq x"
    using u memory_stats_last [OF ok, of i] memory_stats_last [OF ok', of i]
    by (simp add: stateFor_def)
  have "memory_held s' i = map rt_stored (live u)" by (simp add: memory_held_def u(1))
  then show "\<exists>n. memory_held s' i = drop n (memory_held s i @ [x]) \<and> memory_held s' i \<noteq> []"
    using u(2,5) by (simp add: memory_held_state [of s] session_ok_def)
  assume "j \<noteq> i"
  then show "memory_held s' j = memory_held s j \<and> memory_stats s' j = memory_stats s j"
    by (simp add: u memory_held_def memory_stats_def)
next
  fix s :: memory_store and i j and c :: int and limit maxBytes
  show "memory_held (memory_drop i s) j = (if j = i then [] else memory_held s j)"
    by (simp add: memory_held_def memory_drop_def)
  assume ok: "store_ok opts s"
  then show "store_ok opts (memory_drop i s)" by (auto simp: store_ok_def memory_drop_def)
  show "length (memory_held s i) \<le> es_lastSeq (memory_stats s i) \<and>
    map sv_seq (memory_held s i)
      = [Suc (es_lastSeq (memory_stats s i)) - length (memory_held s i)..<Suc (es_lastSeq (memory_stats s i))]"
    by (rule memory_held_seqs [OF ok])
  show "\<exists>k. memory_read s i c limit maxBytes = take k (filter (\<lambda>e. c < int (sv_seq e)) (memory_held s i)) \<and>
    (0 < limit \<longrightarrow> 0 < k)"
    by (rule memory_read_prefix [OF ok])
  show "es_count (memory_stats s i) = length (memory_held s i) \<and>
    (memory_held s i \<noteq> [] \<longrightarrow> es_firstSeq (memory_stats s i) = sv_seq (hd (memory_held s i)))"
    by (auto simp: memory_stats_def memory_held_def Let_def live_def hd_map hd_drop_conv_nth
        split: option.splits)
qed

subsection \<open>Properties\<close>

text \<open>What a daemon does to its store over a life, and the store after it.\<close>

datatype store_op = AppendOp ustring int session_event | DropOp ustring

fun store_step :: "store_options \<Rightarrow> store_op \<Rightarrow> memory_store \<Rightarrow> memory_store" where
  "store_step opts (AppendOp i t e) m = snd (memory_append opts i t e m)"
| "store_step opts (DropOp i) m = memory_drop i m"

definition run_store :: "store_options \<Rightarrow> store_op list \<Rightarrow> memory_store" where
  "run_store opts ops = fold (store_step opts) ops (\<lambda>i. None)"

lemma store_step_ok: "store_ok opts m \<Longrightarrow> store_ok opts (store_step opts p m)"
  by (cases p) (auto intro: mem.append_sound mem.forget_sound prod.collapse [symmetric])

lemma run_store_ok: "store_ok opts (run_store opts ops)"
proof -
  have "store_ok opts (fold (store_step opts) ops m)" if "store_ok opts m" for m
    using that by (induction ops arbitrary: m) (auto intro: store_step_ok)
  from this [of "\<lambda>i. None"] show ?thesis by (simp add: run_store_def store_ok_def)
qed

lemma memory_totals:
  assumes "store_ok opts m"
  shows "es_dropped (memory_stats m i) + length (memory_held m i) = es_lastSeq (memory_stats m i) \<and>
    es_approxBytes (memory_stats m i)
      = int (sum_list (map (\<lambda>x. estimateBytes (sv_event x)) (memory_held m i))) \<and>
    (length (memory_held m i) \<le> 1 \<or>
     enat (length (memory_held m i)) \<le> mo_maxEvents opts \<and>
     (case mo_maxBytes opts of enat b \<Rightarrow> es_approxBytes (memory_stats m i) \<le> int b | \<infinity> \<Rightarrow> True))"
proof (cases "m i")
  case None
  then show ?thesis by (simp add: memory_stats_def memory_held_def)
next
  case (Some s)
  with assms have ok: "session_ok opts s" by (simp add: store_ok_def)
  then have inv: "session_inv s" by (simp add: session_ok_def)
  then have "map rt_bytes (live s) = map (\<lambda>r. estimateBytes (sv_event (rt_stored r))) (live s)"
    unfolding session_inv_def by auto
  with inv Some have "es_dropped (memory_stats m i) + length (memory_held m i) = es_lastSeq (memory_stats m i)"
    and "es_approxBytes (memory_stats m i)
      = int (sum_list (map (\<lambda>x. estimateBytes (sv_event x)) (memory_held m i)))"
    unfolding session_inv_def by (auto simp: memory_stats_def memory_held_def Let_def comp_def)
  moreover have "length (memory_held m i) \<le> 1 \<or>
     enat (length (memory_held m i)) \<le> mo_maxEvents opts \<and>
     (case mo_maxBytes opts of enat b \<Rightarrow> es_approxBytes (memory_stats m i) \<le> int b | \<infinity> \<Rightarrow> True)"
    using ok Some unfolding session_ok_def over_budget_live
    by (cases "mo_maxBytes opts")
      (auto simp: memory_stats_def memory_held_def Let_def simp del: live_length)
  ultimately show ?thesis by blast
qed

text \<open>
  After any life of appends and drops, what a session still holds is the unbroken run
  of numbers after those it dropped up to the last one assigned, the byte count is the sum
  over exactly those events, and more than one event is held only within both budgets.
\<close>

theorem memory_store_contiguous:
  "let m = run_store opts ops; xs = memory_held m i; st = memory_stats m i
   in map sv_seq xs = [es_dropped st + 1..<es_lastSeq st + 1] \<and> es_count st = length xs \<and>
      es_approxBytes st = int (sum_list (map (\<lambda>x. estimateBytes (sv_event x)) xs)) \<and>
      (length xs \<le> 1 \<or> enat (length xs) \<le> mo_maxEvents opts \<and>
        (case mo_maxBytes opts of enat b \<Rightarrow> es_approxBytes st \<le> int b | \<infinity> \<Rightarrow> True))"
proof -
  note ok = run_store_ok [of opts ops]
  have "Suc (es_lastSeq (memory_stats (run_store opts ops) i)) - length (memory_held (run_store opts ops) i)
      = es_dropped (memory_stats (run_store opts ops) i) + 1"
    using memory_totals [OF ok, of i] by linarith
  then show ?thesis
    using memory_totals [OF ok, of i] mem.held_seqs [OF ok, of i] mem.stats_held [OF ok, of i]
    by (simp add: Let_def del: upt_Suc)
qed

text \<open>
  C24. A reader that pages from its cursor, with any byte budget and any limit that admits
  an event, gets every event after the cursor that is still held, once and in order, after
  at most one page for each of them.
\<close>

theorem reader_catches_up:
  assumes "store_ok opts m" and "0 < limit"
    and "length (filter (\<lambda>e. c < int (sv_seq e)) (memory_held m i)) < fuel"
  shows "read_all (\<lambda>c. memory_read m i c limit maxBytes) fuel c
    = filter (\<lambda>e. c < int (sv_seq e)) (memory_held m i)"
  using assms by (rule mem.read_all_complete)

text \<open>
  C16. A client whose cursor the log still covers, that catches up and then subscribes,
  sees every number after its cursor exactly once and in order, across the replayed and
  the live events, even when other listeners throw and are evicted.
\<close>

theorem resume_is_gap_free:
  assumes "store_ok opts (sl_store g)" and "distinct (sl_listeners g)" and "l \<notin> set (sl_listeners g)"
    and "\<forall>e. \<not> throws l e" and "0 < limit"
    and "oldestAvailable (memory_stats (sl_store g) i) \<le> c + 1"
    and "c \<le> es_lastSeq (memory_stats (sl_store g) i)"
    and "es_lastSeq (memory_stats (sl_store g) i) < fuel"
  shows "map sv_seq (read_all (\<lambda>c. memory_read (sl_store g) i c limit maxBytes) fuel (int c)
      @ heard_by l (fst (log_run (memory_append opts i) throws es (log_subscribe l g))))
    = [c + 1..<es_lastSeq (memory_stats (sl_store g) i) + 1 + length es]"
proof -
  obtain calls g' where run:
    "log_run (memory_append opts i) throws es (log_subscribe l g) = (calls, g')" by fastforce
  from mem.resume_without_gap [OF assms(1-7) this assms(8)] show ?thesis by (simp only: run fst_conv)
qed

definition line_event :: session_event where
  "line_event = AgentLog \<lparr>al_line = asc ''hello''\<rparr>"

definition small_store :: memory_store where
  "small_store = run_store (default_options\<lparr>mo_maxEvents := 2\<rparr>)
     [AppendOp [] 1 line_event, AppendOp [] 2 line_event, AppendOp [] 3 line_event]"

lemma small_store_values:
  "map sv_seq (memory_held small_store []) = [2, 3]"
  "memory_stats small_store []
    = \<lparr>es_firstSeq = 2, es_lastSeq = 3, es_count = 2, es_dropped = 1, es_approxBytes = 138\<rparr>"
  by (simp_all add: small_store_def run_store_def line_event_def memory_append_def Let_def
      stateFor_def fresh_session_def record_event_def evict_def evict_loop.simps over_budget_def
      evict_one_def compact_events_def COMPACT_THRESHOLD_def default_options_def
      DEFAULT_MAX_EVENT_BYTES_def truncateEvent_def memory_held_def memory_stats_def live_def
      numeral_eq_enat one_enat_def)

theorem reader_catches_up_witness:
  "map sv_seq (read_all (\<lambda>c. memory_read small_store [] c 1 0) 3 0) = [2, 3]"
proof -
  have "store_ok (default_options\<lparr>mo_maxEvents := 2\<rparr>) small_store"
    unfolding small_store_def by (rule run_store_ok)
  moreover have "length (filter (\<lambda>e. 0 < int (sv_seq e)) (memory_held small_store [])) < 3"
    using small_store_values(1) length_map [of sv_seq "memory_held small_store []"]
    by (intro le_less_trans [OF length_filter_le]) simp
  ultimately have "read_all (\<lambda>c. memory_read small_store [] c 1 0) 3 0
      = filter (\<lambda>e. 0 < int (sv_seq e)) (memory_held small_store [])"
    by (intro reader_catches_up) auto
  also have "map sv_seq \<dots> = filter (\<lambda>n. 0 < n) (map sv_seq (memory_held small_store []))"
    by (simp add: filter_map comp_def)
  finally show ?thesis by (simp add: small_store_values)
qed

theorem resume_is_gap_free_witness:
  "map sv_seq (read_all (\<lambda>c. memory_read small_store [] c 5 100) 4 (int 1)
      @ heard_by 7 (fst (log_run (memory_append default_options []) (\<lambda>l e. l = 3) [(4, line_event)]
          (log_subscribe 7 \<lparr>sl_store = small_store, sl_listeners = [3, 4]\<rparr>))))
    = [2, 3, 4]"
proof -
  have "store_ok default_options small_store"
    using run_store_ok [of "default_options\<lparr>mo_maxEvents := 2\<rparr>"
        "[AppendOp [] 1 line_event, AppendOp [] 2 line_event, AppendOp [] 3 line_event]"]
    unfolding small_store_def [symmetric]
    by (simp add: store_ok_def session_ok_def over_budget_def default_options_def)
  then show ?thesis
    using resume_is_gap_free [of default_options "\<lparr>sl_store = small_store, sl_listeners = [3, 4]\<rparr>" 7
        "\<lambda>l e. l = 3" 5 "[]" 1 4 100 "[(4, line_event)]"]
    by (simp add: small_store_values oldestAvailable_def upt_rec)
qed

end
