(* ===== verification/EventQueue.thy ===== *)
theory EventQueue
  imports Events
begin

text \<open>
  The hand-over queue between an agent connection and whoever reads its events:
  \<open>class EventQueue\<close> of \<open>src/src/session.ts\<close>.

  A promise is named by the claim it was asked under and a number of its own; each
  operation yields its result, the promises it settled with what they got, and the queue
  after it. \<open>CLOSED\<close>, which the source recognises by identity, is an answer of its own.
\<close>

subsection \<open>The queue\<close>

definition MAX_BUFFERED_EVENTS :: nat where
  "MAX_BUFFERED_EVENTS = 2000"

type_synonym promise = "nat \<times> nat"

datatype answer = Given session_event | Displaced | ClosedMarker

definition isSessionClosed :: "answer \<Rightarrow> bool" where
  "isSessionClosed a \<longleftrightarrow> a = ClosedMarker"

record event_queue =
  q_buffered :: "session_event list"
  q_waiting :: "promise option"
  q_closed :: bool
  q_reader :: nat
  q_turnHolds :: bool

definition new_queue :: event_queue where
  "new_queue = \<lparr>q_buffered = [], q_waiting = None, q_closed = False, q_reader = 0, q_turnHolds = False\<rparr>"

datatype queue_error = TurnAlreadyHolds

type_synonym settled = "(promise \<times> answer) list"

definition settle :: "promise option \<Rightarrow> answer \<Rightarrow> settled" where
  "settle w a = (case w of None \<Rightarrow> [] | Some p \<Rightarrow> [(p, a)])"

definition handover :: "event_queue \<Rightarrow> nat \<times> settled \<times> event_queue" where
  "handover q = (q_reader q + 1, settle (q_waiting q) Displaced,
     q\<lparr>q_reader := q_reader q + 1, q_waiting := None\<rparr>)"

definition claimForTurn :: "event_queue \<Rightarrow> (queue_error, nat) result \<times> settled \<times> event_queue" where
  "claimForTurn q =
     (if q_turnHolds q then (Inl TurnAlreadyHolds, [], q)
      else let (claim, out, q') = handover (q\<lparr>q_turnHolds := True\<rparr>) in (Inr claim, out, q'))"

definition claimForIdle :: "event_queue \<Rightarrow> nat option \<times> settled \<times> event_queue" where
  "claimForIdle q =
     (if q_turnHolds q then (None, [], q)
      else let (claim, out, q') = handover q in (Some claim, out, q'))"

definition release :: "nat \<Rightarrow> event_queue \<Rightarrow> event_queue" where
  "release claim q = (if claim \<noteq> q_reader q then q else q\<lparr>q_turnHolds := False\<rparr>)"

fun droppable :: "session_event \<Rightarrow> bool" where
  "droppable (AgentLog e) = True"
| "droppable (OtherUpdate e) = True"
| "droppable _ = False"

text \<open>\<open>findIndex\<close> with \<open>splice(i, 1)\<close>: the first match taken out.\<close>

fun remove_first :: "('a \<Rightarrow> bool) \<Rightarrow> 'a list \<Rightarrow> 'a list" where
  "remove_first P [] = []"
| "remove_first P (x # xs) = (if P x then xs else x # remove_first P xs)"

definition overflow_notice :: session_event where
  "overflow_notice = ErrorEv \<lparr>er_text = asc ''event dropped: session queue overflow'', er_data = JNull\<rparr>"

definition enqueue :: "session_event \<Rightarrow> session_event list \<Rightarrow> session_event list" where
  "enqueue e buf =
     (let buf' = buf @ [e]
      in if length buf' \<le> MAX_BUFFERED_EVENTS then buf'
         else if \<exists>x\<in>set buf'. droppable x then remove_first droppable buf'
         else tl buf' @ [overflow_notice])"

definition queue_push :: "session_event \<Rightarrow> event_queue \<Rightarrow> settled \<times> event_queue" where
  "queue_push e q =
     (if q_closed q then ([], q)
      else case q_waiting q of
        Some p \<Rightarrow> ([(p, Given e)], q\<lparr>q_waiting := None\<rparr>)
      | None \<Rightarrow> ([], q\<lparr>q_buffered := enqueue e (q_buffered q)\<rparr>))"

definition queue_next :: "promise \<Rightarrow> event_queue \<Rightarrow> settled \<times> event_queue" where
  "queue_next p q =
     (if fst p \<noteq> q_reader q then ([(p, Displaced)], q)
      else case q_buffered q of
        e # es \<Rightarrow> ([(p, Given e)], q\<lparr>q_buffered := es\<rparr>)
      | [] \<Rightarrow> if q_closed q then ([(p, ClosedMarker)], q) else ([], q\<lparr>q_waiting := Some p\<rparr>))"

definition queue_close :: "event_queue \<Rightarrow> settled \<times> event_queue" where
  "queue_close q = (settle (q_waiting q) ClosedMarker, q\<lparr>q_closed := True, q_waiting := None\<rparr>)"

lemmas queue_defs = handover_def claimForTurn_def claimForIdle_def release_def queue_push_def
  queue_next_def queue_close_def settle_def

subsection \<open>Runs\<close>

datatype queue_op =
    ClaimTurn | ClaimIdle | Release nat | Push session_event | Next promise | Close

fun queue_step :: "queue_op \<Rightarrow> event_queue \<Rightarrow> settled \<times> event_queue" where
  "queue_step ClaimTurn q = snd (claimForTurn q)"
| "queue_step ClaimIdle q = snd (claimForIdle q)"
| "queue_step (Release c) q = ([], release c q)"
| "queue_step (Push e) q = queue_push e q"
| "queue_step (Next p) q = queue_next p q"
| "queue_step Close q = queue_close q"

text \<open>Every answer with the claim that owned the queue when it was given.\<close>

fun queue_run :: "queue_op list \<Rightarrow> event_queue \<Rightarrow> (nat \<times> promise \<times> answer) list \<times> event_queue" where
  "queue_run [] q = ([], q)"
| "queue_run (p # ps) q =
     (let (out, q') = queue_step p q; (later, q'') = queue_run ps q'
      in (map (Pair (q_reader q')) out @ later, q''))"

definition queue_inv :: "event_queue \<Rightarrow> bool" where
  "queue_inv q \<longleftrightarrow>
     (case q_waiting q of None \<Rightarrow> True
      | Some (c, k) \<Rightarrow> c = q_reader q \<and> q_buffered q = [] \<and> \<not> q_closed q)"

lemma new_queue_inv: "queue_inv new_queue"
  by (simp add: queue_inv_def new_queue_def)

lemma queue_step_inv:
  "queue_inv q \<Longrightarrow> queue_inv (snd (queue_step p q))"
  by (cases p) (auto simp: queue_inv_def queue_defs split: option.splits list.splits prod.splits)

lemma queue_step_owner:
  "queue_inv q \<Longrightarrow> queue_step p q = (out, q') \<Longrightarrow> ((c, k), a) \<in> set out \<Longrightarrow>
    (c = q_reader q' \<longrightarrow> a \<noteq> Displaced) \<and> (c \<noteq> q_reader q' \<longrightarrow> a = Displaced)"
  by (cases p) (auto simp: queue_inv_def queue_defs split: option.splits list.splits if_splits)

text \<open>What was offered to an open queue, and what its readers were given.\<close>

fun offered :: "bool \<Rightarrow> queue_op list \<Rightarrow> session_event list" where
  "offered shut [] = []"
| "offered shut (Push e # ps) = (if shut then offered shut ps else e # offered shut ps)"
| "offered shut (Close # ps) = offered True ps"
| "offered shut (_ # ps) = offered shut ps"

fun given :: "answer \<Rightarrow> session_event list" where
  "given (Given e) = [e]"
| "given _ = []"

definition given_events :: "(nat \<times> promise \<times> answer) list \<Rightarrow> session_event list" where
  "given_events out = concat (map (\<lambda>(r, p, a). given a) out)"

lemma given_events_append [simp]: "given_events (xs @ ys) = given_events xs @ given_events ys"
  by (simp add: given_events_def)

lemma queue_step_events:
  assumes "queue_inv q" and "queue_step p q = (out, q')"
    and "(\<exists>e. p = Push e) \<longrightarrow> length (q_buffered q) < MAX_BUFFERED_EVENTS"
  shows "given_events (map (Pair r) out) @ q_buffered q' = q_buffered q @ offered (q_closed q) [p] \<and>
    offered (q_closed q) (p # ps) = offered (q_closed q) [p] @ offered (q_closed q') ps"
  using assms
  by (cases p) (auto simp: queue_inv_def queue_defs given_events_def enqueue_def Let_def
      split: option.splits list.splits if_splits)

text \<open>Every event that is buffered finds the buffer below its limit.\<close>

fun roomy :: "queue_op list \<Rightarrow> event_queue \<Rightarrow> bool" where
  "roomy [] q \<longleftrightarrow> True"
| "roomy (p # ps) q \<longleftrightarrow> ((\<exists>e. p = Push e) \<longrightarrow> length (q_buffered q) < MAX_BUFFERED_EVENTS) \<and> roomy ps (snd (queue_step p q))"

lemma queue_run_events:
  "queue_inv q \<Longrightarrow> roomy ps q \<Longrightarrow> queue_run ps q = (out, q') \<Longrightarrow>
    given_events out @ q_buffered q' = q_buffered q @ offered (q_closed q) ps"
proof (induction ps arbitrary: q q' out)
  case (Cons p ps)
  obtain o1 q1 where step: "queue_step p q = (o1, q1)" by fastforce
  obtain o2 q2 where run: "queue_run ps q1 = (o2, q2)" by fastforce
  have split: "offered (q_closed q) (p # ps) = offered (q_closed q) [p] @ offered (q_closed q1) ps"
    using step by (cases p) (auto simp: queue_defs split: option.splits list.splits if_splits)
  have now: "given_events (map (Pair (q_reader q1)) o1) @ q_buffered q1 = q_buffered q @ offered (q_closed q) [p]"
    using queue_step_events [OF Cons.prems(1) step, THEN conjunct1] Cons.prems(2) by auto
  have "queue_inv q1" "roomy ps q1" using queue_step_inv [OF Cons.prems(1), of p] Cons.prems(2) step by simp_all
  note later = Cons.IH [OF this run]
  have out: "out = map (Pair (q_reader q1)) o1 @ o2" "q' = q2" using Cons.prems(3) by (simp_all add: step run)
  have "given_events out @ q_buffered q' = (given_events (map (Pair (q_reader q1)) o1) @ q_buffered q1) @ offered (q_closed q1) ps"
    by (simp add: out later)
  also have "\<dots> = q_buffered q @ offered (q_closed q) (p # ps)" by (metis now split append_assoc)
  finally show ?case .
qed (simp add: given_events_def)

lemma roomy_prefixes:
  "\<forall>k e rest. drop k ps = Push e # rest \<longrightarrow> length (q_buffered (snd (queue_run (take k ps) q))) < MAX_BUFFERED_EVENTS \<Longrightarrow> roomy ps q"
proof (induction ps arbitrary: q)
  case (Cons p ps)
  have "length (q_buffered q) < MAX_BUFFERED_EVENTS" if "p = Push e" for e
    using Cons.prems [rule_format, of 0 e ps] that by simp
  moreover have "roomy ps (snd (queue_step p q))"
  proof (rule Cons.IH, intro allI impI)
    fix k e rest assume "drop k ps = Push e # rest"
    with Cons.prems [rule_format, of "Suc k" e rest] show "length (q_buffered (snd (queue_run (take k ps) (snd (queue_step p q))))) < MAX_BUFFERED_EVENTS"
      by (simp add: case_prod_unfold Let_def)
  qed
  ultimately show ?case by auto
qed simp

subsection \<open>Overflow\<close>

lemma length_remove_first: "\<exists>x\<in>set xs. P x \<Longrightarrow> Suc (length (remove_first P xs)) = length xs"
  by (induction xs) auto

lemma remove_first_others: "filter (\<lambda>x. \<not> P x) (remove_first P xs) = filter (\<lambda>x. \<not> P x) xs"
  by (induction xs) auto

text \<open>While something droppable is buffered, a full queue stays full and loses nothing else.\<close>

lemma enqueue_drops:
  assumes "length buf = MAX_BUFFERED_EVENTS" and "\<exists>x\<in>set (buf @ [e]). droppable x"
  shows "length (enqueue e buf) = MAX_BUFFERED_EVENTS \<and>
    filter (\<lambda>x. \<not> droppable x) (enqueue e buf) = filter (\<lambda>x. \<not> droppable x) (buf @ [e])"
  using assms length_remove_first [OF assms(2)]
  by (simp add: enqueue_def Let_def remove_first_others del: set_append)

text \<open>
  With nothing droppable the oldest event goes and two come in: the new one and a notice.
\<close>

lemma enqueue_grows:
  assumes "MAX_BUFFERED_EVENTS \<le> length buf" and "\<forall>x\<in>set (buf @ [e]). \<not> droppable x"
  shows "enqueue e buf = tl buf @ [e, overflow_notice]"
  using assms by (cases buf) (auto simp: enqueue_def Let_def MAX_BUFFERED_EVENTS_def)

fun push_all :: "session_event list \<Rightarrow> event_queue \<Rightarrow> event_queue" where
  "push_all [] q = q"
| "push_all (e # es) q = push_all es (snd (queue_push e q))"

lemma push_all_grows:
  assumes "\<not> q_closed q" and "q_waiting q = None"
    and "\<forall>x\<in>set (q_buffered q) \<union> set es. \<not> droppable x" and "MAX_BUFFERED_EVENTS \<le> length (q_buffered q)"
  shows "length (q_buffered (push_all es q)) = length (q_buffered q) + length es"
  using assms
proof (induction es arbitrary: q)
  case (Cons e es)
  have buf: "enqueue e (q_buffered q) = tl (q_buffered q) @ [e, overflow_notice]"
    using Cons.prems by (intro enqueue_grows) auto
  then have pushed: "snd (queue_push e q) = q\<lparr>q_buffered := tl (q_buffered q) @ [e, overflow_notice]\<rparr>"
    using Cons.prems by (simp add: queue_push_def)
  have "q_buffered q \<noteq> []" using Cons.prems(4) by (auto simp: MAX_BUFFERED_EVENTS_def)
  then have len: "length (tl (q_buffered q) @ [e, overflow_notice]) = Suc (length (q_buffered q))"
    by (cases "q_buffered q") auto
  have "length (q_buffered (push_all es (snd (queue_push e q))))
      = length (tl (q_buffered q) @ [e, overflow_notice]) + length es"
    using Cons.prems len unfolding pushed
    by (subst Cons.IH) (auto simp: overflow_notice_def dest: list.set_sel(2) [rotated])
  with len show ?case by simp
qed simp

subsection \<open>Properties\<close>

text \<open>
  Whatever the order of claims, pushes, reads and the close, a reader whose claim is
  not the current one is never given an event or the end of the queue, and the current
  reader is never told it was displaced.
\<close>

theorem only_the_owner_reads:
  assumes "(owner, (claim, k), a) \<in> set (fst (queue_run ps new_queue))"
  shows "(a = Displaced) = (claim \<noteq> owner)"
proof -
  have "(a = Displaced) = (claim \<noteq> owner)"
    if "queue_inv q" "(owner, (claim, k), a) \<in> set (fst (queue_run ps q))" for q
    using that
  proof (induction ps arbitrary: q)
    case (Cons p ps)
    obtain o1 q1 where step: "queue_step p q = (o1, q1)" by fastforce
    obtain o2 q2 where run: "queue_run ps q1 = (o2, q2)" by fastforce
    have "queue_inv q1" using queue_step_inv [OF Cons.prems(1), of p] step by simp
    then show ?case
      using Cons.prems Cons.IH [of q1] queue_step_owner [OF Cons.prems(1) step, of claim k a]
      by (auto simp: step run)
  qed simp
  from this [OF new_queue_inv assms] show ?thesis .
qed

theorem only_the_owner_reads_witness:
  "(1, (0, 0), Displaced) \<in> set (fst (queue_run [Next (0, 0), ClaimTurn] new_queue)) \<and>
    (Displaced = Displaced) = ((0 :: nat) \<noteq> 1)"
proof -
  have "(1, (0, 0), Displaced) \<in> set (fst (queue_run [Next (0, 0), ClaimTurn] new_queue))"
    by (simp add: queue_defs new_queue_def Let_def)
  with only_the_owner_reads [OF this] show ?thesis by simp
qed

text \<open>
  C19. Up to the buffer's limit nothing is lost, repeated or reordered by any change of
  hands: as long as every event that is offered finds fewer than 2000 waiting, however many were
  offered and taken before, what readers were given followed by what is still buffered is what was
  offered before the close.
\<close>

theorem queue_loses_nothing:
  assumes "\<forall>k e rest. drop k ps = Push e # rest \<longrightarrow> length (q_buffered (snd (queue_run (take k ps) new_queue))) < MAX_BUFFERED_EVENTS"
  shows "given_events (fst (queue_run ps new_queue)) @ q_buffered (snd (queue_run ps new_queue))
    = offered False ps"
  using queue_run_events [OF new_queue_inv roomy_prefixes prod.collapse [symmetric], of ps] assms
  by (simp add: new_queue_def)

theorem queue_loses_nothing_witness:
  "given_events (fst (queue_run [Push overflow_notice, ClaimIdle, Next (1, 0), ClaimTurn, Next (2, 0), Push overflow_notice] new_queue))
      @ q_buffered (snd (queue_run [Push overflow_notice, ClaimIdle, Next (1, 0), ClaimTurn, Next (2, 0), Push overflow_notice] new_queue))
    = [overflow_notice, overflow_notice]"
proof -
  let ?ps = "[Push overflow_notice, ClaimIdle, Next (1, 0), ClaimTurn, Next (2, 0), Push overflow_notice]"
  have "length (q_buffered (snd (queue_run (take k ?ps) new_queue))) < MAX_BUFFERED_EVENTS" if "drop k ?ps = Push e # rest" for k e rest
  proof -
    have "k < length ?ps" using that by (metis drop_all list.distinct(1) not_le)
    then consider "k = 0" | "k = 1" | "k = 2" | "k = 3" | "k = 4" | "k = 5" by fastforce
    then show ?thesis using that by cases (simp_all add: queue_defs new_queue_def MAX_BUFFERED_EVENTS_def enqueue_def Let_def)
  qed
  then have "given_events (fst (queue_run ?ps new_queue)) @ q_buffered (snd (queue_run ?ps new_queue)) = offered False ?ps"
    by (intro queue_loses_nothing allI impI)
  moreover have "offered False ?ps = [overflow_notice, overflow_notice]" by simp
  ultimately show ?thesis by (simp only:)
qed

text \<open>
  The cap does not cap: once an unread queue is full of events none of which may be
  dropped, every further one of them makes it longer by one, because the notice that
  records the loss is appended beside the event that caused it.
\<close>

theorem overflow_is_unbounded:
  assumes "length buf = MAX_BUFFERED_EVENTS" and "\<forall>x\<in>set buf. \<not> droppable x" and "\<not> droppable e"
  shows "length (q_buffered (push_all (replicate n e) (new_queue\<lparr>q_buffered := buf\<rparr>)))
    = MAX_BUFFERED_EVENTS + n"
  using assms by (subst push_all_grows) (auto simp: new_queue_def)

theorem overflow_is_unbounded_witness:
  "length (q_buffered (push_all (replicate 500 overflow_notice)
      (new_queue\<lparr>q_buffered := replicate 2000 overflow_notice\<rparr>))) = 2500"
  using overflow_is_unbounded [of "replicate 2000 overflow_notice" overflow_notice 500]
  by (simp add: MAX_BUFFERED_EVENTS_def overflow_notice_def)

end
