(* ===== verification/AgentBounds.thy ===== *)
theory AgentBounds
  imports Events
begin

text \<open>
  What an agent says about itself, cut to what this system will carry: the projections of
  \<open>src/src/session.ts\<close> from the ACP vocabulary to the event vocabulary. Configuration
  (\<open>toModes\<close>, \<open>toConfigOptions\<close> with \<open>headChoices\<close> and
  \<open>fitConfigBytes\<close>), commands (\<open>toCommands\<close>), elicitation forms
  (\<open>toElicitationForm\<close>) and tool output (\<open>toolOutput\<close>).

  The ACP inputs are records where the SDK's own validation gives their fields a type, and
  JSON values where the source tests the type of each field itself. Object identity in
  \<open>fitConfigBytes\<close> is the index of the option in its list.
\<close>

subsection \<open>Limits\<close>

definition MAX_CONFIG_OPTIONS :: nat where "MAX_CONFIG_OPTIONS = 32"
definition MAX_CONFIG_MODES :: nat where "MAX_CONFIG_MODES = 32"
definition MAX_CONFIG_CHOICES :: nat where "MAX_CONFIG_CHOICES = 2048"
definition MAX_CONFIG_ID_CHARS :: nat where "MAX_CONFIG_ID_CHARS = 256"
definition MAX_CONFIG_NAME_CHARS :: nat where "MAX_CONFIG_NAME_CHARS = 256"
definition MAX_CONFIG_DESCRIPTION_CHARS :: nat where "MAX_CONFIG_DESCRIPTION_CHARS = 512"
definition MAX_CONFIG_BYTES :: nat where "MAX_CONFIG_BYTES = 256 * 1024"
definition MAX_AGENT_COMMANDS :: nat where "MAX_AGENT_COMMANDS = 256"
definition MAX_COMMAND_NAME_CHARS :: nat where "MAX_COMMAND_NAME_CHARS = 64"
definition MAX_COMMAND_DESCRIPTION_CHARS :: nat where "MAX_COMMAND_DESCRIPTION_CHARS = 200"
definition MAX_COMMAND_HINT_CHARS :: nat where "MAX_COMMAND_HINT_CHARS = 100"

lemmas config_limits = MAX_CONFIG_OPTIONS_def MAX_CONFIG_MODES_def MAX_CONFIG_CHOICES_def
  MAX_CONFIG_ID_CHARS_def MAX_CONFIG_NAME_CHARS_def MAX_CONFIG_DESCRIPTION_CHARS_def

subsection \<open>Configuration\<close>

record acp_choice =
  ach_value :: ustring
  ach_name :: ustring
  ach_description :: "ustring option"

datatype acp_select_entry = Ungrouped acp_choice | Grouped ustring "acp_choice list"

record acp_config_option =
  aco_id :: ustring
  aco_name :: ustring
  aco_description :: "ustring option"
  aco_category :: "ustring option"
  aco_type :: config_kind
  aco_currentValue :: config_value
  aco_options :: "acp_select_entry list"

record acp_mode =
  amo_id :: ustring
  amo_name :: ustring
  amo_description :: "ustring option"

record acp_modes =
  ams_current :: ustring
  ams_available :: "acp_mode list"

definition clip_opt :: "ustring option \<Rightarrow> nat \<Rightarrow> ustring option" where
  "clip_opt s n = map_option (\<lambda>t. clip t n) s"

definition toChoice :: "acp_choice \<Rightarrow> ustring option \<Rightarrow> agent_config_choice" where
  "toChoice c g = \<lparr>cc_value = ach_value c, cc_name = clip (ach_name c) MAX_CONFIG_NAME_CHARS,
     cc_description = clip_opt (ach_description c) MAX_CONFIG_DESCRIPTION_CHARS,
     cc_group = clip_opt g MAX_CONFIG_NAME_CHARS\<rparr>"

fun toChoices :: "acp_select_entry list \<Rightarrow> agent_config_choice list" where
  "toChoices [] = []"
| "toChoices (Grouped g cs # es) = map (\<lambda>c. toChoice c (Some g)) cs @ toChoices es"
| "toChoices (Ungrouped c # es) = toChoice c None # toChoices es"

definition selected :: "agent_config_option \<Rightarrow> agent_config_choice \<Rightarrow> bool" where
  "selected p c \<longleftrightarrow> CV_text (cc_value c) = co_value p"

definition headChoices :: "agent_config_option \<Rightarrow> nat \<Rightarrow> agent_config_option" where
  "headChoices p keep =
     (let head = take keep (co_choices p);
          head = (if head \<noteq> [] \<and> \<not> list_ex (selected p) head
                  then case find (selected p) (co_choices p) of
                      Some c \<Rightarrow> head[length head - 1 := c]
                    | None \<Rightarrow> head
                  else head)
      in p\<lparr>co_choices := head, co_truncated := True\<rparr>)"

text \<open>What \<open>JSON.stringify\<close> sees of the options.\<close>

definition opt_json :: "ustring option \<Rightarrow> json" where
  "opt_json s = (case s of None \<Rightarrow> JNull | Some t \<Rightarrow> JStr t)"

definition choice_json :: "agent_config_choice \<Rightarrow> json" where
  "choice_json c = JObj [(asc ''value'', JStr (cc_value c)), (asc ''name'', JStr (cc_name c)),
     (asc ''description'', opt_json (cc_description c)), (asc ''group'', opt_json (cc_group c))]"

definition option_json :: "agent_config_option \<Rightarrow> json" where
  "option_json p = JObj ([(asc ''id'', JStr (co_id p)), (asc ''name'', JStr (co_name p)),
     (asc ''description'', opt_json (co_description p)), (asc ''category'', opt_json (co_category p)),
     (asc ''kind'', JStr (case co_kind p of CK_select \<Rightarrow> asc ''select'' | CK_boolean \<Rightarrow> asc ''boolean'')),
     (asc ''value'', case co_value p of CV_text t \<Rightarrow> JStr t | CV_bool b \<Rightarrow> JBool b),
     (asc ''choices'', JArr (map choice_json (co_choices p)))]
     @ (if co_truncated p then [(asc ''truncated'', JBool True)] else []))"

definition config_bytes :: "agent_config_option list \<Rightarrow> nat" where
  "config_bytes ps = jsonBytes (JArr (map option_json ps))"

fun widest_in :: "nat \<Rightarrow> (nat \<times> agent_config_option) option \<Rightarrow> agent_config_option list
    \<Rightarrow> (nat \<times> agent_config_option) option" where
  "widest_in i w [] = w"
| "widest_in i w (p # ps) =
     widest_in (Suc i)
       (if 1 < length (co_choices p)
           \<and> (case w of None \<Rightarrow> True | Some (j, q) \<Rightarrow> length (co_choices q) < length (co_choices p))
        then Some (i, p) else w) ps"

lemma widest_in_spec:
  "widest_in i w ps = Some (j, q) \<Longrightarrow>
    w = Some (j, q) \<or> i \<le> j \<and> j < i + length ps \<and> ps ! (j - i) = q \<and> 1 < length (co_choices q)"
proof (induction i w ps rule: widest_in.induct)
  case (2 i w p ps)
  from "2.IH" [OF "2.prems" [unfolded widest_in.simps]] show ?case
    by (auto simp: nth_Cons' Suc_le_eq split: if_splits)
qed simp

lemma widest_in_none: "widest_in i w ps = None \<Longrightarrow> w = None \<and> (\<forall>p\<in>set ps. length (co_choices p) \<le> 1)"
  by (induction i w ps rule: widest_in.induct) (auto split: if_splits)

lemma length_headChoices: "length (co_choices (headChoices p k)) = min k (length (co_choices p))"
  by (auto simp: headChoices_def Let_def split: option.split)

lemma sum_list_update_less:
  "i < length xs \<Longrightarrow> (f y :: nat) < f (xs ! i) \<Longrightarrow>
    sum_list (map f (xs[i := y])) < sum_list (map f xs)"
  by (induction xs arbitrary: i) (auto split: nat.split)

function fitConfigBytes :: "agent_config_option list \<Rightarrow> agent_config_option list" where
  "fitConfigBytes ps =
     (if config_bytes ps \<le> MAX_CONFIG_BYTES then ps
      else case widest_in 0 None ps of
        None \<Rightarrow> ps
      | Some (i, p) \<Rightarrow> fitConfigBytes (ps[i := headChoices p (length (co_choices p) div 2)]))"
  by pat_completeness auto
termination
proof (relation "measure (\<lambda>ps. sum_list (map (\<lambda>p. length (co_choices p)) ps))", goal_cases)
  case (2 ps w i p)
  then have "i < length ps" "ps ! i = p" "1 < length (co_choices p)"
    using widest_in_spec [of 0 None ps i p] by auto
  then show ?case
    by (auto intro!: sum_list_update_less simp: length_headChoices)
qed simp

declare fitConfigBytes.simps [simp del]

definition toModes :: "acp_modes option \<Rightarrow> agent_modes option" where
  "toModes modes =
     (case modes of None \<Rightarrow> None
      | Some m \<Rightarrow>
          if length (ams_current m) > MAX_CONFIG_ID_CHARS then None
          else Some \<lparr>modes_current = ams_current m,
            modes_available = map (\<lambda>a. \<lparr>am_id = amo_id a, am_name = clip (amo_name a) MAX_CONFIG_NAME_CHARS,
                am_description = clip_opt (amo_description a) MAX_CONFIG_DESCRIPTION_CHARS\<rparr>)
              (take MAX_CONFIG_MODES
                (filter (\<lambda>a. length (amo_id a) \<le> MAX_CONFIG_ID_CHARS) (ams_available m)))\<rparr>)"

definition all_choices :: "acp_config_option \<Rightarrow> agent_config_choice list" where
  "all_choices a = (if aco_type a = CK_select then toChoices (aco_options a) else [])"

definition bound_option :: "acp_config_option \<Rightarrow> agent_config_option option" where
  "bound_option a =
     (if length (aco_id a) > MAX_CONFIG_ID_CHARS then None
      else if (case aco_currentValue a of CV_text t \<Rightarrow> length t > MAX_CONFIG_ID_CHARS | CV_bool b \<Rightarrow> False)
      then None
      else
        let all = all_choices a;
            kept = filter (\<lambda>c. length (cc_value c) \<le> MAX_CONFIG_ID_CHARS) all;
            flat = \<lparr>co_id = aco_id a, co_name = clip (aco_name a) MAX_CONFIG_NAME_CHARS,
              co_description = clip_opt (aco_description a) MAX_CONFIG_DESCRIPTION_CHARS,
              co_category = clip_opt (aco_category a) MAX_CONFIG_NAME_CHARS,
              co_kind = aco_type a, co_value = aco_currentValue a, co_choices = kept, co_truncated = False\<rparr>
        in Some (if length kept > MAX_CONFIG_CHOICES then headChoices flat MAX_CONFIG_CHOICES
             else if length kept = length all then flat
             else flat\<lparr>co_truncated := True\<rparr>))"

fun bound_options :: "agent_config_option list \<Rightarrow> acp_config_option list \<Rightarrow> agent_config_option list" where
  "bound_options acc [] = acc"
| "bound_options acc (a # as) =
     (if length acc \<ge> MAX_CONFIG_OPTIONS then acc
      else case bound_option a of
        None \<Rightarrow> bound_options acc as
      | Some p \<Rightarrow> bound_options (acc @ [p]) as)"

definition toConfigOptions :: "acp_config_option list option \<Rightarrow> agent_config_option list" where
  "toConfigOptions options =
     fitConfigBytes (bound_options [] (case options of None \<Rightarrow> [] | Some os \<Rightarrow> os))"

subsection \<open>A projected option is what the agent published, or less of it and said so\<close>

definition faithful_option :: "acp_config_option \<Rightarrow> agent_config_option \<Rightarrow> bool" where
  "faithful_option a p \<longleftrightarrow>
     co_id p = aco_id a \<and> co_value p = aco_currentValue a \<and> co_kind p = aco_type a \<and>
     length (co_id p) \<le> MAX_CONFIG_ID_CHARS \<and> length (co_choices p) \<le> MAX_CONFIG_CHOICES \<and>
     set (co_choices p) \<subseteq> {c \<in> set (all_choices a). length (cc_value c) \<le> MAX_CONFIG_ID_CHARS} \<and>
     (co_truncated p \<or> co_choices p = all_choices a) \<and>
     (list_ex (selected p) (all_choices a) \<longrightarrow> list_ex (selected p) (co_choices p))"

lemma selected_headChoices [simp]: "selected (headChoices p k) = selected p"
  by (intro ext) (simp add: selected_def headChoices_def Let_def)

lemma headChoices_subset: "set (co_choices (headChoices p k)) \<subseteq> set (co_choices p)"
proof (cases "find (selected p) (co_choices p)")
  case None
  then show ?thesis by (simp add: headChoices_def Let_def set_take_subset)
next
  case (Some c)
  then have "c \<in> set (co_choices p)" by (auto simp: find_Some_iff)
  then have "set ((take k (co_choices p))[n := c]) \<subseteq> set (co_choices p)" for n
    using set_update_subset_insert [of "take k (co_choices p)" n c] set_take_subset [of k "co_choices p"]
    by blast
  with Some show ?thesis by (simp add: headChoices_def Let_def set_take_subset)
qed

lemma headChoices_selected:
  assumes "0 < k" and "list_ex (selected p) (co_choices p)"
  shows "list_ex (selected p) (co_choices (headChoices p k))"
proof (cases "list_ex (selected p) (take k (co_choices p))")
  case True
  then show ?thesis by (simp add: headChoices_def Let_def)
next
  case False
  from assms obtain c where c: "find (selected p) (co_choices p) = Some c" "selected p c"
    by (cases "find (selected p) (co_choices p)") (auto simp: find_None_iff find_Some_iff list_ex_iff)
  let ?head = "take k (co_choices p)"
  have "?head \<noteq> []" using assms by auto
  then have "c \<in> set (?head[length ?head - 1 := c])" by (intro set_update_memI) (simp del: length_take)
  moreover from \<open>?head \<noteq> []\<close> c(1) False
  have "co_choices (headChoices p k) = ?head[length ?head - 1 := c]"
    by (simp add: headChoices_def Let_def)
  ultimately show ?thesis using c(2) unfolding list_ex_iff by metis
qed

lemma headChoices_fields [simp]:
  "co_id (headChoices p k) = co_id p" "co_value (headChoices p k) = co_value p"
  "co_kind (headChoices p k) = co_kind p" "co_truncated (headChoices p k)"
  by (simp_all add: headChoices_def Let_def)

lemma faithful_headChoices:
  assumes "faithful_option a p" and "0 < k"
  shows "faithful_option a (headChoices p k)"
  using assms headChoices_subset [of p k] headChoices_selected [OF assms(2), of p]
  unfolding faithful_option_def by (auto simp: length_headChoices)

lemma faithful_bound_option: "bound_option a = Some p \<Longrightarrow> faithful_option a p"
proof -
  assume bound: "bound_option a = Some p"
  let ?kept = "filter (\<lambda>c. length (cc_value c) \<le> MAX_CONFIG_ID_CHARS) (all_choices a)"
  let ?flat = "\<lparr>co_id = aco_id a, co_name = clip (aco_name a) MAX_CONFIG_NAME_CHARS,
    co_description = clip_opt (aco_description a) MAX_CONFIG_DESCRIPTION_CHARS,
    co_category = clip_opt (aco_category a) MAX_CONFIG_NAME_CHARS,
    co_kind = aco_type a, co_value = aco_currentValue a, co_choices = ?kept, co_truncated = False\<rparr>"
  from bound have fits: "length (aco_id a) \<le> MAX_CONFIG_ID_CHARS"
      "\<And>t. aco_currentValue a = CV_text t \<Longrightarrow> length t \<le> MAX_CONFIG_ID_CHARS"
    and p: "p = (if length ?kept > MAX_CONFIG_CHOICES then headChoices ?flat MAX_CONFIG_CHOICES
      else if length ?kept = length (all_choices a) then ?flat else ?flat\<lparr>co_truncated := True\<rparr>)"
    by (auto simp: bound_option_def Let_def split: if_splits config_value.splits)
  have sel: "list_ex (selected ?flat) (all_choices a) \<Longrightarrow> list_ex (selected ?flat) ?kept"
    using fits(2) by (auto simp: list_ex_iff selected_def)
  have same: "selected (?flat\<lparr>co_truncated := True\<rparr>) = selected ?flat"
    by (intro ext) (simp add: selected_def)
  have all: "length ?kept = length (all_choices a) \<Longrightarrow> ?kept = all_choices a"
    by (metis filter_id_conv length_filter_less less_irrefl)
  show ?thesis
  proof (cases "length ?kept > MAX_CONFIG_CHOICES")
    case True
    have "set (co_choices (headChoices ?flat MAX_CONFIG_CHOICES)) \<subseteq> set ?kept"
      using headChoices_subset [of ?flat MAX_CONFIG_CHOICES] by simp
    with True fits sel headChoices_selected [of MAX_CONFIG_CHOICES ?flat] show ?thesis
      by (auto simp: p faithful_option_def length_headChoices MAX_CONFIG_CHOICES_def)
  next
    case False
    with fits sel same all show ?thesis by (auto simp: p faithful_option_def)
  qed
qed

text \<open>The options that are carried: the first 32 whose identifiers fit.\<close>

definition carried :: "acp_config_option list \<Rightarrow> acp_config_option list" where
  "carried as = take MAX_CONFIG_OPTIONS (filter (\<lambda>a. bound_option a \<noteq> None) as)"

lemma bound_options_carried:
  "length acc \<le> MAX_CONFIG_OPTIONS \<Longrightarrow>
    bound_options acc as = acc @ map (\<lambda>a. the (bound_option a))
      (take (MAX_CONFIG_OPTIONS - length acc) (filter (\<lambda>a. bound_option a \<noteq> None) as))"
proof (induction acc as rule: bound_options.induct)
  case (2 acc a as)
  show ?case
  proof (cases "length acc \<ge> MAX_CONFIG_OPTIONS")
    case False
    then obtain n where n: "MAX_CONFIG_OPTIONS - length acc = Suc n" by (metis Suc_diff_Suc not_le)
    show ?thesis
    proof (cases "bound_option a")
      case None
      with 2 False show ?thesis by simp
    next
      case (Some p)
      from n have "MAX_CONFIG_OPTIONS - length (acc @ [p]) = n" by simp
      with 2 False Some n show ?thesis by simp
    qed
  qed simp
qed simp

lemma faithful_carried:
  "list_all2 faithful_option (carried as) (map (\<lambda>a. the (bound_option a)) (carried as))"
  by (auto simp: list_all2_conv_all_nth carried_def intro!: faithful_bound_option
      dest!: nth_mem in_set_takeD)

lemma fitConfigBytes_faithful:
  "list_all2 faithful_option as ps \<Longrightarrow> list_all2 faithful_option as (fitConfigBytes ps)"
proof (induction ps rule: fitConfigBytes.induct)
  case (1 ps)
  show ?case
  proof (cases "config_bytes ps \<le> MAX_CONFIG_BYTES")
    case True
    with 1 show ?thesis by (simp add: fitConfigBytes.simps [of ps])
  next
    case False
    show ?thesis
    proof (cases "widest_in 0 None ps")
      case None
      with 1 False show ?thesis by (simp add: fitConfigBytes.simps [of ps])
    next
      case (Some w)
      obtain i p where w: "w = (i, p)" by (cases w)
      with Some have i: "i < length ps" "ps ! i = p" "1 < length (co_choices p)"
        using widest_in_spec [of 0 None ps i p] by auto
      have "list_all2 faithful_option as (ps[i := headChoices p (length (co_choices p) div 2)])"
        unfolding list_all2_conv_all_nth
      proof (intro conjI allI impI)
        show "length as = length (ps[i := headChoices p (length (co_choices p) div 2)])"
          using "1.prems" by (simp add: list_all2_lengthD)
        fix j assume "j < length as"
        with i "1.prems" show "faithful_option (as ! j) (ps[i := headChoices p (length (co_choices p) div 2)] ! j)"
          by (cases "j = i") (auto simp: list_all2_conv_all_nth intro!: faithful_headChoices)
      qed
      with "1.IH" [OF False Some w [symmetric]] Some w False show ?thesis
        by (simp add: fitConfigBytes.simps [of ps])
    qed
  qed
qed

lemma fitConfigBytes_fits:
  "config_bytes (fitConfigBytes ps) \<le> MAX_CONFIG_BYTES \<or> (\<forall>p\<in>set (fitConfigBytes ps). length (co_choices p) \<le> 1)"
proof (induction ps rule: fitConfigBytes.induct)
  case (1 ps)
  show ?case
  proof (cases "config_bytes ps \<le> MAX_CONFIG_BYTES \<or> widest_in 0 None ps = None")
    case True
    then show ?thesis
      using widest_in_none [of 0 None ps] by (auto simp: fitConfigBytes.simps [of ps])
  next
    case False
    then obtain i p where "widest_in 0 None ps = Some (i, p)" by auto
    with 1 False show ?thesis by (auto simp: fitConfigBytes.simps [of ps])
  qed
qed

subsection \<open>Commands\<close>

record agent_command =
  cmd_name :: ustring
  cmd_description :: ustring
  cmd_hint :: "ustring option"

record agent_commands =
  cs_commands :: "agent_command list"
  cs_dropped :: nat

fun string_or_empty :: "json option \<Rightarrow> ustring" where
  "string_or_empty (Some (JStr s)) = s"
| "string_or_empty _ = []"

definition command_name :: "json \<Rightarrow> ustring" where
  "command_name entry = js_trim (string_or_empty (field_of entry (asc ''name'')))"

definition command_hint :: "json \<Rightarrow> ustring option" where
  "command_hint entry =
     (case field_of entry (asc ''input'') of
        None \<Rightarrow> None
      | Some input \<Rightarrow>
          (case field_of input (asc ''hint'') of
             Some (JStr h) \<Rightarrow> if h = [] then None else Some (clip h MAX_COMMAND_HINT_CHARS)
           | _ \<Rightarrow> None))"

text \<open>The loop: what is kept, the names seen, the count of what was dropped.\<close>

fun commands_loop :: "agent_command list \<Rightarrow> ustring list \<Rightarrow> nat \<Rightarrow> json list \<Rightarrow> agent_commands" where
  "commands_loop cmds seen dropped [] = \<lparr>cs_commands = cmds, cs_dropped = dropped\<rparr>"
| "commands_loop cmds seen dropped (entry # es) =
     (let name = command_name entry
      in if name = [] \<or> length name > MAX_COMMAND_NAME_CHARS \<or> name \<in> set seen
         then commands_loop cmds seen (dropped + 1) es
         else if length cmds \<ge> MAX_AGENT_COMMANDS then commands_loop cmds seen (dropped + 1) es
         else commands_loop
           (cmds @ [\<lparr>cmd_name = name,
              cmd_description = clip (string_or_empty (field_of entry (asc ''description'')))
                MAX_COMMAND_DESCRIPTION_CHARS,
              cmd_hint = command_hint entry\<rparr>])
           (name # seen) dropped es)"

definition toCommands :: "json list option \<Rightarrow> agent_commands" where
  "toCommands list = commands_loop [] [] 0 (case list of None \<Rightarrow> [] | Some es \<Rightarrow> es)"

definition commands_inv :: "agent_command list \<Rightarrow> ustring list \<Rightarrow> bool" where
  "commands_inv cmds seen \<longleftrightarrow>
     set seen = cmd_name ` set cmds \<and> distinct (map cmd_name cmds) \<and> length cmds \<le> MAX_AGENT_COMMANDS \<and>
     (\<forall>c\<in>set cmds. cmd_name c \<noteq> [] \<and> length (cmd_name c) \<le> MAX_COMMAND_NAME_CHARS \<and>
        js_trim (cmd_name c) = cmd_name c)"

lemma commands_loop_inv:
  "commands_inv cmds seen \<Longrightarrow>
    (let r = commands_loop cmds seen dropped es
     in commands_inv (cs_commands r) (map cmd_name (cs_commands r)) \<and>
        length (cs_commands r) + cs_dropped r = length cmds + dropped + length es)"
proof (induction cmds seen dropped es rule: commands_loop.induct)
  case (1 cmds seen dropped)
  then show ?case by (auto simp: commands_inv_def)
next
  case (2 cmds seen dropped entry es)
  let ?name = "command_name entry"
  let ?cmd = "\<lparr>cmd_name = ?name, cmd_description = clip (string_or_empty (field_of entry (asc ''description'')))
    MAX_COMMAND_DESCRIPTION_CHARS, cmd_hint = command_hint entry\<rparr>"
  have trimmed: "js_trim ?name = ?name" by (simp add: command_name_def)
  show ?case
  proof (cases "?name = [] \<or> length ?name > MAX_COMMAND_NAME_CHARS \<or> ?name \<in> set seen
      \<or> length cmds \<ge> MAX_AGENT_COMMANDS")
    case True
    then have "commands_loop cmds seen dropped (entry # es) = commands_loop cmds seen (dropped + 1) es"
      by (auto simp: Let_def)
    with True "2.IH"(1) [OF refl _ "2.prems"] "2.IH"(2) [OF refl _ _ "2.prems"] show ?thesis
      by (auto simp: Let_def)
  next
    case False
    then have go: "commands_loop cmds seen dropped (entry # es)
        = commands_loop (cmds @ [?cmd]) (?name # seen) dropped es"
      by (simp add: Let_def)
    have "commands_inv (cmds @ [?cmd]) (?name # seen)"
      using "2.prems" False trimmed by (auto simp: commands_inv_def)
    from "2.IH"(3) [OF refl _ _ this] False show ?thesis unfolding go by (auto simp: Let_def)
  qed
qed

subsection \<open>Elicitation forms\<close>

definition MAX_ELICITATION_FIELDS :: nat where "MAX_ELICITATION_FIELDS = 24"
definition MAX_ELICITATION_OPTIONS :: nat where "MAX_ELICITATION_OPTIONS = 24"
definition MAX_ELICITATION_FORM_BYTES :: nat where "MAX_ELICITATION_FORM_BYTES = 32 * 1024"
definition MAX_ELICITATION_VALUE_CHARS :: nat where "MAX_ELICITATION_VALUE_CHARS = 512"
definition MAX_ELICITATION_MESSAGE_CHARS :: nat where "MAX_ELICITATION_MESSAGE_CHARS = 4 * 1024"

text \<open>\<open>ElicitationRefusedError\<close>, with what it complains of.\<close>

datatype refused =
    TooManyFields | TooManyOptions | ValueTooLong | ListWithoutChoices ustring
  | UnknownType ustring "json option" | FormTooLarge

definition clipElicitationMessage :: "json \<Rightarrow> ustring" where
  "clipElicitationMessage message =
     (case message of JStr s \<Rightarrow> clip s MAX_ELICITATION_MESSAGE_CHARS | _ \<Rightarrow> [])"

text \<open>\<open>a ?? b\<close>.\<close>

definition nullish_or :: "json option \<Rightarrow> json option \<Rightarrow> json option" where
  "nullish_or a b = (if a = None \<or> a = Some JNull then b else a)"

fun textOrNull :: "json option \<Rightarrow> ustring option" where
  "textOrNull (Some (JStr s)) = (if s = [] then None else Some s)"
| "textOrNull _ = None"

fun numberOrNull :: "json option \<Rightarrow> json" where
  "numberOrNull (Some (JNum (Some v) t)) = JNum (Some v) t"
| "numberOrNull _ = JNull"

fun array_of :: "json option \<Rightarrow> json list option" where
  "array_of (Some (JArr xs)) = Some xs"
| "array_of _ = None"

definition FORMATS :: "ustring list" where
  "FORMATS = [asc ''email'', asc ''uri'', asc ''date'', asc ''date-time'']"

definition custom_claims :: "(ustring \<times> ustring) list" where
  "custom_claims = [(asc ''_askUserQuestionCustomAnswer'', asc ''isCustomAnswer''),
     (asc ''codex'', asc ''isOtherAnswer'')]"

fun first_claim :: "json \<Rightarrow> (ustring \<times> ustring) list \<Rightarrow> ustring option" where
  "first_claim meta [] = None"
| "first_claim meta ((name, marker) # rest) =
     (case field_of meta name of
        None \<Rightarrow> first_claim meta rest
      | Some claim \<Rightarrow>
          if field_of claim marker = Some (JBool True)
          then (case field_of claim (asc ''questionId'') of
              Some (JStr q) \<Rightarrow> if js_trim q = [] then first_claim meta rest else Some (js_trim q)
            | _ \<Rightarrow> first_claim meta rest)
          else first_claim meta rest)"

definition customAnswerFor :: "json \<Rightarrow> ustring option" where
  "customAnswerFor property =
     (case field_of property (asc ''_meta'') of None \<Rightarrow> None | Some meta \<Rightarrow> first_claim meta custom_claims)"

definition titled_options :: "json list \<Rightarrow> elicitation_option list" where
  "titled_options raws = concat (map (\<lambda>entry.
     case field_of entry (asc ''const'') of
       Some (JStr v) \<Rightarrow> [\<lparr>eo_value = v,
         eo_label = (case textOrNull (field_of entry (asc ''title'')) of Some t \<Rightarrow> t | None \<Rightarrow> v),
         eo_description = textOrNull (field_of entry (asc ''description''))\<rparr>]
     | _ \<Rightarrow> []) raws)"

definition bare_options :: "json list \<Rightarrow> elicitation_option list" where
  "bare_options vs = concat (map (\<lambda>v. case v of
     JStr s \<Rightarrow> [\<lparr>eo_value = s, eo_label = s, eo_description = None\<rparr>] | _ \<Rightarrow> []) vs)"

fun options_loop ::
  "elicitation_option list \<Rightarrow> elicitation_option list \<Rightarrow> (refused, elicitation_option list) result" where
  "options_loop acc [] = Inr acc"
| "options_loop acc (p # ps) =
     (if length (eo_value p) > MAX_ELICITATION_VALUE_CHARS then Inl ValueTooLong
      else if eo_value p \<in> set (map eo_value acc) then options_loop acc ps
      else if length acc \<ge> MAX_ELICITATION_OPTIONS then Inl TooManyOptions
      else options_loop (acc @ [p]) ps)"

definition toElicitationOptions ::
  "json option \<Rightarrow> json option \<Rightarrow> (refused, elicitation_option list option) result" where
  "toElicitationOptions titled bare =
     (case array_of titled of
        Some raws \<Rightarrow> map_sum id Some (options_loop [] (titled_options raws))
      | None \<Rightarrow>
          (case array_of bare of
             Some vs \<Rightarrow> map_sum id Some (options_loop [] (bare_options vs))
           | None \<Rightarrow> Inr None))"

definition emptyToNull :: "elicitation_option list option \<Rightarrow> elicitation_option list option" where
  "emptyToNull ops = (if ops = Some [] then None else ops)"

definition base_field :: "ustring \<Rightarrow> json \<Rightarrow> bool \<Rightarrow> elicitation_kind \<Rightarrow> elicitation_field" where
  "base_field key property required kind =
     \<lparr>ef_key = key, ef_kind = kind, ef_title = textOrNull (field_of property (asc ''title'')),
      ef_description = textOrNull (field_of property (asc ''description'')), ef_required = required,
      ef_options = None, ef_min = JNull, ef_max = JNull, ef_format = None, ef_default = JNull,
      ef_alternativeTo = customAnswerFor property\<rparr>"

definition toElicitationField :: "ustring \<Rightarrow> json \<Rightarrow> bool \<Rightarrow> (refused, elicitation_field) result" where
  "toElicitationField key raw required =
     (let get = (\<lambda>name. field_of raw (asc name)); base = base_field key raw required; type = get ''type''
      in if type = Some (JStr (asc ''string'')) then
           (case toElicitationOptions (get ''oneOf'') (get ''enum'') of
              Inl e \<Rightarrow> Inl e
            | Inr ops \<Rightarrow> Inr ((base EK_string)\<lparr>ef_options := emptyToNull ops,
                ef_min := numberOrNull (get ''minLength''), ef_max := numberOrNull (get ''maxLength''),
                ef_format := (case get ''format'' of
                    Some (JStr f) \<Rightarrow> if f \<in> set FORMATS then Some f else None | _ \<Rightarrow> None),
                ef_default := (case get ''default'' of Some (JStr d) \<Rightarrow> JStr d | _ \<Rightarrow> JNull)\<rparr>))
         else if type = Some (JStr (asc ''number'')) \<or> type = Some (JStr (asc ''integer'')) then
           Inr ((base (if type = Some (JStr (asc ''number'')) then EK_number else EK_integer))\<lparr>
                ef_min := numberOrNull (get ''minimum''), ef_max := numberOrNull (get ''maximum''),
                ef_default := (case get ''default'' of Some (JNum v t) \<Rightarrow> JNum v t | _ \<Rightarrow> JNull)\<rparr>)
         else if type = Some (JStr (asc ''boolean'')) then
           Inr ((base EK_boolean)\<lparr>
                ef_default := (case get ''default'' of Some (JBool b) \<Rightarrow> JBool b | _ \<Rightarrow> JNull)\<rparr>)
         else if type = Some (JStr (asc ''array'')) then
           (let items = (case nullish_or (get ''items'') None of None \<Rightarrow> JObj [] | Some v \<Rightarrow> v)
            in case toElicitationOptions (field_of items (asc ''anyOf'')) (field_of items (asc ''enum'')) of
                 Inl e \<Rightarrow> Inl e
               | Inr ops \<Rightarrow>
                   if ops = None \<or> ops = Some [] then Inl (ListWithoutChoices key)
                   else Inr ((base EK_multi_select)\<lparr>ef_options := ops,
                     ef_min := numberOrNull (nullish_or (field_of items (asc ''minItems'')) (get ''minItems'')),
                     ef_max := numberOrNull (nullish_or (field_of items (asc ''maxItems'')) (get ''maxItems'')),
                     ef_default := (case get ''default'' of
                         Some (JArr ds) \<Rightarrow> JArr (filter (\<lambda>d. case d of JStr s \<Rightarrow> True | _ \<Rightarrow> False) ds)
                       | _ \<Rightarrow> JNull)\<rparr>))
         else Inl (UnknownType key type))"

fun fields_loop ::
  "json list \<Rightarrow> elicitation_field list \<Rightarrow> (ustring \<times> json) list \<Rightarrow> (refused, elicitation_field list) result" where
  "fields_loop required acc [] = Inr acc"
| "fields_loop required acc ((key, property) # rest) =
     (if length acc \<ge> MAX_ELICITATION_FIELDS then Inl TooManyFields
      else case toElicitationField key property (JStr key \<in> set required) of
        Inl e \<Rightarrow> Inl e
      | Inr f \<Rightarrow> fields_loop required (acc @ [f]) rest)"

definition resolve_alternative :: "ustring list \<Rightarrow> elicitation_field \<Rightarrow> elicitation_field" where
  "resolve_alternative keys f =
     (case ef_alternativeTo f of
        None \<Rightarrow> f
      | Some a \<Rightarrow> if a = ef_key f \<or> a \<notin> set keys then f\<lparr>ef_alternativeTo := None\<rparr> else f)"

text \<open>What \<open>JSON.stringify\<close> sees of the form.\<close>

definition elicitation_option_json :: "elicitation_option \<Rightarrow> json" where
  "elicitation_option_json p = JObj [(asc ''value'', JStr (eo_value p)), (asc ''label'', JStr (eo_label p)),
     (asc ''description'', opt_json (eo_description p))]"

definition kind_text :: "elicitation_kind \<Rightarrow> ustring" where
  "kind_text k = (case k of EK_string \<Rightarrow> asc ''string'' | EK_number \<Rightarrow> asc ''number''
     | EK_integer \<Rightarrow> asc ''integer'' | EK_boolean \<Rightarrow> asc ''boolean'' | EK_multi_select \<Rightarrow> asc ''multi_select'')"

definition elicitation_field_json :: "elicitation_field \<Rightarrow> json" where
  "elicitation_field_json f = JObj [(asc ''key'', JStr (ef_key f)), (asc ''title'', opt_json (ef_title f)),
     (asc ''description'', opt_json (ef_description f)), (asc ''required'', JBool (ef_required f)),
     (asc ''alternativeTo'', opt_json (ef_alternativeTo f)), (asc ''kind'', JStr (kind_text (ef_kind f))),
     (asc ''options'', case ef_options f of None \<Rightarrow> JNull | Some ps \<Rightarrow> JArr (map elicitation_option_json ps)),
     (asc ''min'', ef_min f), (asc ''max'', ef_max f), (asc ''format'', opt_json (ef_format f)),
     (asc ''default'', ef_default f)]"

definition form_json :: "elicitation_field list \<Rightarrow> json" where
  "form_json fs = JObj [(asc ''fields'', JArr (map elicitation_field_json fs))]"

fun entries_of :: "json option \<Rightarrow> (ustring \<times> json) list" where
  "entries_of (Some (JObj kvs)) = kvs"
| "entries_of _ = []"

definition toElicitationForm :: "json \<Rightarrow> (refused, elicitation_field list) result" where
  "toElicitationForm schema =
     (let required = (case array_of (field_of schema (asc ''required'')) of None \<Rightarrow> [] | Some xs \<Rightarrow> xs)
      in case fields_loop required [] (entries_of (field_of schema (asc ''properties''))) of
           Inl e \<Rightarrow> Inl e
         | Inr drawn \<Rightarrow>
             let form = map (resolve_alternative (map ef_key drawn)) drawn
             in if jsonBytes (form_json form) > MAX_ELICITATION_FORM_BYTES then Inl FormTooLarge
                else Inr form)"

subsection \<open>A form that is carried is whole and answerable\<close>

definition options_ok :: "elicitation_option list option \<Rightarrow> bool" where
  "options_ok ops = (case ops of None \<Rightarrow> True | Some ps \<Rightarrow>
     distinct (map eo_value ps) \<and> length ps \<le> MAX_ELICITATION_OPTIONS \<and>
     (\<forall>p\<in>set ps. length (eo_value p) \<le> MAX_ELICITATION_VALUE_CHARS))"

definition field_ok :: "elicitation_field \<Rightarrow> bool" where
  "field_ok f \<longleftrightarrow> options_ok (ef_options f) \<and> ef_options f \<noteq> Some [] \<and>
     (ef_kind f = EK_multi_select \<longrightarrow> ef_options f \<noteq> None)"

lemma options_loop_ok:
  "options_loop acc ps = Inr qs \<Longrightarrow> options_ok (Some acc) \<Longrightarrow> options_ok (Some qs)"
  by (induction acc ps rule: options_loop.induct) (auto simp: options_ok_def split: if_splits)

lemma toElicitationOptions_ok: "toElicitationOptions t b = Inr ops \<Longrightarrow> options_ok ops"
  by (auto simp: toElicitationOptions_def options_ok_def [of None] map_sum_def
      dest!: options_loop_ok split: option.splits sum.splits)
    (auto simp: options_ok_def)

lemma options_ok_none [simp]: "options_ok None"
  by (simp add: options_ok_def)

lemma emptyToNull_ok: "options_ok ops \<Longrightarrow> options_ok (emptyToNull ops)"
  by (simp add: emptyToNull_def)

lemma emptyToNull_nonempty [simp]: "emptyToNull ops \<noteq> Some []"
  by (simp add: emptyToNull_def)

lemma toElicitationField_ok:
  assumes "toElicitationField key raw req = Inr f"
  shows "field_ok f \<and> ef_key f = key \<and> ef_required f = req"
  using assms unfolding toElicitationField_def Let_def field_ok_def base_field_def
  by (simp split: if_split_asm sum.split_asm)
    (auto dest!: toElicitationOptions_ok intro: emptyToNull_ok)

lemma fields_loop_ok:
  "fields_loop required acc kvs = Inr fs \<Longrightarrow> length acc \<le> MAX_ELICITATION_FIELDS \<Longrightarrow>
    length fs \<le> MAX_ELICITATION_FIELDS \<and>
    map (\<lambda>f. (ef_key f, ef_required f)) fs
      = map (\<lambda>f. (ef_key f, ef_required f)) acc @ map (\<lambda>(k, p). (k, JStr k \<in> set required)) kvs \<and>
    (list_all field_ok acc \<longrightarrow> list_all field_ok fs)"
proof (induction required acc kvs rule: fields_loop.induct)
  case (2 required acc key property rest)
  from "2.prems"(1) obtain f where f: "toElicitationField key property (JStr key \<in> set required) = Inr f"
    and more: "length acc < MAX_ELICITATION_FIELDS" "fields_loop required (acc @ [f]) rest = Inr fs"
    by (auto split: if_splits sum.splits)
  from "2.IH" [OF _ f more(2)] more(1) toElicitationField_ok [OF f] show ?case by auto
qed simp

lemma resolve_alternative_fields [simp]:
  "ef_key (resolve_alternative ks f) = ef_key f" "ef_required (resolve_alternative ks f) = ef_required f"
  "ef_options (resolve_alternative ks f) = ef_options f" "ef_kind (resolve_alternative ks f) = ef_kind f"
  by (simp_all add: resolve_alternative_def split: option.split)

lemma resolve_alternative_target:
  "ef_alternativeTo (resolve_alternative ks f) = Some a \<Longrightarrow> a \<in> set ks \<and> a \<noteq> ef_key f"
  by (auto simp: resolve_alternative_def split: option.splits if_splits)

subsection \<open>Tool output\<close>

definition MAX_TOOL_OUTPUT_BYTES :: nat where "MAX_TOOL_OUTPUT_BYTES = 32 * 1024"
definition MAX_IMAGES_PER_UPDATE :: nat where "MAX_IMAGES_PER_UPDATE = 8"

datatype content_block =
    Block_text ustring
  | Block_resource_link ustring
  | Block_resource ustring
  | Block_image (block_mime: ustring) (block_data: ustring)
  | Block_other ustring

datatype tool_content =
    Item_content content_block
  | Item_diff ustring "ustring option" ustring
  | Item_terminal ustring

text \<open>
  The store that keeps an image is an argument with a state of its own: it answers a
  reference, or \<open>None\<close> where it refuses.
\<close>

type_synonym 'k image_store = "ustring \<Rightarrow> ustring \<Rightarrow> 'k \<Rightarrow> stored_file_ref option \<times> 'k"

fun renderContentBlock ::
  "'k image_store \<Rightarrow> content_block \<Rightarrow> stored_file_ref list \<Rightarrow> 'k \<Rightarrow> ustring \<times> stored_file_ref list \<times> 'k" where
  "renderContentBlock keep (Block_text t) kept k = (t, kept, k)"
| "renderContentBlock keep (Block_resource_link u) kept k = (asc ''[resource_link '' @ u @ asc '']'', kept, k)"
| "renderContentBlock keep (Block_resource u) kept k = (asc ''[resource '' @ u @ asc '']'', kept, k)"
| "renderContentBlock keep (Block_image mime data) kept k =
     (case keep mime data k of
        (None, k') \<Rightarrow> (asc ''[image]'', kept, k')
      | (Some ref, k') \<Rightarrow> ([], kept @ [ref], k'))"
| "renderContentBlock keep (Block_other t) kept k = (asc ''['' @ t @ asc '']'', kept, k)"

definition output_note :: ustring where
  "output_note = [0x2026] @ asc ''[truncated: tool output exceeded '' @ decimal MAX_TOOL_OUTPUT_BYTES
     @ asc '' bytes]''"

fun is_image :: "content_block \<Rightarrow> bool" where
  "is_image (Block_image m d) = True"
| "is_image _ = False"

fun output_loop ::
  "'k image_store \<Rightarrow> ustring list \<Rightarrow> int \<Rightarrow> nat \<Rightarrow> stored_file_ref list \<Rightarrow> 'k \<Rightarrow> tool_content list
    \<Rightarrow> ustring list \<times> stored_file_ref list \<times> 'k" where
  "output_loop keep blocks remaining images kept k [] = (blocks, kept, k)"
| "output_loop keep blocks remaining images kept k (Item_diff path oldText newText # items) =
     output_loop keep blocks remaining images kept k items"
| "output_loop keep blocks remaining images kept k (Item_terminal handle # items) =
     output_loop keep blocks remaining images kept k items"
| "output_loop keep blocks remaining images kept k (Item_content b # items) =
     (if is_image b \<and> images \<ge> MAX_IMAGES_PER_UPDATE
      then output_loop keep blocks remaining images kept k items
      else
        let (t, kept', k') = renderContentBlock keep b kept k;
            images' = images + (length kept' - length kept)
        in if t = [] then output_loop keep blocks remaining images' kept' k' items
           else if remaining \<le> 0 then (blocks @ [output_note], kept', k')
           else output_loop keep (blocks @ [clip t (nat remaining)]) (remaining - int (length t))
             images' kept' k' items)"

definition toolOutput ::
  "'k image_store \<Rightarrow> tool_content list option \<Rightarrow> stored_file_ref list \<Rightarrow> 'k
    \<Rightarrow> ustring list option \<times> stored_file_ref list \<times> 'k" where
  "toolOutput keep content kept k =
     (if content = None \<or> content = Some [] then (None, kept, k)
      else
        let (blocks, kept', k') = output_loop keep [] (int MAX_TOOL_OUTPUT_BYTES) 0 kept k (the content)
        in (if blocks = [] then None else Some blocks, kept', k'))"

definition rawToolOutput :: "json \<Rightarrow> ustring list option" where
  "rawToolOutput raw =
     (case field_of raw (asc ''formatted_output'') of
        Some (JStr s) \<Rightarrow> if js_trim s = [] then None else Some [clip (js_trim s) MAX_TOOL_OUTPUT_BYTES]
      | _ \<Rightarrow> None)"

definition text_units :: "ustring list \<Rightarrow> nat" where
  "text_units ts = sum_list (map length ts)"

lemma text_units_simps [simp]:
  "text_units [] = 0" "text_units (t # ts) = length t + text_units ts"
  "text_units (ss @ ts) = text_units ss + text_units ts"
  by (simp_all add: text_units_def)

lemma length_output_note: "length output_note \<le> 64"
  using length_decimal [of 5 MAX_TOOL_OUTPUT_BYTES]
  by (simp add: output_note_def MAX_TOOL_OUTPUT_BYTES_def)

lemma renderContentBlock_kept:
  "renderContentBlock keep b kept k = (t, kept', k') \<Longrightarrow>
    length kept \<le> length kept' \<and> length kept' \<le> length kept + (if is_image b then 1 else 0)"
  by (cases b) (auto split: prod.splits option.splits)

text \<open>
  The texts spend one budget; the block that crosses it may keep its truncation note, and
  one more note says that the rest was declined.
\<close>

lemma output_loop_bounded:
  assumes "\<forall>b\<in>set items. \<forall>c. b = Item_content c \<longrightarrow>
      (\<forall>kept k. length (fst (renderContentBlock keep c kept k)) < 10 ^ 13)"
    and "0 \<le> remaining \<and> int (text_units blocks) + remaining \<le> int M \<or> remaining \<le> 0 \<and> text_units blocks \<le> M + 32"
    and "output_loop keep blocks remaining images kept k items = (out, kept', k')"
  shows "text_units out \<le> M + 32 + 64"
  using assms
proof (induction keep blocks remaining images kept k items rule: output_loop.induct)
  case (1 keep blocks remaining images kept k)
  then show ?case by auto
next
  case (2 keep blocks remaining images kept k path oldText newText items)
  then show ?case by auto
next
  case (3 keep blocks remaining images kept k handle items)
  then show ?case by auto
next
  case (4 keep blocks remaining images kept k b items)
  obtain t ks k2 where r: "renderContentBlock keep b kept k = (t, ks, k2)"
    by (cases "renderContentBlock keep b kept k")
  have small: "length t < 10 ^ 13"
    using "4.prems"(1) [rule_format, of "Item_content b" b kept k] r by simp
  show ?case
  proof (cases "is_image b \<and> images \<ge> MAX_IMAGES_PER_UPDATE")
    case True
    with 4 show ?thesis by auto
  next
    case go: False
    show ?thesis
    proof (cases "t = [] \<or> remaining \<le> 0")
      case True
      then show ?thesis
        using "4.prems" "4.IH"(2) [OF go r [symmetric] refl refl refl] go r length_output_note
        by (cases "t = []") (auto simp: Let_def)
    next
      case False
      have "length (clip t (nat remaining)) \<le> max (nat remaining) 32"
        using length_clip [OF small] by (simp add: TRUNCATION_NOTE_BYTES_def)
      moreover have "length (clip t (nat remaining)) = length t" if "int (length t) \<le> remaining"
        using that by (simp add: nat_le_iff le_nat_iff)
      ultimately have "0 \<le> remaining - int (length t) \<and>
          int (text_units (blocks @ [clip t (nat remaining)])) + (remaining - int (length t)) \<le> int M \<or>
          remaining - int (length t) \<le> 0 \<and> text_units (blocks @ [clip t (nat remaining)]) \<le> M + 32"
        using False "4.prems"(2) by (cases "int (length t) \<le> remaining") auto
      with 4 False go r show ?thesis by (auto simp: Let_def)
    qed
  qed
qed

lemma output_loop_images:
  assumes "output_loop keep blocks remaining images kept k items = (out, kept', k')"
    and "images \<le> MAX_IMAGES_PER_UPDATE"
  shows "length kept' \<le> length kept + (MAX_IMAGES_PER_UPDATE - images)"
  using assms
proof (induction keep blocks remaining images kept k items rule: output_loop.induct)
  case (4 keep blocks remaining images kept k b items)
  obtain t ks k2 where r: "renderContentBlock keep b kept k = (t, ks, k2)"
    by (cases "renderContentBlock keep b kept k")
  note grow = renderContentBlock_kept [OF r]
  show ?case
  proof (cases "is_image b \<and> images \<ge> MAX_IMAGES_PER_UPDATE")
    case True
    with 4 show ?thesis by auto
  next
    case go: False
    then have room: "images + (length ks - length kept) \<le> MAX_IMAGES_PER_UPDATE"
      using grow "4.prems"(2) by (auto split: if_splits)
    then show ?thesis
      using "4.prems"(1) "4.IH"(2,3) [OF go r [symmetric] refl refl] go r grow
      by (auto simp: Let_def split: if_splits)
  qed
qed auto

text \<open>Asking a store that refuses every image and counts how often it was asked.\<close>

definition refusing_store :: "nat image_store" where
  "refusing_store mime data n = (None, Suc n)"

lemma refused_image_step:
  "0 < remaining \<Longrightarrow>
    output_loop refusing_store blocks remaining 0 kept k (Item_content (Block_image m d) # items)
      = output_loop refusing_store (blocks @ [clip (asc ''[image]'') (nat remaining)]) (remaining - 7)
          0 kept (Suc k) items"
  by (simp add: refusing_store_def MAX_IMAGES_PER_UPDATE_def asc_def)

lemma refused_images:
  assumes "0 < remaining" and "7 * int n \<le> remaining + 6"
    and "output_loop refusing_store blocks remaining 0 kept k (replicate n (Item_content (Block_image m d)))
      = (out, kept', k')"
  shows "k' = k + n"
  using assms
proof (induction n arbitrary: blocks remaining k)
  case (Suc n)
  note run = Suc.prems(3) [unfolded replicate_Suc refused_image_step [OF Suc.prems(1)]]
  show ?case
  proof (cases n)
    case 0
    with run show ?thesis by simp
  next
    case (Suc j)
    have "k' = Suc k + n"
      using Suc.prems Suc by (intro Suc.IH [OF _ _ run]) auto
    then show ?thesis by simp
  qed
qed simp

subsection \<open>Properties\<close>

text \<open>
  The options a client is shown are the first 32 whose identifiers fit, in the agent's
  order, each with its own identifier and current value uncut, only choices the agent
  published, all of them unless it is marked as truncated, and the selected one among them
  whenever the agent published it; and their JSON fits the budget unless no list has more
  than one choice left.
\<close>

theorem config_options_faithful:
  "list_all2 faithful_option (carried as) (toConfigOptions (Some as)) \<and>
    length (toConfigOptions (Some as)) \<le> MAX_CONFIG_OPTIONS \<and>
    (config_bytes (toConfigOptions (Some as)) \<le> MAX_CONFIG_BYTES \<or>
      (\<forall>p\<in>set (toConfigOptions (Some as)). length (co_choices p) \<le> 1))"
proof -
  have "bound_options [] as = map (\<lambda>a. the (bound_option a)) (carried as)"
    using bound_options_carried [of "[]" as] by (simp add: carried_def)
  then have "list_all2 faithful_option (carried as) (toConfigOptions (Some as))"
    unfolding toConfigOptions_def by (simp add: fitConfigBytes_faithful faithful_carried)
  moreover from this have "length (toConfigOptions (Some as)) \<le> MAX_CONFIG_OPTIONS"
    by (auto simp: carried_def dest!: list_all2_lengthD)
  moreover note fitConfigBytes_fits [of "bound_options [] as"]
  ultimately show ?thesis by (simp add: toConfigOptions_def)
qed

theorem config_options_faithful_witness:
  "map co_id (toConfigOptions (Some [\<lparr>aco_id = [109], aco_name = [77], aco_description = None,
      aco_category = None, aco_type = CK_boolean, aco_currentValue = CV_bool True, aco_options = []\<rparr>]))
    = [[109]]"
proof -
  let ?a = "\<lparr>aco_id = [109], aco_name = [77], aco_description = None, aco_category = None,
    aco_type = CK_boolean, aco_currentValue = CV_bool True, aco_options = []\<rparr> :: acp_config_option"
  have "carried [?a] = [?a]"
    by (simp add: carried_def bound_option_def all_choices_def config_limits Let_def)
  then have "list_all2 faithful_option [?a] (toConfigOptions (Some [?a]))"
    using config_options_faithful [of "[?a]"] by metis
  then show ?thesis by (auto simp: list_all2_Cons1 faithful_option_def)
qed

text \<open>
  The commands a client is offered have distinct, trimmed, non-empty names short
  enough to be typed, there are at most 256 of them, and every entry the agent published
  is either offered or counted as dropped.
\<close>

theorem commands_offered:
  "let r = toCommands (Some entries)
   in distinct (map cmd_name (cs_commands r)) \<and> length (cs_commands r) \<le> MAX_AGENT_COMMANDS \<and>
      (\<forall>c\<in>set (cs_commands r). cmd_name c \<noteq> [] \<and> length (cmd_name c) \<le> MAX_COMMAND_NAME_CHARS \<and>
        js_trim (cmd_name c) = cmd_name c) \<and>
      length (cs_commands r) + cs_dropped r = length entries"
proof -
  have "commands_inv [] []" by (simp add: commands_inv_def)
  from commands_loop_inv [OF this, of 0 entries] show ?thesis
    by (auto simp: toCommands_def Let_def commands_inv_def)
qed

theorem commands_offered_witness:
  "cs_dropped (toCommands (Some [JNull, JObj []])) = 2"
proof -
  have "cs_commands (toCommands (Some [JNull, JObj []])) = []"
    by (simp add: toCommands_def command_name_def js_trim_def)
  with commands_offered [of "[JNull, JObj []]"] show ?thesis by (simp add: Let_def)
qed

text \<open>
  A form that is not refused asks every question of the agent's schema, in its order
  and each as required as the agent said; no list of choices is empty, over its limit or
  repeats a value, a multiple choice has a list, a field that stands in for another names
  a different field of the same form, and the whole fits its budget.
\<close>

theorem elicitation_form_whole:
  assumes "toElicitationForm schema = Inr form"
  shows "map (\<lambda>f. (ef_key f, ef_required f)) form
      = map (\<lambda>(k, p). (k, JStr k \<in> set (case array_of (field_of schema (asc ''required'')) of
            None \<Rightarrow> [] | Some xs \<Rightarrow> xs)))
          (entries_of (field_of schema (asc ''properties''))) \<and>
    length form \<le> MAX_ELICITATION_FIELDS \<and> jsonBytes (form_json form) \<le> MAX_ELICITATION_FORM_BYTES \<and>
    (\<forall>f\<in>set form. field_ok f \<and>
      (case ef_alternativeTo f of None \<Rightarrow> True | Some a \<Rightarrow> a \<in> ef_key ` set form - {ef_key f}))"
proof -
  let ?req = "case array_of (field_of schema (asc ''required'')) of None \<Rightarrow> [] | Some xs \<Rightarrow> xs"
  from assms obtain drawn where
    loop: "fields_loop ?req [] (entries_of (field_of schema (asc ''properties''))) = Inr drawn"
    and form: "form = map (resolve_alternative (map ef_key drawn)) drawn"
    and fits: "jsonBytes (form_json form) \<le> MAX_ELICITATION_FORM_BYTES"
    by (auto simp: toElicitationForm_def Let_def split: sum.splits if_splits)
  note ok = fields_loop_ok [OF loop]
  have "field_ok f \<and> (case ef_alternativeTo f of None \<Rightarrow> True | Some a \<Rightarrow> a \<in> ef_key ` set form - {ef_key f})"
    if "f \<in> set form" for f
  proof -
    from that form obtain g where g: "g \<in> set drawn" "f = resolve_alternative (map ef_key drawn) g" by auto
    have "field_ok g" using ok g by (simp add: list_all_iff)
    moreover have "ef_key ` set form = ef_key ` set drawn" by (auto simp: form image_image)
    ultimately show ?thesis
      using g resolve_alternative_target [of "map ef_key drawn" g]
      by (auto simp: field_ok_def split: option.split)
  qed
  with ok fits form show ?thesis by (auto simp: comp_def)
qed

definition yes_no_schema :: json where
  "yes_no_schema = JObj [(asc ''properties'', JObj [([97], JObj [(asc ''type'', JStr (asc ''boolean''))])])]"

lemma yes_no_form: "toElicitationForm yes_no_schema = Inr [base_field [97] JNull False EK_boolean]"
proof -
  have "jsonBytes (form_json [base_field [97] JNull False EK_boolean]) \<le> MAX_ELICITATION_FORM_BYTES"
    by (simp add: jsonBytes_def form_json_def elicitation_field_json_def base_field_def opt_json_def
        kind_text_def asc_def json_quote_def escape_unit_def high_surrogate_def low_surrogate_def
        customAnswerFor_def MAX_ELICITATION_FORM_BYTES_def)
  then show ?thesis
    by (simp add: toElicitationForm_def yes_no_schema_def asc_def toElicitationField_def Let_def
        base_field_def customAnswerFor_def MAX_ELICITATION_FIELDS_def resolve_alternative_def
        form_json_def)
qed

theorem elicitation_form_whole_witness:
  "toElicitationForm yes_no_schema = Inr [base_field [97] JNull False EK_boolean] \<and>
    field_ok (base_field [97] JNull False EK_boolean)"
  using elicitation_form_whole [OF yes_no_form] yes_no_form by simp

text \<open>
  However an agent cuts up a tool's output, the text one update carries out of it is
  the budget plus at most one truncation note and one closing line, and no more than eight
  images are kept for it.
\<close>

theorem tool_output_bounded:
  assumes "\<forall>b\<in>set items. \<forall>c. b = Item_content c \<longrightarrow>
      (\<forall>kept k. length (fst (renderContentBlock keep c kept k)) < 10 ^ 13)"
    and "toolOutput keep (Some items) kept k = (out, kept', k')"
  shows "(case out of None \<Rightarrow> True | Some ts \<Rightarrow> ts \<noteq> [] \<and> text_units ts \<le> MAX_TOOL_OUTPUT_BYTES + 96) \<and>
    length kept' \<le> length kept + MAX_IMAGES_PER_UPDATE"
proof (cases "items = []")
  case True
  with assms(2) show ?thesis by (auto simp: toolOutput_def)
next
  case False
  obtain ts ks k2 where run: "output_loop keep [] (int MAX_TOOL_OUTPUT_BYTES) 0 kept k items = (ts, ks, k2)"
    by (cases "output_loop keep [] (int MAX_TOOL_OUTPUT_BYTES) 0 kept k items")
  with assms(2) False have out: "out = (if ts = [] then None else Some ts)" "kept' = ks"
    by (auto simp: toolOutput_def)
  have "text_units ts \<le> MAX_TOOL_OUTPUT_BYTES + 32 + 64"
    using assms(1) by (intro output_loop_bounded [OF _ _ run]) auto
  moreover have "length ks \<le> length kept + (MAX_IMAGES_PER_UPDATE - 0)"
    by (rule output_loop_images [OF run]) simp
  ultimately show ?thesis using out by simp
qed

theorem tool_output_bounded_witness:
  "case fst (toolOutput refusing_store (Some [Item_content (Block_text (replicate 40000 97))]) [] 0) of
     None \<Rightarrow> False | Some ts \<Rightarrow> text_units ts \<le> 32864"
proof -
  let ?items = "[Item_content (Block_text (replicate 40000 97))]"
  have "length (clip (replicate 40000 97) MAX_TOOL_OUTPUT_BYTES) \<noteq> 0"
    by (simp add: clip_def MAX_TOOL_OUTPUT_BYTES_def TRUNCATION_NOTE_BYTES_def Let_def
        truncation_note_def del: length_0_conv)
  then have run: "toolOutput refusing_store (Some ?items) [] 0
      = (Some [clip (replicate 40000 97) MAX_TOOL_OUTPUT_BYTES], [], 0)"
    by (simp add: toolOutput_def MAX_TOOL_OUTPUT_BYTES_def)
  have "\<forall>b\<in>set ?items. \<forall>c. b = Item_content c \<longrightarrow>
      (\<forall>kept k. length (fst (renderContentBlock refusing_store c kept k)) < 10 ^ 13)"
    by simp
  from tool_output_bounded [OF this run] show ?thesis
    unfolding run by (simp add: MAX_TOOL_OUTPUT_BYTES_def)
qed

text \<open>
  The bound on images counts the ones that were kept, not the ones that were asked
  for: a store that refuses is asked for every one of a run of up to 4681 images.
\<close>

theorem refused_images_are_not_counted:
  assumes "n \<le> 4681"
  shows "snd (snd (toolOutput refusing_store
      (Some (replicate n (Item_content (Block_image mime data)))) kept 0)) = n"
proof (cases n)
  case (Suc j)
  obtain ts ks k where run: "output_loop refusing_store [] (int MAX_TOOL_OUTPUT_BYTES) 0 kept 0
      (replicate n (Item_content (Block_image mime data))) = (ts, ks, k)"
    by (cases "output_loop refusing_store [] (int MAX_TOOL_OUTPUT_BYTES) 0 kept 0
      (replicate n (Item_content (Block_image mime data)))")
  with refused_images [OF _ _ run] assms have "k = n" by (simp add: MAX_TOOL_OUTPUT_BYTES_def)
  with run Suc show ?thesis by (simp add: toolOutput_def del: replicate_Suc)
qed (simp add: toolOutput_def)

theorem refused_images_are_not_counted_witness:
  "snd (snd (toolOutput refusing_store
      (Some (replicate 1000 (Item_content (Block_image [112] [113])))) [] 0)) = 1000"
  using refused_images_are_not_counted [of 1000 "[112]" "[113]" "[]"] by simp

end
