(* ===== verification/AsyncTasks.thy ===== *)
theory AsyncTasks
  imports AgentBounds
begin

text \<open>
  What an agent's updates say beside the conversation: which call a call runs inside
  (\<open>src/src/acp/subagents.ts\<close>), and the work it left running in the background
  (\<open>src/src/acp/asynctasks.ts\<close>), with the set of tracked tasks
  \<open>src/src/session.ts\<close> folds those updates into (\<open>applyAsyncTaskEdge\<close>,
  \<open>evictFinishedTask\<close>, \<open>backgroundTasks\<close>).

  A JavaScript \<open>Map\<close> keyed by task id is the list of its records in insertion order.
\<close>

subsection \<open>Lineage\<close>

definition MAX_PARENT_ID_CHARS :: nat where "MAX_PARENT_ID_CHARS = 256"

record lineage =
  ln_parent :: "ustring option"
  ln_subagent :: bool

definition NO_LINEAGE :: lineage where
  "NO_LINEAGE = \<lparr>ln_parent = None, ln_subagent = False\<rparr>"

definition js_object :: "json option \<Rightarrow> bool" where
  "js_object v = (case v of Some (JObj _) \<Rightarrow> True | Some (JArr _) \<Rightarrow> True | _ \<Rightarrow> False)"

definition toolCallLineage :: "ustring \<Rightarrow> json option \<Rightarrow> lineage" where
  "toolCallLineage toolCallId meta =
     (if \<not> js_object meta then NO_LINEAGE
      else
        let claudeCode = field_of (the meta) (asc ''claudeCode'')
        in if \<not> js_object claudeCode then NO_LINEAGE
           else
             let parent = (case field_of (the claudeCode) (asc ''parentToolUseId'') of
                   Some (JStr p) \<Rightarrow> if p \<noteq> [] \<and> length p \<le> MAX_PARENT_ID_CHARS then Some p else None
                 | _ \<Rightarrow> None)
             in \<lparr>ln_parent = (if parent = Some toolCallId then None else parent),
                 ln_subagent = (field_of (the claudeCode) (asc ''subagent'') = Some (JBool True))\<rparr>)"

subsection \<open>Reading the updates\<close>

definition AIR_EXTENSION_VERSION :: rat where "AIR_EXTENSION_VERSION = 1"
definition AIR_ASYNC_TASKS_CAPABILITY :: ustring where "AIR_ASYNC_TASKS_CAPABILITY = asc ''asyncTasks''"
definition MAX_ASYNC_TASK_ID_CHARS :: nat where "MAX_ASYNC_TASK_ID_CHARS = 256"
definition MAX_ASYNC_TASK_NAME_CHARS :: nat where "MAX_ASYNC_TASK_NAME_CHARS = 200"
definition MAX_ASYNC_TASK_TYPE_CHARS :: nat where "MAX_ASYNC_TASK_TYPE_CHARS = 64"
definition MAX_ASYNC_TASK_TEXT_CHARS :: nat where "MAX_ASYNC_TASK_TEXT_CHARS = 512"
definition MAX_ASYNC_TASK_PATH_CHARS :: nat where "MAX_ASYNC_TASK_PATH_CHARS = 1024"
definition MAX_TRACKED_ASYNC_TASKS :: nat where "MAX_TRACKED_ASYNC_TASKS = 32"

datatype async_task_state = T_running | T_paused | T_completed | T_failed | T_stopped

definition state_named :: "ustring \<Rightarrow> async_task_state option" where
  "state_named s = map_of [(asc ''running'', T_running), (asc ''paused'', T_paused),
     (asc ''completed'', T_completed), (asc ''failed'', T_failed), (asc ''stopped'', T_stopped)] s"

definition isTerminalAsyncTaskState :: "async_task_state \<Rightarrow> bool" where
  "isTerminalAsyncTaskState s \<longleftrightarrow> s \<in> {T_completed, T_failed, T_stopped}"

record async_task_usage =
  au_totalTokens :: rat
  au_toolUses :: rat
  au_durationMs :: rat

record async_task_spawn =
  sp_id :: ustring
  sp_name :: ustring
  sp_taskType :: ustring
  sp_description :: ustring
  sp_showInTranscript :: bool
  sp_canStop :: bool
  sp_outputFilePath :: "ustring option"
  sp_toolCallId :: "ustring option"

record async_task_progress =
  ap_id :: ustring
  ap_description :: "ustring option"
  ap_summary :: "ustring option"
  ap_lastToolName :: "ustring option"
  ap_usage :: "async_task_usage option"
  ap_outputFilePath :: "ustring option"
  ap_toolCallId :: "ustring option"

record async_task_transition =
  at_id :: ustring
  at_state :: async_task_state
  at_summary :: "ustring option"
  at_outputFilePath :: "ustring option"
  at_toolCallId :: "ustring option"

datatype async_task_edge =
    Spawned async_task_spawn
  | Progress async_task_progress
  | Transition async_task_transition

definition ASYNC_TASK_UPDATES :: "ustring list" where
  "ASYNC_TASK_UPDATES = [asc ''async_task_spawned'', asc ''async_task_progress'', asc ''async_task_state_update'']"

definition flag :: "json option \<Rightarrow> bool" where
  "flag v \<longleftrightarrow> v = Some (JBool True)"

fun count_of :: "json option \<Rightarrow> rat option" where
  "count_of (Some (JNum (Some n) t)) = (if 0 \<le> n then Some n else None)"
| "count_of _ = None"

definition usageOf :: "json option \<Rightarrow> async_task_usage option" where
  "usageOf v =
     (if \<not> js_object v then None
      else case (count_of (field_of (the v) (asc ''totalTokens'')),
          count_of (field_of (the v) (asc ''toolUses'')), count_of (field_of (the v) (asc ''durationMs''))) of
        (Some a, Some b, Some c) \<Rightarrow> Some \<lparr>au_totalTokens = a, au_toolUses = b, au_durationMs = c\<rparr>
      | _ \<Rightarrow> None)"

definition or_empty :: "ustring option \<Rightarrow> ustring" where
  "or_empty s = (case s of None \<Rightarrow> [] | Some t \<Rightarrow> t)"

definition readAsyncTaskEdge :: "json \<Rightarrow> async_task_edge option" where
  "readAsyncTaskEdge raw =
     (let get = (\<lambda>name. field_of raw (asc name)); text = (\<lambda>name. textOrNull (get name)) in
      case (get ''sessionUpdate'', get ''asyncTaskId'') of
        (Some (JStr kind), Some (JStr i)) \<Rightarrow>
          if kind \<notin> set ASYNC_TASK_UPDATES then None
          else if i = [] \<or> length i > MAX_ASYNC_TASK_ID_CHARS then None
          else if kind = asc ''async_task_spawned'' then
            Some (Spawned \<lparr>sp_id = i, sp_name = or_empty (text ''name''),
              sp_taskType = or_empty (text ''taskType''), sp_description = or_empty (text ''description''),
              sp_showInTranscript = flag (get ''showInTranscript''), sp_canStop = flag (get ''canStop''),
              sp_outputFilePath = text ''outputFilePath'', sp_toolCallId = text ''toolCallId''\<rparr>)
          else if kind = asc ''async_task_progress'' then
            Some (Progress \<lparr>ap_id = i, ap_description = text ''description'', ap_summary = text ''summary'',
              ap_lastToolName = text ''lastToolName'', ap_usage = usageOf (get ''usage''),
              ap_outputFilePath = text ''outputFilePath'', ap_toolCallId = text ''toolCallId''\<rparr>)
          else
            (case get ''state'' of
               Some (JStr s) \<Rightarrow>
                 (case state_named s of
                    None \<Rightarrow> None
                  | Some st \<Rightarrow> Some (Transition \<lparr>at_id = i, at_state = st, at_summary = text ''summary'',
                      at_outputFilePath = text ''outputFilePath'', at_toolCallId = text ''toolCallId''\<rparr>))
             | _ \<Rightarrow> None)
      | _ \<Rightarrow> None)"

definition airMeta :: "json option \<Rightarrow> json option" where
  "airMeta meta =
     (if \<not> js_object meta then None
      else let jetbrains = field_of (the meta) (asc ''jetbrains'')
           in if \<not> js_object jetbrains then None
              else case field_of (the jetbrains) (asc ''air'') of
                Some (JObj kvs) \<Rightarrow> Some (JObj kvs)
              | _ \<Rightarrow> None)"

definition agentAdvertisesAsyncTasks :: "json option \<Rightarrow> bool" where
  "agentAdvertisesAsyncTasks meta =
     (case airMeta meta of
        None \<Rightarrow> False
      | Some air \<Rightarrow>
          (case field_of air (asc ''version'') of
             Some (JNum (Some v) t) \<Rightarrow> is_integer v \<and> AIR_EXTENSION_VERSION \<le> v \<and>
               (case array_of (field_of air (asc ''capabilities'')) of
                  None \<Rightarrow> False | Some cs \<Rightarrow> JStr AIR_ASYNC_TASKS_CAPABILITY \<in> set cs)
           | _ \<Rightarrow> False))"

definition readBackgroundedMarker :: "json option \<Rightarrow> bool" where
  "readBackgroundedMarker meta =
     (case airMeta meta of
        None \<Rightarrow> False
      | Some air \<Rightarrow>
          (case field_of air AIR_ASYNC_TASKS_CAPABILITY of
             None \<Rightarrow> False | Some tasks \<Rightarrow> flag (field_of tasks (asc ''backgrounded''))))"

subsection \<open>The tracked tasks\<close>

record background_task =
  bt_id :: ustring
  bt_name :: ustring
  bt_taskType :: ustring
  bt_description :: ustring
  bt_state :: async_task_state
  bt_summary :: "ustring option"
  bt_lastToolName :: "ustring option"
  bt_usage :: "async_task_usage option"
  bt_canStop :: bool
  bt_showInTranscript :: bool
  bt_outputFilePath :: "ustring option"
  bt_toolCallId :: "ustring option"
  bt_startedAt :: int
  bt_endedAt :: "int option"

definition task_get :: "background_task list \<Rightarrow> ustring \<Rightarrow> background_task option" where
  "task_get ts i = find (\<lambda>t. bt_id t = i) ts"

text \<open>\<open>Map.set\<close>: an existing key keeps its place, a new one goes last.\<close>

definition task_set :: "background_task \<Rightarrow> background_task list \<Rightarrow> background_task list" where
  "task_set t ts =
     (if bt_id t \<in> bt_id ` set ts then map (\<lambda>u. if bt_id u = bt_id t then t else u) ts else ts @ [t])"

definition task_delete :: "ustring \<Rightarrow> background_task list \<Rightarrow> background_task list" where
  "task_delete i ts = filter (\<lambda>t. bt_id t \<noteq> i) ts"

definition terminal :: "background_task \<Rightarrow> bool" where
  "terminal t \<longleftrightarrow> isTerminalAsyncTaskState (bt_state t)"

definition ended :: "background_task \<Rightarrow> int" where
  "ended t = (case bt_endedAt t of Some e \<Rightarrow> e | None \<Rightarrow> bt_startedAt t)"

definition older :: "background_task option \<Rightarrow> background_task \<Rightarrow> background_task" where
  "older best t = (case best of None \<Rightarrow> t | Some b \<Rightarrow> if ended t < ended b then t else b)"

fun oldest_finished :: "background_task option \<Rightarrow> background_task list \<Rightarrow> background_task option" where
  "oldest_finished best [] = best"
| "oldest_finished best (t # ts) =
     (if \<not> terminal t then oldest_finished best ts
      else oldest_finished (Some (older best t)) ts)"

definition evictFinishedTask :: "background_task list \<Rightarrow> bool \<times> background_task list" where
  "evictFinishedTask ts =
     (case oldest_finished None ts of
        None \<Rightarrow> (False, ts)
      | Some t \<Rightarrow> (True, task_delete (bt_id t) ts))"

definition newer :: "'a option \<Rightarrow> 'a option \<Rightarrow> 'a option" where
  "newer a b = (case a of None \<Rightarrow> b | Some x \<Rightarrow> Some x)"

definition refreshed_task :: "async_task_spawn \<Rightarrow> background_task \<Rightarrow> background_task" where
  "refreshed_task e known = known\<lparr>bt_name := clip (sp_name e) MAX_ASYNC_TASK_NAME_CHARS,
     bt_taskType := clip (sp_taskType e) MAX_ASYNC_TASK_TYPE_CHARS,
     bt_description := clip (sp_description e) MAX_ASYNC_TASK_TEXT_CHARS,
     bt_canStop := sp_canStop e, bt_showInTranscript := sp_showInTranscript e,
     bt_outputFilePath := newer (clip_opt (sp_outputFilePath e) MAX_ASYNC_TASK_PATH_CHARS) (bt_outputFilePath known),
     bt_toolCallId := newer (clip_opt (sp_toolCallId e) MAX_PARENT_ID_CHARS) (bt_toolCallId known)\<rparr>"

definition spawned_task :: "async_task_spawn \<Rightarrow> int \<Rightarrow> background_task" where
  "spawned_task e now = \<lparr>bt_id = sp_id e, bt_name = clip (sp_name e) MAX_ASYNC_TASK_NAME_CHARS,
     bt_taskType = clip (sp_taskType e) MAX_ASYNC_TASK_TYPE_CHARS,
     bt_description = clip (sp_description e) MAX_ASYNC_TASK_TEXT_CHARS, bt_state = T_running,
     bt_summary = None, bt_lastToolName = None, bt_usage = None, bt_canStop = sp_canStop e,
     bt_showInTranscript = sp_showInTranscript e,
     bt_outputFilePath = clip_opt (sp_outputFilePath e) MAX_ASYNC_TASK_PATH_CHARS,
     bt_toolCallId = clip_opt (sp_toolCallId e) MAX_PARENT_ID_CHARS, bt_startedAt = now, bt_endedAt = None\<rparr>"

text \<open>The part of a progress and of a transition that \<open>merged\<close> starts with.\<close>

definition merge_common ::
  "ustring option \<Rightarrow> ustring option \<Rightarrow> ustring option \<Rightarrow> background_task \<Rightarrow> background_task" where
  "merge_common path call summary held = held\<lparr>
     bt_outputFilePath := newer (clip_opt path MAX_ASYNC_TASK_PATH_CHARS) (bt_outputFilePath held),
     bt_toolCallId := newer (clip_opt call MAX_PARENT_ID_CHARS) (bt_toolCallId held),
     bt_summary := newer (clip_opt summary MAX_ASYNC_TASK_TEXT_CHARS) (bt_summary held)\<rparr>"

text \<open>\<open>applyAsyncTaskEdge\<close>: the tasks after it, and whether watchers are told.\<close>

fun applyAsyncTaskEdge :: "async_task_edge \<Rightarrow> int \<Rightarrow> background_task list \<Rightarrow> bool \<times> background_task list" where
  "applyAsyncTaskEdge (Spawned e) now ts =
     (let (evicted, room) =
          (if task_get ts (sp_id e) = None \<and> length ts \<ge> MAX_TRACKED_ASYNC_TASKS
           then evictFinishedTask ts else (True, ts))
      in if \<not> evicted then (False, ts)
         else case task_get room (sp_id e) of
           Some known \<Rightarrow> (True, task_set (refreshed_task e known) room)
         | None \<Rightarrow> (True, task_set (spawned_task e now) room))"
| "applyAsyncTaskEdge (Progress e) now ts =
     (case task_get ts (ap_id e) of
        None \<Rightarrow> (False, ts)
      | Some held \<Rightarrow>
          let merged = merge_common (ap_outputFilePath e) (ap_toolCallId e) (ap_summary e) held
          in (True, task_set (merged\<lparr>
               bt_description := (case clip_opt (ap_description e) MAX_ASYNC_TASK_TEXT_CHARS of
                   Some d \<Rightarrow> d | None \<Rightarrow> bt_description held),
               bt_lastToolName := newer (clip_opt (ap_lastToolName e) MAX_ASYNC_TASK_TYPE_CHARS) (bt_lastToolName held),
               bt_usage := newer (ap_usage e) (bt_usage held)\<rparr>) ts))"
| "applyAsyncTaskEdge (Transition e) now ts =
     (case task_get ts (at_id e) of
        None \<Rightarrow> (False, ts)
      | Some held \<Rightarrow>
          let merged = merge_common (at_outputFilePath e) (at_toolCallId e) (at_summary e) held
          in (True, task_set (merged\<lparr>bt_state := at_state e,
               bt_endedAt := (if isTerminalAsyncTaskState (at_state e)
                 then Some (case bt_endedAt held of Some t \<Rightarrow> t | None \<Rightarrow> now) else None)\<rparr>) ts))"

text \<open>The panel's order: live work first, newest first within each half; the sort is stable.\<close>

definition backgroundTasks :: "background_task list \<Rightarrow> background_task list" where
  "backgroundTasks ts =
     sort_key (\<lambda>t. - bt_startedAt t) (filter (\<lambda>t. \<not> terminal t) ts)
     @ sort_key (\<lambda>t. - bt_startedAt t) (filter terminal ts)"

subsection \<open>The set stays bounded and never gives up live work\<close>

definition tasks_ok :: "background_task list \<Rightarrow> bool" where
  "tasks_ok ts \<longleftrightarrow> distinct (map bt_id ts) \<and> length ts \<le> MAX_TRACKED_ASYNC_TASKS \<and>
     (\<forall>t\<in>set ts. terminal t \<longleftrightarrow> bt_endedAt t \<noteq> None)"

definition live_ids :: "background_task list \<Rightarrow> ustring set" where
  "live_ids ts = bt_id ` {t \<in> set ts. \<not> terminal t}"

lemma task_get_Some: "task_get ts i = Some t \<Longrightarrow> t \<in> set ts \<and> bt_id t = i"
  by (auto simp: task_get_def find_Some_iff)

lemma task_get_None: "task_get ts i = None \<longleftrightarrow> i \<notin> bt_id ` set ts"
  by (auto simp: task_get_def find_None_iff)

lemma task_set_old:
  assumes "distinct (map bt_id ts)" and "u \<in> set ts" and "bt_id t = bt_id u"
  shows "map bt_id (task_set t ts) = map bt_id ts \<and> length (task_set t ts) = length ts \<and>
    set (task_set t ts) = insert t (set ts - {u})"
proof -
  have same: "bt_id v = bt_id t \<longleftrightarrow> v = u" if "v \<in> set ts" for v
    using assms that by (metis distinct_map inj_onD)
  have "bt_id t \<in> bt_id ` set ts" using assms(2,3) by (metis imageI)
  then have "task_set t ts = map (\<lambda>v. if bt_id v = bt_id t then t else v) ts"
    by (simp only: task_set_def if_True)
  also have "\<dots> = map (\<lambda>v. if v = u then t else v) ts"
    by (rule map_cong [OF refl]) (simp only: same)
  finally have set: "task_set t ts = map (\<lambda>v. if v = u then t else v) ts" .
  have "map bt_id (task_set t ts) = map bt_id ts"
    unfolding set using assms(3) by simp
  moreover have "set (task_set t ts) = insert t (set ts - {u})"
    unfolding set using assms(2) by auto
  ultimately show ?thesis unfolding set by simp
qed

lemma older_spec:
  "ended (older best t) \<le> ended t \<and> (older best t = t \<or> best = Some (older best t)) \<and>
    (\<forall>b. best = Some b \<longrightarrow> ended (older best t) \<le> ended b)"
  by (cases best) (simp_all add: older_def)

lemma oldest_finished_spec:
  "oldest_finished best ts = Some t \<Longrightarrow>
    (best = Some t \<or> t \<in> set ts \<and> terminal t) \<and>
    (\<forall>u\<in>set ts. terminal u \<longrightarrow> ended t \<le> ended u) \<and> (\<forall>b. best = Some b \<longrightarrow> ended t \<le> ended b)"
proof (induction ts arbitrary: best)
  case (Cons t' ts)
  show ?case
  proof (cases "terminal t'")
    case False
    with Cons.IH [of best] Cons.prems show ?thesis by auto
  next
    case True
    with Cons.prems have "oldest_finished (Some (older best t')) ts = Some t" by simp
    from Cons.IH [OF this] True older_spec [of best t'] show ?thesis by force
  qed
qed simp

lemma oldest_finished_none: "oldest_finished best ts = None \<Longrightarrow> best = None \<and> (\<forall>u\<in>set ts. \<not> terminal u)"
proof (induction ts arbitrary: best)
  case (Cons t ts)
  from Cons.prems Cons.IH [of best] Cons.IH [of "Some (older best t)"] show ?case
    by (auto split: if_splits)
qed simp

lemma task_set_ok:
  assumes "tasks_ok ts" and "u \<in> set ts" and "bt_id t = bt_id u"
    and "terminal t \<longleftrightarrow> bt_endedAt t \<noteq> None"
  shows "tasks_ok (task_set t ts) \<and>
    live_ids (task_set t ts) = (live_ids ts - {bt_id u}) \<union> (if terminal t then {} else {bt_id u})"
proof -
  from assms(1) have distinct: "distinct (map bt_id ts)" by (simp add: tasks_ok_def)
  note set = task_set_old [OF this assms(2,3)]
  then have "tasks_ok (task_set t ts)" using assms by (auto simp: tasks_ok_def)
  moreover have "bt_id ` {v \<in> set ts - {u}. \<not> terminal v} = live_ids ts - {bt_id u}"
    using distinct assms(2) by (auto simp: live_ids_def distinct_map inj_on_def)
  moreover have "{v \<in> insert t (set ts - {u}). \<not> terminal v}
      = {v \<in> set ts - {u}. \<not> terminal v} \<union> (if terminal t then {} else {t})" by auto
  ultimately show ?thesis using set assms(3) by (auto simp: live_ids_def)
qed

lemma find_replaced:
  "i \<in> bt_id ` set us \<Longrightarrow> bt_id t = i \<Longrightarrow>
    find (\<lambda>u. bt_id u = i) (map (\<lambda>u. if bt_id u = i then t else u) us) = Some t"
  by (induction us) auto

lemma task_get_set: "task_get (task_set t ts) (bt_id t) = Some t"
proof (cases "bt_id t \<in> bt_id ` set ts")
  case True
  then show ?thesis by (simp add: task_get_def task_set_def find_replaced)
next
  case False
  then have "find (\<lambda>u. bt_id u = bt_id t) (ts @ [t]) = Some t"
    by (induction ts) auto
  with False show ?thesis by (simp add: task_get_def task_set_def)
qed

lemma task_set_id: "bt_id t \<in> bt_id ` set (task_set t ts)"
  using task_get_Some [OF task_get_set [of t ts]] by (metis imageI)

lemma task_set_new_ok:
  assumes "tasks_ok ts" and "bt_id t \<notin> bt_id ` set ts" and "length ts < MAX_TRACKED_ASYNC_TASKS"
    and "\<not> terminal t" and "bt_endedAt t = None"
  shows "tasks_ok (task_set t ts) \<and> live_ids (task_set t ts) = insert (bt_id t) (live_ids ts)"
  using assms by (auto simp: tasks_ok_def task_set_def live_ids_def)

lemma evict_ok:
  assumes "tasks_ok ts" and "evictFinishedTask ts = (done, ts')"
  shows "tasks_ok ts' \<and> live_ids ts' = live_ids ts \<and> set ts' \<subseteq> set ts \<and>
    (if done then length ts' < length ts else ts' = ts \<and> (\<forall>t\<in>set ts. \<not> terminal t))"
proof (cases "oldest_finished None ts")
  case None
  with assms oldest_finished_none [OF None] show ?thesis by (auto simp: evictFinishedTask_def)
next
  case (Some u)
  then have u: "u \<in> set ts" "terminal u" using oldest_finished_spec [of None ts u] by auto
  have ts': "ts' = task_delete (bt_id u) ts" "done" using assms(2) Some by (auto simp: evictFinishedTask_def)
  have only: "v \<in> set ts \<Longrightarrow> bt_id v = bt_id u \<Longrightarrow> v = u" for v
    using assms(1) u by (auto simp: tasks_ok_def distinct_map inj_on_def)
  have "length ts' < length ts" using u unfolding ts' task_delete_def by (intro length_filter_less) auto
  moreover have "distinct (map bt_id ts')"
    using assms(1) by (simp add: ts' task_delete_def tasks_ok_def distinct_map_filter)
  moreover have "{t \<in> set ts'. \<not> terminal t} = {t \<in> set ts. \<not> terminal t}"
    using u only by (auto simp: ts' task_delete_def)
  ultimately show ?thesis
    using assms(1) by (auto simp: ts' tasks_ok_def task_delete_def live_ids_def)
qed

lemma tasks_ok_member: "tasks_ok ts \<Longrightarrow> t \<in> set ts \<Longrightarrow> terminal t \<longleftrightarrow> bt_endedAt t \<noteq> None"
  by (simp add: tasks_ok_def)

lemma spawned_ok:
  assumes "tasks_ok ts" and "applyAsyncTaskEdge (Spawned e) now ts = (told, ts')"
  shows "tasks_ok ts' \<and> live_ids ts \<subseteq> live_ids ts' \<and>
    (sp_id e \<in> bt_id ` set ts' \<or> length ts = MAX_TRACKED_ASYNC_TASKS \<and> (\<forall>t\<in>set ts. \<not> terminal t))"
proof -
  let ?full = "task_get ts (sp_id e) = None \<and> length ts \<ge> MAX_TRACKED_ASYNC_TASKS"
  obtain ok room where room: "(if ?full then evictFinishedTask ts else (True, ts)) = (ok, room)"
    by fastforce
  have fits: "tasks_ok room \<and> live_ids room = live_ids ts \<and> set room \<subseteq> set ts \<and>
      (ok \<longrightarrow> (task_get room (sp_id e) = None \<longrightarrow> length room < MAX_TRACKED_ASYNC_TASKS)) \<and>
      (\<not> ok \<longrightarrow> length ts = MAX_TRACKED_ASYNC_TASKS \<and> (\<forall>t\<in>set ts. \<not> terminal t))"
  proof (cases ?full)
    case True
    with room have "evictFinishedTask ts = (ok, room)" by simp
    with evict_ok [OF assms(1) this] True assms(1) show ?thesis
      by (auto simp: tasks_ok_def split: if_splits)
  next
    case False
    with room assms(1) show ?thesis by (auto simp: tasks_ok_def)
  qed
  show ?thesis
  proof (cases ok)
    case False
    with assms room fits show ?thesis by auto
  next
    case go: True
    show ?thesis
    proof (cases "task_get room (sp_id e)")
      case None
      then have ts': "ts' = task_set (spawned_task e now) room" using assms(2) room go by simp
      have "tasks_ok ts' \<and> live_ids ts' = insert (bt_id (spawned_task e now)) (live_ids room)"
        unfolding ts' using fits go None
        by (intro task_set_new_ok)
          (auto simp: task_get_None spawned_task_def terminal_def isTerminalAsyncTaskState_def)
      moreover have "sp_id e \<in> bt_id ` set ts'"
        using task_set_id [of "spawned_task e now" room] unfolding ts' by (simp add: spawned_task_def)
      ultimately show ?thesis using fits by auto
    next
      case (Some known)
      then have k: "known \<in> set room" "bt_id known = sp_id e" using task_get_Some by auto
      have ts': "ts' = task_set (refreshed_task e known) room" using assms(2) room go Some by simp
      have same: "bt_id (refreshed_task e known) = bt_id known"
          "terminal (refreshed_task e known) = terminal known"
          "bt_endedAt (refreshed_task e known) = bt_endedAt known"
        by (simp_all add: refreshed_task_def terminal_def)
      have "tasks_ok ts' \<and> live_ids ts' = (live_ids room - {bt_id known})
          \<union> (if terminal (refreshed_task e known) then {} else {bt_id known})"
      proof -
        have "terminal (refreshed_task e known) \<longleftrightarrow> bt_endedAt (refreshed_task e known) \<noteq> None"
          unfolding same using fits k(1) tasks_ok_member by blast
        from task_set_ok [OF conjunct1 [OF fits] k(1) same(1) this] show ?thesis unfolding ts' .
      qed
      moreover have "\<not> terminal known" if "bt_id known \<in> live_ids room"
      proof -
        from that obtain u where "u \<in> set room" "\<not> terminal u" "bt_id u = bt_id known"
          by (auto simp: live_ids_def)
        with fits k(1) show ?thesis by (metis distinct_map inj_onD tasks_ok_def)
      qed
      moreover have "bt_id known \<in> bt_id ` set ts'"
        using task_set_id [of "refreshed_task e known" room] unfolding ts' same(1) .
      ultimately show ?thesis using fits same k by auto
    qed
  qed
qed

lemma applyAsyncTaskEdge_ok:
  assumes "tasks_ok ts"
  shows "tasks_ok (snd (applyAsyncTaskEdge e now ts))"
proof (cases e)
  case (Spawned s)
  with spawned_ok [OF assms, of s now] show ?thesis by (metis prod.collapse)
next
  case (Progress p)
  show ?thesis
  proof (cases "task_get ts (ap_id p)")
    case (Some held)
    then have "held \<in> set ts" using task_get_Some by auto
    with Some Progress assms tasks_ok_member [OF assms this] show ?thesis
      by (auto simp: Let_def merge_common_def terminal_def intro!: conjunct1 [OF task_set_ok [OF assms]])
  qed (use Progress assms in simp)
next
  case (Transition p)
  show ?thesis
  proof (cases "task_get ts (at_id p)")
    case (Some held)
    then have "held \<in> set ts" using task_get_Some by auto
    with Some Transition assms show ?thesis
      by (auto simp: Let_def merge_common_def terminal_def intro!: conjunct1 [OF task_set_ok [OF assms]])
  qed (use Transition assms in simp)
qed

subsection \<open>Properties\<close>

definition run_edges :: "(int \<times> async_task_edge) list \<Rightarrow> background_task list" where
  "run_edges es = fold (\<lambda>(now, e) ts. snd (applyAsyncTaskEdge e now ts)) es []"

lemma run_edges_ok: "tasks_ok (run_edges es)"
proof -
  have "tasks_ok (fold (\<lambda>(now, e) ts. snd (applyAsyncTaskEdge e now ts)) es ts)" if "tasks_ok ts" for ts
    using that by (induction es arbitrary: ts) (auto intro: applyAsyncTaskEdge_ok)
  from this [of "[]"] show ?thesis by (simp add: run_edges_def tasks_ok_def)
qed

text \<open>
  Whatever an agent sends, at most 32 tasks are tracked, each under one id, and a task
  has an end exactly when its state is a terminal one; a newly announced task is tracked
  unless every one of 32 tracked tasks is still running, and no running task is given up
  for it.
\<close>

theorem background_tasks_tracked:
  "let ts = run_edges es; ts' = snd (applyAsyncTaskEdge (Spawned e) now ts)
   in tasks_ok ts' \<and> live_ids ts \<subseteq> live_ids ts' \<and>
      (sp_id e \<in> bt_id ` set ts' \<or> length ts = MAX_TRACKED_ASYNC_TASKS \<and> live_ids ts = bt_id ` set ts)"
proof -
  from spawned_ok [OF run_edges_ok [of es], of e now]
  have "tasks_ok (snd (applyAsyncTaskEdge (Spawned e) now (run_edges es))) \<and>
      live_ids (run_edges es) \<subseteq> live_ids (snd (applyAsyncTaskEdge (Spawned e) now (run_edges es))) \<and>
      (sp_id e \<in> bt_id ` set (snd (applyAsyncTaskEdge (Spawned e) now (run_edges es))) \<or>
       length (run_edges es) = MAX_TRACKED_ASYNC_TASKS \<and> (\<forall>t\<in>set (run_edges es). \<not> terminal t))"
    by (metis prod.collapse)
  then show ?thesis by (auto simp: Let_def live_ids_def)
qed

text \<open>
  A terminal state is not final and is not moved: a second ending of the same task
  keeps the time of the first, and a state that is not terminal clears it.
\<close>

theorem endings_are_stamped_once:
  assumes "task_get ts i = Some held" and "at_id e = i"
  shows "\<exists>t. task_get (snd (applyAsyncTaskEdge (Transition e) now ts)) i = Some t \<and> bt_state t = at_state e \<and>
    bt_endedAt t = (if isTerminalAsyncTaskState (at_state e)
      then Some (case bt_endedAt held of Some t0 \<Rightarrow> t0 | None \<Rightarrow> now) else None)"
proof -
  let ?t = "(merge_common (at_outputFilePath e) (at_toolCallId e) (at_summary e) held)\<lparr>bt_state := at_state e,
    bt_endedAt := (if isTerminalAsyncTaskState (at_state e)
      then Some (case bt_endedAt held of Some t \<Rightarrow> t | None \<Rightarrow> now) else None)\<rparr>"
  from assms have "bt_id ?t = i" using task_get_Some by (auto simp: merge_common_def)
  then have "task_get (task_set ?t ts) i = Some ?t" using task_get_set [of ?t ts] by simp
  moreover have "snd (applyAsyncTaskEdge (Transition e) now ts) = task_set ?t ts"
    using assms by (simp add: Let_def)
  ultimately show ?thesis by (intro exI [of _ ?t]) simp
qed

theorem endings_are_stamped_once_witness:
  "\<exists>t. task_get (snd (applyAsyncTaskEdge
        (Transition \<lparr>at_id = [1], at_state = T_completed, at_summary = None, at_outputFilePath = None, at_toolCallId = None\<rparr>) 9
        [(spawned_task \<lparr>sp_id = [1], sp_name = [], sp_taskType = [], sp_description = [], sp_showInTranscript = False,
          sp_canStop = False, sp_outputFilePath = None, sp_toolCallId = None\<rparr> 3)\<lparr>bt_state := T_stopped, bt_endedAt := Some 5\<rparr>])) [1] = Some t \<and>
      bt_state t = T_completed \<and> bt_endedAt t = Some 5"
  using endings_are_stamped_once [of
    "[(spawned_task \<lparr>sp_id = [1], sp_name = [], sp_taskType = [], sp_description = [], sp_showInTranscript = False,
          sp_canStop = False, sp_outputFilePath = None, sp_toolCallId = None\<rparr> 3)\<lparr>bt_state := T_stopped, bt_endedAt := Some 5\<rparr>]"
    "[1]"
    "(spawned_task \<lparr>sp_id = [1], sp_name = [], sp_taskType = [], sp_description = [], sp_showInTranscript = False,
          sp_canStop = False, sp_outputFilePath = None, sp_toolCallId = None\<rparr> 3)\<lparr>bt_state := T_stopped, bt_endedAt := Some 5\<rparr>"
    "\<lparr>at_id = [1], at_state = T_completed, at_summary = None, at_outputFilePath = None, at_toolCallId = None\<rparr>" 9]
  by (simp add: task_get_def spawned_task_def isTerminalAsyncTaskState_def)

end
