(* ===== verification/AgentSession.thy ===== *)
theory AgentSession
  imports AsyncTasks EventQueue "HOL-Library.Sublist"
begin

text \<open>
  One conversation with an agent: \<open>class Session\<close> of \<open>src/src/session.ts\<close>. It folds
  the agent's updates into events and state (\<open>onUpdate\<close>), decides or hands on its
  permission requests (\<open>onPermission\<close>), runs turns (\<open>prompt\<close> with the answer
  of its request, \<open>abandonTurn\<close>) and holds back the drafts of a tool's arguments
  (\<open>holdsToolDraft\<close>, \<open>flushToolDraft\<close>).

  The events go into the queue of theory \<open>EventQueue\<close>; \<open>as_emitted\<close> is an
  auxiliary record of everything pushed, in order, \<open>as_settled\<close> one of the promises the pushes
  resolved. The answer of a prompt request and its \<open>finally\<close> are two microtasks; before the next
  request or timer both have run. \<open>prompt_answered\<close> is the two with nothing between them. The agent's typed values are records, the results of
  \<open>Number\<close> on its usage figures are arguments, the file system's answers too.
\<close>

subsection \<open>State\<close>

definition MAX_MESSAGE_ID_CHARS :: nat where "MAX_MESSAGE_ID_CHARS = 256"
definition MAX_TOOL_LOCATIONS :: nat where "MAX_TOOL_LOCATIONS = 64"
definition MAX_TOOL_LOCATION_CHARS :: nat where "MAX_TOOL_LOCATION_CHARS = 1024"
definition MAX_PERMISSION_OPTIONS :: nat where "MAX_PERMISSION_OPTIONS = 24"
definition MAX_PERMISSION_OPTION_ID_CHARS :: nat where "MAX_PERMISSION_OPTION_ID_CHARS = 256"
definition MAX_PERMISSION_SNAPSHOT_BYTES :: nat where "MAX_PERMISSION_SNAPSHOT_BYTES = 8 * 1024"

record context_usage =
  cu_used :: rat
  cu_size :: rat
  cu_cost :: "(rat \<times> ustring) option"

record tool_draft =
  td_toolCallId :: ustring
  td_block :: "ustring option"
  td_status :: "ustring option"
  td_held :: "tool_call_update_event option"

record agent_session =
  as_queue :: event_queue
  as_settled :: settled
  as_emitted :: "session_event list"
  as_diffed :: "ustring list"
  as_turnActive :: bool
  as_promptEpoch :: nat
  as_config :: agent_config_event
  as_usage :: "context_usage option"
  as_numbers :: bool
  as_unnumbered :: nat
  as_tasks :: "background_task list"
  as_commands :: agent_commands
  as_draft :: "tool_draft option"

definition new_session :: agent_session where
  "new_session = \<lparr>as_queue = new_queue, as_settled = [], as_emitted = [], as_diffed = [], as_turnActive = False,
     as_promptEpoch = 0, as_config = \<lparr>ac_modes = None, ac_options = []\<rparr>, as_usage = None,
     as_numbers = False, as_unnumbered = 0, as_tasks = [],
     as_commands = \<lparr>cs_commands = [], cs_dropped = 0\<rparr>, as_draft = None\<rparr>"

definition emit :: "session_event \<Rightarrow> agent_session \<Rightarrow> agent_session" where
  "emit e s = s\<lparr>as_queue := snd (queue_push e (as_queue s)), as_settled := as_settled s @ fst (queue_push e (as_queue s)),
     as_emitted := as_emitted s @ [e]\<rparr>"

subsection \<open>Small projections\<close>

definition boundToolCallId :: "ustring \<Rightarrow> ustring" where
  "boundToolCallId i = clip i MAX_PARENT_ID_CHARS"

definition toLocations :: "file_location list option \<Rightarrow> file_location list" where
  "toLocations ls =
     map (\<lambda>l. \<lparr>loc_path = clip (loc_path l) MAX_TOOL_LOCATION_CHARS, loc_line = loc_line l\<rparr>)
       (take MAX_TOOL_LOCATIONS (case ls of None \<Rightarrow> [] | Some xs \<Rightarrow> xs))"

definition messageIdFor :: "json option \<Rightarrow> agent_session \<Rightarrow> ustring option \<times> agent_session" where
  "messageIdFor sent s =
     (let given = (case sent of Some (JStr t) \<Rightarrow> take MAX_MESSAGE_ID_CHARS t | _ \<Rightarrow> [])
      in if given \<noteq> [] then (Some given, s\<lparr>as_numbers := True\<rparr>)
         else if \<not> as_numbers s then (None, s)
         else (Some (126 # decimal (as_unnumbered s + 1)), s\<lparr>as_unnumbered := as_unnumbered s + 1\<rparr>))"

record usage_update =
  uu_used :: "rat option"
  uu_size :: "rat option"
  uu_cost :: "(rat option \<times> ustring option) option"

definition updateUsage :: "usage_update \<Rightarrow> agent_session \<Rightarrow> agent_session" where
  "updateUsage u s =
     (case (uu_used u, uu_size u) of
        (Some taken, Some window) \<Rightarrow>
          if taken < 0 then s
          else s\<lparr>as_usage := Some \<lparr>cu_used = taken, cu_size = (if 0 < window then window else 0),
            cu_cost = (case uu_cost u of
                Some (Some amount, Some currency) \<Rightarrow> Some (amount, take 8 currency) | _ \<Rightarrow> None)\<rparr>\<rparr>
      | _ \<Rightarrow> s)"

subsection \<open>Configuration\<close>

definition is_mode_option :: "agent_config_option \<Rightarrow> bool" where
  "is_mode_option p \<longleftrightarrow> co_category p = Some (asc ''mode'') \<and> co_kind p = CK_select"

definition set_mode :: "ustring \<Rightarrow> agent_session \<Rightarrow> agent_session" where
  "set_mode modeId s =
     (if length modeId > MAX_CONFIG_ID_CHARS then s
      else s\<lparr>as_config :=
        \<lparr>ac_modes = map_option (\<lambda>m. m\<lparr>modes_current := modeId\<rparr>) (ac_modes (as_config s)),
         ac_options = map (\<lambda>p. if is_mode_option p \<and> (\<exists>c\<in>set (co_choices p). cc_value c = modeId)
            then p\<lparr>co_value := CV_text modeId\<rparr> else p) (ac_options (as_config s))\<rparr>\<rparr>)"

definition sync_modes :: "agent_config_option list \<Rightarrow> agent_modes \<Rightarrow> agent_modes" where
  "sync_modes ops m =
     (case find is_mode_option ops of
        None \<Rightarrow> m
      | Some p \<Rightarrow>
          (case co_value p of
             CV_bool b \<Rightarrow> m
           | CV_text v \<Rightarrow>
               if v \<noteq> modes_current m \<and> (\<exists>a\<in>set (modes_available m). am_id a = v)
               then m\<lparr>modes_current := v\<rparr> else m))"

definition set_options :: "agent_config_option list \<Rightarrow> agent_session \<Rightarrow> agent_session" where
  "set_options ops s = s\<lparr>as_config :=
     \<lparr>ac_modes = map_option (sync_modes ops) (ac_modes (as_config s)), ac_options = ops\<rparr>\<rparr>"

subsection \<open>Drafts of a tool's arguments\<close>

definition flushToolDraft :: "agent_session \<Rightarrow> agent_session" where
  "flushToolDraft s =
     (case as_draft s of
        None \<Rightarrow> s
      | Some d \<Rightarrow>
          (case td_held d of
             None \<Rightarrow> s
           | Some e \<Rightarrow> emit (ToolCallUpdate e) (s\<lparr>as_draft := Some (d\<lparr>td_held := None\<rparr>)\<rparr>)))"

definition holdsToolDraft :: "tool_call_update_event \<Rightarrow> tool_draft option \<Rightarrow> tool_draft option" where
  "holdsToolDraft e draft =
     (case (tu_content e, draft) of
        (Some [block], Some d) \<Rightarrow>
          if tu_title e \<noteq> None \<or> tu_rawInput e \<noteq> JNull then None
          else if tu_locations e \<noteq> [] \<or> tu_images e \<noteq> None then None
          else (case td_block d of
              None \<Rightarrow> None
            | Some seen \<Rightarrow>
                if td_toolCallId d \<noteq> tu_toolCallId e then None
                else if tu_status e \<noteq> td_status d then None
                else if length block \<le> length seen \<or> take (length seen) block \<noteq> seen then None
                else Some (d\<lparr>td_block := Some block, td_held := Some e\<rparr>))
      | _ \<Rightarrow> None)"

definition single_block :: "tool_call_update_event \<Rightarrow> ustring option" where
  "single_block e = (case tu_content e of Some [b] \<Rightarrow> Some b | _ \<Rightarrow> None)"

text \<open>The end of the \<open>tool_call_update\<close> arm: hold the event or send it.\<close>

definition send_update :: "bool \<Rightarrow> tool_call_update_event \<Rightarrow> agent_session \<Rightarrow> bool \<times> agent_session" where
  "send_update one_raw_block e s =
     (case (if one_raw_block then holdsToolDraft e (as_draft s) else None) of
        Some d \<Rightarrow> (False, s\<lparr>as_draft := Some d\<rparr>)
      | None \<Rightarrow>
          (True, (emit (ToolCallUpdate e) (flushToolDraft s))\<lparr>as_draft :=
             Some \<lparr>td_toolCallId = tu_toolCallId e, td_block = single_block e,
               td_status = tu_status e, td_held = None\<rparr>\<rparr>))"

subsection \<open>Updates\<close>

record acp_tool_call =
  atc_toolCallId :: ustring
  atc_title :: ustring
  atc_kind :: "ustring option"
  atc_status :: "ustring option"
  atc_locations :: "file_location list option"
  atc_rawInput :: json
  atc_content :: "tool_content list option"
  atc_meta :: "json option"

record acp_tool_update =
  atu_toolCallId :: ustring
  atu_title :: "ustring option"
  atu_status :: "ustring option"
  atu_locations :: "file_location list option"
  atu_rawInput :: json
  atu_rawOutput :: json
  atu_content :: "tool_content list option"
  atu_meta :: "json option"

datatype chunk_kind = Agent_message | Agent_thought | User_message

datatype acp_update =
    U_chunk chunk_kind content_block "json option"
  | U_tool_call acp_tool_call
  | U_tool_call_update acp_tool_update
  | U_plan "plan_entry list"
  | U_current_mode ustring
  | U_config_options "acp_config_option list option"
  | U_commands "json list option"
  | U_usage usage_update
  | U_async json
  | U_other ustring json

definition no_store :: "unit image_store" where
  "no_store mime data k = (None, k)"

fun diff_event :: "ustring \<Rightarrow> tool_content \<Rightarrow> session_event list" where
  "diff_event i (Item_diff path oldText newText) = [FileChange \<lparr>fc_path = path, fc_oldText = oldText,
     fc_newText = newText, fc_source = Src_diff, fc_toolCallId = Some i\<rparr>]"
| "diff_event i _ = []"

definition diff_events :: "ustring \<Rightarrow> tool_content list option \<Rightarrow> session_event list" where
  "diff_events i content = concat (map (diff_event i) (case content of None \<Rightarrow> [] | Some xs \<Rightarrow> xs))"

definition emitDiffs :: "ustring \<Rightarrow> tool_content list option \<Rightarrow> agent_session \<Rightarrow> agent_session" where
  "emitDiffs i content s =
     (if diff_events i content = [] \<or> i \<in> set (as_diffed s) then s
      else fold emit (diff_events i content) (s\<lparr>as_diffed := i # as_diffed s\<rparr>))"

definition update_event ::
  "'k image_store \<Rightarrow> acp_tool_update \<Rightarrow> 'k \<Rightarrow> tool_call_update_event \<times> 'k" where
  "update_event keep u k =
     (let (out, images, k') = toolOutput keep (atu_content u) [] k
      in (\<lparr>tu_toolCallId = boundToolCallId (atu_toolCallId u), tu_title = atu_title u,
           tu_status = atu_status u, tu_locations = toLocations (atu_locations u),
           tu_rawInput = atu_rawInput u, tu_images = (if images = [] then None else Some images),
           tu_content = (case out of Some ts \<Rightarrow> Some ts | None \<Rightarrow> rawToolOutput (atu_rawOutput u)),
           tu_parentToolCallId = ln_parent (toolCallLineage (atu_toolCallId u) (atu_meta u)),
           tu_backgrounded = readBackgroundedMarker (atu_meta u)\<rparr>, k'))"

definition one_block :: "tool_content list option \<Rightarrow> bool" where
  "one_block content = (case content of Some [c] \<Rightarrow> True | _ \<Rightarrow> False)"

definition flush_before :: "acp_update \<Rightarrow> agent_session \<Rightarrow> agent_session" where
  "flush_before u s = (case u of U_tool_call_update x \<Rightarrow> s | _ \<Rightarrow> flushToolDraft s)"

definition onUpdate ::
  "'k image_store \<Rightarrow> int \<Rightarrow> acp_update \<Rightarrow> 'k \<times> agent_session \<Rightarrow> 'k \<times> agent_session" where
  "onUpdate keep now u ks =
     (let k = fst ks; s = flush_before u (snd ks) in
      case u of
        U_async raw \<Rightarrow>
          (k, case readAsyncTaskEdge raw of
                None \<Rightarrow> s | Some e \<Rightarrow> s\<lparr>as_tasks := snd (applyAsyncTaskEdge e now (as_tasks s))\<rparr>)
      | U_chunk kind content sent \<Rightarrow>
          (let (i, s') = messageIdFor sent s
           in (k, emit (TextEv \<lparr>te_role = (if kind = User_message then asc ''user'' else asc ''agent''),
                  te_thought = (kind = Agent_thought),
                  te_text = fst (renderContentBlock no_store content [] ()), te_messageId = i\<rparr>) s'))
      | U_tool_call t \<Rightarrow>
          (let i = boundToolCallId (atc_toolCallId t);
               lineage = toolCallLineage (atc_toolCallId t) (atc_meta t)
           in (k, emitDiffs i (atc_content t) (emit (ToolCall \<lparr>tc_toolCallId = i, tc_title = atc_title t,
                  tc_kind = (case atc_kind t of Some x \<Rightarrow> x | None \<Rightarrow> asc ''other''),
                  tc_status = (case atc_status t of Some x \<Rightarrow> x | None \<Rightarrow> asc ''pending''),
                  tc_locations = toLocations (atc_locations t), tc_rawInput = atc_rawInput t,
                  tc_parentToolCallId = ln_parent lineage, tc_subagent = ln_subagent lineage\<rparr>) s)))
      | U_tool_call_update t \<Rightarrow>
          (let (e, k') = update_event keep t k;
               (sent, s') = send_update (one_block (atu_content t)) e s
           in (k', if sent then emitDiffs (tu_toolCallId e) (atu_content t) s' else s'))
      | U_plan entries \<Rightarrow> (k, emit (PlanEv \<lparr>pl_entries = entries\<rparr>) s)
      | U_current_mode modeId \<Rightarrow> (k, set_mode modeId s)
      | U_config_options ops \<Rightarrow> (k, set_options (toConfigOptions ops) s)
      | U_commands cs \<Rightarrow> (k, s\<lparr>as_commands := toCommands cs\<rparr>)
      | U_usage x \<Rightarrow> (k, updateUsage x s)
      | U_other name raw \<Rightarrow> (k, emit (OtherUpdate \<lparr>ou_sessionUpdate = name, ou_raw = raw\<rparr>) s))"

subsection \<open>Permissions\<close>

datatype permission_answer =
    Refuse_options | Refuse_weight nat
  | Ask_policy ustring "permission_option list"
  | Select ustring | Cancel

definition permission_option_json :: "permission_option \<Rightarrow> json" where
  "permission_option_json p = JObj [(asc ''optionId'', JStr (po_optionId p)),
     (asc ''name'', JStr (po_name p)), (asc ''kind'', JStr (po_kind p))]"

definition permission_choice :: "permission_option list \<Rightarrow> permission_option option" where
  "permission_choice ops =
     (case find (\<lambda>p. po_kind p = asc ''allow_once'') ops of
        Some p \<Rightarrow> Some p
      | None \<Rightarrow> find (\<lambda>p. po_kind p = asc ''allow_always'') ops)"

definition onPermission ::
  "bool \<Rightarrow> ustring \<Rightarrow> ustring option \<Rightarrow> permission_option list \<Rightarrow> agent_session
    \<Rightarrow> permission_answer \<times> agent_session" where
  "onPermission has_policy toolCallId stated ops s =
     (let title = (case stated of Some t \<Rightarrow> t | None \<Rightarrow> toolCallId);
          weight = jsonBytes (JStr title) + jsonBytes (JArr (map permission_option_json ops));
          choice = permission_choice ops
      in if length ops > MAX_PERMISSION_OPTIONS
            \<or> (\<exists>p\<in>set ops. length (po_optionId p) > MAX_PERMISSION_OPTION_ID_CHARS)
         then (Refuse_options, s)
         else if weight > MAX_PERMISSION_SNAPSHOT_BYTES then (Refuse_weight weight, s)
         else if has_policy \<and> choice \<noteq> None then (Ask_policy title ops, s)
         else (case choice of Some p \<Rightarrow> Select (po_optionId p) | None \<Rightarrow> Cancel,
               emit (PermissionRequest \<lparr>pr_permissionId = None, pr_toolCallId = Some toolCallId,
                 pr_title = title, pr_options = ops, pr_decision = map_option po_optionId choice\<rparr>) s))"

subsection \<open>Files\<close>

definition onWriteTextFile :: "ustring \<Rightarrow> ustring option \<Rightarrow> ustring \<Rightarrow> agent_session \<Rightarrow> agent_session" where
  "onWriteTextFile path oldText content s =
     emit (FileChange \<lparr>fc_path = path, fc_oldText = oldText, fc_newText = content,
       fc_source = Src_fs_write, fc_toolCallId = None\<rparr>) s"

fun split_lines :: "ustring \<Rightarrow> ustring list" where
  "split_lines [] = [[]]"
| "split_lines (c # cs) =
     (if c = 10 then [] # split_lines cs
      else case split_lines cs of [] \<Rightarrow> [[c]] | l # ls \<Rightarrow> (c # l) # ls)"

text \<open>What \<open>onReadTextFile\<close> answers of a file's content.\<close>

definition read_window :: "ustring \<Rightarrow> nat option \<Rightarrow> nat option \<Rightarrow> ustring" where
  "read_window content line limit =
     (if line = None \<and> limit = None then content
      else
        let ls = split_lines content;
            start = (case line of None \<Rightarrow> 1 | Some n \<Rightarrow> n) - 1;
            stop = (case limit of None \<Rightarrow> length ls | Some n \<Rightarrow> start + n)
        in join [10] (take (stop - start) (drop start ls)))"

subsection \<open>Turns\<close>

datatype prompt_error = PromptInFlight | QueueHeld

text \<open>The head of \<open>prompt\<close>, up to the request: the claim it reads under and its epoch.\<close>

definition prompt_start :: "agent_session \<Rightarrow> (prompt_error, nat \<times> nat) result \<times> settled \<times> agent_session" where
  "prompt_start s =
     (if as_turnActive s then (Inl PromptInFlight, [], s)
      else
        let s1 = s\<lparr>as_turnActive := True\<rparr>
        in case claimForTurn (as_queue s1) of
             (Inl e, out, q) \<Rightarrow> (Inl QueueHeld, out, s1\<lparr>as_queue := q\<rparr>)
           | (Inr claim, out, q) \<Rightarrow>
               (Inr (claim, as_promptEpoch s1 + 1), out,
                s1\<lparr>as_queue := q, as_promptEpoch := as_promptEpoch s1 + 1\<rparr>))"

datatype prompt_reply = Reply_ok ustring json | Reply_error ustring json

definition ending :: "prompt_reply \<Rightarrow> session_event" where
  "ending r = (case r of
     Reply_ok reason usage \<Rightarrow> TurnEnd \<lparr>tn_stopReason = reason, tn_usage = usage\<rparr>
   | Reply_error message data \<Rightarrow> ErrorEv \<lparr>er_text = message, er_data = data\<rparr>)"

definition prompt_reply_arrives :: "nat \<Rightarrow> prompt_reply \<Rightarrow> agent_session \<Rightarrow> agent_session" where
  "prompt_reply_arrives epoch r s =
     (if as_promptEpoch s \<noteq> epoch then s else emit (ending r) (flushToolDraft s))"

definition prompt_finally :: "nat \<Rightarrow> agent_session \<Rightarrow> agent_session" where
  "prompt_finally epoch s = (if as_promptEpoch s = epoch then s\<lparr>as_turnActive := False\<rparr> else s)"

definition prompt_answered :: "nat \<Rightarrow> prompt_reply \<Rightarrow> agent_session \<Rightarrow> agent_session" where
  "prompt_answered epoch r s = prompt_finally epoch (prompt_reply_arrives epoch r s)"

definition abandonTurn :: "agent_session \<Rightarrow> bool \<times> agent_session" where
  "abandonTurn s =
     (if \<not> as_turnActive s then (False, s)
      else (True, emit (TurnEnd \<lparr>tn_stopReason = asc ''abandoned'', tn_usage = JNull\<rparr>)
        (flushToolDraft (s\<lparr>as_promptEpoch := as_promptEpoch s + 1, as_turnActive := False\<rparr>))))"

subsection \<open>Drafts lose nothing that is not said again\<close>

lemma emit_fields [simp]:
  "as_emitted (emit e s) = as_emitted s @ [e]" "as_draft (emit e s) = as_draft s"
  "as_turnActive (emit e s) = as_turnActive s" "as_promptEpoch (emit e s) = as_promptEpoch s"
  "as_diffed (emit e s) = as_diffed s"
  by (simp_all add: emit_def)

text \<open>An update that says nothing but a shorter prefix of what another says.\<close>

definition superseded :: "tool_call_update_event \<Rightarrow> tool_call_update_event \<Rightarrow> bool" where
  "superseded e f \<longleftrightarrow>
     tu_title e = None \<and> tu_rawInput e = JNull \<and> tu_locations e = [] \<and> tu_images e = None \<and>
     tu_toolCallId e = tu_toolCallId f \<and> tu_status e = tu_status f \<and>
     (\<exists>b c. tu_content e = Some [b] \<and> tu_content f = Some [c] \<and> strict_prefix b c)"

lemma superseded_trans: "superseded e f \<Longrightarrow> superseded f g \<Longrightarrow> superseded e g"
  by (auto simp: superseded_def dest: prefix_order.less_trans)

definition held_update :: "agent_session \<Rightarrow> tool_call_update_event list" where
  "held_update s = (case as_draft s of None \<Rightarrow> [] | Some d \<Rightarrow>
     (case td_held d of None \<Rightarrow> [] | Some e \<Rightarrow> [e]))"

text \<open>A held update is plain, and its block and status are the draft's.\<close>

definition draft_ok :: "agent_session \<Rightarrow> bool" where
  "draft_ok s \<longleftrightarrow> (\<forall>d e. as_draft s = Some d \<longrightarrow> td_held d = Some e \<longrightarrow>
     (\<exists>b. tu_content e = Some [b] \<and> td_block d = Some b) \<and> tu_toolCallId e = td_toolCallId d \<and>
     tu_status e = td_status d \<and> tu_title e = None \<and> tu_rawInput e = JNull \<and>
     tu_locations e = [] \<and> tu_images e = None)"

lemma take_prefix_strict:
  "length b < length c \<Longrightarrow> take (length b) c = b \<Longrightarrow> strict_prefix b c"
  by (metis append_take_drop_id nat_neq_iff prefixI prefix_order.less_le)

lemma holdsToolDraft_spec:
  assumes "holdsToolDraft e (Some d) = Some d'"
  shows "td_held d' = Some e \<and> (\<exists>b c. tu_content e = Some [c] \<and> td_block d = Some b \<and>
      td_block d' = Some c \<and> strict_prefix b c) \<and>
    tu_toolCallId e = td_toolCallId d \<and> td_toolCallId d' = td_toolCallId d \<and>
    tu_status e = td_status d \<and> td_status d' = td_status d \<and> tu_title e = None \<and>
    tu_rawInput e = JNull \<and> tu_locations e = [] \<and> tu_images e = None"
  using assms unfolding holdsToolDraft_def
  by (simp split: option.split_asm list.split_asm if_split_asm)
    (auto intro: take_prefix_strict)

lemma flush_emitted:
  "as_emitted (flushToolDraft s) = as_emitted s @ map ToolCallUpdate (held_update s) \<and>
    held_update (flushToolDraft s) = [] \<and> draft_ok (flushToolDraft s)"
  by (auto simp: flushToolDraft_def held_update_def draft_ok_def split: option.split)

definition covered :: "tool_call_update_event list \<Rightarrow> tool_call_update_event list \<Rightarrow> bool" where
  "covered es kept \<longleftrightarrow> (\<forall>e\<in>set es. e \<in> set kept \<or> (\<exists>f\<in>set kept. superseded e f))"

lemma send_update_keeps:
  assumes "send_update raw e s = (sent, s')" and "draft_ok s"
    and "as_emitted s = map ToolCallUpdate kept" and "subseq (kept @ held_update s) es"
    and "covered es (kept @ held_update s)"
  shows "draft_ok s' \<and> (\<exists>kept'. as_emitted s' = map ToolCallUpdate kept' \<and>
    subseq (kept' @ held_update s') (es @ [e]) \<and> covered (es @ [e]) (kept' @ held_update s'))"
proof (cases "if raw then holdsToolDraft e (as_draft s) else None")
  case None
  then have s': "s' = (emit (ToolCallUpdate e) (flushToolDraft s))\<lparr>as_draft :=
      Some \<lparr>td_toolCallId = tu_toolCallId e, td_block = single_block e, td_status = tu_status e, td_held = None\<rparr>\<rparr>"
    using assms(1) by (auto simp: send_update_def)
  have "held_update s' = []" "draft_ok s'" by (simp_all add: s' held_update_def draft_ok_def)
  moreover have "as_emitted s' = map ToolCallUpdate (kept @ held_update s @ [e])"
    using flush_emitted [of s] assms(3) by (simp add: s')
  moreover have "subseq ((kept @ held_update s) @ [e]) (es @ [e])"
    using assms(4) by (intro list_emb_append_mono) auto
  moreover have "covered (es @ [e]) ((kept @ held_update s) @ [e])"
    using assms(5) by (auto simp: covered_def)
  ultimately show ?thesis
    by (intro conjI exI [of _ "kept @ held_update s @ [e]"]) simp_all
next
  case (Some d')
  then obtain d where d: "as_draft s = Some d" "holdsToolDraft e (Some d) = Some d'"
    by (cases "as_draft s") (auto simp: holdsToolDraft_def split: if_splits option.splits list.splits)
  have s': "s' = s\<lparr>as_draft := Some d'\<rparr>" using assms(1) Some by (simp add: send_update_def)
  note spec = holdsToolDraft_spec [OF d(2)]
  then have held: "held_update s' = [e]" and "draft_ok s'"
    by (auto simp: s' held_update_def draft_ok_def)
  have over: "superseded f e" if "f \<in> set (held_update s)" for f
  proof -
    from that d(1) have f: "td_held d = Some f" by (auto simp: held_update_def split: option.splits)
    from assms(2) [unfolded draft_ok_def, rule_format, OF d(1) f] spec
    show ?thesis by (auto simp: superseded_def)
  qed
  have "subseq kept es"
    by (rule subseq_order.trans [OF subseq_rev_drop_many [OF subseq_order.refl] assms(4)])
  then have "subseq (kept @ [e]) (es @ [e])" by (intro list_emb_append_mono) auto
  moreover have "covered (es @ [e]) (kept @ [e])"
  proof -
    have "f \<in> set (kept @ [e]) \<or> (\<exists>g\<in>set (kept @ [e]). superseded f g)" if "f \<in> set es" for f
    proof -
      from assms(5) that consider "f \<in> set kept" | "f \<in> set (held_update s)"
        | g where "g \<in> set kept" "superseded f g" | g where "g \<in> set (held_update s)" "superseded f g"
        by (auto simp: covered_def)
      then show ?thesis using over superseded_trans by cases auto
    qed
    then show ?thesis by (auto simp: covered_def)
  qed
  ultimately show ?thesis
    using assms(3) held \<open>draft_ok s'\<close> by (intro conjI exI [of _ kept]) (simp_all add: s')
qed

definition send_all :: "(bool \<times> tool_call_update_event) list \<Rightarrow> agent_session \<Rightarrow> agent_session" where
  "send_all us s = fold (\<lambda>(raw, e) s. snd (send_update raw e s)) us s"

lemma send_all_keeps:
  "draft_ok (send_all us new_session) \<and> (\<exists>kept. as_emitted (send_all us new_session) = map ToolCallUpdate kept \<and>
    subseq (kept @ held_update (send_all us new_session)) (map snd us) \<and>
    covered (map snd us) (kept @ held_update (send_all us new_session)))"
proof (induction us rule: rev_induct)
  case Nil
  then show ?case by (simp add: send_all_def new_session_def draft_ok_def held_update_def covered_def)
next
  case (snoc u us)
  obtain raw e where u: "u = (raw, e)" by (cases u)
  from snoc obtain kept where IH: "as_emitted (send_all us new_session) = map ToolCallUpdate kept"
    "subseq (kept @ held_update (send_all us new_session)) (map snd us)"
    "covered (map snd us) (kept @ held_update (send_all us new_session))"
    "draft_ok (send_all us new_session)" by auto
  have "send_update raw e (send_all us new_session)
      = (fst (send_update raw e (send_all us new_session)), snd (send_update raw e (send_all us new_session)))"
    by simp
  from send_update_keeps [OF this IH(4,1,2,3)] show ?case by (simp add: send_all_def u)
qed

subsection \<open>Numbers for unnumbered messages\<close>

fun undecimal :: "ustring \<Rightarrow> nat" where
  "undecimal [] = 0"
| "undecimal (c # cs) = (c - 48) * 10 ^ length cs + undecimal cs"

lemma undecimal_snoc: "undecimal (cs @ [c]) = undecimal cs * 10 + (c - 48)"
  by (induction cs) (simp_all add: algebra_simps)

lemma undecimal_decimal [simp]: "undecimal (decimal n) = n"
proof (induction n rule: decimal.induct)
  case (1 n)
  show ?case
  proof (cases "n < 10")
    case True
    then show ?thesis by (simp add: decimal.simps [of n])
  next
    case False
    with 1 show ?thesis by (simp add: decimal.simps [of n] undecimal_snoc)
  qed
qed

lemma decimal_inject [simp]: "decimal m = decimal n \<longleftrightarrow> m = n"
  by (metis undecimal_decimal)

text \<open>The identifiers of a run of chunks, and of them those this side made.\<close>

fun message_ids :: "json option list \<Rightarrow> agent_session \<Rightarrow> ustring option list" where
  "message_ids [] s = []"
| "message_ids (x # xs) s = (let (i, s') = messageIdFor x s in i # message_ids xs s')"

definition blank :: "json option \<Rightarrow> bool" where
  "blank sent \<longleftrightarrow> (case sent of Some (JStr t) \<Rightarrow> t = [] | _ \<Rightarrow> True)"

lemma messageIdFor_cases:
  "messageIdFor x s =
     (if \<not> blank x then (case x of Some (JStr t) \<Rightarrow> (Some (take MAX_MESSAGE_ID_CHARS t), s\<lparr>as_numbers := True\<rparr>)
        | _ \<Rightarrow> undefined)
      else if \<not> as_numbers s then (None, s)
      else (Some (126 # decimal (as_unnumbered s + 1)), s\<lparr>as_unnumbered := as_unnumbered s + 1\<rparr>))"
  by (auto simp: messageIdFor_def blank_def MAX_MESSAGE_ID_CHARS_def split: option.split json.split)

lemma message_ids_numbered:
  "as_numbers s \<Longrightarrow>
    message_ids xs s = map (\<lambda>j. if blank (xs ! j)
        then Some (126 # decimal (as_unnumbered s + length (filter blank (take (Suc j) xs))))
        else (case xs ! j of Some (JStr t) \<Rightarrow> Some (take MAX_MESSAGE_ID_CHARS t) | _ \<Rightarrow> undefined)) [0..<length xs]"
proof (induction xs arbitrary: s)
  case (Cons x xs)
  let ?s = "if blank x then s\<lparr>as_unnumbered := as_unnumbered s + 1\<rparr> else s\<lparr>as_numbers := True\<rparr>"
  have step: "messageIdFor x s = (if blank x then Some (126 # decimal (as_unnumbered s + 1))
      else (case x of Some (JStr t) \<Rightarrow> Some (take MAX_MESSAGE_ID_CHARS t) | _ \<Rightarrow> undefined), ?s)"
    using Cons.prems by (auto simp: messageIdFor_cases blank_def split: option.split json.split)
  have "as_numbers ?s" using Cons.prems by simp
  from Cons.IH [OF this] show ?case
    unfolding message_ids.simps step Let_def
    by (simp add: map_upt_Suc del: upt_Suc)
qed simp

subsection \<open>Turns\<close>

fun is_ending :: "session_event \<Rightarrow> bool" where
  "is_ending (TurnEnd e) = True"
| "is_ending (ErrorEv e) = True"
| "is_ending _ = False"

definition endings :: "agent_session \<Rightarrow> nat" where
  "endings s = length (filter is_ending (as_emitted s))"

text \<open>
  What readers were handed, and that it is, with what is still buffered, all that was pushed, as long
  as the buffer is below its limit.
\<close>

definition handed_out :: "settled \<Rightarrow> session_event list" where
  "handed_out settled = concat (map (\<lambda>(p, a). given a) settled)"

definition hands_on :: "event_queue \<Rightarrow> settled \<Rightarrow> session_event list \<Rightarrow> bool" where
  "hands_on q settled pushed \<longleftrightarrow> queue_inv q \<and> \<not> q_closed q \<and>
     (length (q_buffered q) < MAX_BUFFERED_EVENTS \<longrightarrow> handed_out settled @ q_buffered q = pushed)"

abbreviation handed_on :: "agent_session \<Rightarrow> bool" where
  "handed_on s \<equiv> hands_on (as_queue s) (as_settled s) (as_emitted s)"

lemma handed_out_simps [simp]:
  "handed_out [] = []" "handed_out ((p, a) # xs) = given a @ handed_out xs" "handed_out (xs @ ys) = handed_out xs @ handed_out ys"
  by (simp_all add: handed_out_def)

lemma length_enqueue: "min (length buf) MAX_BUFFERED_EVENTS \<le> length (enqueue e buf)"
  using length_remove_first [of "buf @ [e]" droppable] by (auto simp: enqueue_def Let_def min_def)

lemma hands_on_push: "hands_on q settled pushed \<Longrightarrow> hands_on (snd (queue_push e q)) (settled @ fst (queue_push e q)) (pushed @ [e])"
proof (cases "q_waiting q")
  case None
  assume h: "hands_on q settled pushed"
  have "queue_inv (snd (queue_push e q))" using h queue_step_inv [of q "Push e"] by (simp add: hands_on_def)
  moreover have "length (q_buffered q) < MAX_BUFFERED_EVENTS" if "length (enqueue e (q_buffered q)) < MAX_BUFFERED_EVENTS"
    using length_enqueue [of "q_buffered q" e] that by (simp add: min_def split: if_splits)
  moreover have "enqueue e (q_buffered q) = q_buffered q @ [e]" if "length (q_buffered q) < MAX_BUFFERED_EVENTS"
    using that by (simp add: enqueue_def Let_def)
  ultimately show ?thesis using h None by (auto simp: hands_on_def queue_push_def)
next
  case (Some w)
  assume h: "hands_on q settled pushed"
  have "queue_inv (snd (queue_push e q))" using h queue_step_inv [of q "Push e"] by (simp add: hands_on_def)
  with h Some show ?thesis by (cases w) (auto simp: hands_on_def queue_push_def queue_inv_def)
qed

text \<open>
  A life of one session: prompts, answers that each arrive at most once and the \<open>finally\<close> of each,
  abandonments, updates and permission requests of the agent, file writes, and readers of the queue.
  \<open>tr_accepted\<close> counts the prompts that were let through, \<open>tr_thrown\<close> those that threw on a queue
  still held, \<open>tr_due\<close> lists the turns whose \<open>finally\<close> is due: it runs by itself or, at the latest,
  before the next prompt or abandonment, which come from a request or a timer.
\<close>

datatype turn_op =
    Op_prompt
  | Op_answer nat prompt_reply
  | Op_finally
  | Op_abandon
  | Op_update acp_update
  | Op_permission bool ustring "ustring option" "permission_option list"
  | Op_write ustring "ustring option" ustring
  | Op_read promise
  | Op_release nat

record turn_run =
  tr_session :: agent_session
  tr_pending :: "nat list"
  tr_due :: "nat list"
  tr_accepted :: nat
  tr_thrown :: nat

fun finish :: "nat list \<Rightarrow> turn_run \<Rightarrow> turn_run" where
  "finish [] r = r\<lparr>tr_due := []\<rparr>"
| "finish (e # es) r = finish es (r\<lparr>tr_session := prompt_finally e (tr_session r), tr_due := es\<rparr>)"

definition start_turn :: "turn_run \<Rightarrow> turn_run" where
  "start_turn r =
     (let (answer, out, s) = prompt_start (tr_session r); t = s\<lparr>as_settled := as_settled s @ out\<rparr> in
      case answer of
        Inl PromptInFlight \<Rightarrow> r\<lparr>tr_session := t\<rparr>
      | Inl QueueHeld \<Rightarrow> r\<lparr>tr_session := t, tr_thrown := tr_thrown r + 1\<rparr>
      | Inr (claim, epoch) \<Rightarrow> r\<lparr>tr_session := t, tr_accepted := tr_accepted r + 1, tr_pending := epoch # tr_pending r\<rparr>)"

definition read_next :: "promise \<Rightarrow> agent_session \<Rightarrow> agent_session" where
  "read_next p s = s\<lparr>as_queue := snd (queue_next p (as_queue s)), as_settled := as_settled s @ fst (queue_next p (as_queue s))\<rparr>"

fun turn_step :: "turn_op \<Rightarrow> turn_run \<Rightarrow> turn_run" where
  "turn_step Op_prompt r = start_turn (finish (tr_due r) r)"
| "turn_step (Op_answer epoch reply) r =
     (if epoch \<in> set (tr_pending r)
      then r\<lparr>tr_session := prompt_reply_arrives epoch reply (tr_session r), tr_pending := removeAll epoch (tr_pending r),
        tr_due := tr_due r @ [epoch]\<rparr>
      else r)"
| "turn_step Op_finally r = (case tr_due r of [] \<Rightarrow> r | e # es \<Rightarrow> r\<lparr>tr_session := prompt_finally e (tr_session r), tr_due := es\<rparr>)"
| "turn_step Op_abandon r = (let r = finish (tr_due r) r in r\<lparr>tr_session := snd (abandonTurn (tr_session r))\<rparr>)"
| "turn_step (Op_update u) r = r\<lparr>tr_session := snd (onUpdate no_store 0 u ((), tr_session r))\<rparr>"
| "turn_step (Op_permission p i t ops) r = r\<lparr>tr_session := snd (onPermission p i t ops (tr_session r))\<rparr>"
| "turn_step (Op_write p old new) r = r\<lparr>tr_session := onWriteTextFile p old new (tr_session r)\<rparr>"
| "turn_step (Op_read p) r = r\<lparr>tr_session := read_next p (tr_session r)\<rparr>"
| "turn_step (Op_release c) r =
     r\<lparr>tr_session := (tr_session r)\<lparr>as_queue := release c (as_queue (tr_session r))\<rparr>\<rparr>"

definition run_turns :: "turn_op list \<Rightarrow> turn_run" where
  "run_turns ops = fold turn_step ops \<lparr>tr_session = new_session, tr_pending = [], tr_due = [], tr_accepted = 0, tr_thrown = 0\<rparr>"

text \<open>A turn is open from its prompt to the event that ends it.\<close>

definition turn_open :: "turn_run \<Rightarrow> bool" where
  "turn_open r \<longleftrightarrow> as_turnActive (tr_session r) \<and> as_promptEpoch (tr_session r) \<notin> set (tr_due r)"

definition turn_inv :: "turn_run \<Rightarrow> bool" where
  "turn_inv r \<longleftrightarrow>
     endings (tr_session r) + (if turn_open r then 1 else 0) = tr_accepted r + tr_thrown r \<and>
     distinct (tr_due r) \<and> set (tr_due r) \<inter> set (tr_pending r) = {} \<and>
     (as_promptEpoch (tr_session r) \<in> set (tr_pending r) \<union> set (tr_due r) \<longrightarrow> as_turnActive (tr_session r)) \<and>
     (\<forall>e\<in>set (tr_pending r) \<union> set (tr_due r). e \<le> as_promptEpoch (tr_session r))"

text \<open>Everything but a prompt, its answer and an abandonment leaves the turn alone.\<close>

definition same_turn :: "agent_session \<Rightarrow> agent_session \<Rightarrow> bool" where
  "same_turn s t \<longleftrightarrow> endings t = endings s \<and> as_turnActive t = as_turnActive s \<and>
     as_promptEpoch t = as_promptEpoch s \<and> (handed_on s \<longrightarrow> handed_on t)"

lemma same_turn_refl [simp]: "same_turn s s"
  by (simp add: same_turn_def)

lemma same_turn_trans: "same_turn s t \<Longrightarrow> same_turn t u \<Longrightarrow> same_turn s u"
  by (simp add: same_turn_def)

lemma handed_on_emit [simp]:
  "hands_on (as_queue s) (as_settled s) pushed \<Longrightarrow> hands_on (as_queue (emit e s)) (as_settled (emit e s)) (pushed @ [e])"
  by (simp add: emit_def hands_on_push)

lemma same_turn_emit: "\<not> is_ending e \<Longrightarrow> same_turn s (emit e s)"
  by (simp add: same_turn_def endings_def handed_on_emit)

lemma same_turn_flush: "same_turn s (flushToolDraft s)"
  by (auto simp: same_turn_def flushToolDraft_def endings_def split: option.split)

lemma same_turn_fold: "\<forall>e\<in>set es. \<not> is_ending e \<Longrightarrow> same_turn s (fold emit es s)"
  by (induction es arbitrary: s) (auto intro: same_turn_trans [OF same_turn_emit])

lemma diff_events_plain: "e \<in> set (diff_events i content) \<Longrightarrow> \<not> is_ending e"
proof -
  have "e \<in> set (diff_event i c) \<Longrightarrow> \<not> is_ending e" for c by (cases c) auto
  then show "e \<in> set (diff_events i content) \<Longrightarrow> \<not> is_ending e"
    by (auto simp: diff_events_def)
qed

lemma same_turn_diffs: "same_turn s (emitDiffs i content s)"
proof -
  have "same_turn s (s\<lparr>as_diffed := i # as_diffed s\<rparr>)" by (simp add: same_turn_def endings_def)
  moreover have "same_turn t (fold emit (diff_events i content) t)" for t
    by (intro same_turn_fold ballI diff_events_plain)
  ultimately show ?thesis
    unfolding emitDiffs_def using same_turn_trans by simp
qed

lemma same_turn_messageId: "messageIdFor x s = (i, t) \<Longrightarrow> same_turn s t"
  by (auto simp: messageIdFor_def same_turn_def endings_def Let_def split: if_splits)

lemma same_turn_send: "send_update raw e s = (b, t) \<Longrightarrow> same_turn s t"
proof -
  assume send: "send_update raw e s = (b, t)"
  have "same_turn s (s\<lparr>as_draft := d\<rparr>)" for d by (simp add: same_turn_def endings_def)
  moreover have "same_turn s ((emit (ToolCallUpdate e) (flushToolDraft s))\<lparr>as_draft := d\<rparr>)" for d
    using same_turn_flush [of s] by (simp add: same_turn_def endings_def)
  ultimately show ?thesis using send by (auto simp: send_update_def split: option.splits)
qed

lemma same_turn_update: "same_turn s (snd (onUpdate keep now u (k, s)))"
proof -
  have flush: "same_turn s (flush_before u s)"
    by (cases u) (simp_all add: flush_before_def same_turn_flush)
  have "same_turn (flush_before u s) (snd (onUpdate keep now u (k, s)))"
  proof (cases u)
    case (U_chunk kind content sent)
    then show ?thesis
      by (auto simp: onUpdate_def Let_def split: prod.split
          intro: same_turn_trans [OF same_turn_messageId same_turn_emit])
  next
    case (U_tool_call t)
    then show ?thesis
      by (auto simp: onUpdate_def Let_def intro: same_turn_trans [OF same_turn_emit same_turn_diffs])
  next
    case (U_tool_call_update t)
    then show ?thesis
      by (auto simp: onUpdate_def Let_def split: prod.split
          intro: same_turn_trans [OF same_turn_send same_turn_diffs] same_turn_send)
  next
    case (U_async raw)
    then show ?thesis
      by (simp add: onUpdate_def Let_def same_turn_def endings_def split: option.split)
  qed (simp_all add: onUpdate_def Let_def same_turn_emit,
      simp_all add: same_turn_def endings_def set_mode_def set_options_def updateUsage_def split: option.split)
  with flush show ?thesis by (rule same_turn_trans)
qed

lemma finally_inv: "turn_inv r \<Longrightarrow> tr_due r = e # es \<Longrightarrow> turn_inv (r\<lparr>tr_session := prompt_finally e (tr_session r), tr_due := es\<rparr>)"
  by (auto simp: turn_inv_def turn_open_def prompt_finally_def endings_def)

lemma finish_inv: "turn_inv r \<Longrightarrow> tr_due r = es \<Longrightarrow> turn_inv (finish es r) \<and> tr_due (finish es r) = []"
proof (induction es arbitrary: r)
  case Nil
  then have same: "r\<lparr>tr_due := []\<rparr> = r" by (cases r) simp
  show ?case unfolding finish.simps same using Nil by (rule conjI)
next
  case (Cons e es)
  from Cons.IH [OF finally_inv [OF Cons.prems]] show ?case by simp
qed

lemma finish_handed: "handed_on (tr_session (finish es r)) = handed_on (tr_session r)"
  by (induction es arbitrary: r) (simp_all add: prompt_finally_def)

lemma start_turn_inv: "turn_inv r \<Longrightarrow> tr_due r = [] \<Longrightarrow> turn_inv (start_turn r)"
  by (auto simp: turn_inv_def turn_open_def start_turn_def prompt_start_def endings_def claimForTurn_def handover_def Let_def)

lemma answer_inv: "turn_inv r \<Longrightarrow> turn_inv (turn_step (Op_answer epoch reply) r)"
proof (cases "epoch \<in> set (tr_pending r) \<and> as_promptEpoch (tr_session r) = epoch")
  case True
  assume inv: "turn_inv r"
  have flush: "same_turn (tr_session r) (flushToolDraft (tr_session r))" by (rule same_turn_flush)
  then have "endings (prompt_reply_arrives epoch reply (tr_session r)) = endings (tr_session r) + 1"
    using True by (cases reply) (simp_all add: prompt_reply_arrives_def same_turn_def endings_def ending_def)
  moreover have "as_turnActive (prompt_reply_arrives epoch reply (tr_session r)) = as_turnActive (tr_session r)"
    "as_promptEpoch (prompt_reply_arrives epoch reply (tr_session r)) = as_promptEpoch (tr_session r)"
    using flush True by (simp_all add: prompt_reply_arrives_def same_turn_def)
  moreover have "epoch \<notin> set (tr_due r)" "as_turnActive (tr_session r)" using inv True by (auto simp: turn_inv_def)
  ultimately show ?thesis using inv True by (auto simp: turn_inv_def turn_open_def)
next
  case False
  assume inv: "turn_inv r"
  show ?thesis
  proof (cases "epoch \<in> set (tr_pending r)")
    case True
    with False have "prompt_reply_arrives epoch reply (tr_session r) = tr_session r" by (simp add: prompt_reply_arrives_def)
    with inv True False show ?thesis by (auto simp: turn_inv_def turn_open_def)
  qed (use inv in simp)
qed

lemma same_turn_inv: "turn_inv r \<Longrightarrow> same_turn (tr_session r) s \<Longrightarrow> turn_inv (r\<lparr>tr_session := s\<rparr>)"
  by (simp add: turn_inv_def turn_open_def same_turn_def)

lemma same_turn_permission: "same_turn s (snd (onPermission b i t ops s))"
  by (simp add: onPermission_def Let_def same_turn_emit)

lemma same_turn_write: "same_turn s (onWriteTextFile path old new s)"
  by (simp add: onWriteTextFile_def same_turn_emit)

lemma turn_step_inv: "turn_inv r \<Longrightarrow> turn_inv (turn_step p r)"
proof (cases p)
  case Op_prompt
  assume "turn_inv r"
  from finish_inv [OF this refl] show ?thesis by (simp add: Op_prompt start_turn_inv)
next
  case (Op_answer epoch reply)
  assume "turn_inv r"
  then show ?thesis unfolding Op_answer by (rule answer_inv)
next
  case Op_finally
  assume "turn_inv r"
  then show ?thesis by (auto simp: Op_finally finally_inv split: list.split)
next
  case Op_abandon
  assume "turn_inv r"
  let ?r = "finish (tr_due r) r"
  let ?s = "(tr_session ?r)\<lparr>as_promptEpoch := as_promptEpoch (tr_session ?r) + 1, as_turnActive := False\<rparr>"
  have "turn_inv ?r" "tr_due ?r = []" using finish_inv [OF \<open>turn_inv r\<close> refl] by simp_all
  with same_turn_flush [of ?s] show ?thesis
    by (force simp: Op_abandon turn_inv_def turn_open_def abandonTurn_def same_turn_def endings_def Let_def)
qed (simp_all add: same_turn_inv same_turn_update same_turn_permission same_turn_write,
    simp_all add: turn_inv_def turn_open_def endings_def read_next_def)

lemma run_turns_inv: "turn_inv (run_turns ops)"
proof -
  have "turn_inv (fold turn_step ops r)" if "turn_inv r" for r
    using that by (induction ops arbitrary: r) (auto intro: turn_step_inv)
  from this [of "\<lparr>tr_session = new_session, tr_pending = [], tr_due = [], tr_accepted = 0, tr_thrown = 0\<rparr>"] show ?thesis
    by (simp add: run_turns_def turn_inv_def turn_open_def new_session_def endings_def)
qed

lemma handed_on_next:
  assumes "hands_on q settled pushed" and "length (q_buffered q) < MAX_BUFFERED_EVENTS"
  shows "hands_on (snd (queue_next p q)) (settled @ fst (queue_next p q)) pushed"
proof -
  have "queue_inv (snd (queue_next p q))" using assms(1) queue_step_inv [of q "Next p"] by (simp add: hands_on_def)
  with assms show ?thesis by (auto simp: hands_on_def queue_next_def split: list.splits)
qed

lemma handed_on_claim:
  assumes "hands_on q settled pushed" and "claimForTurn q = (r, out, q')"
  shows "hands_on q' (settled @ out) pushed"
proof -
  have "queue_inv q'" using assms queue_step_inv [of q ClaimTurn] by (simp add: hands_on_def)
  with assms show ?thesis by (cases "q_waiting q") (auto simp: hands_on_def claimForTurn_def handover_def settle_def Let_def split: if_splits)
qed

lemma start_turn_handed: "handed_on (tr_session r) \<Longrightarrow> handed_on (tr_session (start_turn r))"
proof -
  assume h: "handed_on (tr_session r)"
  obtain a out q where c: "claimForTurn (as_queue (tr_session r)) = (a, out, q)" by (cases "claimForTurn (as_queue (tr_session r))") auto
  from handed_on_claim [OF h c] h c show ?thesis
    by (cases a) (auto simp: start_turn_def prompt_start_def Let_def split: prod.splits)
qed

lemma turn_step_handed:
  assumes "handed_on (tr_session r)" and "length (q_buffered (as_queue (tr_session r))) < MAX_BUFFERED_EVENTS"
  shows "handed_on (tr_session (turn_step p r))"
proof (cases p)
  case Op_prompt
  with start_turn_handed [of "finish (tr_due r) r"] assms(1) show ?thesis by (simp add: finish_handed)
next
  case (Op_answer epoch reply)
  have "handed_on (flushToolDraft (tr_session r))" using same_turn_flush [of "tr_session r"] assms(1) by (simp add: same_turn_def)
  with assms(1) show ?thesis by (simp add: Op_answer prompt_reply_arrives_def handed_on_emit)
next
  case Op_finally
  with assms(1) show ?thesis by (simp add: prompt_finally_def split: list.split)
next
  case Op_abandon
  let ?s = "tr_session (finish (tr_due r) r)"
  have "handed_on ?s" using assms(1) by (simp add: finish_handed)
  moreover from this have "handed_on (flushToolDraft (?s\<lparr>as_promptEpoch := as_promptEpoch ?s + 1, as_turnActive := False\<rparr>))"
    using same_turn_flush [of "?s\<lparr>as_promptEpoch := as_promptEpoch ?s + 1, as_turnActive := False\<rparr>"] by (simp add: same_turn_def)
  ultimately show ?thesis by (simp add: Op_abandon abandonTurn_def handed_on_emit Let_def)
next
  case (Op_update u)
  with assms(1) same_turn_update [of "tr_session r" no_store 0 u "()"] show ?thesis by (simp add: same_turn_def)
next
  case (Op_permission b i t ops)
  with assms(1) same_turn_permission [of "tr_session r" b i t ops] show ?thesis by (simp add: same_turn_def)
next
  case (Op_write path old new)
  with assms(1) same_turn_write [of "tr_session r" path old new] show ?thesis by (simp add: same_turn_def)
next
  case (Op_read q)
  with handed_on_next [OF assms, of q] show ?thesis by (simp add: read_next_def)
next
  case (Op_release c)
  have "queue_inv (release c (as_queue (tr_session r)))" using assms(1) queue_step_inv [of "as_queue (tr_session r)" "Release c"] by (simp add: hands_on_def)
  with Op_release assms(1) show ?thesis by (simp add: hands_on_def release_def)
qed

lemma run_turns_snoc: "run_turns (ops @ [p]) = turn_step p (run_turns ops)"
  by (simp add: run_turns_def)

lemma run_turns_handed:
  "\<forall>k. length (q_buffered (as_queue (tr_session (run_turns (take k ops))))) < MAX_BUFFERED_EVENTS \<Longrightarrow> handed_on (tr_session (run_turns ops))"
proof (induction ops rule: rev_induct)
  case Nil
  then show ?case by (simp add: run_turns_def new_session_def new_queue_def hands_on_def queue_inv_def)
next
  case (snoc p ops)
  have "length (q_buffered (as_queue (tr_session (run_turns (take k ops))))) < MAX_BUFFERED_EVENTS" for k
    using snoc.prems [rule_format, of "min k (length ops)"] by (simp add: min_def split: if_splits)
  then have "handed_on (tr_session (run_turns ops))" "length (q_buffered (as_queue (tr_session (run_turns ops)))) < MAX_BUFFERED_EVENTS"
    using snoc.IH by (blast, metis take_all order_refl)
  then show ?case unfolding run_turns_snoc by (rule turn_step_handed)
qed

subsection \<open>Lines\<close>

lemma split_lines_nonempty [simp]: "split_lines s \<noteq> []"
  by (induction s) (auto split: list.split)

lemma join_cons_head: "join [10] ((c # l) # ls) = c # join [10] (l # ls)"
  by (cases ls) simp_all

lemma join_split_lines [simp]: "join [10] (split_lines s) = s"
proof (induction s)
  case (Cons c cs)
  obtain l ls where ls: "split_lines cs = l # ls" by (cases "split_lines cs") auto
  with Cons show ?case by (cases "c = 10") (auto simp: join_cons_head)
qed simp

subsection \<open>Properties\<close>

text \<open>
  C20. Every turn ends exactly once. While the queue stays below its limit, what readers were handed
  and what is still buffered contain exactly one ending for every prompt that took the turn, but for
  the one still open, whatever the order of answers, their \<open>finally\<close>, abandonments, late answers, reads
  and the agent's other traffic. The prompts that took the turn are those let through and those that
  threw on a queue still held, which leave it taken until it is abandoned.
\<close>

theorem every_turn_ends_once:
  assumes "\<forall>k. length (q_buffered (as_queue (tr_session (run_turns (take k ops))))) < MAX_BUFFERED_EVENTS"
  shows "let r = run_turns ops; s = tr_session r in
    length (filter is_ending (handed_out (as_settled s) @ q_buffered (as_queue s))) + (if turn_open r then 1 else 0) = tr_accepted r + tr_thrown r"
proof -
  let ?s = "tr_session (run_turns ops)"
  have "length (q_buffered (as_queue ?s)) < MAX_BUFFERED_EVENTS" using assms [rule_format, of "length ops"] by simp
  then have "handed_out (as_settled ?s) @ q_buffered (as_queue ?s) = as_emitted ?s"
    using run_turns_handed [OF assms] by (simp add: hands_on_def)
  moreover have "endings ?s + (if turn_open (run_turns ops) then 1 else 0) = tr_accepted (run_turns ops) + tr_thrown (run_turns ops)"
    using run_turns_inv [of ops] by (simp add: turn_inv_def)
  ultimately show ?thesis by (simp only: Let_def endings_def)
qed

theorem every_turn_ends_once_witness:
  "let s = tr_session (run_turns [Op_prompt, Op_answer 1 (Reply_ok [] JNull), Op_read (1, 0), Op_release 1, Op_prompt])
   in length (filter is_ending (handed_out (as_settled s) @ q_buffered (as_queue s))) = 1"
proof -
  let ?ops = "[Op_prompt, Op_answer 1 (Reply_ok [] JNull), Op_read (1, 0), Op_release 1, Op_prompt]"
  note step_defs = run_turns_def start_turn_def prompt_start_def new_session_def claimForTurn_def handover_def Let_def new_queue_def
    prompt_reply_arrives_def flushToolDraft_def emit_def queue_push_def settle_def prompt_finally_def enqueue_def
    MAX_BUFFERED_EVENTS_def queue_next_def release_def read_next_def ending_def
  have "length (q_buffered (as_queue (tr_session (run_turns (take k ?ops))))) < MAX_BUFFERED_EVENTS" for k
  proof (cases "k < 5")
    case True
    then consider "k = 0" | "k = 1" | "k = 2" | "k = 3" | "k = 4" by fastforce
    then show ?thesis by cases (simp_all add: step_defs numeral_eq_Suc)
  next
    case False
    then have "take k ?ops = ?ops" by simp
    then show ?thesis by (simp only:) (simp add: step_defs)
  qed
  note once = every_turn_ends_once [OF allI, of ?ops, OF this]
  have "turn_open (run_turns ?ops) \<and> tr_accepted (run_turns ?ops) = 2 \<and> tr_thrown (run_turns ?ops) = 0"
    by (simp add: step_defs turn_open_def)
  with once show ?thesis by (simp add: Let_def)
qed

text \<open>
  An answer that comes after the daemon gave up on its turn writes nothing and takes
  no flag from the turn that runs now.
\<close>

theorem late_answer_is_dropped:
  assumes "as_turnActive s" and "epoch \<le> as_promptEpoch s"
  shows "prompt_answered epoch r (snd (abandonTurn s)) = snd (abandonTurn s) \<and>
    (case prompt_start (snd (abandonTurn s)) of
       (Inr (claim, epoch'), out, t) \<Rightarrow> prompt_answered epoch r t = t \<and> as_turnActive t
     | (Inl e, out, t) \<Rightarrow> e = QueueHeld)"
proof -
  have epoch: "as_promptEpoch (snd (abandonTurn s)) = as_promptEpoch s + 1"
    using assms(1) same_turn_flush [of "s\<lparr>as_promptEpoch := as_promptEpoch s + 1, as_turnActive := False\<rparr>"]
    by (simp add: abandonTurn_def same_turn_def)
  moreover have "\<not> as_turnActive (snd (abandonTurn s))"
    using assms(1) same_turn_flush [of "s\<lparr>as_promptEpoch := as_promptEpoch s + 1, as_turnActive := False\<rparr>"]
    by (simp add: abandonTurn_def same_turn_def)
  ultimately show ?thesis
    using assms(2)
    by (auto simp: prompt_answered_def prompt_reply_arrives_def prompt_finally_def prompt_start_def
        claimForTurn_def handover_def Let_def split: prod.split sum.split)
qed

theorem late_answer_is_dropped_witness:
  "prompt_answered 1 (Reply_ok [] JNull) (snd (abandonTurn (new_session\<lparr>as_turnActive := True, as_promptEpoch := 1\<rparr>)))
    = snd (abandonTurn (new_session\<lparr>as_turnActive := True, as_promptEpoch := 1\<rparr>))"
  using late_answer_is_dropped [of "new_session\<lparr>as_turnActive := True, as_promptEpoch := 1\<rparr>" 1 "Reply_ok [] JNull"]
  by simp

text \<open>
  A second prompt between a turn's answer and its reader taking it does not displace
  the reader, as the comment in its loop says, but fails on the held queue with its flag
  already set: after the reader has taken the ending and released the queue, every further
  prompt is refused as in flight, though no request is.
\<close>

theorem early_second_prompt_wedges:
  "let s1 = snd (snd (prompt_start new_session));
       s2 = prompt_answered 1 r s1;
       s3 = snd (snd (prompt_start s2));
       s4 = s3\<lparr>as_queue := release 1 (snd (queue_next (1, 0) (as_queue s3)))\<rparr>
   in fst (prompt_start new_session) = Inr (1, 1) \<and> \<not> as_turnActive s2 \<and>
      fst (prompt_start s2) = Inl QueueHeld \<and> fst (queue_next (1, 0) (as_queue s3)) = [((1, 0), Given (ending r))] \<and>
      as_turnActive s4 \<and> fst (prompt_start s4) = Inl PromptInFlight"
  by (simp add: prompt_start_def new_session_def claimForTurn_def handover_def Let_def new_queue_def
      prompt_answered_def prompt_reply_arrives_def flushToolDraft_def emit_def queue_push_def settle_def
      prompt_finally_def enqueue_def MAX_BUFFERED_EVENTS_def queue_next_def release_def)

text \<open>
  Holding back the drafts of a tool's arguments loses nothing: what reaches the log,
  once the last draft is flushed, is some of the updates in their own order, and each one
  left out said only a prefix of what one that was sent says of the same call.
\<close>

theorem drafts_lose_nothing:
  "\<exists>kept. as_emitted (flushToolDraft (send_all us new_session)) = map ToolCallUpdate kept \<and>
    subseq kept (map snd us) \<and> covered (map snd us) kept"
proof -
  from send_all_keeps [of us] obtain kept where
    "as_emitted (send_all us new_session) = map ToolCallUpdate kept"
    "subseq (kept @ held_update (send_all us new_session)) (map snd us)"
    "covered (map snd us) (kept @ held_update (send_all us new_session))" by auto
  with flush_emitted [of "send_all us new_session"] show ?thesis
    by (intro exI [of _ "kept @ held_update (send_all us new_session)"]) simp
qed

text \<open>
  Once an agent has numbered a message, every chunk after it carries an identifier,
  the ones made here are pairwise different, and none of them is one the agent gave as
  long as the agent's do not begin with a tilde.
\<close>

theorem message_boundaries:
  assumes "as_numbers s" and "\<forall>t. Some (JStr t) \<in> set xs \<longrightarrow> take 1 t \<noteq> [126]"
    and "i < j" and "j < length xs" and "blank (xs ! j)"
  shows "message_ids xs s ! j \<noteq> None \<and> message_ids xs s ! i \<noteq> message_ids xs s ! j"
proof -
  note ids = message_ids_numbered [OF assms(1), of xs]
  have here: "message_ids xs s ! j = Some (126 # decimal (as_unnumbered s + length (filter blank (take (Suc j) xs))))"
    using assms(4,5) by (simp add: ids)
  show ?thesis
  proof (cases "blank (xs ! i)")
    case True
    have "filter blank (take (Suc j) xs) = filter blank (take j xs) @ [xs ! j]"
      using assms(4,5) by (simp add: take_Suc_conv_app_nth)
    moreover have "length (filter blank (take (Suc i) xs)) \<le> length (filter blank (take j xs))"
    proof -
      have "take j xs = take (Suc i) xs @ drop (Suc i) (take j xs)"
        using assms(3) by (metis Suc_leI append_take_drop_id min.absorb1 take_take)
      then show ?thesis by (metis filter_append le_add1 length_append)
    qed
    ultimately have "length (filter blank (take (Suc i) xs)) < length (filter blank (take (Suc j) xs))" by simp
    with True assms(3,4) here show ?thesis by (simp add: ids)
  next
    case False
    then obtain t where t: "xs ! i = Some (JStr t)" "t \<noteq> []"
      by (auto simp: blank_def split: option.splits json.splits)
    then have "take 1 t \<noteq> [126]" using assms(2,3,4) by (metis nth_mem order.strict_trans)
    moreover have "message_ids xs s ! i = Some (take MAX_MESSAGE_ID_CHARS t)"
      using False assms(3,4) t by (simp add: ids)
    ultimately show ?thesis
      using here t(2) by (cases t) (auto simp: MAX_MESSAGE_ID_CHARS_def)
  qed
qed

theorem message_boundaries_witness:
  "message_ids [Some (JStr [109]), None] (new_session\<lparr>as_numbers := True\<rparr>) ! 1 \<noteq> None"
  using message_boundaries [of "new_session\<lparr>as_numbers := True\<rparr>" "[Some (JStr [109]), None]" 0 1]
  by (auto simp: blank_def)

text \<open>
  C26. An option is only ever selected for a person who is not there if it allows, and
  allows once whenever the agent offers that; nothing is selected where no option allows;
  a request handed to a person carries every option as the agent sent it, within the
  budget of a snapshot; and a refused request leaves the session as it was.
\<close>

theorem permissions_are_decided_narrowly:
  "case onPermission has_policy i stated ops s of
     (Select c, t) \<Rightarrow> \<not> has_policy \<and> (\<exists>p\<in>set ops. po_optionId p = c \<and>
       po_kind p = (if \<exists>q\<in>set ops. po_kind q = asc ''allow_once'' then asc ''allow_once'' else asc ''allow_always''))
   | (Cancel, t) \<Rightarrow> \<forall>p\<in>set ops. po_kind p \<noteq> asc ''allow_once'' \<and> po_kind p \<noteq> asc ''allow_always''
   | (Ask_policy title asked, t) \<Rightarrow> has_policy \<and> asked = ops \<and> t = s \<and> length ops \<le> MAX_PERMISSION_OPTIONS \<and>
       jsonBytes (JStr title) + jsonBytes (JArr (map permission_option_json ops)) \<le> MAX_PERMISSION_SNAPSHOT_BYTES
   | (_, t) \<Rightarrow> t = s"
proof -
  have choice: "case permission_choice ops of
      None \<Rightarrow> \<forall>p\<in>set ops. po_kind p \<noteq> asc ''allow_once'' \<and> po_kind p \<noteq> asc ''allow_always''
    | Some p \<Rightarrow> p \<in> set ops \<and>
        po_kind p = (if \<exists>q\<in>set ops. po_kind q = asc ''allow_once'' then asc ''allow_once'' else asc ''allow_always'')"
    by (auto simp: permission_choice_def find_None_iff find_Some_iff split: option.split)
  show ?thesis
  proof (cases "permission_choice ops")
    case None
    with choice show ?thesis by (simp add: onPermission_def Let_def)
  next
    case (Some p)
    with choice show ?thesis by (auto simp: onPermission_def Let_def intro!: bexI [of _ p])
  qed
qed

theorem permissions_are_decided_narrowly_witness:
  "fst (onPermission False [1] None [\<lparr>po_optionId = [7], po_name = [], po_kind = asc ''allow_once''\<rparr>] new_session) \<noteq> Cancel"
  using permissions_are_decided_narrowly [where has_policy = False and i = "[1]" and stated = None and
      ops = "[\<lparr>po_optionId = [7], po_name = [], po_kind = asc ''allow_once''\<rparr>]" and s = new_session]
  by (auto split: prod.splits permission_answer.splits)

text \<open>
  After the agent states its mode or republishes its options, the two ways a
  configuration names the mode agree whenever the mode option's value is one of the modes.
\<close>

theorem mode_expressions_agree:
  assumes "ac_modes (as_config (set_options ops s)) = Some m"
    and "find is_mode_option (ac_options (as_config (set_options ops s))) = Some p"
    and "co_value p = CV_text v" and "\<exists>a\<in>set (modes_available m). am_id a = v"
  shows "modes_current m = v"
proof -
  from assms(1) obtain m0 where m0: "ac_modes (as_config s) = Some m0" "m = sync_modes ops m0"
    by (auto simp: set_options_def)
  then have "modes_available m = modes_available m0"
    by (simp add: sync_modes_def split: option.split config_value.split)
  moreover have "find is_mode_option ops = Some p" using assms(2) by (simp add: set_options_def)
  ultimately show ?thesis using assms(3,4) m0(2) by (auto simp: sync_modes_def)
qed

theorem mode_expressions_agree_witness:
  "let p = \<lparr>co_id = [1], co_name = [], co_description = None, co_category = Some (asc ''mode''),
      co_kind = CK_select, co_value = CV_text [112], co_choices = [], co_truncated = False\<rparr>;
     s = new_session\<lparr>as_config := \<lparr>ac_modes = Some \<lparr>modes_current = [100],
       modes_available = [\<lparr>am_id = [112], am_name = [], am_description = None\<rparr>]\<rparr>, ac_options = []\<rparr>\<rparr>
   in \<exists>m. ac_modes (as_config (set_options [p] s)) = Some m \<and> modes_current m = [112]"
  using mode_expressions_agree [of "[\<lparr>co_id = [1], co_name = [], co_description = None, co_category = Some (asc ''mode''),
      co_kind = CK_select, co_value = CV_text [112], co_choices = [], co_truncated = False\<rparr>]"
     "new_session\<lparr>as_config := \<lparr>ac_modes = Some \<lparr>modes_current = [100],
       modes_available = [\<lparr>am_id = [112], am_name = [], am_description = None\<rparr>]\<rparr>, ac_options = []\<rparr>\<rparr>"]
  by (auto simp: set_options_def sync_modes_def is_mode_option_def)

text \<open>
  A draft that is held back is overtaken by a file the agent writes: the write is in
  the log before the older update, which comes only with the next flush.
\<close>

theorem write_overtakes_a_draft:
  assumes "as_draft s = Some d" and "td_held d = Some e"
  shows "as_emitted (flushToolDraft (onWriteTextFile path old new s)) = as_emitted s @
    [FileChange \<lparr>fc_path = path, fc_oldText = old, fc_newText = new, fc_source = Src_fs_write,
      fc_toolCallId = None\<rparr>, ToolCallUpdate e]"
  using assms by (simp add: onWriteTextFile_def flushToolDraft_def)

definition draft_example :: tool_call_update_event where
  "draft_example = \<lparr>tu_toolCallId = [1], tu_title = None, tu_status = None, tu_locations = [],
     tu_rawInput = JNull, tu_images = None, tu_content = Some [[123]], tu_parentToolCallId = None,
     tu_backgrounded = False\<rparr>"

theorem write_overtakes_a_draft_witness:
  "let s = send_all [(True, draft_example), (True, draft_example\<lparr>tu_content := Some [[123, 34]]\<rparr>)] new_session
   in as_emitted (flushToolDraft (onWriteTextFile [47] None [] s)) =
    [ToolCallUpdate draft_example, FileChange \<lparr>fc_path = [47], fc_oldText = None, fc_newText = [],
      fc_source = Src_fs_write, fc_toolCallId = None\<rparr>, ToolCallUpdate (draft_example\<lparr>tu_content := Some [[123, 34]]\<rparr>)]"
proof -
  let ?s = "send_all [(True, draft_example), (True, draft_example\<lparr>tu_content := Some [[123, 34]]\<rparr>)] new_session"
  have "as_emitted ?s = [ToolCallUpdate draft_example]"
    and "as_draft ?s = Some \<lparr>td_toolCallId = [1], td_block = Some [123, 34], td_status = None,
      td_held = Some (draft_example\<lparr>tu_content := Some [[123, 34]]\<rparr>)\<rparr>"
    by (simp_all add: send_all_def send_update_def holdsToolDraft_def draft_example_def new_session_def
        flushToolDraft_def single_block_def)
  with write_overtakes_a_draft [of ?s] show ?thesis by simp
qed

end
