(* ===== verification/Token.thy ===== *)
theory Token
  imports JsText
begin

text \<open>
  Capability tokens: compact JWS over Ed25519 (\<open>src/src/token.ts\<close>). Strict base64url,
  the decoder that never hands out unverified claims, the claim parser, the signer of the
  control plane, and the names of X25519 keys.

  \<open>JSON.parse\<close> on the UTF-8 text of a buffer is the argument \<open>parse\<close>, the Ed25519
  primitives and the hash are arguments too. A lenient Node decoder skips what it does not
  recognise; the strict one compares the re-encoding. Numeric dates are exact rationals.
\<close>

subsection \<open>Base64url\<close>

definition b64_char :: "nat \<Rightarrow> nat" where
  "b64_char v = (if v < 26 then 65 + v else if v < 52 then 71 + v else if v < 62 then v - 4
     else if v = 62 then 45 else 95)"

text \<open>Both alphabets are read; anything else is \<open>None\<close>.\<close>

definition b64_value :: "nat \<Rightarrow> nat option" where
  "b64_value c = (if 65 \<le> c \<and> c \<le> 90 then Some (c - 65) else if 97 \<le> c \<and> c \<le> 122 then Some (c - 71)
     else if 48 \<le> c \<and> c \<le> 57 then Some (c + 4) else if c = 45 \<or> c = 43 then Some 62
     else if c = 95 \<or> c = 47 then Some 63 else None)"

fun b64_sextets :: "nat list \<Rightarrow> nat list" where
  "b64_sextets (a # b # c # rest) =
     a div 4 # (a mod 4 * 16 + b div 16) # (b mod 16 * 4 + c div 64) # c mod 64 # b64_sextets rest"
| "b64_sextets [a, b] = [a div 4, a mod 4 * 16 + b div 16, b mod 16 * 4]"
| "b64_sextets [a] = [a div 4, a mod 4 * 16]"
| "b64_sextets [] = []"

fun b64_octets :: "nat list \<Rightarrow> nat list" where
  "b64_octets (p # q # r # s # rest) =
     (p * 4 + q div 16) # (q mod 16 * 16 + r div 4) # (r mod 4 * 64 + s) # b64_octets rest"
| "b64_octets [p, q, r] = [p * 4 + q div 16, q mod 16 * 16 + r div 4]"
| "b64_octets [p, q] = [p * 4 + q div 16]"
| "b64_octets _ = []"

definition b64uEncode :: "bytes \<Rightarrow> ustring" where
  "b64uEncode bs = map b64_char (b64_sextets (map unat bs))"

definition buffer_from_b64u :: "ustring \<Rightarrow> bytes" where
  "buffer_from_b64u s = map word_of_nat (b64_octets (List.map_filter b64_value (takeWhile (\<lambda>c. c \<noteq> 61) s)))"

definition b64uDecode :: "ustring \<Rightarrow> bytes option" where
  "b64uDecode input =
     (if input = [] then None
      else let decoded = buffer_from_b64u input
           in if b64uEncode decoded \<noteq> input then None else Some decoded)"

lemma b64_value_char: "v < 64 \<Longrightarrow> b64_value (b64_char v) = Some v \<and> b64_char v \<noteq> 61 \<and> b64_char v < 128 \<and> b64_char v \<noteq> 46"
  by (auto simp: b64_value_def b64_char_def)

lemma digit_split: "(y :: nat) < m \<Longrightarrow> (x * m + y) div m = x \<and> (x * m + y) mod m = y"
  by simp

lemma byte_digits:
  assumes "(b :: nat) < 256"
  shows "b div 4 < 64" "b div 16 < 16" "b div 64 < 4"
  using assms by (simp_all add: less_mult_imp_div_less)

lemma join_digits:
  assumes "(a :: nat) < 256" and "b < 256"
  shows "a mod 4 * 16 + b div 16 < 64" "a mod 16 * 4 + b div 64 < 64"
    "(a mod 4 * 16 + b div 16) div 16 = a mod 4" "(a mod 4 * 16 + b div 16) mod 16 = b div 16"
    "(a mod 16 * 4 + b div 64) div 4 = a mod 16" "(a mod 16 * 4 + b div 64) mod 4 = b div 64"
proof -
  note d = byte_digits [OF assms(2)]
  have "a mod 4 < 4" "a mod 16 < 16" by simp_all
  then show "a mod 4 * 16 + b div 16 < 64" "a mod 16 * 4 + b div 64 < 64" using d by linarith+
  show "(a mod 4 * 16 + b div 16) div 16 = a mod 4" "(a mod 4 * 16 + b div 16) mod 16 = b div 16"
    using digit_split [OF d(2)] by simp_all
  show "(a mod 16 * 4 + b div 64) div 4 = a mod 16" "(a mod 16 * 4 + b div 64) mod 4 = b div 64"
    using digit_split [OF d(3)] by simp_all
qed

lemma last_digits: "(a :: nat) mod 4 * 16 < 64" "a mod 16 * 4 < 64"
proof -
  have "a mod 4 < 4" "a mod 16 < 16" by simp_all
  then show "a mod 4 * 16 < 64" "a mod 16 * 4 < 64" by linarith+
qed

lemma b64_sextets_range: "\<forall>b\<in>set bs. b < 256 \<Longrightarrow> \<forall>v\<in>set (b64_sextets bs). v < 64"
  by (induction bs rule: b64_sextets.induct) (simp_all add: byte_digits join_digits last_digits)

lemma b64_octets_sextets: "\<forall>b\<in>set bs. b < 256 \<Longrightarrow> b64_octets (b64_sextets bs) = bs"
proof (induction bs rule: b64_sextets.induct)
  case (1 a b c rest)
  then have "a < 256" "b < 256" "c < 256" "b64_octets (b64_sextets rest) = rest" by auto
  then show ?case
    by (simp only: b64_sextets.simps b64_octets.simps join_digits div_mult_mod_eq)
next
  case (2 a b)
  then have "a < 256" "b < 256" by auto
  moreover have "(b mod 16 * 4) div 4 = b mod 16" by simp
  ultimately show ?case
    by (simp only: b64_sextets.simps b64_octets.simps join_digits div_mult_mod_eq)
next
  case (3 a)
  have "(a mod 4 * 16) div 16 = a mod 4" by simp
  then show ?case by (simp only: b64_sextets.simps b64_octets.simps div_mult_mod_eq)
qed simp

lemma buffer_from_encode [simp]: "buffer_from_b64u (b64uEncode bs) = bs"
proof -
  have bytes: "\<forall>b\<in>set (map unat bs). b < 256" by auto
  have "List.map_filter b64_value (takeWhile (\<lambda>c. c \<noteq> 61) (map b64_char vs)) = vs"
    if "\<forall>v\<in>set vs. v < 64" for vs
    using that by (induction vs) (auto simp: map_filter_simps b64_value_char)
  from this [OF b64_sextets_range [OF bytes]] show ?thesis
    by (simp add: buffer_from_b64u_def b64uEncode_def b64_octets_sextets [OF bytes] comp_def)
qed

lemma b64uEncode_empty [simp]: "b64uEncode bs = [] \<longleftrightarrow> bs = []"
  by (cases "map unat bs" rule: b64_sextets.cases) (auto simp: b64uEncode_def)

lemma b64uEncode_inject [simp]: "b64uEncode a = b64uEncode b \<longleftrightarrow> a = b"
  by (metis buffer_from_encode)

lemma b64uDecode_encode: "bs \<noteq> [] \<Longrightarrow> b64uDecode (b64uEncode bs) = Some bs"
  by (simp add: b64uDecode_def)

lemma b64uDecode_canonical: "b64uDecode s = Some bs \<Longrightarrow> s = b64uEncode bs \<and> bs \<noteq> []"
  by (auto simp: b64uDecode_def Let_def split: if_splits)

lemma b64uEncode_chars: "c \<in> set (b64uEncode bs) \<Longrightarrow> c < 128 \<and> c \<noteq> 46"
proof -
  assume "c \<in> set (b64uEncode bs)"
  then obtain v where "v \<in> set (b64_sextets (map unat bs))" "c = b64_char v"
    by (auto simp: b64uEncode_def)
  moreover from this(1) have "v < 64"
    using b64_sextets_range [of "map unat bs"] by auto
  ultimately show ?thesis using b64_value_char by simp
qed

subsection \<open>The three parts\<close>

text \<open>\<open>String.prototype.split\<close> on one character.\<close>

fun split_on :: "nat \<Rightarrow> ustring \<Rightarrow> ustring list" where
  "split_on d [] = [[]]"
| "split_on d (c # cs) =
     (if c = d then [] # split_on d cs
      else (c # hd (split_on d cs)) # tl (split_on d cs))"

lemma split_on_nonempty [simp]: "split_on d s \<noteq> []"
  by (induction s) auto

lemma split_on_plain: "d \<notin> set s \<Longrightarrow> split_on d (s @ d # t) = s # split_on d t"
  by (induction s) auto

lemma split_on_none: "d \<notin> set s \<Longrightarrow> split_on d s = [s]"
  by (induction s) auto

lemma join_split_on: "join [d] (split_on d s) = s"
proof (induction s)
  case (Cons c cs)
  obtain l ls where ls: "split_on d cs = l # ls" by (cases "split_on d cs") auto
  with Cons show ?case by (cases ls) auto
qed simp

definition looksLikeSignedToken :: "ustring \<Rightarrow> bool" where
  "looksLikeSignedToken token \<longleftrightarrow> length (split_on 46 token) = 3"

definition TOKEN_ALG :: ustring where "TOKEN_ALG = asc ''EdDSA''"
definition TOKEN_TYP :: ustring where "TOKEN_TYP = asc ''reemoat+jwt''"

record token_header =
  th_alg :: ustring
  th_typ :: ustring
  th_kid :: ustring

record token_claims =
  cl_iss :: ustring
  cl_sub :: ustring
  cl_aud :: ustring
  cl_jti :: ustring
  cl_iat :: rat
  cl_nbf :: rat
  cl_exp :: rat
  cl_scp :: "ustring list"
  cl_cnf :: "ustring option"
  cl_dev :: "ustring option"

datatype decode_failure = Malformed_token | Bad_header | Bad_alg

record decoded_token =
  dt_header :: token_header
  dt_signingInput :: bytes
  dt_signature :: bytes
  dt_payload :: bytes

text \<open>\<open>Buffer.from(s, "ascii")\<close>.\<close>

definition ascii_bytes :: "ustring \<Rightarrow> bytes" where
  "ascii_bytes s = map word_of_nat s"

definition decodeToken :: "(bytes \<Rightarrow> json option) \<Rightarrow> ustring \<Rightarrow> (decode_failure, decoded_token) result" where
  "decodeToken parse token =
     (case split_on 46 token of
        [rawHeader, rawPayload, rawSignature] \<Rightarrow>
          (case b64uDecode rawHeader of
             None \<Rightarrow> Inl Malformed_token
           | Some headerBytes \<Rightarrow>
               (case parse headerBytes of
                  Some (JObj kvs) \<Rightarrow>
                    if field_of (JObj kvs) (asc ''alg'') \<noteq> Some (JStr TOKEN_ALG) then Inl Bad_alg
                    else if field_of (JObj kvs) (asc ''typ'') \<noteq> Some (JStr TOKEN_TYP) then Inl Bad_header
                    else (case field_of (JObj kvs) (asc ''kid'') of
                        Some (JStr kid) \<Rightarrow>
                          if kid = [] then Inl Bad_header
                          else (case (b64uDecode rawSignature, b64uDecode rawPayload) of
                              (Some signature, Some payload) \<Rightarrow>
                                Inr \<lparr>dt_header = \<lparr>th_alg = TOKEN_ALG, th_typ = TOKEN_TYP, th_kid = kid\<rparr>,
                                  dt_signingInput = ascii_bytes (rawHeader @ [46] @ rawPayload),
                                  dt_signature = signature, dt_payload = payload\<rparr>
                            | _ \<Rightarrow> Inl Malformed_token)
                      | _ \<Rightarrow> Inl Bad_header)
                | _ \<Rightarrow> Inl Bad_header))
      | _ \<Rightarrow> Inl Malformed_token)"

subsection \<open>Claims\<close>

definition nonempty_text :: "json option \<Rightarrow> ustring option" where
  "nonempty_text v = (case v of Some (JStr s) \<Rightarrow> if s = [] then None else Some s | _ \<Rightarrow> None)"

definition finite_number :: "json option \<Rightarrow> rat option" where
  "finite_number v = (case v of Some (JNum n t) \<Rightarrow> n | _ \<Rightarrow> None)"

fun all_texts :: "json list \<Rightarrow> ustring list option" where
  "all_texts [] = Some []"
| "all_texts (JStr s # xs) = map_option ((#) s) (all_texts xs)"
| "all_texts (_ # xs) = None"

definition text_list :: "json option \<Rightarrow> ustring list option" where
  "text_list v = (case v of Some (JArr xs) \<Rightarrow> all_texts xs | _ \<Rightarrow> None)"

text \<open>
  A field that may be absent: \<open>Some None\<close> when it is, \<open>None\<close> when it is malformed.
\<close>

definition confirmation :: "json option \<Rightarrow> ustring option option" where
  "confirmation v =
     (case v of
        None \<Rightarrow> Some None
      | Some (JObj kvs) \<Rightarrow> map_option Some (nonempty_text (field_of (JObj kvs) (asc ''jkt'')))
      | _ \<Rightarrow> None)"

definition optional_text :: "json option \<Rightarrow> ustring option option" where
  "optional_text v = (case v of None \<Rightarrow> Some None | Some x \<Rightarrow> map_option Some (nonempty_text (Some x)))"

definition parseClaims :: "(bytes \<Rightarrow> json option) \<Rightarrow> bytes \<Rightarrow> token_claims option" where
  "parseClaims parse payload =
     (case parse payload of
        Some (JObj kvs) \<Rightarrow>
          (let get = (\<lambda>name. field_of (JObj kvs) (asc name)) in
           case (nonempty_text (get ''iss''), nonempty_text (get ''sub''), nonempty_text (get ''aud''),
               nonempty_text (get ''jti'')) of
             (Some iss, Some sub, Some aud, Some jti) \<Rightarrow>
               (case (finite_number (get ''iat''), finite_number (get ''nbf''), finite_number (get ''exp''),
                   text_list (get ''scp'')) of
                  (Some iat, Some nbf, Some till, Some scp) \<Rightarrow>
                    (case (confirmation (get ''cnf''), optional_text (get ''dev'')) of
                       (Some cnf, Some dev) \<Rightarrow>
                         Some \<lparr>cl_iss = iss, cl_sub = sub, cl_aud = aud, cl_jti = jti, cl_iat = iat,
                           cl_nbf = nbf, cl_exp = till, cl_scp = scp, cl_cnf = cnf, cl_dev = dev\<rparr>
                     | _ \<Rightarrow> None)
                | _ \<Rightarrow> None)
           | _ \<Rightarrow> None)
      | _ \<Rightarrow> None)"

subsection \<open>Signing\<close>

text \<open>The JSON text a number is written with is part of what is signed.\<close>

definition claims_json :: "(rat \<Rightarrow> ustring) \<Rightarrow> token_claims \<Rightarrow> json" where
  "claims_json digits c = JObj ([(asc ''iss'', JStr (cl_iss c)), (asc ''sub'', JStr (cl_sub c)),
     (asc ''aud'', JStr (cl_aud c)), (asc ''jti'', JStr (cl_jti c)),
     (asc ''iat'', JNum (Some (cl_iat c)) (digits (cl_iat c))),
     (asc ''nbf'', JNum (Some (cl_nbf c)) (digits (cl_nbf c))),
     (asc ''exp'', JNum (Some (cl_exp c)) (digits (cl_exp c))),
     (asc ''scp'', JArr (map JStr (cl_scp c)))]
     @ (case cl_cnf c of None \<Rightarrow> [] | Some jkt \<Rightarrow> [(asc ''cnf'', JObj [(asc ''jkt'', JStr jkt)])])
     @ (case cl_dev c of None \<Rightarrow> [] | Some dev \<Rightarrow> [(asc ''dev'', JStr dev)]))"

definition header_json :: "ustring \<Rightarrow> json" where
  "header_json kid = JObj [(asc ''alg'', JStr TOKEN_ALG), (asc ''typ'', JStr TOKEN_TYP), (asc ''kid'', JStr kid)]"

definition signToken ::
  "(rat \<Rightarrow> ustring) \<Rightarrow> ('sk \<Rightarrow> bytes \<Rightarrow> bytes) \<Rightarrow> token_claims \<Rightarrow> ustring \<Rightarrow> 'sk \<Rightarrow> ustring" where
  "signToken digits sign claims kid secret =
     (let signingInput = b64uEncode (utf8_encode (stringify (header_json kid))) @ [46]
            @ b64uEncode (utf8_encode (stringify (claims_json digits claims)))
      in signingInput @ [46] @ b64uEncode (sign secret (ascii_bytes signingInput)))"

subsection \<open>Keys\<close>

definition jwkToPublicKey :: "(ustring \<Rightarrow> 'k option) \<Rightarrow> json \<Rightarrow> 'k option" where
  "jwkToPublicKey createPublicKey jwk =
     (if field_of jwk (asc ''kty'') \<noteq> Some (JStr (asc ''OKP''))
        \<or> field_of jwk (asc ''crv'') \<noteq> Some (JStr (asc ''Ed25519'')) then None
      else case nonempty_text (field_of jwk (asc ''x'')) of
        None \<Rightarrow> None | Some x \<Rightarrow> createPublicKey x)"

definition X25519_PUBLIC_BYTES :: nat where "X25519_PUBLIC_BYTES = 32"

definition x25519Jwk :: "bytes \<Rightarrow> json" where
  "x25519Jwk raw = JObj [(asc ''kty'', JStr (asc ''OKP'')), (asc ''crv'', JStr (asc ''X25519'')),
     (asc ''x'', JStr (b64uEncode raw))]"

definition x25519FromJwk :: "json \<Rightarrow> bytes option" where
  "x25519FromJwk jwk =
     (if field_of jwk (asc ''kty'') \<noteq> Some (JStr (asc ''OKP''))
        \<or> field_of jwk (asc ''crv'') \<noteq> Some (JStr (asc ''X25519'')) then None
      else case nonempty_text (field_of jwk (asc ''x'')) of
        None \<Rightarrow> None
      | Some x \<Rightarrow> (case b64uDecode x of
            None \<Rightarrow> None | Some raw \<Rightarrow> if length raw \<noteq> X25519_PUBLIC_BYTES then None else Some raw))"

text \<open>The thumbprint hashes the required members in their fixed order.\<close>

definition thumbprint_text :: "ustring \<Rightarrow> ustring" where
  "thumbprint_text x = asc ''{\"crv\":\"X25519\",\"kty\":\"OKP\",\"x\":\"'' @ x @ asc ''\"}''"

definition jwkThumbprint :: "(bytes \<Rightarrow> bytes) \<Rightarrow> ustring \<Rightarrow> ustring" where
  "jwkThumbprint sha256 x = b64uEncode (sha256 (utf8_encode (thumbprint_text x)))"

subsection \<open>What a decoded token says of its text\<close>

lemma decodeToken_parts:
  assumes "decodeToken parse token = Inr d"
  obtains headerBytes kvs where
    "token = b64uEncode headerBytes @ [46] @ b64uEncode (dt_payload d) @ [46] @ b64uEncode (dt_signature d)"
    and "dt_signingInput d = ascii_bytes (b64uEncode headerBytes @ [46] @ b64uEncode (dt_payload d))"
    and "parse headerBytes = Some (JObj kvs)" and "map_of kvs (asc ''alg'') = Some (JStr TOKEN_ALG)"
    and "map_of kvs (asc ''kid'') = Some (JStr (th_kid (dt_header d)))"
proof -
  from assms obtain p q r where parts: "split_on 46 token = [p, q, r]"
    by (auto simp: decodeToken_def split: list.splits)
  note run = assms [unfolded decodeToken_def parts, simplified]
  from run obtain hb where hb: "b64uDecode p = Some hb" by (cases "b64uDecode p") auto
  from run hb obtain kvs where kvs: "parse hb = Some (JObj kvs)"
    by (cases "parse hb"; cases "the (parse hb)") auto
  note run1 = run [unfolded hb, simplified]
  note run2 = run1 [unfolded kvs, simplified]
  from run2 have alg: "map_of kvs (asc ''alg'') = Some (JStr TOKEN_ALG)" by (auto split: if_splits)
  from run2 obtain kid where kid: "map_of kvs (asc ''kid'') = Some (JStr kid)"
    by (cases "map_of kvs (asc ''kid'')"; cases "the (map_of kvs (asc ''kid''))") (auto split: if_splits)
  from run2 kid obtain sb pb where b: "b64uDecode r = Some sb" "b64uDecode q = Some pb"
    by (cases "b64uDecode r"; cases "b64uDecode q") (auto split: if_splits)
  from run2 kid b have d: "d = \<lparr>dt_header = \<lparr>th_alg = TOKEN_ALG, th_typ = TOKEN_TYP, th_kid = kid\<rparr>,
      dt_signingInput = ascii_bytes (p @ [46] @ q), dt_signature = sb, dt_payload = pb\<rparr>"
    by (auto split: if_splits)
  have "token = p @ [46] @ q @ [46] @ r" using join_split_on [of 46 token] parts by simp
  moreover have "p = b64uEncode hb" "q = b64uEncode pb" "r = b64uEncode sb"
    using hb b b64uDecode_canonical by auto
  ultimately show thesis using kvs alg kid d by (intro that [of hb kvs]) simp_all
qed

lemma ascii_bytes_inject:
  assumes "\<forall>c\<in>set s. c < 128" and "\<forall>c\<in>set t. c < 128" and "ascii_bytes s = ascii_bytes t"
  shows "s = t"
proof -
  have "c = e" if "c < 128" "e < 128" "(word_of_nat c :: 8 word) = word_of_nat e" for c e
  proof -
    from that(3) have "unat (word_of_nat c :: 8 word) = unat (word_of_nat e :: 8 word)" by simp
    with that(1,2) show ?thesis unfolding unat_word_of_nat_byte by simp
  qed
  then have "inj_on (word_of_nat :: nat \<Rightarrow> 8 word) (set s \<union> set t)"
    using assms(1,2) by (intro inj_onI) blast
  with assms(3) show ?thesis unfolding ascii_bytes_def using inj_on_map_eq_map by blast
qed

lemma encoded_pair_ascii: "c \<in> set (b64uEncode h @ [46] @ b64uEncode p) \<Longrightarrow> c < 128"
  using b64uEncode_chars by auto

lemma decodeToken_join:
  assumes "parse h = Some (JObj kvs)" and "map_of kvs (asc ''alg'') = Some (JStr TOKEN_ALG)"
    and "map_of kvs (asc ''typ'') = Some (JStr TOKEN_TYP)" and "map_of kvs (asc ''kid'') = Some (JStr kid)"
    and "kid \<noteq> []" and "h \<noteq> []" and "p \<noteq> []" and "g \<noteq> []"
  shows "decodeToken parse (b64uEncode h @ [46] @ b64uEncode p @ [46] @ b64uEncode g)
    = Inr \<lparr>dt_header = \<lparr>th_alg = TOKEN_ALG, th_typ = TOKEN_TYP, th_kid = kid\<rparr>,
        dt_signingInput = ascii_bytes (b64uEncode h @ [46] @ b64uEncode p), dt_signature = g, dt_payload = p\<rparr>"
proof -
  have dot: "46 \<notin> set (b64uEncode bs)" for bs using b64uEncode_chars by blast
  have "split_on 46 (b64uEncode h @ [46] @ b64uEncode p @ [46] @ b64uEncode g)
      = [b64uEncode h, b64uEncode p, b64uEncode g]"
    using split_on_plain [OF dot] split_on_none [OF dot] by simp
  with assms show ?thesis by (simp add: decodeToken_def b64uDecode_encode)
qed

lemma all_texts_map [simp]: "all_texts (map JStr xs) = Some xs"
  by (induction xs) auto

definition claims_ok :: "token_claims \<Rightarrow> bool" where
  "claims_ok c \<longleftrightarrow> cl_iss c \<noteq> [] \<and> cl_sub c \<noteq> [] \<and> cl_aud c \<noteq> [] \<and> cl_jti c \<noteq> [] \<and>
     cl_cnf c \<noteq> Some [] \<and> cl_dev c \<noteq> Some []"

lemma parseClaims_json:
  assumes "claims_ok c" and "parse p = Some (claims_json digits c)"
  shows "parseClaims parse p = Some c"
proof -
  have labels: "asc ''iss'' \<noteq> asc ''sub''" "asc ''iss'' \<noteq> asc ''aud''" by (simp_all add: asc_def)
  show ?thesis
    using assms unfolding parseClaims_def claims_json_def claims_ok_def
    by (cases "cl_cnf c"; cases "cl_dev c")
      (simp_all add: asc_def nonempty_text_def finite_number_def text_list_def confirmation_def
        optional_text_def Let_def)
qed

lemma parseClaims_ok: "parseClaims parse p = Some c \<Longrightarrow> claims_ok c"
  by (auto simp: parseClaims_def claims_ok_def nonempty_text_def confirmation_def optional_text_def Let_def
      split: option.splits json.splits if_splits)

lemma utf8_encode_nonempty: "s \<noteq> [] \<Longrightarrow> utf8_encode s \<noteq> []"
  by (induction s rule: utf8_encode.induct) (auto simp: utf8_point_def)

text \<open>A signed token decodes to what was signed, and its claims parse back.\<close>

lemma signToken_decode:
  assumes "claims_ok c" and "kid \<noteq> []" and "\<And>m. sign secret m \<noteq> []"
    and "parse (utf8_encode (stringify (header_json kid))) = Some (header_json kid)"
    and "parse (utf8_encode (stringify (claims_json digits c))) = Some (claims_json digits c)"
  obtains d where "decodeToken parse (signToken digits sign c kid secret) = Inr d"
    and "th_kid (dt_header d) = kid" and "dt_signature d = sign secret (dt_signingInput d)"
    and "parseClaims parse (dt_payload d) = Some c"
proof -
  let ?h = "utf8_encode (stringify (header_json kid))"
  let ?p = "utf8_encode (stringify (claims_json digits c))"
  have claims: "parseClaims parse ?p = Some c"
    by (rule parseClaims_json [OF assms(1), where digits = digits]) (rule assms(5))
  have ne: "?h \<noteq> []" "?p \<noteq> []"
    by (auto intro!: utf8_encode_nonempty simp: header_json_def claims_json_def)
  obtain kvs where kvs: "header_json kid = JObj kvs" "map_of kvs (asc ''alg'') = Some (JStr TOKEN_ALG)"
    "map_of kvs (asc ''typ'') = Some (JStr TOKEN_TYP)" "map_of kvs (asc ''kid'') = Some (JStr kid)"
    by (simp add: header_json_def asc_def)
  have hp: "parse ?h = Some (JObj kvs)" using assms(4) kvs(1) by simp
  have dec: "decodeToken parse (signToken digits sign c kid secret)
      = Inr \<lparr>dt_header = \<lparr>th_alg = TOKEN_ALG, th_typ = TOKEN_TYP, th_kid = kid\<rparr>,
          dt_signingInput = ascii_bytes (b64uEncode ?h @ [46] @ b64uEncode ?p),
          dt_signature = sign secret (ascii_bytes (b64uEncode ?h @ [46] @ b64uEncode ?p)), dt_payload = ?p\<rparr>"
    unfolding signToken_def Let_def append_assoc
    by (rule decodeToken_join [where h = ?h and p = ?p and parse = parse and kvs = kvs and kid = kid, OF hp kvs(2-4) assms(2)])
      (use ne assms(3) in auto)
  show thesis by (rule that [OF dec]) (simp_all add: claims)
qed


subsection \<open>Properties\<close>

text \<open>
  A token has one spelling. Two strings that decode to the same signed bytes and the same
  signature are the same string: the decoder refuses every encoding but the canonical one, so
  a lenient base64 reader downstream cannot be shown a second text for a signed token. What is
  verified is the received prefix of that text, byte for byte.
\<close>

theorem canonical_tokens:
  assumes "decodeToken parse token = Inr d" and "decodeToken parse other = Inr e"
    and "dt_signingInput d = dt_signingInput e" and "dt_signature d = dt_signature e"
  shows "token = other \<and> (\<exists>signed. token = signed @ [46] @ b64uEncode (dt_signature d)
    \<and> dt_signingInput d = ascii_bytes signed)"
proof -
  from assms(1) obtain h kvs where d: "token = b64uEncode h @ [46] @ b64uEncode (dt_payload d) @ [46]
      @ b64uEncode (dt_signature d)" "dt_signingInput d = ascii_bytes (b64uEncode h @ [46] @ b64uEncode (dt_payload d))"
    by (rule decodeToken_parts)
  from assms(2) obtain h' kvs' where e: "other = b64uEncode h' @ [46] @ b64uEncode (dt_payload e) @ [46]
      @ b64uEncode (dt_signature e)" "dt_signingInput e = ascii_bytes (b64uEncode h' @ [46] @ b64uEncode (dt_payload e))"
    by (rule decodeToken_parts)
  have "b64uEncode h @ [46] @ b64uEncode (dt_payload d) = b64uEncode h' @ [46] @ b64uEncode (dt_payload e)"
    using assms(3) d(2) e(2) encoded_pair_ascii by (intro ascii_bytes_inject) auto
  with d e assms(4) show ?thesis by (metis append_assoc)
qed

definition sample_token :: ustring where
  "sample_token = b64uEncode [1] @ [46] @ b64uEncode [2] @ [46] @ b64uEncode [3]"

definition sample_parse :: "bytes \<Rightarrow> json option" where
  "sample_parse bs = (if bs = [1] then Some (header_json (asc ''k'')) else None)"

lemma sample_token_decodes:
  "\<exists>d. decodeToken sample_parse sample_token = Inr d"
  using decodeToken_join [of sample_parse "[1]" _ "asc ''k''" "[2]" "[3]"]
  by (simp add: sample_token_def sample_parse_def header_json_def asc_def)

theorem canonical_tokens_witness:
  "\<exists>d signed. decodeToken sample_parse sample_token = Inr d \<and> dt_signingInput d = ascii_bytes signed"
proof -
  from sample_token_decodes obtain d where d: "decodeToken sample_parse sample_token = Inr d" ..
  from canonical_tokens [OF d d refl refl] d show ?thesis by blast
qed

text \<open>
  A device key has one name. Writing 32 raw bytes as a JWK and reading them back is the
  identity and nothing of another length is read; and whatever JWK is accepted, its text is
  the canonical one, so the thumbprint the capability names is a function of the key bytes.
\<close>

theorem device_keys_have_one_name:
  "x25519FromJwk (x25519Jwk raw) = (if length raw = X25519_PUBLIC_BYTES then Some raw else None) \<and>
   (x25519FromJwk jwk = Some key \<longleftrightarrow> length key = X25519_PUBLIC_BYTES \<and>
     map (field_of jwk) (map asc [''kty'', ''crv'', ''x'']) = map (field_of (x25519Jwk key)) (map asc [''kty'', ''crv'', ''x'']))"
proof -
  have lbl: "asc ''kty'' \<noteq> asc ''x''" "asc ''crv'' \<noteq> asc ''x''" "asc ''kty'' \<noteq> asc ''crv''"
    by (simp_all add: asc_def)
  have ne: "length k = X25519_PUBLIC_BYTES \<Longrightarrow> k \<noteq> [] \<and> [] \<noteq> b64uEncode k" for k :: bytes
    using b64uEncode_empty [of k] by (auto simp: X25519_PUBLIC_BYTES_def simp del: b64uEncode_empty)
  have get: "field_of (x25519Jwk k) (asc ''kty'') = Some (JStr (asc ''OKP''))"
    "field_of (x25519Jwk k) (asc ''crv'') = Some (JStr (asc ''X25519''))"
    "field_of (x25519Jwk k) (asc ''x'') = Some (JStr (b64uEncode k))" for k
    using lbl by (auto simp: x25519Jwk_def)
  have iff: "x25519FromJwk j = Some k \<longleftrightarrow> length k = X25519_PUBLIC_BYTES \<and> field_of j (asc ''kty'') = Some (JStr (asc ''OKP''))
      \<and> field_of j (asc ''crv'') = Some (JStr (asc ''X25519'')) \<and> field_of j (asc ''x'') = Some (JStr (b64uEncode k))"
    for j k
    by (auto simp: x25519FromJwk_def nonempty_text_def ne b64uDecode_encode b64uDecode_canonical
        split: option.splits json.splits if_splits)
  have "x25519FromJwk (x25519Jwk raw) = (if length raw = X25519_PUBLIC_BYTES then Some raw else None)"
    using iff [of "x25519Jwk raw"] get by (cases "x25519FromJwk (x25519Jwk raw)") (auto simp: iff)
  with iff [of jwk key] show ?thesis by (auto simp: get)
qed

end
