(* ===== verification/Auth.thy ===== *)
theory Auth
  imports Token
begin

text \<open>
  The daemon's verifiers (\<open>src/src/auth.ts\<close>): the shared secret, the signed capability and
  the composite of the two, with the contract every caller of a verifier relies on stated
  as a locale and interpreted on all three.

  The verification key of a JWK, the signature check and the hash are arguments. A refusal
  carries its code and its skew; its English sentence is left out. The report of a
  suspected clock skew is the list of notes the call hands to its observer.
\<close>

subsection \<open>Vocabulary\<close>

datatype scope = Session_read | Session_write | Machine_admin

fun scope_name :: "scope \<Rightarrow> ustring" where
  "scope_name Session_read = asc ''session:read''"
| "scope_name Session_write = asc ''session:write''"
| "scope_name Machine_admin = asc ''machine:admin''"

definition ALL_SCOPES :: "scope list" where
  "ALL_SCOPES = [Session_read, Session_write, Machine_admin]"

text \<open>\<open>isScope\<close> as a parser: the scope of a name, where it is one.\<close>

definition scope_of :: "ustring \<Rightarrow> scope option" where
  "scope_of name = find (\<lambda>s. scope_name s = name) ALL_SCOPES"

definition AUTH_LEEWAY_MS :: rat where "AUTH_LEEWAY_MS = 60000"
definition SKEW_DIAGNOSTIC_LIMIT_MS :: rat where "SKEW_DIAGNOSTIC_LIMIT_MS = 5 * AUTH_LEEWAY_MS"

datatype credential_kind = Shared_secret | Signed

record principal =
  pr_subject :: ustring
  pr_scopes :: "scope list"
  pr_machineId :: "ustring option"
  pr_expiresAt :: "rat option"
  pr_tokenId :: "ustring option"
  pr_deviceId :: "ustring option"
  pr_via :: credential_kind

text \<open>What the channel proved: the thumbprint of the peer's static key, where there is one.\<close>

record channel_identity = peerKeyThumbprint :: "ustring option"

definition NO_CHANNEL :: channel_identity where "NO_CHANNEL = \<lparr>peerKeyThumbprint = None\<rparr>"

datatype auth_failure_code = Missing_token | Malformed_capability | Bad_credential | Bad_signature
  | Unknown_key | Wrong_issuer | Wrong_machine | Unbound_capability | Wrong_device
  | Token_expired | Token_not_yet_valid

record auth_failure =
  af_code :: auth_failure_code
  af_skewMs :: "rat option"

type_synonym verify_result = "(auth_failure, principal) result"

definition refuse :: "auth_failure_code \<Rightarrow> verify_result" where
  "refuse code = Inl \<lparr>af_code = code, af_skewMs = None\<rparr>"

lemma refuse_not_Inr [simp]: "refuse code \<noteq> Inr p" "Inr p \<noteq> refuse code"
  by (simp_all add: refuse_def)

definition no_token :: "ustring option \<Rightarrow> bool" where
  "no_token token \<longleftrightarrow> token = None \<or> token = Some []"

subsection \<open>The contract\<close>

text \<open>
  What the gate, the secure session and the live stream take from a verifier: an absent
  credential is refused; an accepted one is inside its window and stays accepted, as the same
  principal, exactly until its expiry plus the leeway; over a channel an accepted signed
  capability names the key of that channel; and naming a channel only narrows.
\<close>

definition lasts_until :: "rat \<Rightarrow> principal \<Rightarrow> rat \<Rightarrow> bool" where
  "lasts_until leeway p now \<longleftrightarrow> (case pr_expiresAt p of None \<Rightarrow> True | Some e \<Rightarrow> now \<le> e + leeway)"

locale token_verifier =
  fixes verify :: "ustring option \<Rightarrow> rat \<Rightarrow> channel_identity \<Rightarrow> verify_result"
    and leeway :: rat
    and names_key :: "ustring \<Rightarrow> ustring option"
  assumes missing: "no_token token \<Longrightarrow> verify token now ch = refuse Missing_token"
    and inside: "verify token now ch = Inr p \<Longrightarrow> lasts_until leeway p now"
    and lasting: "verify token now ch = Inr p \<Longrightarrow> now \<le> later \<Longrightarrow> lasts_until leeway p later
      \<Longrightarrow> verify token later ch = Inr p"
    and expiring: "verify token now ch = Inr p \<Longrightarrow> now \<le> later \<Longrightarrow> \<not> lasts_until leeway p later
      \<Longrightarrow> \<exists>skew. verify token later ch = Inl \<lparr>af_code = Token_expired, af_skewMs = Some skew\<rparr> \<and> 0 < skew"
    and binding: "verify (Some t) now ch = Inr p \<Longrightarrow> pr_via p = Signed
      \<Longrightarrow> peerKeyThumbprint ch = Some jkt \<Longrightarrow> names_key t = Some jkt"
    and narrowing: "verify token now ch = Inr p \<Longrightarrow> verify token now NO_CHANNEL = Inr p"
begin

lemma accepted_has_text: "verify token now ch = Inr p \<Longrightarrow> \<exists>t. token = Some t \<and> t \<noteq> []"
  using missing [of token now ch] by (cases token) (auto simp: no_token_def)

text \<open>Asking again later is the same as comparing the clock with the principal's expiry.\<close>

lemma asking_again:
  assumes "verify token now ch = Inr p" and "now \<le> later"
  shows "verify token later ch = Inr p \<longleftrightarrow> lasts_until leeway p later"
  using assms lasting inside by blast

text \<open>
  A capability accepted over a channel and presented again without one, as the secure
  session presents it to the loopback gate, is the same principal until it expires.
\<close>

lemma presented_again:
  assumes "verify token now ch = Inr p" and "now \<le> later"
  shows "verify token later NO_CHANNEL = Inr p \<longleftrightarrow> lasts_until leeway p later"
  using asking_again [OF narrowing [OF assms(1)] assms(2)] .

lemma expired_for_good:
  assumes "verify token now ch = Inr p" and "now \<le> later" and "later \<le> final" and "0 \<le> leeway"
    and "\<not> lasts_until leeway p later"
  shows "verify token final ch \<noteq> Inr q"
proof -
  have "\<not> lasts_until leeway p final"
    using assms(3,5) by (auto simp: lasts_until_def split: option.splits)
  with expiring [OF assms(1), of final] assms(2,3) show ?thesis by auto
qed

end

subsection \<open>The shared secret\<close>

definition secretMatches :: "(bytes \<Rightarrow> bytes) \<Rightarrow> ustring \<Rightarrow> ustring \<Rightarrow> bool" where
  "secretMatches sha256 provided expected \<longleftrightarrow> sha256 (utf8_encode provided) = sha256 (utf8_encode expected)"

definition shared_principal :: principal where
  "shared_principal = \<lparr>pr_subject = asc ''shared-secret'', pr_scopes = ALL_SCOPES, pr_machineId = None,
     pr_expiresAt = None, pr_tokenId = None, pr_deviceId = None, pr_via = Shared_secret\<rparr>"

definition shared_verify :: "(bytes \<Rightarrow> bytes) \<Rightarrow> ustring \<Rightarrow> ustring option \<Rightarrow> verify_result" where
  "shared_verify sha256 secret token =
     (if no_token token then refuse Missing_token
      else if \<not> secretMatches sha256 (the token) secret then refuse Bad_credential
      else Inr shared_principal)"

text \<open>A shared secret names no key and never expires.\<close>

interpretation shared: token_verifier
  "\<lambda>token now ch. shared_verify sha256 secret token" leeway "\<lambda>t. None"
  for sha256 :: "bytes \<Rightarrow> bytes" and secret :: ustring and leeway :: rat
  by unfold_locales
    (auto simp: shared_verify_def lasts_until_def shared_principal_def split: if_splits)

subsection \<open>The signed capability\<close>

record machine_identity =
  mi_machineId :: ustring
  mi_issuer :: ustring
  mi_keys :: "(ustring \<times> json) list"

record 'k signed_verifier =
  sv_identity :: machine_identity
  sv_keys :: "ustring \<rightharpoonup> 'k"
  sv_leewayMs :: rat
  sv_observed :: bool

text \<open>An unusable key is skipped; a later key of the same id replaces an earlier one.\<close>

definition load_keys :: "(ustring \<Rightarrow> 'k option) \<Rightarrow> (ustring \<times> json) list \<Rightarrow> ustring \<rightharpoonup> 'k" where
  "load_keys createPublicKey entries =
     foldl (\<lambda>m (kid, jwk). case jwkToPublicKey createPublicKey jwk of None \<Rightarrow> m | Some key \<Rightarrow> m(kid \<mapsto> key))
       Map.empty entries"

definition new_signed_verifier ::
  "(ustring \<Rightarrow> 'k option) \<Rightarrow> machine_identity \<Rightarrow> rat option \<Rightarrow> bool \<Rightarrow> 'k signed_verifier" where
  "new_signed_verifier createPublicKey ident leewayMs observed =
     \<lparr>sv_identity = ident, sv_keys = load_keys createPublicKey (mi_keys ident),
      sv_leewayMs = (case leewayMs of None \<Rightarrow> AUTH_LEEWAY_MS | Some l \<Rightarrow> l), sv_observed = observed\<rparr>"

datatype skew_kind = Skew_not_yet_valid | Skew_expired

definition reportSkew :: "'k signed_verifier \<Rightarrow> skew_kind \<Rightarrow> rat \<Rightarrow> (skew_kind \<times> rat) list" where
  "reportSkew v what skewMs =
     (if \<not> sv_observed v then [] else if skewMs > SKEW_DIAGNOSTIC_LIMIT_MS then [] else [(what, skewMs)])"

text \<open>\<open>channelBinding\<close> is the check of the key named by \<open>cnf\<close> against the channel.\<close>

definition channel_refusal :: "channel_identity \<Rightarrow> token_claims \<Rightarrow> auth_failure_code option" where
  "channel_refusal channel claims =
     (case peerKeyThumbprint channel of
        None \<Rightarrow> None
      | Some jkt \<Rightarrow> (case cl_cnf claims of
            None \<Rightarrow> Some Unbound_capability
          | Some bound \<Rightarrow> if bound \<noteq> jkt then Some Wrong_device else None))"

definition signed_principal :: "token_claims \<Rightarrow> principal" where
  "signed_principal claims = \<lparr>pr_subject = cl_sub claims, pr_scopes = List.map_filter scope_of (cl_scp claims),
     pr_machineId = Some (cl_aud claims), pr_expiresAt = Some (cl_exp claims * 1000),
     pr_tokenId = Some (cl_jti claims), pr_deviceId = cl_dev claims, pr_via = Signed\<rparr>"

text \<open>The two clock checks, and the principal inside the window.\<close>

definition check_window ::
  "'k signed_verifier \<Rightarrow> token_claims \<Rightarrow> rat \<Rightarrow> verify_result \<times> (skew_kind \<times> rat) list" where
  "check_window v claims now =
     (let nbfMs = cl_nbf claims * 1000; expMs = cl_exp claims * 1000 in
      if now < nbfMs - sv_leewayMs v then
        (let skewMs = nbfMs - sv_leewayMs v - now
         in (Inl \<lparr>af_code = Token_not_yet_valid, af_skewMs = Some skewMs\<rparr>, reportSkew v Skew_not_yet_valid skewMs))
      else if now > expMs + sv_leewayMs v then
        (let skewMs = now - (expMs + sv_leewayMs v)
         in (Inl \<lparr>af_code = Token_expired, af_skewMs = Some skewMs\<rparr>, reportSkew v Skew_expired skewMs))
      else (Inr (signed_principal claims), []))"

text \<open>\<open>verifySignature\<close>: a primitive that throws (\<open>None\<close>) is a signature that does not verify.\<close>

definition verifySignature :: "('k \<Rightarrow> bytes \<Rightarrow> bytes \<Rightarrow> bool option) \<Rightarrow> decoded_token \<Rightarrow> 'k \<Rightarrow> bool" where
  "verifySignature ed25519 decoded key \<longleftrightarrow>
     ed25519 key (dt_signingInput decoded) (dt_signature decoded) = Some True"

definition signed_verify ::
  "(bytes \<Rightarrow> json option) \<Rightarrow> ('k \<Rightarrow> bytes \<Rightarrow> bytes \<Rightarrow> bool option) \<Rightarrow> 'k signed_verifier
    \<Rightarrow> ustring option \<Rightarrow> rat \<Rightarrow> channel_identity \<Rightarrow> verify_result \<times> (skew_kind \<times> rat) list" where
  "signed_verify parse ed25519 v token now channel =
     (if no_token token then (refuse Missing_token, [])
      else case decodeToken parse (the token) of
        Inl _ \<Rightarrow> (refuse Malformed_capability, [])
      | Inr decoded \<Rightarrow>
          (case sv_keys v (th_kid (dt_header decoded)) of
             None \<Rightarrow> (refuse Unknown_key, [])
           | Some key \<Rightarrow>
               if \<not> verifySignature ed25519 decoded key then (refuse Bad_signature, [])
               else (case parseClaims parse (dt_payload decoded) of
                   None \<Rightarrow> (refuse Malformed_capability, [])
                 | Some claims \<Rightarrow>
                     if cl_iss claims \<noteq> mi_issuer (sv_identity v) then (refuse Wrong_issuer, [])
                     else if cl_aud claims \<noteq> mi_machineId (sv_identity v) then (refuse Wrong_machine, [])
                     else (case channel_refusal channel claims of
                         Some code \<Rightarrow> (refuse code, [])
                       | None \<Rightarrow> check_window v claims now))))"

text \<open>The claims a capability carries, read without checking anything.\<close>

definition claimed :: "(bytes \<Rightarrow> json option) \<Rightarrow> ustring \<Rightarrow> token_claims option" where
  "claimed parse token =
     (case decodeToken parse token of Inl _ \<Rightarrow> None | Inr d \<Rightarrow> parseClaims parse (dt_payload d))"

text \<open>Acceptance is one conjunction, in no particular order of its conditions.\<close>

lemma signed_verify_accepts:
  "fst (signed_verify parse ed25519 v token now channel) = Inr p \<longleftrightarrow>
    (\<exists>t d key claims. token = Some t \<and> t \<noteq> [] \<and> decodeToken parse t = Inr d
      \<and> sv_keys v (th_kid (dt_header d)) = Some key \<and> verifySignature ed25519 d key
      \<and> parseClaims parse (dt_payload d) = Some claims
      \<and> cl_iss claims = mi_issuer (sv_identity v) \<and> cl_aud claims = mi_machineId (sv_identity v)
      \<and> channel_refusal channel claims = None
      \<and> cl_nbf claims * 1000 - sv_leewayMs v \<le> now \<and> now \<le> cl_exp claims * 1000 + sv_leewayMs v
      \<and> p = signed_principal claims)"
proof (cases "no_token token")
  case True
  then show ?thesis by (auto simp: signed_verify_def no_token_def)
next
  case False
  then obtain t where t: "token = Some t" "t \<noteq> []" by (auto simp: no_token_def)
  have window: "fst (check_window v c now) = Inr p \<longleftrightarrow>
      cl_nbf c * 1000 - sv_leewayMs v \<le> now \<and> now \<le> cl_exp c * 1000 + sv_leewayMs v \<and> p = signed_principal c" for c
    by (auto simp: check_window_def Let_def)
  show ?thesis
  proof (cases "decodeToken parse t")
    case (Inr d)
    show ?thesis
    proof (cases "sv_keys v (th_kid (dt_header d))")
      case (Some key)
      then show ?thesis
        using t Inr window
        by (cases "parseClaims parse (dt_payload d)"; cases "channel_refusal channel (the (parseClaims parse (dt_payload d)))")
          (auto simp: signed_verify_def no_token_def)
    qed (use t Inr in \<open>simp add: signed_verify_def no_token_def\<close>)
  qed (use t in \<open>simp add: signed_verify_def no_token_def\<close>)
qed

text \<open>An accepted capability, later: only the window is still open to change.\<close>

lemma signed_verify_later:
  assumes "fst (signed_verify parse ed25519 v token now channel) = Inr p" and "now \<le> later"
  obtains claims where "p = signed_principal claims"
    and "fst (signed_verify parse ed25519 v token later channel) = fst (check_window v claims later)"
    and "cl_nbf claims * 1000 - sv_leewayMs v \<le> later"
proof -
  from assms(1) [unfolded signed_verify_accepts] obtain t d key claims where
    t: "token = Some t" "t \<noteq> []" "decodeToken parse t = Inr d"
      "sv_keys v (th_kid (dt_header d)) = Some key" "verifySignature ed25519 d key"
      "parseClaims parse (dt_payload d) = Some claims" "cl_iss claims = mi_issuer (sv_identity v)"
      "cl_aud claims = mi_machineId (sv_identity v)" "channel_refusal channel claims = None"
    and w: "cl_nbf claims * 1000 - sv_leewayMs v \<le> now" "p = signed_principal claims"
    by blast
  have "fst (signed_verify parse ed25519 v token later channel) = fst (check_window v claims later)"
    using t by (simp add: signed_verify_def no_token_def)
  then show thesis using w assms(2) by (intro that) auto
qed

interpretation signed: token_verifier
  "\<lambda>token now ch. fst (signed_verify parse ed25519 v token now ch)" "sv_leewayMs v"
  "\<lambda>t. Option.bind (claimed parse t) cl_cnf"
  for parse :: "bytes \<Rightarrow> json option" and ed25519 :: "'k \<Rightarrow> bytes \<Rightarrow> bytes \<Rightarrow> bool option"
    and v :: "'k signed_verifier"
proof
  fix token now ch p later
  show "no_token token \<Longrightarrow> fst (signed_verify parse ed25519 v token now ch) = refuse Missing_token"
    by (simp add: signed_verify_def)
  assume ok: "fst (signed_verify parse ed25519 v token now ch) = Inr p"
  show "lasts_until (sv_leewayMs v) p now"
    using ok [unfolded signed_verify_accepts] by (auto simp: lasts_until_def signed_principal_def)
  show "fst (signed_verify parse ed25519 v token now NO_CHANNEL) = Inr p"
    using ok unfolding signed_verify_accepts by (auto simp: channel_refusal_def NO_CHANNEL_def)
  assume le: "now \<le> later"
  from ok le obtain claims where c: "p = signed_principal claims"
    "fst (signed_verify parse ed25519 v token later ch) = fst (check_window v claims later)"
    "cl_nbf claims * 1000 - sv_leewayMs v \<le> later"
    by (rule signed_verify_later)
  { assume "lasts_until (sv_leewayMs v) p later"
    with c show "fst (signed_verify parse ed25519 v token later ch) = Inr p"
      by (auto simp: check_window_def Let_def lasts_until_def signed_principal_def) }
  { assume "\<not> lasts_until (sv_leewayMs v) p later"
    with c show "\<exists>skew. fst (signed_verify parse ed25519 v token later ch)
        = Inl \<lparr>af_code = Token_expired, af_skewMs = Some skew\<rparr> \<and> 0 < skew"
      by (auto simp: check_window_def Let_def lasts_until_def signed_principal_def) }
next
  fix t now ch p jkt
  assume "fst (signed_verify parse ed25519 v (Some t) now ch) = Inr p" and "peerKeyThumbprint ch = Some jkt"
  then show "Option.bind (claimed parse t) cl_cnf = Some jkt"
    unfolding signed_verify_accepts
    by (auto simp: claimed_def channel_refusal_def split: option.splits if_splits)
qed

subsection \<open>Both at once\<close>

text \<open>The shape of the credential decides which verifier answers, and its answer is final.\<close>

definition composite_verify ::
  "(ustring option \<Rightarrow> rat \<Rightarrow> channel_identity \<Rightarrow> verify_result) \<Rightarrow> (ustring option \<Rightarrow> verify_result)
    \<Rightarrow> ustring option \<Rightarrow> rat \<Rightarrow> channel_identity \<Rightarrow> verify_result" where
  "composite_verify whenSigned whenShared token now channel =
     (if no_token token then refuse Missing_token
      else if looksLikeSignedToken (the token) then whenSigned token now channel else whenShared token)"

definition both_verify ::
  "(bytes \<Rightarrow> json option) \<Rightarrow> ('k \<Rightarrow> bytes \<Rightarrow> bytes \<Rightarrow> bool option) \<Rightarrow> 'k signed_verifier
    \<Rightarrow> (bytes \<Rightarrow> bytes) \<Rightarrow> ustring \<Rightarrow> ustring option \<Rightarrow> rat \<Rightarrow> channel_identity \<Rightarrow> verify_result" where
  "both_verify parse ed25519 v sha256 secret =
     composite_verify (\<lambda>token now ch. fst (signed_verify parse ed25519 v token now ch)) (shared_verify sha256 secret)"

lemma both_verify_cases:
  "both_verify parse ed25519 v sha256 secret token now ch =
     (if no_token token then refuse Missing_token
      else if looksLikeSignedToken (the token) then fst (signed_verify parse ed25519 v token now ch)
      else shared_verify sha256 secret token)"
  by (simp add: both_verify_def composite_verify_def)

lemma shared_accepts: "shared_verify sha256 secret token = Inr p \<Longrightarrow> p = shared_principal"
  by (auto simp: shared_verify_def split: if_splits)

lemma shared_lasts [simp]: "lasts_until leeway shared_principal now" "pr_via shared_principal = Shared_secret"
  by (simp_all add: lasts_until_def shared_principal_def)

interpretation both: token_verifier
  "both_verify parse ed25519 v sha256 secret" "sv_leewayMs v" "\<lambda>t. Option.bind (claimed parse t) cl_cnf"
  for parse :: "bytes \<Rightarrow> json option" and ed25519 :: "'k \<Rightarrow> bytes \<Rightarrow> bytes \<Rightarrow> bool option"
    and v :: "'k signed_verifier" and sha256 :: "bytes \<Rightarrow> bytes" and secret :: ustring
proof
  fix token now ch p later
  show "no_token token \<Longrightarrow> both_verify parse ed25519 v sha256 secret token now ch = refuse Missing_token"
    by (simp add: both_verify_cases)
  assume ok: "both_verify parse ed25519 v sha256 secret token now ch = Inr p"
  show "lasts_until (sv_leewayMs v) p now"
    using ok signed.inside shared_accepts by (fastforce simp: both_verify_cases split: if_splits)
  show "both_verify parse ed25519 v sha256 secret token now NO_CHANNEL = Inr p"
    using ok signed.narrowing by (auto simp: both_verify_cases split: if_splits)
  assume le: "now \<le> later"
  { assume "lasts_until (sv_leewayMs v) p later"
    with ok le show "both_verify parse ed25519 v sha256 secret token later ch = Inr p"
      using signed.lasting by (auto simp: both_verify_cases split: if_splits) }
  { assume "\<not> lasts_until (sv_leewayMs v) p later"
    with ok le show "\<exists>skew. both_verify parse ed25519 v sha256 secret token later ch
        = Inl \<lparr>af_code = Token_expired, af_skewMs = Some skew\<rparr> \<and> 0 < skew"
      using signed.expiring shared_accepts by (fastforce simp: both_verify_cases split: if_splits) }
next
  fix t now ch p jkt
  assume "both_verify parse ed25519 v sha256 secret (Some t) now ch = Inr p" and "pr_via p = Signed"
    and "peerKeyThumbprint ch = Some jkt"
  then show "Option.bind (claimed parse t) cl_cnf = Some jkt"
    using signed.binding shared_accepts by (fastforce simp: both_verify_cases split: if_splits)
qed

subsection \<open>Scopes and enrollment\<close>

definition hasScope :: "principal \<Rightarrow> scope \<Rightarrow> bool" where
  "hasScope p s \<longleftrightarrow> s \<in> set (pr_scopes p)"

lemma scope_of_name: "scope_of name = Some s \<longleftrightarrow> name = scope_name s"
proof -
  have inj: "scope_name a = scope_name b \<longleftrightarrow> a = b" for a b
    by (cases a; cases b) (simp_all add: asc_inject)
  show ?thesis by (cases s) (auto simp: scope_of_def ALL_SCOPES_def inj asc_inject split: if_splits)
qed

lemma scope_of_scope_name [simp]: "scope_of (scope_name s) = Some s"
  by (simp add: scope_of_name)

lemma signed_scopes: "hasScope (signed_principal claims) s \<longleftrightarrow> scope_name s \<in> set (cl_scp claims)"
  by (force simp: hasScope_def signed_principal_def List.map_filter_def scope_of_name image_iff)

text \<open>\<open>enrollmentIgnored\<close>: whether the warning is given.\<close>

definition enrollmentIgnored :: "ustring option \<Rightarrow> ustring option \<Rightarrow> bool" where
  "enrollmentIgnored authEnv enrolledAs \<longleftrightarrow>
     (case enrolledAs of None \<Rightarrow> False
      | Some _ \<Rightarrow> \<not> js_trim (case authEnv of None \<Rightarrow> [] | Some e \<Rightarrow> e) \<noteq> [])"

subsection \<open>Properties\<close>

lemma load_keys_from:
  "load_keys createPublicKey entries kid = Some key
    \<Longrightarrow> \<exists>jwk. (kid, jwk) \<in> set entries \<and> jwkToPublicKey createPublicKey jwk = Some key"
proof (induction entries arbitrary: key rule: rev_induct)
  case (snoc entry entries)
  obtain k jwk where e: "entry = (k, jwk)" by (cases entry)
  show ?case
    using snoc e by (cases "jwkToPublicKey createPublicKey jwk") (auto simp: load_keys_def split: if_splits)
qed (simp add: load_keys_def)

text \<open>A JSON parser that knows two texts, for the concrete instances.\<close>

definition known_texts :: "json \<Rightarrow> json \<Rightarrow> bytes \<Rightarrow> json option" where
  "known_texts x y bs = (if bs = utf8_encode (stringify x) then Some x
     else if bs = utf8_encode (stringify y) then Some y else None)"

definition sample_claims :: token_claims where
  "sample_claims = \<lparr>cl_iss = asc ''cp'', cl_sub = asc ''u1'', cl_aud = asc ''m1'', cl_jti = asc ''t1'',
     cl_iat = 100, cl_nbf = 100, cl_exp = 400, cl_scp = [asc ''session:read'', asc ''later:scope''],
     cl_cnf = Some (asc ''key''), cl_dev = None\<rparr>"

definition sample_digits :: "rat \<Rightarrow> ustring" where
  "sample_digits r = (if r = 100 then asc ''100'' else asc ''400'')"

definition sample_capability :: ustring where
  "sample_capability = signToken sample_digits (\<lambda>_ _. [7]) sample_claims (asc ''k1'') ()"

definition sample_identity :: machine_identity where
  "sample_identity = \<lparr>mi_machineId = asc ''m1'', mi_issuer = asc ''cp'',
     mi_keys = [(asc ''k1'', JObj [(asc ''kty'', JStr (asc ''OKP'')), (asc ''crv'', JStr (asc ''Ed25519'')), (asc ''x'', JStr [1])])]\<rparr>"

abbreviation sample_verifier :: "unit signed_verifier" where
  "sample_verifier \<equiv> new_signed_verifier (\<lambda>x. Some ()) sample_identity None True"

abbreviation sample_check :: "unit \<Rightarrow> bytes \<Rightarrow> bytes \<Rightarrow> bool option" where
  "sample_check \<equiv> \<lambda>_ m g. Some (g = [7])"

definition sample_texts :: "bytes \<Rightarrow> json option" where
  "sample_texts = known_texts (header_json (asc ''k1'')) (claims_json sample_digits sample_claims)"

lemma sample_texts_known:
  "sample_texts (utf8_encode (stringify (header_json (asc ''k1'')))) = Some (header_json (asc ''k1''))"
  "sample_texts (utf8_encode (stringify (claims_json sample_digits sample_claims)))
     = Some (claims_json sample_digits sample_claims)"
proof -
  have "take 3 (utf8_encode (stringify (header_json (asc ''k1'')))) \<noteq>
      take 3 (utf8_encode (stringify (claims_json sample_digits sample_claims)))"
    by (simp add: header_json_def claims_json_def asc_def json_quote_def escape_unit_def utf8_point_def
        high_surrogate_def low_surrogate_def scalar_of_def)
  then have "utf8_encode (stringify (header_json (asc ''k1''))) \<noteq>
      utf8_encode (stringify (claims_json sample_digits sample_claims))" by metis
  then show
    "sample_texts (utf8_encode (stringify (header_json (asc ''k1'')))) = Some (header_json (asc ''k1''))"
    "sample_texts (utf8_encode (stringify (claims_json sample_digits sample_claims)))
       = Some (claims_json sample_digits sample_claims)"
    by (auto simp: sample_texts_def known_texts_def)
qed

lemma sample_load: "sv_keys sample_verifier (asc ''k1'') = Some ()"
  by (simp add: new_signed_verifier_def sample_identity_def load_keys_def jwkToPublicKey_def
      nonempty_text_def asc_inject)

lemma sample_addressed: "cl_iss sample_claims = mi_issuer (sv_identity sample_verifier)"
  "cl_aud sample_claims = mi_machineId (sv_identity sample_verifier)"
  by (simp_all add: new_signed_verifier_def sample_identity_def sample_claims_def)

lemma sample_claims_ok: "claims_ok sample_claims"
  by (simp add: claims_ok_def sample_claims_def asc_def)

lemma decoded_looks_signed: "decodeToken parse t = Inr d \<Longrightarrow> looksLikeSignedToken t"
proof -
  assume dec: "decodeToken parse t = Inr d"
  then obtain p q r where "split_on 46 t = [p, q, r]"
    by (auto simp: decodeToken_def split: list.splits)
  then show "looksLikeSignedToken t" by (simp add: looksLikeSignedToken_def)
qed

lemma decoded_nonempty: "decodeToken parse t = Inr d \<Longrightarrow> t \<noteq> []"
  by (auto elim!: decodeToken_parts)

text \<open>
  C25. What the control plane mints, the daemon accepts. A capability signed with a key the
  identity lists, for this issuer and machine, passes every check up to the channel and the
  clock whatever verifier of the two signed modes it meets: the answer is the one the channel
  and the window give to the claims that were signed.
\<close>

theorem minted_capabilities_verify:
  assumes "claims_ok c" and "kid \<noteq> []" and "\<forall>m. sign secret m \<noteq> []"
    and "\<forall>m. ed25519 key m (sign secret m) = Some True"
    and "parse (utf8_encode (stringify (header_json kid))) = Some (header_json kid)"
    and "parse (utf8_encode (stringify (claims_json digits c))) = Some (claims_json digits c)"
    and "sv_keys v kid = Some key"
    and "cl_iss c = mi_issuer (sv_identity v)" and "cl_aud c = mi_machineId (sv_identity v)"
  shows "signed_verify parse ed25519 v (Some (signToken digits sign c kid secret)) now channel
      = (case channel_refusal channel c of Some code \<Rightarrow> (refuse code, []) | None \<Rightarrow> check_window v c now)
    \<and> both_verify parse ed25519 v sha256 pass (Some (signToken digits sign c kid secret)) now channel
      = fst (signed_verify parse ed25519 v (Some (signToken digits sign c kid secret)) now channel)"
proof -
  from signToken_decode [where secret = secret and sign = sign, OF assms(1,2) _ assms(5,6)] assms(3)
  obtain d where d: "decodeToken parse (signToken digits sign c kid secret) = Inr d"
    "th_kid (dt_header d) = kid" "dt_signature d = sign secret (dt_signingInput d)"
    "parseClaims parse (dt_payload d) = Some c" by blast
  note t = decoded_looks_signed [OF d(1)] decoded_nonempty [OF d(1)]
  have "signed_verify parse ed25519 v (Some (signToken digits sign c kid secret)) now channel
      = (case channel_refusal channel c of Some code \<Rightarrow> (refuse code, []) | None \<Rightarrow> check_window v c now)"
    using d t assms(4,7,8,9) by (simp add: signed_verify_def no_token_def verifySignature_def)
  with t show ?thesis by (simp add: both_verify_cases no_token_def)
qed

lemma sample_decodes:
  obtains d where "decodeToken sample_texts sample_capability = Inr d"
    and "th_kid (dt_header d) = asc ''k1''" and "dt_signature d = [7]"
    and "parseClaims sample_texts (dt_payload d) = Some sample_claims"
  unfolding sample_capability_def
  by (rule signToken_decode [where secret = "()" and sign = "\<lambda>_ _. [7]" and kid = "asc ''k1''",
      OF sample_claims_ok _ _ sample_texts_known])
    (auto simp: asc_def)

lemma sample_claimed: "claimed sample_texts sample_capability = Some sample_claims"
  by (rule sample_decodes) (simp add: claimed_def)

lemma sample_accepted:
  "fst (signed_verify sample_texts sample_check sample_verifier (Some sample_capability) 100000 NO_CHANNEL)
    = Inr (signed_principal sample_claims)"
proof -
  obtain d where d: "decodeToken sample_texts sample_capability = Inr d"
    "th_kid (dt_header d) = asc ''k1''" "dt_signature d = [7]"
    "parseClaims sample_texts (dt_payload d) = Some sample_claims"
    by (rule sample_decodes)
  have "fst (check_window sample_verifier sample_claims 100000) = Inr (signed_principal sample_claims)"
    by (simp add: check_window_def new_signed_verifier_def AUTH_LEEWAY_MS_def sample_claims_def Let_def)
  with d decoded_nonempty [OF d(1)] sample_load show ?thesis
    by (simp add: signed_verify_def no_token_def verifySignature_def sample_addressed channel_refusal_def NO_CHANNEL_def)
qed

theorem minted_capabilities_verify_witness:
  "fst (signed_verify sample_texts sample_check sample_verifier (Some sample_capability) 100000
      \<lparr>peerKeyThumbprint = Some (asc ''key'')\<rparr>) = Inr (signed_principal sample_claims) \<and>
   both_verify sample_texts sample_check sample_verifier id [] (Some sample_capability) 500000 NO_CHANNEL
      = Inl \<lparr>af_code = Token_expired, af_skewMs = Some 40000\<rparr>"
proof -
  have "signed_verify sample_texts sample_check sample_verifier (Some sample_capability) now channel
        = (case channel_refusal channel sample_claims of
            Some code \<Rightarrow> (refuse code, []) | None \<Rightarrow> check_window sample_verifier sample_claims now)
      \<and> both_verify sample_texts sample_check sample_verifier id [] (Some sample_capability) now channel
        = fst (signed_verify sample_texts sample_check sample_verifier (Some sample_capability) now channel)"
    for now channel
    unfolding sample_capability_def
    by (rule minted_capabilities_verify [where key = "()", OF sample_claims_ok _ _ _ sample_texts_known sample_load])
      (auto simp: asc_def sample_addressed)
  then show ?thesis
    by (simp add: channel_refusal_def NO_CHANNEL_def check_window_def new_signed_verifier_def
        AUTH_LEEWAY_MS_def sample_claims_def Let_def)
qed

text \<open>
  C1. A capability is accepted on the strength of nothing but what was signed. Where the
  signed verifier accepts, the received text is a prefix, a dot and a signature that verifies
  over exactly that prefix under a key of the enrolled identity with the \<open>kid\<close> of the header;
  its claims name this issuer and this machine, the clock is inside the window, a channel's
  key is the one the claims confirm, and the principal has exactly the known scopes claimed.
\<close>

theorem accepted_capabilities_are_signed:
  assumes "fst (signed_verify parse ed25519 (new_signed_verifier createPublicKey ident leewayMs observed)
      (Some t) now channel) = Inr p"
  shows "\<exists>signed_text signature key jwk kid claims.
      t = signed_text @ [46] @ b64uEncode signature
    \<and> ed25519 key (ascii_bytes signed_text) signature = Some True
    \<and> (kid, jwk) \<in> set (mi_keys ident) \<and> jwkToPublicKey createPublicKey jwk = Some key
    \<and> claimed parse t = Some claims
    \<and> cl_iss claims = mi_issuer ident \<and> cl_aud claims = mi_machineId ident
    \<and> cl_nbf claims * 1000 - now \<le> (case leewayMs of None \<Rightarrow> AUTH_LEEWAY_MS | Some l \<Rightarrow> l)
    \<and> now - cl_exp claims * 1000 \<le> (case leewayMs of None \<Rightarrow> AUTH_LEEWAY_MS | Some l \<Rightarrow> l)
    \<and> (peerKeyThumbprint channel = None \<or> cl_cnf claims = peerKeyThumbprint channel)
    \<and> pr_subject p = cl_sub claims \<and> (\<forall>s. hasScope p s = (scope_name s \<in> set (cl_scp claims)))"
proof -
  let ?v = "new_signed_verifier createPublicKey ident leewayMs observed"
  from assms obtain d key claims where run: "decodeToken parse t = Inr d"
    "sv_keys ?v (th_kid (dt_header d)) = Some key" "verifySignature ed25519 d key"
    "parseClaims parse (dt_payload d) = Some claims" "cl_iss claims = mi_issuer (sv_identity ?v)"
    "cl_aud claims = mi_machineId (sv_identity ?v)" "channel_refusal channel claims = None"
    "cl_nbf claims * 1000 - sv_leewayMs ?v \<le> now" "now \<le> cl_exp claims * 1000 + sv_leewayMs ?v"
    "p = signed_principal claims"
    unfolding signed_verify_accepts by blast
  from run(1) obtain h where form: "t = (b64uEncode h @ [46] @ b64uEncode (dt_payload d)) @ [46] @ b64uEncode (dt_signature d)"
    "dt_signingInput d = ascii_bytes (b64uEncode h @ [46] @ b64uEncode (dt_payload d))"
    by (auto elim: decodeToken_parts)
  from run(2) obtain jwk where "(th_kid (dt_header d), jwk) \<in> set (mi_keys ident)"
    "jwkToPublicKey createPublicKey jwk = Some key"
    using load_keys_from by (fastforce simp: new_signed_verifier_def)
  moreover have "ed25519 key (ascii_bytes (b64uEncode h @ [46] @ b64uEncode (dt_payload d))) (dt_signature d) = Some True"
    using run(3) form(2) by (simp add: verifySignature_def)
  moreover have "claimed parse t = Some claims" using run(1,4) by (simp add: claimed_def)
  moreover have "peerKeyThumbprint channel = None \<or> cl_cnf claims = peerKeyThumbprint channel"
    using run(7) by (auto simp: channel_refusal_def split: option.splits if_splits)
  moreover have "pr_subject p = cl_sub claims \<and> (\<forall>s. hasScope p s = (scope_name s \<in> set (cl_scp claims)))"
    using run(10) signed_scopes by (simp add: signed_principal_def)
  ultimately show ?thesis
    using form(1) run(5,6,8,9) by (intro exI conjI) (auto simp: new_signed_verifier_def)
qed

theorem accepted_capabilities_are_signed_witness:
  "\<exists>p. fst (signed_verify sample_texts sample_check sample_verifier (Some sample_capability) 100000 NO_CHANNEL) = Inr p
    \<and> hasScope p Session_read \<and> \<not> hasScope p Session_write"
proof -
  from accepted_capabilities_are_signed [OF sample_accepted] sample_claimed
  have "\<forall>s. hasScope (signed_principal sample_claims) s = (scope_name s \<in> set (cl_scp sample_claims))" by auto
  with sample_accepted show ?thesis by (auto simp: sample_claims_def asc_inject)
qed

text \<open>
  A capability accepted with no channel is decided over a channel by its confirmation
  alone: the principal where \<open>cnf\<close> names the channel's key, one refusal where it names none
  and another where it names a different key. A capability that is accepted over a channel is
  therefore never one whose confirmation was dropped or left out.
\<close>

theorem the_channel_decides:
  assumes "fst (signed_verify parse ed25519 v (Some t) now NO_CHANNEL) = Inr p"
  shows "fst (signed_verify parse ed25519 v (Some t) now \<lparr>peerKeyThumbprint = Some jkt\<rparr>) =
    (case Option.bind (claimed parse t) cl_cnf of
       None \<Rightarrow> refuse Unbound_capability
     | Some bound \<Rightarrow> if bound = jkt then Inr p else refuse Wrong_device)"
proof -
  from assms [unfolded signed_verify_accepts] obtain d key claims where
    "t \<noteq> []" "decodeToken parse t = Inr d" "sv_keys v (th_kid (dt_header d)) = Some key"
    "verifySignature ed25519 d key" "parseClaims parse (dt_payload d) = Some claims"
    "cl_iss claims = mi_issuer (sv_identity v)" "cl_aud claims = mi_machineId (sv_identity v)"
    "cl_nbf claims * 1000 - sv_leewayMs v \<le> now" "now \<le> cl_exp claims * 1000 + sv_leewayMs v"
    "p = signed_principal claims" by blast
  then show ?thesis
    by (cases "cl_cnf claims")
      (simp_all add: signed_verify_def no_token_def claimed_def channel_refusal_def check_window_def Let_def)
qed

theorem the_channel_decides_witness:
  "fst (signed_verify sample_texts sample_check sample_verifier (Some sample_capability) 100000
      \<lparr>peerKeyThumbprint = Some (asc ''key'')\<rparr>) = Inr (signed_principal sample_claims)"
proof -
  have "cl_cnf sample_claims = Some (asc ''key'')" by (simp add: sample_claims_def)
  with the_channel_decides [OF sample_accepted, of "asc ''key''"] show ?thesis by (simp add: sample_claimed)
qed

end
