(* ===== verification/ControlFrames.thy ===== *)
theory ControlFrames
  imports Events
begin

text \<open>
  The control frames of a live stream and the ladder that makes them fit
  (\<open>controlItem\<close>, \<open>fitSnapshotFrame\<close>, \<open>snapshotOnFrame\<close> of \<open>src/src/server.ts\<close>).

  Frames and snapshots are JSON values, so \<open>JSON.stringify\<close> never throws on them and the
  stand-in of \<open>safeStringify\<close> is not reached. The parked permissions of a snapshot are
  objects, as the registry builds them.
\<close>

definition CONTROL_MAX_BYTES :: nat where "CONTROL_MAX_BYTES = 512 * 1024"

subsection \<open>Objects\<close>

text \<open>\<open>{...object, key: value}\<close>: an existing key keeps its place.\<close>

fun js_put :: "ustring \<Rightarrow> json \<Rightarrow> (ustring \<times> json) list \<Rightarrow> (ustring \<times> json) list" where
  "js_put k v [] = [(k, v)]"
| "js_put k v ((k', v') # kvs) = (if k' = k then (k, v) # kvs else (k', v') # js_put k v kvs)"

lemma map_of_js_put [simp]: "map_of (js_put k v kvs) = (map_of kvs)(k \<mapsto> v)"
  by (induction kvs) auto

subsection \<open>The ladder\<close>

definition fits :: "json \<Rightarrow> bool" where
  "fits frame \<longleftrightarrow> utf8_bytes (stringify frame) \<le> CONTROL_MAX_BYTES"

record parked =
  pk_tasks :: "json list"
  pk_permissions :: "json list"
  pk_elicitations :: "json list"

definition parked_of :: "json \<Rightarrow> parked option" where
  "parked_of session =
     (case (field_of session (asc ''backgroundTasks''), field_of session (asc ''pendingPermissions''),
         field_of session (asc ''pendingElicitations'')) of
        (Some (JArr ts), Some (JArr ps), Some (JArr es)) \<Rightarrow>
          Some \<lparr>pk_tasks = ts, pk_permissions = ps, pk_elicitations = es\<rparr>
      | _ \<Rightarrow> None)"

definition snapshotOnFrame :: "json \<Rightarrow> ((ustring \<times> json) list \<times> parked) option" where
  "snapshotOnFrame frame =
     (case field_of frame (asc ''session'') of
        Some (JObj session) \<Rightarrow> map_option (Pair session) (parked_of (JObj session))
      | _ \<Rightarrow> None)"

definition unlisted_task :: "json \<Rightarrow> json" where
  "unlisted_task t = JObj (js_put (asc ''outputFilePath'') JNull (spread_of t))"

definition blob_of :: "json \<Rightarrow> ustring \<Rightarrow> json" where
  "blob_of p k = (case field_of p k of None \<Rightarrow> JNull | Some v \<Rightarrow> clampBlob v 0)"

definition unblobbed :: "json \<Rightarrow> json" where
  "unblobbed p = JObj (js_put (asc ''content'') (blob_of p (asc ''content''))
     (js_put (asc ''rawInput'') (blob_of p (asc ''rawInput'')) (spread_of p)))"

definition reduced_note :: "parked \<Rightarrow> json" where
  "reduced_note pk = JObj [(asc ''pendingPermissions'', json_num (length (pk_permissions pk))),
     (asc ''pendingElicitations'', json_num (length (pk_elicitations pk))), (asc ''blobs'', JBool True)]"

definition trimmed_session :: "(ustring \<times> json) list \<Rightarrow> parked \<Rightarrow> (ustring \<times> json) list" where
  "trimmed_session session pk =
     js_put (asc ''pendingPermissions'') (JArr (map unblobbed (pk_permissions pk)))
      (js_put (asc ''backgroundTasks'') (JArr (map unlisted_task (pk_tasks pk)))
        (js_put (asc ''reduced'') (reduced_note pk) session))"

definition with_session :: "json \<Rightarrow> (ustring \<times> json) list \<Rightarrow> json" where
  "with_session frame session = JObj (js_put (asc ''session'') (JObj session) (spread_of frame))"

text \<open>The session with both parked lists cut to the first \<open>keep\<close> rows.\<close>

definition cut_session :: "(ustring \<times> json) list \<Rightarrow> parked \<Rightarrow> nat \<Rightarrow> (ustring \<times> json) list" where
  "cut_session session pk keep =
     js_put (asc ''pendingElicitations'') (JArr (take keep (pk_elicitations pk)))
      (js_put (asc ''pendingPermissions'') (JArr (take keep (map unblobbed (pk_permissions pk))))
        (trimmed_session session pk))"

function halving :: "json \<Rightarrow> (ustring \<times> json) list \<Rightarrow> parked \<Rightarrow> nat \<Rightarrow> json \<Rightarrow> json" where
  "halving frame session pk keep built =
     (if keep \<le> 1 then built
      else let next_built = with_session frame (cut_session session pk (keep div 2))
           in if fits next_built then next_built else halving frame session pk (keep div 2) next_built)"
  by pat_completeness auto
termination
  by (relation "measure (\<lambda>(frame, session, pk, keep, built). keep)") auto

declare halving.simps [simp del]

definition fit_frame :: "json \<Rightarrow> json" where
  "fit_frame frame =
     (case snapshotOnFrame frame of
        None \<Rightarrow> frame
      | Some (session, pk) \<Rightarrow>
          if fits frame then frame
          else
            let trimmed = with_session frame (trimmed_session session pk)
            in if fits trimmed then trimmed
               else halving frame session pk
                 (max (length (pk_permissions pk)) (length (pk_elicitations pk))) trimmed)"

definition fitSnapshotFrame :: "json \<Rightarrow> ustring" where
  "fitSnapshotFrame frame = stringify (fit_frame frame)"

text \<open>The payload of a control frame.\<close>

definition controlItem :: "json \<Rightarrow> ustring" where
  "controlItem frame = (if fits frame then stringify frame else fitSnapshotFrame frame)"

subsection \<open>What the ladder keeps\<close>

lemma ladder_labels:
  "asc ''reduced'' \<noteq> asc ''backgroundTasks''" "asc ''reduced'' \<noteq> asc ''pendingPermissions''"
  "asc ''reduced'' \<noteq> asc ''pendingElicitations''" "asc ''backgroundTasks'' \<noteq> asc ''pendingPermissions''"
  "asc ''backgroundTasks'' \<noteq> asc ''pendingElicitations''"
  "asc ''pendingPermissions'' \<noteq> asc ''pendingElicitations''"
  by (simp_all add: asc_inject)

lemma field_with_session [simp]: "field_of (with_session frame s) (asc ''session'') = Some (JObj s)"
  by (simp add: with_session_def)

text \<open>
  A rung: the parked lists cut to a common length (all of them where \<open>n\<close> covers both), the
  true counts beside them, everything else of the session as it was.
\<close>

definition rung :: "json \<Rightarrow> (ustring \<times> json) list \<Rightarrow> parked \<Rightarrow> nat \<Rightarrow> json \<Rightarrow> bool" where
  "rung frame session pk n f \<longleftrightarrow>
     (\<exists>s. field_of f (asc ''session'') = Some (JObj s)
       \<and> parked_of (JObj s) = Some \<lparr>pk_tasks = map unlisted_task (pk_tasks pk),
           pk_permissions = take n (map unblobbed (pk_permissions pk)), pk_elicitations = take n (pk_elicitations pk)\<rparr>
       \<and> map_of s (asc ''reduced'') = Some (reduced_note pk)
       \<and> (\<forall>k. k \<notin> asc ` {''reduced'', ''backgroundTasks'', ''pendingPermissions'', ''pendingElicitations''}
           \<longrightarrow> map_of s k = map_of session k))"

lemma rung_cut: "rung frame session pk n (with_session frame (cut_session session pk n))"
  using ladder_labels ladder_labels [symmetric]
  by (simp add: rung_def cut_session_def trimmed_session_def parked_of_def)

lemma rung_trimmed:
  assumes "parked_of (JObj session) = Some pk"
    and "length (pk_permissions pk) \<le> n" and "length (pk_elicitations pk) \<le> n"
  shows "rung frame session pk n (with_session frame (trimmed_session session pk))"
proof -
  have "map_of session (asc ''pendingElicitations'') = Some (JArr (pk_elicitations pk))"
    using assms(1) by (auto simp: parked_of_def split: option.splits json.splits)
  with assms(2,3) show ?thesis
    using ladder_labels ladder_labels [symmetric]
    by (simp add: rung_def trimmed_session_def parked_of_def)
qed

lemma halving_rung:
  assumes "rung frame session pk keep built"
  shows "\<exists>n. 0 < n \<and> n \<le> max keep 1 \<and> rung frame session pk (if keep \<le> 1 then keep else n) (halving frame session pk keep built) \<and>
    (fits (halving frame session pk keep built) \<or> n \<le> 1)"
  using assms
proof (induction frame session pk keep built rule: halving.induct)
  case (1 frame session pk keep built)
  show ?case
  proof (cases "keep \<le> 1")
    case True
    with 1(2) show ?thesis by (intro exI [of _ 1]) (simp add: halving.simps)
  next
    case False
    let ?f = "with_session frame (cut_session session pk (keep div 2))"
    have half: "0 < keep div 2" "keep div 2 \<le> keep" using False by auto
    show ?thesis
    proof (cases "fits ?f")
      case True
      with False half show ?thesis
        by (intro exI [of _ "keep div 2"]) (simp add: halving.simps [of frame] rung_cut)
    next
      case unfit: False
      from 1(1) [OF False refl unfit rung_cut] obtain n where n: "0 < n" "n \<le> max (keep div 2) 1"
        "rung frame session pk (if keep div 2 \<le> 1 then keep div 2 else n) (halving frame session pk (keep div 2) ?f)"
        "fits (halving frame session pk (keep div 2) ?f) \<or> n \<le> 1" by blast
      define m where "m = (if keep div 2 \<le> 1 then keep div 2 else n)"
      have "0 < m" "m \<le> keep" "fits (halving frame session pk (keep div 2) ?f) \<or> m \<le> 1"
        using n half by (auto simp: m_def)
      moreover have "halving frame session pk keep built = halving frame session pk (keep div 2) ?f"
        using False unfit by (simp add: halving.simps [of frame session pk keep])
      ultimately show ?thesis using n(3) False by (intro exI [of _ m]) (auto simp: m_def)
    qed
  qed
qed

lemma fit_frame_rung:
  assumes "snapshotOnFrame frame = Some (session, pk)" and "\<not> fits frame"
  obtains n where "rung frame session pk n (fit_frame frame)"
    and "0 < n \<or> pk_permissions pk = [] \<and> pk_elicitations pk = []" and "fits (fit_frame frame) \<or> n \<le> 1"
proof -
  let ?t = "with_session frame (trimmed_session session pk)"
  let ?all = "max (length (pk_permissions pk)) (length (pk_elicitations pk))"
  have "parked_of (JObj session) = Some pk"
    using assms(1) by (auto simp: snapshotOnFrame_def split: option.splits json.splits)
  then have t: "rung frame session pk n ?t" if "?all \<le> n" for n
    using that by (intro rung_trimmed) (auto simp: max.bounded_iff)
  have f: "fit_frame frame = (if fits ?t then ?t else halving frame session pk ?all ?t)"
    using assms by (simp add: fit_frame_def Let_def)
  show thesis
  proof (cases "fits ?t")
    case True
    have "rung frame session pk (?all + 1) ?t" by (rule t) linarith
    with True f show thesis by (intro that [of "?all + 1"]) simp_all
  next
    case False
    from halving_rung [OF t [OF order.refl]] obtain n where
      n: "0 < n" "rung frame session pk (if ?all \<le> 1 then ?all else n) (halving frame session pk ?all ?t)"
        "fits (halving frame session pk ?all ?t) \<or> n \<le> 1" by blast
    show thesis
    proof (rule that)
      show "rung frame session pk (if ?all \<le> 1 then ?all else n) (fit_frame frame)" using f False n(2) by simp
      show "0 < (if ?all \<le> 1 then ?all else n) \<or> pk_permissions pk = [] \<and> pk_elicitations pk = []"
        using n(1) by auto
      show "fits (fit_frame frame) \<or> (if ?all \<le> 1 then ?all else n) \<le> 1" using f False n(3) by auto
    qed
  qed
qed

subsection \<open>Properties\<close>

text \<open>
  A snapshot frame too large for the socket is cut to the oldest rows of the two parked
  lists, at least one of each that has any, with the true lengths of both beside them and every
  other field but the background tasks as it was; and unless one row each is all that is left,
  what is sent fits the budget. A frame that fits is sent as it was built.
\<close>

theorem oversized_snapshots_shrink:
  assumes "snapshotOnFrame frame = Some (session, pk)"
  shows "if fits frame then controlItem frame = stringify frame
    else \<exists>f s n. controlItem frame = stringify f \<and> field_of f (asc ''session'') = Some (JObj s)
      \<and> field_of (JObj s) (asc ''pendingPermissions'') = Some (JArr (take n (map unblobbed (pk_permissions pk))))
      \<and> field_of (JObj s) (asc ''pendingElicitations'') = Some (JArr (take n (pk_elicitations pk)))
      \<and> field_of (JObj s) (asc ''reduced'') = Some (reduced_note pk)
      \<and> (0 < n \<or> pk_permissions pk = [] \<and> pk_elicitations pk = [])
      \<and> (\<forall>k. k \<in> asc ` {''reduced'', ''backgroundTasks'', ''pendingPermissions'', ''pendingElicitations''}
          \<or> field_of (JObj s) k = field_of (JObj session) k)
      \<and> (utf8_bytes (controlItem frame) \<le> CONTROL_MAX_BYTES \<or> n \<le> 1)"
proof (cases "fits frame")
  case True
  then show ?thesis by (simp add: controlItem_def)
next
  case False
  from assms False obtain n where n: "rung frame session pk n (fit_frame frame)"
    "0 < n \<or> pk_permissions pk = [] \<and> pk_elicitations pk = []" "fits (fit_frame frame) \<or> n \<le> 1"
    by (rule fit_frame_rung)
  have sent: "controlItem frame = stringify (fit_frame frame)"
    using False by (simp add: controlItem_def fitSnapshotFrame_def)
  from n(1) obtain s where s: "field_of (fit_frame frame) (asc ''session'') = Some (JObj s)"
    "parked_of (JObj s) = Some \<lparr>pk_tasks = map unlisted_task (pk_tasks pk),
       pk_permissions = take n (map unblobbed (pk_permissions pk)), pk_elicitations = take n (pk_elicitations pk)\<rparr>"
    "map_of s (asc ''reduced'') = Some (reduced_note pk)"
    "\<forall>k. k \<notin> asc ` {''reduced'', ''backgroundTasks'', ''pendingPermissions'', ''pendingElicitations''}
        \<longrightarrow> map_of s k = map_of session k"
    unfolding rung_def by blast
  have "field_of (JObj s) (asc ''pendingPermissions'') = Some (JArr (take n (map unblobbed (pk_permissions pk))))"
    "field_of (JObj s) (asc ''pendingElicitations'') = Some (JArr (take n (pk_elicitations pk)))"
    using s(2) by (auto simp: parked_of_def split: option.splits json.splits)
  with False sent s(1,3,4) n(2,3) show ?thesis
    by (simp only: if_False) (intro exI [of _ "fit_frame frame"] exI [of _ s] exI [of _ n], auto simp: fits_def)
qed

lemma length_escape_string: "length s \<le> length (escape_string s)"
  by (induction s rule: escape_string.induct) (auto simp: escape_unit_def hex_escape_def)

definition big_snapshot :: "(ustring \<times> json) list" where
  "big_snapshot = [(asc ''agentSessionId'', JStr (replicate 600000 97)), (asc ''backgroundTasks'', JArr []),
     (asc ''pendingPermissions'', JArr [JObj [(asc ''requestId'', JStr [49])]]), (asc ''pendingElicitations'', JArr [])]"

theorem oversized_snapshots_shrink_witness:
  "\<exists>f s. controlItem (JObj [(asc ''session'', JObj big_snapshot)]) = stringify f
    \<and> field_of f (asc ''session'') = Some (JObj s) \<and> field_of (JObj s) (asc ''agentSessionId'') = Some (JStr (replicate 600000 97))"
proof -
  let ?f = "JObj [(asc ''session'', JObj big_snapshot)]"
  have snap: "snapshotOnFrame ?f = Some (big_snapshot,
      \<lparr>pk_tasks = [], pk_permissions = [JObj [(asc ''requestId'', JStr [49])]], pk_elicitations = []\<rparr>)"
    by (simp add: snapshotOnFrame_def parked_of_def big_snapshot_def asc_inject)
  have "600000 \<le> length (escape_string (replicate 600000 97))"
    using length_escape_string [of "replicate 600000 97"] by (simp only: length_replicate)
  then have "600000 \<le> length (stringify ?f)"
    by (simp add: big_snapshot_def json_quote_def)
  then have "\<not> fits ?f"
    using length_le_utf8_bytes [of "stringify ?f"] by (simp add: fits_def CONTROL_MAX_BYTES_def)
  with oversized_snapshots_shrink [OF snap] obtain f s where
    fs: "controlItem ?f = stringify f" "field_of f (asc ''session'') = Some (JObj s)"
      "\<forall>k. k \<in> asc ` {''reduced'', ''backgroundTasks'', ''pendingPermissions'', ''pendingElicitations''}
          \<or> field_of (JObj s) k = field_of (JObj big_snapshot) k" by auto
  from fs(3) have "field_of (JObj s) (asc ''agentSessionId'') = field_of (JObj big_snapshot) (asc ''agentSessionId'')"
    using spec [of _ "asc ''agentSessionId''", OF fs(3)] by (auto simp: asc_inject)
  with fs(1,2) show ?thesis by (auto simp: big_snapshot_def)
qed

end
