(* ===== verification/LiveStream.thy ===== *)
theory LiveStream
  imports ControlFrames EventStore Auth "HOL-Library.Multiset"
begin

text \<open>
  One client's live stream: the daemon's end (\<open>StreamConnection\<close> of \<open>src/src/server.ts\<close>) and
  the client's reducer (\<open>SessionStream.apply\<close> of \<open>src/packages/web/src/stream.ts\<close>).

  Each callback of the connection is one function of its state. What it asks of the world
  while it runs (the log's totals, the session's snapshot, the clock, the socket's
  \<open>readyState\<close> and \<open>bufferedAmount\<close>) is the argument \<open>env\<close>; the JSON text of a stored event is
  the argument \<open>env_encode\<close>. Two fields are history and nothing reads them: \<open>sc_sent\<close>, the
  payloads handed to \<open>raw.send\<close> in order, next to the frames they are the text of, and
  \<open>sc_forgotten\<close>, the numbers named by \<open>lagged\<close> frames a collapse cleared before they went out.
\<close>

definition MAX_QUEUE_EVENTS :: nat where "MAX_QUEUE_EVENTS = 8000"
definition MAX_QUEUE_BYTES :: nat where "MAX_QUEUE_BYTES = 16 * 1024 * 1024"
definition ATTACH_REPLAY_MAX :: nat where "ATTACH_REPLAY_MAX = 2000"
definition BATCH_MAX_EVENTS :: nat where "BATCH_MAX_EVENTS = 200"
definition BATCH_MAX_BYTES :: nat where "BATCH_MAX_BYTES = 512 * 1024"
definition SOCKET_HIGH_WATER :: nat where "SOCKET_HIGH_WATER = 1024 * 1024"
definition COLLAPSE_WINDOW_MS :: int where "COLLAPSE_WINDOW_MS = 30000"
definition EVENTS_FRAME_OPEN :: ustring where "EVENTS_FRAME_OPEN = asc ''{\"type\":\"events\",\"events\":[''"
definition EVENTS_FRAME_CLOSE :: ustring where "EVENTS_FRAME_CLOSE = asc '']}''"

subsection \<open>Frames\<close>

datatype lag_reason = Evicted | Backlog | Slow_consumer

fun reason_text :: "lag_reason \<Rightarrow> ustring" where
  "reason_text Evicted = asc ''evicted''"
| "reason_text Backlog = asc ''backlog''"
| "reason_text Slow_consumer = asc ''slow_consumer''"

datatype control_frame =
    Hello (hello_instance: ustring) (hello_session: json) (hello_first: nat) (hello_last: nat)
      (hello_since: nat) (hello_gap: bool)
  | Lagged (lag_from: nat) (lag_to: nat) lag_reason
  | Snapshot_frame json
  | Caught_up nat

fun frame_json :: "control_frame \<Rightarrow> json" where
  "frame_json (Hello inst session first latest since gap) = JObj [(asc ''type'', JStr (asc ''hello'')),
     (asc ''instanceId'', JStr inst), (asc ''session'', session), (asc ''firstSeq'', json_num first),
     (asc ''lastSeq'', json_num latest), (asc ''since'', json_num since), (asc ''gap'', JBool gap)]"
| "frame_json (Lagged a b r) = JObj [(asc ''type'', JStr (asc ''lagged'')), (asc ''from'', json_num a),
     (asc ''to'', json_num b), (asc ''dropped'', json_num (b + 1 - a)), (asc ''reason'', JStr (reason_text r))]"
| "frame_json (Snapshot_frame session) = JObj [(asc ''type'', JStr (asc ''snapshot'')), (asc ''session'', session)]"
| "frame_json (Caught_up n) = JObj [(asc ''type'', JStr (asc ''caught_up'')), (asc ''seq'', json_num n)]"

datatype queue_item =
    Q_event stored_event nat
  | Q_control control_frame ustring nat

fun item_bytes :: "queue_item \<Rightarrow> nat" where
  "item_bytes (Q_event e n) = n"
| "item_bytes (Q_control f payload n) = n"

definition control_item :: "control_frame \<Rightarrow> queue_item" where
  "control_item f = (let payload = controlItem (frame_json f) in Q_control f payload (length payload + 64))"

fun item_lag :: "queue_item \<Rightarrow> nat list" where
  "item_lag (Q_control (Lagged a b r) payload n) = [a..<b + 1]"
| "item_lag _ = []"

definition lag_told :: "queue_item list \<Rightarrow> nat list" where
  "lag_told q = concat (map item_lag q)"

datatype wire =
    W_events "stored_event list" ustring
  | W_control control_frame ustring

subsection \<open>The connection\<close>

record stream_env =
  env_stats :: event_store_stats
  env_snapshot :: json
  env_now :: int
  env_raw :: "(bool \<times> nat) option"
  env_encode :: "stored_event \<Rightarrow> ustring"

record stream_conn =
  sc_queue :: "queue_item list"
  sc_queuedBytes :: int
  sc_cursor :: nat
  sc_lastSentSeq :: nat
  sc_sending :: bool
  sc_closed :: bool
  sc_alive :: bool
  sc_collapses :: "int list"
  sc_listening :: bool
  sc_watching :: bool
  sc_heartbeat :: bool
  sc_sent :: "wire list"
  sc_forgotten :: "nat list"
  sc_ended :: "(nat \<times> ustring) option"
  sc_terminated :: bool

definition new_stream :: stream_conn where
  "new_stream = \<lparr>sc_queue = [], sc_queuedBytes = 0, sc_cursor = 0, sc_lastSentSeq = 0, sc_sending = False,
     sc_closed = False, sc_alive = True, sc_collapses = [], sc_listening = False, sc_watching = False,
     sc_heartbeat = False, sc_sent = [], sc_forgotten = [], sc_ended = None, sc_terminated = False\<rparr>"

definition sc_dispose :: "stream_conn \<Rightarrow> stream_conn" where
  "sc_dispose c =
     (if sc_closed c then c
      else c\<lparr>sc_closed := True, sc_queue := [], sc_queuedBytes := 0, sc_listening := False,
        sc_watching := False, sc_heartbeat := False\<rparr>)"

definition sc_close :: "nat \<Rightarrow> ustring \<Rightarrow> stream_conn \<Rightarrow> stream_conn" where
  "sc_close code reason c =
     (if sc_closed c then c else (sc_dispose c)\<lparr>sc_ended := Some (code, reason)\<rparr>)"

definition sc_push :: "queue_item \<Rightarrow> stream_conn \<Rightarrow> stream_conn" where
  "sc_push item c = c\<lparr>sc_queue := sc_queue c @ [item], sc_queuedBytes := sc_queuedBytes c + int (item_bytes item)\<rparr>"

text \<open>
  The batch of \<open>flush\<close>: how many events are taken from the head of the queue, their texts and
  the bytes of the frame so far.
\<close>

fun take_batch ::
  "(stored_event \<Rightarrow> ustring) \<Rightarrow> stored_event list \<Rightarrow> ustring list \<Rightarrow> nat \<Rightarrow> int \<Rightarrow> queue_item list
    \<Rightarrow> stored_event list \<times> ustring list \<times> int \<times> queue_item list" where
  "take_batch encode taken texts bytes weight (Q_event e n # rest) =
     (if BATCH_MAX_EVENTS \<le> length texts then (taken, texts, weight, Q_event e n # rest)
      else
        let one = encode e; size = utf8_bytes one + (if texts = [] then 0 else 1) in
        if texts \<noteq> [] \<and> BATCH_MAX_BYTES < bytes + size then (taken, texts, weight, Q_event e n # rest)
        else take_batch encode (taken @ [e]) (texts @ [one]) (bytes + size) (weight - int n) rest)"
| "take_batch encode taken texts bytes weight queue = (taken, texts, weight, queue)"

definition sc_flush :: "stream_env \<Rightarrow> stream_conn \<Rightarrow> stream_conn" where
  "sc_flush env c =
     (if sc_closed c \<or> sc_sending c then c
      else case env_raw env of
        None \<Rightarrow> c
      | Some (isOpen, buffered) \<Rightarrow>
          if \<not> isOpen \<or> SOCKET_HIGH_WATER < buffered then c
          else case sc_queue c of
            [] \<Rightarrow> c
          | Q_control f payload n # rest \<Rightarrow>
              c\<lparr>sc_queue := rest, sc_queuedBytes := sc_queuedBytes c - int n,
                sc_sending := True, sc_sent := sc_sent c @ [W_control f payload]\<rparr>
          | Q_event e n # rest \<Rightarrow>
              (case take_batch (env_encode env) [] [] (length EVENTS_FRAME_OPEN + length EVENTS_FRAME_CLOSE)
                  (sc_queuedBytes c) (sc_queue c) of
                (taken, texts, weight, queue) \<Rightarrow>
                  c\<lparr>sc_queue := queue, sc_queuedBytes := weight,
                    sc_lastSentSeq := (if taken = [] then sc_lastSentSeq c else sv_seq (last taken)),
                    sc_sending := True,
                    sc_sent := sc_sent c
                      @ [W_events taken (EVENTS_FRAME_OPEN @ join (asc '','') texts @ EVENTS_FRAME_CLOSE)]\<rparr>))"

definition sc_collapse :: "stream_env \<Rightarrow> lag_reason \<Rightarrow> stream_conn \<Rightarrow> stream_conn" where
  "sc_collapse env reason c =
     (let head = es_lastSeq (env_stats env);
          from = sc_lastSentSeq c + 1;
          cleared = c\<lparr>sc_queue := [], sc_queuedBytes := 0, sc_forgotten := sc_forgotten c @ lag_told (sc_queue c)\<rparr>;
          told = (if from \<le> head then sc_push (control_item (Lagged from head reason)) cleared else cleared);
          jumped = sc_push (control_item (Snapshot_frame (env_snapshot env)))
            (told\<lparr>sc_cursor := head, sc_lastSentSeq := head\<rparr>)
      in if reason \<noteq> Slow_consumer then jumped
         else
           let recent = filter (\<lambda>t. env_now env - t < COLLAPSE_WINDOW_MS) (sc_collapses c) @ [env_now env];
               counted = jumped\<lparr>sc_collapses := recent\<rparr>
           in if 2 \<le> length recent then sc_close 4003 (asc ''slow consumer'') counted else counted)"

definition sc_enqueue :: "stream_env \<Rightarrow> bool \<Rightarrow> queue_item \<Rightarrow> stream_conn \<Rightarrow> stream_conn" where
  "sc_enqueue env replaying item c =
     (let c = sc_push item c in
      if MAX_QUEUE_EVENTS < length (sc_queue c) \<or> int MAX_QUEUE_BYTES < sc_queuedBytes c
      then sc_collapse env (if replaying then Backlog else Slow_consumer) c
      else sc_flush env c)"

definition sc_control :: "stream_env \<Rightarrow> control_frame \<Rightarrow> stream_conn \<Rightarrow> stream_conn" where
  "sc_control env f c = (if sc_closed c then c else sc_enqueue env False (control_item f) c)"

definition sc_emit :: "stream_env \<Rightarrow> bool \<Rightarrow> stored_event \<Rightarrow> stream_conn \<Rightarrow> stream_conn" where
  "sc_emit env replaying stored c =
     (if sc_closed c \<or> sv_seq stored \<le> sc_cursor c then c
      else sc_enqueue env replaying (Q_event stored (estimateBytes (sv_event stored) + 64))
        (c\<lparr>sc_cursor := sv_seq stored\<rparr>))"

text \<open>The drain of \<open>attach\<close>: pages after the cursor until one is empty. \<open>None\<close> is a loop for ever.\<close>

partial_function (option) sc_drain ::
  "stream_env \<Rightarrow> (int \<Rightarrow> stored_event list) \<Rightarrow> stream_conn \<Rightarrow> stream_conn option" where
  "sc_drain env page c =
     (let slice = page (int (sc_cursor c)) in
      if slice = [] then Some c else sc_drain env page (fold (sc_emit env True) slice c))"

text \<open>
  What \<open>attach\<close> does before the drain: the cursor it was asked for, the one it starts from,
  and the frames of the greeting, in the order they are queued.
\<close>

definition asked_from :: "event_store_stats \<Rightarrow> nat option \<Rightarrow> nat" where
  "asked_from stats sinceParam = (case sinceParam of None \<Rightarrow> es_lastSeq stats | Some s \<Rightarrow> min s (es_lastSeq stats))"

definition start_from :: "event_store_stats \<Rightarrow> nat option \<Rightarrow> nat" where
  "start_from stats sinceParam =
     (let asked = asked_from stats sinceParam;
          floor = max asked (es_lastSeq stats - ATTACH_REPLAY_MAX)
      in max asked (min floor (es_lastSeq stats)))"

definition lag_frames :: "nat \<Rightarrow> nat \<Rightarrow> nat \<Rightarrow> control_frame list" where
  "lag_frames asked oldest since =
     (let skippedFrom = max asked (oldest - 1) + 1
      in (if asked + 1 < oldest then [Lagged (asked + 1) (oldest - 1) Evicted] else [])
        @ (if skippedFrom \<le> since then [Lagged skippedFrom since Backlog] else []))"

definition greeting :: "stream_env \<Rightarrow> ustring \<Rightarrow> nat option \<Rightarrow> control_frame list" where
  "greeting env inst sinceParam =
     (let stats = env_stats env;
          asked = asked_from stats sinceParam;
          since = start_from stats sinceParam;
          oldest = oldestAvailable stats;
          gap = asked + 1 < oldest
      in Hello inst (env_snapshot env) oldest (es_lastSeq stats) since gap # lag_frames asked oldest since)"

definition sc_greet :: "stream_env \<Rightarrow> ustring \<Rightarrow> nat option \<Rightarrow> stream_conn \<Rightarrow> stream_conn" where
  "sc_greet env inst sinceParam c =
     fold (sc_control env) (greeting env inst sinceParam)
       (c\<lparr>sc_cursor := start_from (env_stats env) sinceParam,
          sc_lastSentSeq := start_from (env_stats env) sinceParam\<rparr>)"

definition sc_attach ::
  "stream_env \<Rightarrow> ustring \<Rightarrow> (int \<Rightarrow> stored_event list) \<Rightarrow> nat option \<Rightarrow> stream_conn \<Rightarrow> stream_conn option" where
  "sc_attach env inst page sinceParam c =
     map_option (\<lambda>c.
       let c = c\<lparr>sc_listening := True, sc_watching := True\<rparr>;
           c = sc_control env (Caught_up (sc_cursor c)) c
       in sc_flush env (if env_raw env = None then c else c\<lparr>sc_heartbeat := True\<rparr>))
     (sc_drain env page (sc_greet env inst sinceParam c))"

definition sc_pong :: "stream_conn \<Rightarrow> stream_conn" where
  "sc_pong c = c\<lparr>sc_alive := True\<rparr>"

text \<open>One tick of the heartbeat; \<open>ping_ok\<close> is whether \<open>raw.ping()\<close> returns.\<close>

definition sc_heartbeat_tick :: "rat \<Rightarrow> rat option \<Rightarrow> bool \<Rightarrow> stream_conn \<Rightarrow> stream_conn" where
  "sc_heartbeat_tick now expiresAt ping_ok c =
     (if \<not> sc_heartbeat c then c
      else if (case expiresAt of None \<Rightarrow> False | Some e \<Rightarrow> e + AUTH_LEEWAY_MS < now)
      then sc_close 4401 (asc ''token expired'') c
      else if \<not> sc_alive c then c\<lparr>sc_terminated := True\<rparr>
      else if ping_ok then c\<lparr>sc_alive := False\<rparr>
      else c\<lparr>sc_alive := False, sc_terminated := True\<rparr>)"

text \<open>The callback of \<open>raw.send\<close>.\<close>

definition sc_on_sent :: "stream_env \<Rightarrow> bool \<Rightarrow> stream_conn \<Rightarrow> stream_conn" where
  "sc_on_sent env failed c =
     (let c = c\<lparr>sc_sending := False\<rparr> in
      if failed then sc_close 1011 (asc ''send failed'') c
      else if sc_queue c \<noteq> [] then sc_flush env c else c)"

subsection \<open>What the client has been told\<close>

fun item_event :: "queue_item \<Rightarrow> nat list" where
  "item_event (Q_event e n) = [sv_seq e]"
| "item_event _ = []"

definition ev_told :: "queue_item list \<Rightarrow> nat list" where
  "ev_told q = concat (map item_event q)"

definition queue_told :: "queue_item list \<Rightarrow> nat list" where
  "queue_told q = concat (map (\<lambda>x. item_lag x @ item_event x) q)"

fun wire_told :: "wire \<Rightarrow> nat list" where
  "wire_told (W_events es payload) = map sv_seq es"
| "wire_told (W_control (Lagged a b r) payload) = [a..<b + 1]"
| "wire_told (W_control _ payload) = []"

definition sent_told :: "stream_conn \<Rightarrow> nat list" where
  "sent_told c = concat (map wire_told (sc_sent c))"

text \<open>Every number a client has been or is about to be told of, in the order it is told.\<close>

definition told :: "stream_conn \<Rightarrow> nat list" where
  "told c = sent_told c @ queue_told (sc_queue c)"

lemma told_append [simp]:
  "lag_told (p @ q) = lag_told p @ lag_told q" "ev_told (p @ q) = ev_told p @ ev_told q"
  "queue_told (p @ q) = queue_told p @ queue_told q"
  by (simp_all add: lag_told_def ev_told_def queue_told_def)

lemma told_Nil [simp]: "lag_told [] = []" "ev_told [] = []" "queue_told [] = []"
  by (simp_all add: lag_told_def ev_told_def queue_told_def)

lemma told_Cons [simp]:
  "lag_told (x # q) = item_lag x @ lag_told q" "ev_told (x # q) = item_event x @ ev_told q"
  "queue_told (x # q) = item_lag x @ item_event x @ queue_told q"
  by (simp_all add: lag_told_def ev_told_def queue_told_def)

text \<open>
  The queue of an open connection: its \<open>lagged\<close> frames come before its events, the events are
  the ones after the last that was sent up to the cursor, and everything up to the last that
  was sent has been told once, in order, or was forgotten.
\<close>

definition stream_inv :: "nat \<Rightarrow> stream_conn \<Rightarrow> bool" where
  "stream_inv asked c \<longleftrightarrow>
     queue_told (sc_queue c) = lag_told (sc_queue c) @ ev_told (sc_queue c)
   \<and> ev_told (sc_queue c) = [sc_lastSentSeq c + 1..<sc_cursor c + 1]
   \<and> sorted_wrt (<) (sent_told c @ lag_told (sc_queue c))
   \<and> mset (sent_told c @ lag_told (sc_queue c) @ sc_forgotten c) = mset [asked + 1..<sc_lastSentSeq c + 1]
   \<and> asked \<le> sc_lastSentSeq c \<and> sc_lastSentSeq c \<le> sc_cursor c
   \<and> sc_queuedBytes c = int (sum_list (map item_bytes (sc_queue c)))"

lemma take_batch_takes:
  "take_batch encode taken texts bytes weight q = (taken', texts', weight', q') \<Longrightarrow>
    \<exists>ps. q = map (\<lambda>(e, n). Q_event e n) ps @ q' \<and> taken' = taken @ map fst ps
      \<and> texts' = texts @ map (encode \<circ> fst) ps \<and> weight' = weight - int (sum_list (map snd ps))
      \<and> (texts = [] \<and> q \<noteq> [] \<and> item_event (hd q) \<noteq> [] \<longrightarrow> ps \<noteq> [])"
proof (induction encode taken texts bytes weight q arbitrary: taken' texts' weight' q' rule: take_batch.induct)
  case (1 encode taken texts bytes weight e n rest)
  show ?case
  proof (cases "BATCH_MAX_EVENTS \<le> length texts \<or>
      texts \<noteq> [] \<and> BATCH_MAX_BYTES < bytes + (utf8_bytes (encode e) + (if texts = [] then 0 else 1))")
    case True
    with "1.prems" show ?thesis
      by (intro exI [of _ "[]"]) (auto simp: Let_def BATCH_MAX_EVENTS_def split: if_splits)
  next
    case False
    let ?size = "utf8_bytes (encode e) + (if texts = [] then 0 else 1)"
    have go: "\<not> BATCH_MAX_EVENTS \<le> length texts" "\<not> (texts \<noteq> [] \<and> BATCH_MAX_BYTES < bytes + ?size)"
      using False by auto
    then have "take_batch encode (taken @ [e]) (texts @ [encode e]) (bytes + ?size) (weight - int n) rest
        = (taken', texts', weight', q')"
      using "1.prems" by (auto simp: Let_def split: if_splits)
    from "1.IH" [OF go(1) refl refl go(2) this]
    obtain ps where "rest = map (\<lambda>(e, n). Q_event e n) ps @ q'" "taken' = (taken @ [e]) @ map fst ps"
      "texts' = (texts @ [encode e]) @ map (encode \<circ> fst) ps"
      "weight' = weight - int n - int (sum_list (map snd ps))"
      by blast
    then show ?thesis by (intro exI [of _ "(e, n) # ps"]) simp
  qed
qed auto

lemma events_told [simp]:
  "lag_told (map (\<lambda>(e, n). Q_event e n) ps) = []"
  "ev_told (map (\<lambda>(e, n). Q_event e n) ps) = map (sv_seq \<circ> fst) ps"
  "queue_told (map (\<lambda>(e, n). Q_event e n) ps) = map (sv_seq \<circ> fst) ps"
  "sum_list (map (item_bytes \<circ> (\<lambda>(e, n). Q_event e n)) ps) = sum_list (map snd ps)"
  by (induction ps) auto

lemma item_lag_told: "item_lag (Q_control f payload n) = wire_told (W_control f payload)"
  by (cases f) simp_all

lemma upt_join: "a \<le> b \<Longrightarrow> b \<le> c \<Longrightarrow> [a..<c] = [a..<b] @ [b..<c]" for a b c :: nat
  by (metis le_add_diff_inverse upt_add_eq_append)

lemma upt_same:
  assumes "[a..<b] = [c..<d]" and "a < b"
  shows "a = c \<and> b = d"
proof -
  have "[c..<d] \<noteq> []" using assms by (metis upt_conv_Nil upt_eq_Nil_conv not_less less_le_trans le0 less_irrefl)
  then have "c < d" by simp
  moreover have "length [a..<b] = length [c..<d]" "hd [a..<b] = hd [c..<d]" using assms(1) by simp_all
  ultimately show ?thesis using assms(2) by (simp add: hd_upt)
qed

lemma upt_split:
  assumes "[a..<b] = xs @ ys" and "a \<le> b"
  shows "xs = [a..<a + length xs] \<and> ys = [a + length xs..<b] \<and> a + length xs \<le> b"
proof -
  have "length [a..<b] = length xs + length ys" unfolding assms(1) by simp
  with assms(2) have n: "a + length xs \<le> b" by simp
  have "xs = take (length xs) [a..<b]" "ys = drop (length xs) [a..<b]" unfolding assms(1) by simp_all
  with n show ?thesis by (metis take_upt drop_upt)
qed

lemma flush_fields:
  "sc_closed (sc_flush env c) = sc_closed c" "sc_cursor (sc_flush env c) = sc_cursor c"
  "sc_listening (sc_flush env c) = sc_listening c" "sc_watching (sc_flush env c) = sc_watching c"
  "sc_forgotten (sc_flush env c) = sc_forgotten c"
  by (auto simp: sc_flush_def split: option.splits list.splits queue_item.splits prod.splits)

lemma flush_inv:
  assumes "stream_inv asked c"
  shows "stream_inv asked (sc_flush env c)"
proof (cases "sc_closed c \<or> sc_sending c \<or> env_raw env = None \<or> sc_queue c = []
    \<or> \<not> fst (the (env_raw env)) \<or> SOCKET_HIGH_WATER < snd (the (env_raw env))")
  case True
  then have "sc_flush env c = c"
    by (cases "env_raw env"; cases "sc_queue c") (auto simp: sc_flush_def)
  with assms show ?thesis by simp
next
  case False
  obtain n where ready: "env_raw env = Some (True, n)" "\<not> SOCKET_HIGH_WATER < n" "\<not> sc_closed c" "\<not> sc_sending c"
    using False by (cases "env_raw env") auto
  from False obtain x rest where q: "sc_queue c = x # rest" by (cases "sc_queue c") auto
  show ?thesis
  proof (cases x)
    case (Q_control f payload m)
    have "sc_flush env c = c\<lparr>sc_queue := rest, sc_queuedBytes := sc_queuedBytes c - int m,
        sc_sending := True, sc_sent := sc_sent c @ [W_control f payload]\<rparr>"
      using ready q Q_control by (simp add: sc_flush_def)
    with assms q Q_control show ?thesis
      by (auto simp: stream_inv_def sent_told_def item_lag_told)
  next
    case (Q_event e m)
    obtain taken texts weight queue where batch: "take_batch (env_encode env) [] []
        (length EVENTS_FRAME_OPEN + length EVENTS_FRAME_CLOSE) (sc_queuedBytes c) (sc_queue c) = (taken, texts, weight, queue)"
      by (metis surj_pair)
    from take_batch_takes [OF this] obtain ps where ps: "sc_queue c = map (\<lambda>(e, n). Q_event e n) ps @ queue"
      "taken = map fst ps" "weight = sc_queuedBytes c - int (sum_list (map snd ps))" "ps \<noteq> []"
      using q Q_event by auto
    have no_lag: "lag_told queue = []"
    proof (rule ccontr)
      assume "lag_told queue \<noteq> []"
      then obtain k ks where k: "lag_told queue = k # ks" by (cases "lag_told queue") auto
      with assms ps(1) have "k \<in> set [asked + 1..<sc_lastSentSeq c + 1]"
        unfolding stream_inv_def by (metis Un_iff events_told(1) append_Nil list.set_intros(1) set_append set_mset_mset told_append(1))
      moreover from assms ps(1) k q Q_event have "k = sv_seq e"
        unfolding stream_inv_def by (metis append_Cons append_Nil events_told(1) item_event.simps(1) item_lag.simps(2) list.inject told_append(1) told_Cons(3))
      moreover from assms q Q_event have "sv_seq e = sc_lastSentSeq c + 1"
        unfolding stream_inv_def by (metis (no_types, lifting) append_Cons append_Nil item_event.simps(1) list.inject told_Cons(2) upt_eq_Cons_conv)
      ultimately show False by simp
    qed
    have split: "[sc_lastSentSeq c + 1..<sc_cursor c + 1] = map (sv_seq \<circ> fst) ps @ ev_told queue"
      using assms ps(1) by (simp add: stream_inv_def)
    have "sc_lastSentSeq c + 1 \<le> sc_cursor c + 1" using assms by (simp add: stream_inv_def)
    note run = upt_split [OF split this]
    define k where "k = sc_lastSentSeq c + 1 + length (map (sv_seq \<circ> fst) ps)"
    have k: "sc_lastSentSeq c + 1 \<le> k" "k \<le> sc_cursor c + 1"
      "map (sv_seq \<circ> fst) ps = [sc_lastSentSeq c + 1..<k]" "ev_told queue = [k..<sc_cursor c + 1]"
      using run unfolding k_def by (blast intro: le_add1)+
    with ps(4) have k0: "sc_lastSentSeq c + 1 < k" by (cases "sc_lastSentSeq c + 1 = k") auto
    have "sv_seq (last taken) = last (map (sv_seq \<circ> fst) ps)" using ps(2,4) by (simp add: last_map)
    also have "\<dots> = k - 1" using k(3) k0 by (simp add: last_upt del: upt_Suc)
    finally have last: "sv_seq (last taken) + 1 = k" using k0 by simp
    have c': "sc_flush env c = c\<lparr>sc_queue := queue, sc_queuedBytes := weight, sc_lastSentSeq := sv_seq (last taken),
        sc_sending := True, sc_sent := sc_sent c
          @ [W_events taken (EVENTS_FRAME_OPEN @ join (asc '','') texts @ EVENTS_FRAME_CLOSE)]\<rparr>"
      using ready q Q_event batch ps(2,4) by (simp add: sc_flush_def)
    have sorted: "sorted_wrt (<) (sent_told c)" "mset (sent_told c @ sc_forgotten c) = mset [asked + 1..<sc_lastSentSeq c + 1]"
      "asked \<le> sc_lastSentSeq c"
      using assms ps(1) no_lag by (auto simp: stream_inv_def)
    have "\<forall>m\<in>set (sent_told c). m < sc_lastSentSeq c + 1"
    proof
      fix m assume "m \<in> set (sent_told c)"
      then have "m \<in># mset (sent_told c @ sc_forgotten c)" by simp
      then show "m < sc_lastSentSeq c + 1" unfolding sorted(2) by (simp del: upt_Suc)
    qed
    then have "sorted_wrt (<) (sent_told c @ [sc_lastSentSeq c + 1..<k])"
      using sorted(1) by (auto simp: sorted_wrt_append simp del: upt_Suc)
    moreover have "mset (sent_told c @ [sc_lastSentSeq c + 1..<k] @ sc_forgotten c) = mset [asked + 1..<k]"
    proof -
      have "[asked + 1..<k] = [asked + 1..<sc_lastSentSeq c + 1] @ [sc_lastSentSeq c + 1..<k]"
        using sorted(3) k(1) by (intro upt_join) simp_all
      then show ?thesis using sorted(2) by (simp add: ac_simps del: upt_Suc)
    qed
    moreover have "queue_told queue = ev_told queue"
      using assms ps(1) no_lag by (simp add: stream_inv_def)
    moreover have "map sv_seq taken = [sc_lastSentSeq c + 1..<k]" using k(3) ps(2) by simp
    ultimately show ?thesis
      using assms ps k no_lag last sorted(3) unfolding c'
      by (simp add: stream_inv_def sent_told_def add.commute [of _ 1] del: upt_Suc)
  qed
qed

text \<open>A collapse on a full queue and one that follows a replay alike.\<close>

lemma collapse_inv:
  assumes "stream_inv asked c" and "sc_cursor c \<le> es_lastSeq (env_stats env)"
  shows "sc_closed (sc_collapse env reason c) \<or> stream_inv asked (sc_collapse env reason c)"
    and "sc_closed (sc_collapse env reason c) \<or> sc_cursor (sc_collapse env reason c) = es_lastSeq (env_stats env)"
proof -
  let ?head = "es_lastSeq (env_stats env)" and ?from = "sc_lastSentSeq c + 1"
  define d where "d = sc_push (control_item (Snapshot_frame (env_snapshot env)))
      ((if ?from \<le> ?head then sc_push (control_item (Lagged ?from ?head reason))
          (c\<lparr>sc_queue := [], sc_queuedBytes := 0, sc_forgotten := sc_forgotten c @ lag_told (sc_queue c)\<rparr>)
        else c\<lparr>sc_queue := [], sc_queuedBytes := 0, sc_forgotten := sc_forgotten c @ lag_told (sc_queue c)\<rparr>)
      \<lparr>sc_cursor := ?head, sc_lastSentSeq := ?head\<rparr>)"
  have old: "sorted_wrt (<) (sent_told c)" "asked \<le> sc_lastSentSeq c" "sc_lastSentSeq c \<le> ?head"
    "mset (sent_told c @ sc_forgotten c @ lag_told (sc_queue c)) = mset [asked + 1..<?from]"
    using assms by (auto simp: stream_inv_def sorted_wrt_append ac_simps simp del: upt_Suc)
  have "\<forall>m\<in>set (sent_told c). m < ?from"
  proof
    fix m assume "m \<in> set (sent_told c)"
    then have "m \<in># mset (sent_told c @ sc_forgotten c @ lag_told (sc_queue c))" by simp
    then show "m < ?from" unfolding old(4) by (simp del: upt_Suc)
  qed
  then have sorted: "sorted_wrt (<) (sent_told c @ [?from..<?head + 1])"
    using old(1) by (auto simp: sorted_wrt_append simp del: upt_Suc)
  have "[asked + 1..<?head + 1] = [asked + 1..<?from] @ [?from..<?head + 1]"
    using old(2,3) by (intro upt_join) simp_all
  then have all: "mset (sent_told c @ [?from..<?head + 1] @ sc_forgotten c @ lag_told (sc_queue c)) = mset [asked + 1..<?head + 1]"
    using old(4) by (simp add: ac_simps del: upt_Suc)
  have d_fields: "queue_told (sc_queue d) = lag_told (sc_queue d) \<and> ev_told (sc_queue d) = []
      \<and> lag_told (sc_queue d) = [?from..<?head + 1] \<and> sc_sent d = sc_sent c \<and> sc_cursor d = ?head \<and> sc_lastSentSeq d = ?head
      \<and> sc_forgotten d = sc_forgotten c @ lag_told (sc_queue c)
      \<and> sc_queuedBytes d = int (sum_list (map item_bytes (sc_queue d)))"
    using old(3) by (auto simp: d_def sc_push_def control_item_def Let_def simp del: upt_Suc)
  then have d: "stream_inv asked d" "sc_cursor d = ?head"
    using sorted all old(2,3) by (simp_all add: stream_inv_def sent_told_def del: upt_Suc)
  have "sc_collapse env reason c = d \<or> sc_closed (sc_collapse env reason c)
      \<or> (\<exists>r. sc_collapse env reason c = d\<lparr>sc_collapses := r\<rparr>)"
    unfolding sc_collapse_def Let_def d_def [symmetric] by (auto simp: sc_close_def sc_dispose_def)
  moreover have "stream_inv asked (d\<lparr>sc_collapses := r\<rparr>) = stream_inv asked d" for r
    by (simp add: stream_inv_def sent_told_def)
  ultimately show "sc_closed (sc_collapse env reason c) \<or> stream_inv asked (sc_collapse env reason c)"
    "sc_closed (sc_collapse env reason c) \<or> sc_cursor (sc_collapse env reason c) = ?head"
    using d by auto
qed

lemma control_inv:
  assumes "stream_inv asked c" and "sc_cursor c \<le> es_lastSeq (env_stats env)" and "item_lag (Q_control f [] 0) = []"
  shows "sc_closed (sc_control env f c) \<or> stream_inv asked (sc_control env f c)
    \<and> (sc_cursor (sc_control env f c) = sc_cursor c \<or> sc_cursor (sc_control env f c) = es_lastSeq (env_stats env))"
proof -
  let ?c = "sc_push (control_item f) c"
  have lag: "item_lag (Q_control f p n) = []" for p n using assms(3) by (cases f) auto
  have "stream_inv asked ?c" "sc_cursor ?c = sc_cursor c"
    using assms(1) lag by (simp_all add: stream_inv_def sc_push_def control_item_def Let_def sent_told_def)
  then show ?thesis
    using assms(2) collapse_inv [of asked ?c env Slow_consumer] flush_inv [of asked ?c env]
    by (auto simp: sc_control_def sc_enqueue_def Let_def flush_fields)
qed

lemma emit_inv:
  assumes "stream_inv asked c" and "sv_seq e \<le> sc_cursor c + 1" and "max (sv_seq e) (sc_cursor c) \<le> es_lastSeq (env_stats env)"
  shows "sc_closed (sc_emit env replaying e c) \<or> stream_inv asked (sc_emit env replaying e c)
    \<and> (sc_cursor (sc_emit env replaying e c) = max (sv_seq e) (sc_cursor c)
      \<or> sc_cursor (sc_emit env replaying e c) = es_lastSeq (env_stats env))"
proof (cases "sc_closed c \<or> sv_seq e \<le> sc_cursor c")
  case True
  with assms show ?thesis by (auto simp: sc_emit_def)
next
  case False
  with assms(2) have e: "sv_seq e = sc_cursor c + 1" by simp
  let ?c = "sc_push (Q_event e (estimateBytes (sv_event e) + 64)) (c\<lparr>sc_cursor := sv_seq e\<rparr>)"
  have "[sc_lastSentSeq c + 1..<sc_cursor c + 1 + 1] = [sc_lastSentSeq c + 1..<sc_cursor c + 1] @ [sc_cursor c + 1]"
    using assms(1) by (subst upt_join [of _ "sc_cursor c + 1"]) (auto simp: stream_inv_def)
  then have "stream_inv asked ?c" "sc_cursor ?c = sv_seq e"
    using assms(1) e by (auto simp: stream_inv_def sc_push_def sent_told_def simp del: upt_Suc)
  then show ?thesis
    using False assms(3) e collapse_inv [of asked ?c env "if replaying then Backlog else Slow_consumer"] flush_inv [of asked ?c env]
    by (auto simp: sc_emit_def sc_enqueue_def Let_def flush_fields)
qed

subsection \<open>Attaching\<close>

fun frame_told :: "control_frame \<Rightarrow> nat list" where
  "frame_told (Lagged a b r) = [a..<b + 1]"
| "frame_told _ = []"

lemma frame_told_simps [simp]:
  "item_lag (Q_control f payload n) = frame_told f" "wire_told (W_control f payload) = frame_told f"
  "item_lag (control_item f) = frame_told f" "item_event (control_item f) = []"
  by (cases f; simp add: control_item_def Let_def)+

lemma frames_told [simp]:
  "lag_told (map control_item fs) = concat (map frame_told fs)"
  "queue_told (map control_item fs) = concat (map frame_told fs)" "ev_told (map control_item fs) = []"
  by (induction fs) auto

lemma lag_frames_told:
  assumes "oldest \<le> since + 1" and "asked \<le> since"
  shows "concat (map frame_told (lag_frames asked oldest since)) = [asked + 1..<since + 1]"
proof (cases "asked + 1 < oldest")
  case True
  then obtain n where n: "oldest = Suc n" "asked < n" by (cases oldest) auto
  then have "concat (map frame_told (lag_frames asked oldest since)) = [asked + 1..<n + 1] @ [n + 1..<since + 1]"
    by (auto simp: lag_frames_def max_def Let_def)
  also have "\<dots> = [asked + 1..<since + 1]"
    using n assms by (intro upt_join [symmetric]) simp_all
  finally show ?thesis .
next
  case False
  then have "max asked (oldest - 1) = asked" by simp
  with False assms show ?thesis by (auto simp: lag_frames_def Let_def)
qed

lemma greeting_told:
  assumes "oldestAvailable (env_stats env) \<le> start_from (env_stats env) sinceParam + 1"
  shows "concat (map frame_told (greeting env inst sinceParam))
    = [asked_from (env_stats env) sinceParam + 1..<start_from (env_stats env) sinceParam + 1]"
proof -
  have "asked_from (env_stats env) sinceParam \<le> start_from (env_stats env) sinceParam"
    by (simp add: start_from_def Let_def)
  from lag_frames_told [OF assms this] show ?thesis
    by (simp add: greeting_def Let_def)
qed

text \<open>A connection that has only queued and sent control frames.\<close>

definition greeted :: "nat \<Rightarrow> control_frame list \<Rightarrow> stream_conn \<Rightarrow> bool" where
  "greeted since fs c \<longleftrightarrow> \<not> sc_closed c \<and> sc_cursor c = since \<and> sc_lastSentSeq c = since \<and> sc_forgotten c = []
     \<and> sc_queuedBytes c = int (sum_list (map item_bytes (sc_queue c)))
     \<and> (\<exists>gone left. fs = gone @ left \<and> sc_sent c = map (\<lambda>f. W_control f (controlItem (frame_json f))) gone
        \<and> sc_queue c = map control_item left)"

lemma greetedI:
  assumes "\<not> sc_closed c" "sc_cursor c = since" "sc_lastSentSeq c = since" "sc_forgotten c = []"
    and "sc_queuedBytes c = int (sum_list (map item_bytes (sc_queue c)))"
    and "sc_sent c = map (\<lambda>f. W_control f (controlItem (frame_json f))) gone" "sc_queue c = map control_item left"
    and "fs = gone @ left"
  shows "greeted since fs c"
  using assms unfolding greeted_def by blast

lemma greeted_flush: "greeted since fs c \<Longrightarrow> greeted since fs (sc_flush env c)"
proof -
  assume g: "greeted since fs c"
  then obtain gone left where fs: "fs = gone @ left" "sc_queue c = map control_item left"
    "sc_sent c = map (\<lambda>f. W_control f (controlItem (frame_json f))) gone" by (auto simp: greeted_def)
  show ?thesis
  proof (cases left)
    case Nil
    with fs g show ?thesis by (auto simp: sc_flush_def split: option.split)
  next
    case (Cons f rest)
    then have step: "sc_flush env c = c \<or> sc_flush env c = c\<lparr>sc_queue := map control_item rest,
        sc_queuedBytes := sc_queuedBytes c - int (item_bytes (control_item f)), sc_sending := True,
        sc_sent := sc_sent c @ [W_control f (controlItem (frame_json f))]\<rparr>"
      using fs by (auto simp: sc_flush_def control_item_def Let_def split: option.splits)
    have "greeted since fs (c\<lparr>sc_queue := map control_item rest,
        sc_queuedBytes := sc_queuedBytes c - int (item_bytes (control_item f)), sc_sending := True,
        sc_sent := sc_sent c @ [W_control f (controlItem (frame_json f))]\<rparr>)"
      using g fs Cons by (intro greetedI [where gone = "gone @ [f]" and left = rest]) (simp_all add: greeted_def)
    with step g show ?thesis by auto
  qed
qed

lemma greeted_control:
  assumes "greeted since fs c" and "length fs < MAX_QUEUE_EVENTS"
    and "sum_list (map (item_bytes \<circ> control_item) (fs @ [f])) \<le> MAX_QUEUE_BYTES"
  shows "greeted since (fs @ [f]) (sc_control env f c)"
proof -
  let ?c = "sc_push (control_item f) c"
  from assms(1) obtain gone left where fs: "fs = gone @ left" "sc_queue c = map control_item left"
    "sc_sent c = map (\<lambda>f. W_control f (controlItem (frame_json f))) gone" by (auto simp: greeted_def)
  then have "greeted since (fs @ [f]) ?c"
    using assms(1) by (intro greetedI [where gone = gone and left = "left @ [f]"]) (simp_all add: greeted_def sc_push_def)
  moreover have "length (sc_queue ?c) \<le> MAX_QUEUE_EVENTS" using fs assms(2) by (simp add: sc_push_def)
  moreover have "sc_queuedBytes ?c \<le> int MAX_QUEUE_BYTES"
    using fs assms(1,3) by (simp add: sc_push_def greeted_def comp_def)
  ultimately show ?thesis
    using assms(1) greeted_flush [of since "fs @ [f]" ?c env]
    by (simp add: sc_control_def sc_enqueue_def Let_def greeted_def)
qed

lemma greeted_all:
  "greeted since fs c \<Longrightarrow> length (fs @ gs) \<le> MAX_QUEUE_EVENTS \<Longrightarrow>
    sum_list (map (item_bytes \<circ> control_item) (fs @ gs)) \<le> MAX_QUEUE_BYTES \<Longrightarrow>
    greeted since (fs @ gs) (fold (sc_control env) gs c)"
proof (induction gs arbitrary: fs c)
  case (Cons g gs)
  have "greeted since (fs @ [g]) (sc_control env g c)" using Cons.prems by (intro greeted_control) (auto simp: comp_def)
  from Cons.IH [OF this] Cons.prems show ?case by simp
qed simp

lemma greet_inv:
  assumes "oldestAvailable (env_stats env) \<le> start_from (env_stats env) sinceParam + 1"
    and "sum_list (map (item_bytes \<circ> control_item) (greeting env inst sinceParam)) \<le> MAX_QUEUE_BYTES"
  shows "stream_inv (asked_from (env_stats env) sinceParam) (sc_greet env inst sinceParam new_stream)"
    and "\<not> sc_closed (sc_greet env inst sinceParam new_stream)"
    and "sc_cursor (sc_greet env inst sinceParam new_stream) = start_from (env_stats env) sinceParam"
proof -
  let ?s = "start_from (env_stats env) sinceParam" and ?a = "asked_from (env_stats env) sinceParam"
  let ?g = "greeting env inst sinceParam" and ?c = "sc_greet env inst sinceParam new_stream"
  have "length ?g \<le> 3" by (simp add: greeting_def lag_frames_def Let_def)
  then have "length ?g \<le> MAX_QUEUE_EVENTS" by (simp add: MAX_QUEUE_EVENTS_def)
  then have g: "greeted ?s ?g ?c"
    unfolding sc_greet_def using assms(2)
    by (intro greeted_all [where fs = "[]", simplified]) (simp_all add: greeted_def new_stream_def)
  then show "\<not> sc_closed ?c" "sc_cursor ?c = ?s" by (simp_all add: greeted_def)
  from g obtain gone left where fs: "?g = gone @ left" "sc_queue ?c = map control_item left"
    "sc_sent ?c = map (\<lambda>f. W_control f (controlItem (frame_json f))) gone" by (auto simp: greeted_def)
  have "sent_told ?c @ lag_told (sc_queue ?c) = concat (map frame_told ?g)"
    using fs by (simp add: sent_told_def comp_def)
  with greeting_told [OF assms(1)] have "sent_told ?c @ lag_told (sc_queue ?c) = [?a + 1..<?s + 1]" by metis
  moreover have "?a \<le> ?s" by (simp add: start_from_def Let_def)
  ultimately show "stream_inv ?a ?c"
    using g fs(2) by (simp add: stream_inv_def greeted_def sorted_wrt_upt [unfolded strict_sorted_iff] del: upt_Suc flip: append_assoc)
qed

subsection \<open>The client's end\<close>

text \<open>
  The reducer's cursor, what it handed to its sink, and whether it found a hole and gave the
  socket up. Frames arrive as the values their text is of; the rotation of sockets before a
  token expires is left out.
\<close>

datatype shown = Shown_events "stored_event list" | Shown_gap nat nat lag_reason

record stream_client =
  rd_cursor :: nat
  rd_shown :: "shown list"
  rd_hole :: bool
  rd_instance :: "ustring option"
  rd_session :: "json option"
  rd_live :: bool

fun apply_events :: "stored_event list \<Rightarrow> nat \<Rightarrow> stored_event list \<Rightarrow> stored_event list \<times> nat \<times> bool" where
  "apply_events [] n fresh = (fresh, n, False)"
| "apply_events (e # es) n fresh =
     (if sv_seq e \<le> n then apply_events es n fresh
      else if sv_seq e \<noteq> n + 1 then (fresh, n, True)
      else apply_events es (sv_seq e) (fresh @ [e]))"

fun apply_frame :: "wire \<Rightarrow> stream_client \<Rightarrow> stream_client" where
  "apply_frame (W_events es payload) k =
     (case apply_events es (rd_cursor k) [] of
        (fresh, n, hole) \<Rightarrow>
          k\<lparr>rd_cursor := n, rd_shown := rd_shown k @ (if fresh = [] then [] else [Shown_events fresh]), rd_hole := hole\<rparr>)"
| "apply_frame (W_control (Hello inst session first latest since gap) payload) k =
     k\<lparr>rd_instance := Some inst, rd_cursor := max (rd_cursor k) since, rd_session := Some session, rd_live := True\<rparr>"
| "apply_frame (W_control (Lagged a b r) payload) k =
     k\<lparr>rd_shown := rd_shown k @ [Shown_gap a b r], rd_cursor := max (rd_cursor k) b\<rparr>"
| "apply_frame (W_control (Snapshot_frame session) payload) k = k\<lparr>rd_session := Some session\<rparr>"
| "apply_frame (W_control (Caught_up n) payload) k = k\<lparr>rd_live := True\<rparr>"

text \<open>A socket given up is torn down: the frames after the hole are ignored.\<close>

definition client_reads :: "wire list \<Rightarrow> nat \<Rightarrow> stream_client" where
  "client_reads ws n =
     fold (\<lambda>w k. if rd_hole k then k else apply_frame w k) ws \<lparr>rd_cursor = n, rd_shown = [], rd_hole = False,
       rd_instance = None, rd_session = None, rd_live = False\<rparr>"

fun shown_numbers :: "shown \<Rightarrow> nat list" where
  "shown_numbers (Shown_events es) = map sv_seq es"
| "shown_numbers (Shown_gap a b r) = [a..<b + 1]"

definition client_saw :: "stream_client \<Rightarrow> nat list" where
  "client_saw k = concat (map shown_numbers (rd_shown k))"

fun frame_ok :: "nat \<Rightarrow> control_frame \<Rightarrow> bool" where
  "frame_ok since (Hello inst session first latest s gap) \<longleftrightarrow> s = since"
| "frame_ok since (Lagged a b r) \<longleftrightarrow> a \<le> b"
| "frame_ok since _ \<longleftrightarrow> True"

fun wire_ok :: "nat \<Rightarrow> wire \<Rightarrow> bool" where
  "wire_ok since (W_events es payload) \<longleftrightarrow> (\<forall>e\<in>set es. since < sv_seq e)"
| "wire_ok since (W_control f payload) \<longleftrightarrow> frame_ok since f"

fun item_ok :: "nat \<Rightarrow> queue_item \<Rightarrow> bool" where
  "item_ok since (Q_event e n) \<longleftrightarrow> since < sv_seq e"
| "item_ok since (Q_control f payload n) \<longleftrightarrow> frame_ok since f"

definition frames_ok :: "nat \<Rightarrow> stream_conn \<Rightarrow> bool" where
  "frames_ok since c \<longleftrightarrow> since \<le> sc_cursor c \<and> (\<forall>w\<in>set (sc_sent c). wire_ok since w) \<and> (\<forall>x\<in>set (sc_queue c). item_ok since x)"

lemma frames_ok_fields [simp]:
  "frames_ok since (c\<lparr>sc_sending := a\<rparr>) = frames_ok since c" "frames_ok since (c\<lparr>sc_alive := a\<rparr>) = frames_ok since c"
  "frames_ok since (c\<lparr>sc_terminated := a\<rparr>) = frames_ok since c" "frames_ok since (c\<lparr>sc_heartbeat := a\<rparr>) = frames_ok since c"
  "frames_ok since (c\<lparr>sc_listening := a, sc_watching := b\<rparr>) = frames_ok since c"
  by (simp_all add: frames_ok_def)

lemma frames_dispose: "frames_ok since c \<Longrightarrow> frames_ok since (sc_dispose c)"
  by (simp add: frames_ok_def sc_dispose_def)

lemma frames_close: "frames_ok since c \<Longrightarrow> frames_ok since (sc_close code reason c)"
  by (simp add: frames_ok_def sc_dispose_def sc_close_def)

lemma frames_flush:
  assumes "frames_ok since c"
  shows "frames_ok since (sc_flush env c)"
proof -
  have batch: "frames_ok since (c\<lparr>sc_queue := queue, sc_queuedBytes := weight, sc_lastSentSeq := l,
      sc_sending := True, sc_sent := sc_sent c @ [W_events taken payload]\<rparr>)"
    if "take_batch enc [] [] b w (sc_queue c) = (taken, texts, weight, queue)" for enc b w taken texts weight queue l payload
  proof -
    from take_batch_takes [OF that] obtain ps where "sc_queue c = map (\<lambda>(e, n). Q_event e n) ps @ queue" "taken = map fst ps"
      by auto
    with assms show ?thesis by (auto simp: frames_ok_def ball_Un)
  qed
  show ?thesis
  proof (cases "sc_queue c")
    case Nil
    with assms show ?thesis by (auto simp: sc_flush_def split: option.split)
  next
    case (Cons x rest)
    show ?thesis
    proof (cases x)
      case (Q_event e n)
      obtain taken texts weight queue where t: "take_batch (env_encode env) [] []
          (length EVENTS_FRAME_OPEN + length EVENTS_FRAME_CLOSE) (sc_queuedBytes c) (sc_queue c) = (taken, texts, weight, queue)"
        by (metis surj_pair)
      with Cons Q_event assms batch [OF t] show ?thesis
        by (simp add: sc_flush_def split: option.split)
    next
      case (Q_control f payload n)
      with Cons assms show ?thesis
        by (auto simp: sc_flush_def frames_ok_def split: option.split)
    qed
  qed
qed

lemma frames_push: "frames_ok since c \<Longrightarrow> item_ok since x \<Longrightarrow> frames_ok since (sc_push x c)"
  by (simp add: frames_ok_def sc_push_def)

lemma item_ok_control [simp]: "item_ok since (control_item f) = frame_ok since f"
  by (simp add: control_item_def Let_def)

lemma frames_collapse:
  assumes "frames_ok since c" and "since \<le> es_lastSeq (env_stats env)"
  shows "frames_ok since (sc_collapse env reason c)"
proof -
  have moved: "frames_ok since (d\<lparr>sc_cursor := es_lastSeq (env_stats env), sc_lastSentSeq := m\<rparr>)"
    if "frames_ok since d" for d m
    using that assms(2) by (simp add: frames_ok_def)
  have cleared: "frames_ok since (c\<lparr>sc_queue := [], sc_queuedBytes := 0, sc_forgotten := y\<rparr>)" for y
    using assms(1) by (simp add: frames_ok_def)
  have counted: "frames_ok since (d\<lparr>sc_collapses := r\<rparr>) = frames_ok since d" for d r by (simp add: frames_ok_def)
  show ?thesis
    unfolding sc_collapse_def Let_def
    by (auto simp: counted intro!: frames_close frames_push moved cleared)
qed

lemma frames_enqueue:
  "frames_ok since c \<Longrightarrow> item_ok since x \<Longrightarrow> since \<le> es_lastSeq (env_stats env) \<Longrightarrow> frames_ok since (sc_enqueue env r x c)"
  by (simp add: sc_enqueue_def Let_def frames_push frames_collapse frames_flush)

lemma frames_control:
  "frames_ok since c \<Longrightarrow> frame_ok since f \<Longrightarrow> since \<le> es_lastSeq (env_stats env) \<Longrightarrow> frames_ok since (sc_control env f c)"
  by (simp add: sc_control_def frames_enqueue)

lemma frames_emit:
  "frames_ok since c \<Longrightarrow> since \<le> es_lastSeq (env_stats env) \<Longrightarrow> frames_ok since (sc_emit env r e c)"
  by (auto simp: sc_emit_def intro!: frames_enqueue) (auto simp: frames_ok_def)

lemma frames_emit_all:
  "frames_ok since c \<Longrightarrow> since \<le> es_lastSeq (env_stats env) \<Longrightarrow> frames_ok since (fold (sc_emit env r) es c)"
  by (induction es arbitrary: c) (auto intro: frames_emit)

lemma frames_control_all:
  "frames_ok since c \<Longrightarrow> \<forall>f\<in>set fs. frame_ok since f \<Longrightarrow> since \<le> es_lastSeq (env_stats env)
    \<Longrightarrow> frames_ok since (fold (sc_control env) fs c)"
  by (induction fs arbitrary: c) (auto intro: frames_control)

lemma start_le: "start_from stats sinceParam \<le> es_lastSeq stats"
  by (auto simp: start_from_def asked_from_def Let_def split: option.split)

lemma greet_frames: "frames_ok (start_from (env_stats env) sinceParam) (sc_greet env inst sinceParam new_stream)"
  unfolding sc_greet_def
  by (rule frames_control_all)
    (auto simp: frames_ok_def new_stream_def start_le greeting_def lag_frames_def Let_def)

text \<open>What has gone out is in order, and unbroken as long as nothing was forgotten.\<close>

definition sent_prefix :: "nat \<Rightarrow> stream_conn \<Rightarrow> bool" where
  "sent_prefix asked c \<longleftrightarrow> sorted_wrt (<) (sent_told c)
     \<and> (sc_forgotten c = [] \<longrightarrow> (\<exists>m. sent_told c = [asked + 1..<m]))"

lemma sorted_run:
  assumes "sorted_wrt (<) xs" and "mset xs = mset [a..<b]"
  shows "xs = [a..<(b :: nat)]"
proof -
  have "sorted xs" using assms(1) by (rule sorted_wrt_mono_rel [rotated]) auto
  then show ?thesis using assms(2) by (metis properties_for_sort sort_upt)
qed

lemma inv_told:
  assumes "stream_inv asked c"
  shows "sorted_wrt (<) (told c)" and "mset (told c @ sc_forgotten c) = mset [asked + 1..<sc_cursor c + 1]"
    and "sent_prefix asked c"
proof -
  let ?s = "sent_told c @ lag_told (sc_queue c)"
  have inv: "told c = ?s @ [sc_lastSentSeq c + 1..<sc_cursor c + 1]" "sorted_wrt (<) ?s"
    "mset (?s @ sc_forgotten c) = mset [asked + 1..<sc_lastSentSeq c + 1]"
    "asked \<le> sc_lastSentSeq c" "sc_lastSentSeq c \<le> sc_cursor c"
    using assms by (simp_all add: stream_inv_def told_def del: upt_Suc)
  have "\<forall>m\<in>set ?s. m < sc_lastSentSeq c + 1"
  proof
    fix m assume "m \<in> set ?s"
    then have "m \<in># mset (?s @ sc_forgotten c)" by auto
    then show "m < sc_lastSentSeq c + 1" unfolding inv(3) by (simp del: upt_Suc)
  qed
  then have "\<forall>x\<in>set ?s. \<forall>y\<in>set [sc_lastSentSeq c + 1..<sc_cursor c + 1]. x < y"
    by (metis atLeastLessThan_iff less_le_trans set_upt)
  then show "sorted_wrt (<) (told c)"
    unfolding inv(1) sorted_wrt_append [of _ ?s] using inv(2) by (simp del: upt_Suc)
  have "[asked + 1..<sc_cursor c + 1] = [asked + 1..<sc_lastSentSeq c + 1] @ [sc_lastSentSeq c + 1..<sc_cursor c + 1]"
    using inv(4,5) by (intro upt_join) simp_all
  then show "mset (told c @ sc_forgotten c) = mset [asked + 1..<sc_cursor c + 1]"
    using inv(1,3) by (simp add: ac_simps del: upt_Suc)
  show "sent_prefix asked c"
  proof -
    have "\<exists>m. sent_told c = [asked + 1..<m]" if "sc_forgotten c = []"
    proof -
      have "?s = [asked + 1..<sc_lastSentSeq c + 1]" using inv(2,3) that by (intro sorted_run) simp_all
      from upt_split [OF this [symmetric]] inv(4) show ?thesis by (auto simp del: upt_Suc)
    qed
    with inv(2) show ?thesis by (simp add: sent_prefix_def sorted_wrt_append)
  qed
qed

lemma enqueue_sent:
  "sc_closed (sc_enqueue env r x c) \<Longrightarrow> \<not> sc_closed c \<Longrightarrow>
    sc_sent (sc_enqueue env r x c) = sc_sent c \<and> (\<exists>l. sc_forgotten (sc_enqueue env r x c) = sc_forgotten c @ l)"
  by (auto simp: sc_enqueue_def Let_def flush_fields sc_push_def sc_collapse_def sc_close_def sc_dispose_def
      split: if_splits)

lemma sent_prefix_closing:
  "sent_prefix asked c \<Longrightarrow> sc_closed (sc_control env f c) \<Longrightarrow> sent_prefix asked (sc_control env f c)"
  "sent_prefix asked c \<Longrightarrow> sc_closed (sc_emit env r e c) \<Longrightarrow> sent_prefix asked (sc_emit env r e c)"
proof -
  have step: "sent_prefix asked c \<Longrightarrow> sc_sent d = sc_sent c \<Longrightarrow> sc_forgotten d = sc_forgotten c @ l \<Longrightarrow> sent_prefix asked d"
    for c d l by (simp add: sent_prefix_def sent_told_def)
  show "sent_prefix asked c \<Longrightarrow> sc_closed (sc_control env f c) \<Longrightarrow> sent_prefix asked (sc_control env f c)"
    using enqueue_sent [of env False "control_item f" c] step by (cases "sc_closed c") (auto simp: sc_control_def)
  show "sent_prefix asked c \<Longrightarrow> sc_closed (sc_emit env r e c) \<Longrightarrow> sent_prefix asked (sc_emit env r e c)"
    using enqueue_sent [of env r "Q_event e (estimateBytes (sv_event e) + 64)" "c\<lparr>sc_cursor := sv_seq e\<rparr>"]
      step [of "c\<lparr>sc_cursor := sv_seq e\<rparr>"]
    by (auto simp: sc_emit_def sent_prefix_def sent_told_def)
qed

subsection \<open>The replay\<close>

lemma emit_replay_open: "\<not> sc_closed c \<Longrightarrow> \<not> sc_closed (sc_emit env True e c)"
  by (simp add: sc_emit_def sc_enqueue_def sc_collapse_def sc_push_def Let_def flush_fields)

lemma collapse_cursor: "sc_cursor (sc_collapse env reason c) = es_lastSeq (env_stats env)"
  by (simp add: sc_collapse_def sc_push_def sc_close_def sc_dispose_def Let_def)

lemma emit_cursor:
  "\<not> sc_closed c \<Longrightarrow> sc_cursor (sc_emit env r e c) = max (sv_seq e) (sc_cursor c)
    \<or> sc_cursor (sc_emit env r e c) = es_lastSeq (env_stats env)"
  by (auto simp: sc_emit_def sc_enqueue_def Let_def flush_fields collapse_cursor sc_push_def)

text \<open>A page of consecutive events, of which some may be behind a collapse by the time they come.\<close>

lemma replay_page:
  assumes "\<not> sc_closed c" and "stream_inv asked c" and "map sv_seq es = [n + 1..<n + 1 + length es]"
    and "n \<le> sc_cursor c" and "sc_cursor c \<le> es_lastSeq (env_stats env)" and "n + length es \<le> es_lastSeq (env_stats env)"
  shows "\<not> sc_closed (fold (sc_emit env True) es c) \<and> stream_inv asked (fold (sc_emit env True) es c)
    \<and> n + length es \<le> sc_cursor (fold (sc_emit env True) es c)
    \<and> sc_cursor c \<le> sc_cursor (fold (sc_emit env True) es c)
    \<and> sc_cursor (fold (sc_emit env True) es c) \<le> es_lastSeq (env_stats env)"
  using assms
proof (induction es arbitrary: n c)
  case (Cons e es)
  let ?d = "sc_emit env True e c"
  have e: "sv_seq e = n + 1" "map sv_seq es = [n + 1 + 1..<n + 1 + 1 + length es]"
    using Cons.prems(3) by (simp_all add: upt_conv_Cons del: upt_Suc)
  have o: "\<not> sc_closed ?d" using Cons.prems(1) by (rule emit_replay_open)
  have "stream_inv asked ?d"
    using emit_inv [of asked c e env True] Cons.prems e o by auto
  moreover have cur: "sc_cursor ?d = max (n + 1) (sc_cursor c) \<or> sc_cursor ?d = es_lastSeq (env_stats env)"
    using emit_cursor [OF Cons.prems(1), of env True e] e by auto
  then have le: "n + 1 \<le> sc_cursor ?d" "sc_cursor ?d \<le> es_lastSeq (env_stats env)" "sc_cursor c \<le> sc_cursor ?d"
    using Cons.prems(4,5,6) by auto
  ultimately have "\<not> sc_closed (fold (sc_emit env True) es ?d) \<and> stream_inv asked (fold (sc_emit env True) es ?d)
    \<and> n + 1 + length es \<le> sc_cursor (fold (sc_emit env True) es ?d)
    \<and> sc_cursor ?d \<le> sc_cursor (fold (sc_emit env True) es ?d)
    \<and> sc_cursor (fold (sc_emit env True) es ?d) \<le> es_lastSeq (env_stats env)"
    using Cons.prems(6) by (intro Cons.IH [OF o _ e(2)]) auto
  then show ?case using le(3) by (auto simp: add.assoc)
qed simp

text \<open>
  The connection among the other callbacks: the agent appends to the log, the registry
  touches the snapshot, the socket answers a send or a ping, the timer ticks, the peer goes.
\<close>

datatype stream_op =
    On_append int session_event stream_env
  | On_snapshot stream_env
  | On_sent bool stream_env
  | On_pong
  | On_tick rat "rat option" bool
  | On_gone

fun stream_step ::
  "(int \<Rightarrow> session_event \<Rightarrow> 'st \<Rightarrow> stored_event \<times> 'st) \<Rightarrow> ('st \<Rightarrow> event_store_stats)
    \<Rightarrow> stream_op \<Rightarrow> 'st \<times> stream_conn \<Rightarrow> 'st \<times> stream_conn" where
  "stream_step store_append totals (On_append t e env) (st, c) =
     (let (x, st') = store_append t e st
      in (st', if sc_listening c then sc_emit (env\<lparr>env_stats := totals st'\<rparr>) False x c else c))"
| "stream_step store_append totals (On_snapshot env) (st, c) =
     (st, if sc_watching c then sc_control (env\<lparr>env_stats := totals st\<rparr>) (Snapshot_frame (env_snapshot env)) c else c)"
| "stream_step store_append totals (On_sent failed env) (st, c) =
     (st, if sc_sending c then sc_on_sent (env\<lparr>env_stats := totals st\<rparr>) failed c else c)"
| "stream_step store_append totals On_pong (st, c) = (st, sc_pong c)"
| "stream_step store_append totals (On_tick now expiresAt ping_ok) (st, c) = (st, sc_heartbeat_tick now expiresAt ping_ok c)"
| "stream_step store_append totals On_gone (st, c) = (st, sc_dispose c)"

text \<open>
  An attached connection: what went out is in order, and as long as it is open it has told or
  queued everything the log has.
\<close>

definition caught_up :: "nat \<Rightarrow> nat \<Rightarrow> nat \<Rightarrow> stream_conn \<Rightarrow> bool" where
  "caught_up asked since latest c \<longleftrightarrow> frames_ok since c \<and> since \<le> latest \<and> sent_prefix asked c
     \<and> (sc_closed c \<or> sc_listening c \<and> stream_inv asked c \<and> sc_cursor c = latest)"

lemma caught_upI:
  "frames_ok since c \<Longrightarrow> since \<le> latest \<Longrightarrow> (sc_closed c \<Longrightarrow> sent_prefix asked c)
    \<Longrightarrow> (\<not> sc_closed c \<Longrightarrow> sc_listening c \<and> stream_inv asked c \<and> sc_cursor c = latest)
    \<Longrightarrow> caught_up asked since latest c"
  using inv_told(3) by (auto simp: caught_up_def)

lemma caught_up_fields [simp]:
  "caught_up asked since latest (c\<lparr>sc_sending := a\<rparr>) = caught_up asked since latest c"
  "caught_up asked since latest (c\<lparr>sc_alive := a\<rparr>) = caught_up asked since latest c"
  "caught_up asked since latest (c\<lparr>sc_terminated := a\<rparr>) = caught_up asked since latest c"
  "caught_up asked since latest (c\<lparr>sc_heartbeat := a\<rparr>) = caught_up asked since latest c"
  by (simp_all add: caught_up_def stream_inv_def sent_prefix_def sent_told_def)

lemma caught_up_dispose: "caught_up asked since latest c \<Longrightarrow> caught_up asked since latest (sc_dispose c)"
  using frames_dispose [of since c] by (auto simp: caught_up_def sc_dispose_def sent_prefix_def sent_told_def)

lemma caught_up_close: "caught_up asked since latest c \<Longrightarrow> caught_up asked since latest (sc_close code reason c)"
  using frames_close [of since c code reason]
  by (auto simp: caught_up_def sc_close_def sc_dispose_def sent_prefix_def sent_told_def)

lemma caught_up_flush: "caught_up asked since latest c \<Longrightarrow> caught_up asked since latest (sc_flush env c)"
proof (cases "sc_closed c")
  case True
  assume "caught_up asked since latest c"
  with True show ?thesis by (simp add: sc_flush_def)
next
  case False
  assume "caught_up asked since latest c"
  with False show ?thesis
    by (intro caught_upI) (auto simp: caught_up_def flush_fields frames_flush flush_inv)
qed

lemma listening_fields [simp]:
  "sc_listening (sc_control env f c) = (sc_listening c \<and> (sc_closed c \<or> \<not> sc_closed (sc_control env f c)))"
  "sc_listening (sc_emit env r e c) = (sc_listening c \<and> (sc_closed c \<or> \<not> sc_closed (sc_emit env r e c)))"
  by (auto simp: sc_control_def sc_emit_def sc_enqueue_def sc_collapse_def sc_push_def Let_def
      flush_fields sc_close_def sc_dispose_def)

lemma control_closed: "sc_closed c \<Longrightarrow> sc_control env f c = c"
  by (simp add: sc_control_def)

lemma caught_up_control:
  assumes "caught_up asked since latest c" and "es_lastSeq (env_stats env) = latest"
    and "frame_ok since f" and "frame_told f = []"
  shows "caught_up asked since latest (sc_control env f c)"
proof (cases "sc_closed c")
  case True
  with assms(1) show ?thesis by (simp add: control_closed)
next
  case False
  with assms have c: "stream_inv asked c" "sc_cursor c = latest" "frames_ok since c" "since \<le> latest"
    "sent_prefix asked c" "sc_listening c" by (simp_all add: caught_up_def)
  from control_inv [OF c(1), of env f] c assms(2-4) False sent_prefix_closing(1) [OF c(5)] frames_control [OF c(3), of f env]
  show ?thesis by (intro caught_upI) auto
qed

context event_store
begin

lemma page_after:
  assumes "sound s" and "0 < limit" and "es_lastSeq (stats s i) \<le> n + length (held s i)" and "n \<le> es_lastSeq (stats s i)"
  shows "map sv_seq (read s i (int n) limit maxBytes) = [n + 1..<n + 1 + length (read s i (int n) limit maxBytes)]
    \<and> n + length (read s i (int n) limit maxBytes) \<le> es_lastSeq (stats s i)
    \<and> (read s i (int n) limit maxBytes = [] \<longrightarrow> n = es_lastSeq (stats s i))"
proof -
  let ?xs = "held s i" and ?last = "es_lastSeq (stats s i)"
  have held: "length ?xs \<le> ?last" "map sv_seq ?xs = [Suc ?last - length ?xs..<Suc ?last]"
    using held_seqs [OF assms(1)] by auto
  obtain k where k: "read s i (int n) limit maxBytes = take k (filter (\<lambda>e. int n < int (sv_seq e)) ?xs)" "0 < k"
    using read_page_of [OF assms(1), of i "int n" limit maxBytes] assms(2) by auto
  have "nat (int n + int (length ?xs) - int ?last) = n + length ?xs - ?last" using assms(3) by linarith
  then have page: "read s i (int n) limit maxBytes = take k (drop (n + length ?xs - ?last) ?xs)"
    using k(1) unseen_drop [OF assms(1), of "int n" i] by simp
  have "map sv_seq (drop (n + length ?xs - ?last) ?xs) = [n + 1..<Suc ?last]"
    using held assms(3,4) by (simp add: drop_map [symmetric] Suc_diff_le del: upt_Suc)
  then have "map sv_seq (read s i (int n) limit maxBytes) = take k [n + 1..<Suc ?last]"
    using page by (simp add: take_map [symmetric] del: upt_Suc)
  moreover from this have len: "length (read s i (int n) limit maxBytes) = min k (?last - n)"
    by (metis length_map length_take length_upt diff_Suc_Suc add.commute min.commute plus_1_eq_Suc)
  ultimately show ?thesis using k(2) assms(4) len by (auto simp: min_def simp del: upt_Suc)
qed

lemma drain_catches_up:
  assumes "sound s" and "env_stats env = stats s i" and "es_lastSeq (stats s i) \<le> sc_cursor c + length (held s i)"
    and "\<not> sc_closed c" and "stream_inv asked c" and "sc_cursor c \<le> es_lastSeq (stats s i)"
    and "frames_ok since c" and "since \<le> es_lastSeq (stats s i)"
  shows "\<exists>d. sc_drain env (\<lambda>n. read s i n (enat BATCH_MAX_EVENTS) (enat BATCH_MAX_BYTES)) c = Some d
    \<and> \<not> sc_closed d \<and> stream_inv asked d \<and> sc_cursor d = es_lastSeq (stats s i) \<and> frames_ok since d"
  using assms
proof (induction "es_lastSeq (stats s i) - sc_cursor c" arbitrary: c rule: less_induct)
  case less
  let ?read = "\<lambda>n. read s i n (enat BATCH_MAX_EVENTS) (enat BATCH_MAX_BYTES)"
  let ?page = "?read (int (sc_cursor c))"
  have pos: "0 < enat BATCH_MAX_EVENTS" by (simp add: BATCH_MAX_EVENTS_def zero_enat_def)
  note pg = page_after [OF less.prems(1) pos less.prems(3,6), of "enat BATCH_MAX_BYTES"]
  show ?case
  proof (cases "?page = []")
    case True
    with pg less.prems show ?thesis by (simp add: sc_drain.simps)
  next
    case False
    let ?d = "fold (sc_emit env True) ?page c"
    have d: "\<not> sc_closed ?d" "stream_inv asked ?d" "sc_cursor c + length ?page \<le> sc_cursor ?d"
      "sc_cursor ?d \<le> es_lastSeq (stats s i)"
      using replay_page [OF less.prems(4,5) conjunct1 [OF pg] order.refl, of env, unfolded less.prems(2),
          OF less.prems(6) conjunct1 [OF conjunct2 [OF pg]]]
      by simp_all
    with False have "sc_cursor c < sc_cursor ?d" by (cases ?page) auto
    with d less.prems have "\<exists>e. sc_drain env ?read ?d = Some e
        \<and> \<not> sc_closed e \<and> stream_inv asked e \<and> sc_cursor e = es_lastSeq (stats s i) \<and> frames_ok since e"
      using frames_emit_all [of since c env True ?page] by (intro less.hyps) auto
    with False show ?thesis by (simp add: sc_drain.simps [of _ _ c])
  qed
qed

lemma step_caught_up:
  assumes "sound s" and "caught_up asked since (es_lastSeq (stats s i)) c"
    and "stream_step (append i) (\<lambda>st. stats st i) op (s, c) = (s', c')"
  shows "sound s' \<and> caught_up asked since (es_lastSeq (stats s' i)) c'"
proof (cases op)
  case (On_append t e env)
  obtain x st where a: "append i t e s = (x, st)" by fastforce
  let ?env = "env\<lparr>env_stats := stats st i\<rparr>"
  from a assms(3) On_append have s': "s' = st"
    "c' = (if sc_listening c then sc_emit ?env False x c else c)" by auto
  note seq = append_seq [OF assms(1) a]
  have "caught_up asked since (es_lastSeq (stats st i)) c'"
  proof (cases "sc_closed c")
    case True
    with s' assms(2) seq show ?thesis by (auto simp: caught_up_def sc_emit_def)
  next
    case False
    with assms(2) have c: "sc_listening c" "stream_inv asked c" "sc_cursor c = es_lastSeq (stats s i)"
      "frames_ok since c" "since \<le> es_lastSeq (stats s i)" "sent_prefix asked c"
      by (simp_all add: caught_up_def)
    from emit_inv [OF c(2), of x ?env False] c seq s' sent_prefix_closing(2) [OF c(6)] frames_emit [OF c(4), of ?env False x]
    show ?thesis by (intro caught_upI) auto
  qed
  with append_sound [OF assms(1) a] s' show ?thesis by simp
next
  case (On_snapshot env)
  with assms show ?thesis by (auto intro!: caught_up_control)
next
  case (On_sent failed env)
  with assms show ?thesis by (auto simp: sc_on_sent_def Let_def intro: caught_up_close caught_up_flush split: if_splits)
next
  case On_pong
  with assms show ?thesis by (auto simp: sc_pong_def)
next
  case (On_tick now expiresAt ping_ok)
  have "caught_up asked since (es_lastSeq (stats s i)) (c\<lparr>sc_alive := False, sc_terminated := True\<rparr>)"
    using assms(2) by (simp add: caught_up_def stream_inv_def sent_prefix_def sent_told_def frames_ok_def)
  with On_tick assms show ?thesis by (auto simp: sc_heartbeat_tick_def intro: caught_up_close)
next
  case On_gone
  with assms show ?thesis by (auto intro: caught_up_dispose)
qed

lemma steps_caught_up:
  "sound s \<Longrightarrow> caught_up asked since (es_lastSeq (stats s i)) c \<Longrightarrow>
    fold (stream_step (append i) (\<lambda>st. stats st i)) ops (s, c) = (s', c') \<Longrightarrow>
    sound s' \<and> caught_up asked since (es_lastSeq (stats s' i)) c'"
proof (induction ops arbitrary: s c)
  case (Cons op ops)
  obtain t d where "stream_step (append i) (\<lambda>st. stats st i) op (s, c) = (t, d)" by fastforce
  with Cons.IH [of t d] Cons.prems step_caught_up [OF Cons.prems(1,2) this] show ?case by simp
qed simp

lemma attach_then_run:
  assumes "sound s" and "env_stats env = stats s i"
    and "oldestAvailable (stats s i) \<le> start_from (stats s i) sinceParam + 1"
    and "sum_list (map (item_bytes \<circ> control_item) (greeting env inst sinceParam)) \<le> MAX_QUEUE_BYTES"
  obtains c where "sc_attach env inst (\<lambda>n. read s i n (enat BATCH_MAX_EVENTS) (enat BATCH_MAX_BYTES)) sinceParam new_stream = Some c"
    and "caught_up (asked_from (stats s i) sinceParam) (start_from (stats s i) sinceParam) (es_lastSeq (stats s i)) c"
proof -
  let ?read = "\<lambda>n. read s i n (enat BATCH_MAX_EVENTS) (enat BATCH_MAX_BYTES)"
  let ?g = "sc_greet env inst sinceParam new_stream" and ?a = "asked_from (stats s i) sinceParam"
  have g: "stream_inv ?a ?g" "\<not> sc_closed ?g" "sc_cursor ?g = start_from (stats s i) sinceParam"
    using greet_inv [of env sinceParam inst] assms(2-4) by simp_all
  let ?since = "start_from (stats s i) sinceParam"
  have "frames_ok ?since ?g" using greet_frames [of env sinceParam inst] assms(2) by simp
  moreover have "es_lastSeq (stats s i) \<le> start_from (stats s i) sinceParam + length (held s i)"
  proof (cases "held s i = []")
    case True
    with stats_held [OF assms(1), of i] assms(3) show ?thesis by (simp add: oldestAvailable_def)
  next
    case False
    have "sv_seq (hd (held s i)) = Suc (es_lastSeq (stats s i)) - length (held s i)"
      using held_seqs [OF assms(1), of i] False
      by (metis Suc_diff_le diff_less hd_map hd_upt length_greater_0_conv less_Suc_eq_le zero_less_Suc)
    with False stats_held [OF assms(1), of i] assms(3) held_seqs [OF assms(1), of i] show ?thesis
      by (simp add: oldestAvailable_def)
  qed
  ultimately obtain d where d: "sc_drain env ?read ?g = Some d" "\<not> sc_closed d" "stream_inv ?a d"
    "sc_cursor d = es_lastSeq (stats s i)" "frames_ok ?since d"
    using drain_catches_up [OF assms(1,2) _ g(2,1), of ?since] g(3) start_le [of "stats s i" sinceParam] by auto
  let ?d = "d\<lparr>sc_listening := True, sc_watching := True\<rparr>"
  let ?e = "sc_control env (Caught_up (sc_cursor ?d)) ?d"
  have "caught_up ?a ?since (es_lastSeq (stats s i)) ?d"
    using d start_le [of "stats s i" sinceParam] by (intro caught_upI) (simp_all add: stream_inv_def sent_told_def)
  then have "caught_up ?a ?since (es_lastSeq (stats s i)) ?e"
    using assms(2) by (intro caught_up_control) simp_all
  then have "caught_up ?a ?since (es_lastSeq (stats s i))
      (sc_flush env (if env_raw env = None then ?e else ?e\<lparr>sc_heartbeat := True\<rparr>))"
    by (intro caught_up_flush) simp
  with d(1) show thesis by (intro that) (simp_all add: sc_attach_def Let_def)
qed

end

subsection \<open>The client follows\<close>

lemma apply_events_run:
  "map sv_seq es = [n + 1..<n + 1 + length es] \<Longrightarrow> apply_events es n fresh = (fresh @ es, n + length es, False)"
proof (induction es arbitrary: n fresh)
  case (Cons e es)
  then have "sv_seq e = n + 1" "map sv_seq es = [n + 1 + 1..<n + 1 + 1 + length es]"
    by (simp_all add: upt_conv_Cons del: upt_Suc)
  with Cons.IH [of "n + 1"] show ?case by simp
qed simp

lemma client_follows:
  assumes "\<forall>w\<in>set ws. wire_ok since w" and "concat (map wire_told ws) = [n + 1..<m]" and "n + 1 \<le> m"
  shows "\<not> rd_hole (client_reads ws n) \<and> client_saw (client_reads ws n) = concat (map wire_told ws)
    \<and> m \<le> rd_cursor (client_reads ws n) + 1 \<and> rd_cursor (client_reads ws n) + 1 \<le> max m (since + 1)"
  using assms
proof (induction ws arbitrary: m rule: rev_induct)
  case Nil
  then have "m = n + 1" by (cases "n + 1 < m") (auto simp: upt_conv_Cons simp del: upt_Suc)
  then show ?case by (simp add: client_reads_def client_saw_def)
next
  case (snoc w ws)
  let ?told = "concat (map wire_told ws)" and ?k = "client_reads ws n"
  have split: "[n + 1..<m] = ?told @ wire_told w" using snoc.prems(2) by simp
  define l where "l = n + 1 + length ?told"
  have told: "?told = [n + 1..<l]" "wire_told w = [l..<m]" "n + 1 \<le> l" "l \<le> m"
    using upt_split [OF split snoc.prems(3)] by (auto simp: l_def simp del: upt_Suc)
  have k: "\<not> rd_hole ?k" "client_saw ?k = ?told" "l \<le> rd_cursor ?k + 1" "rd_cursor ?k + 1 \<le> max l (since + 1)"
    using snoc.IH [OF _ told(1,3)] snoc.prems(1) by auto
  have step: "client_reads (ws @ [w]) n = apply_frame w ?k" using k(1) by (simp add: client_reads_def)
  have ok: "wire_ok since w" using snoc.prems(1) by simp
  have saw: "client_saw (x\<lparr>rd_cursor := a, rd_shown := rd_shown x @ ys, rd_hole := h\<rparr>)
      = client_saw x @ concat (map shown_numbers ys)" for x a ys h
    by (simp add: client_saw_def)
  show ?case
  proof (cases w)
    case (W_events es payload)
    show ?thesis
    proof (cases es)
      case Nil
      with W_events told have "l = m" by (cases "l < m") (auto simp: upt_conv_Cons simp del: upt_Suc)
      with W_events Nil step k told show ?thesis by (simp add: client_saw_def del: upt_Suc)
    next
      case (Cons e rest)
      with W_events told(2) have e: "sv_seq e = l" "l < m"
        by (cases "l < m"; simp add: upt_conv_Cons del: upt_Suc)+
      with W_events ok Cons have "since < l" by auto
      with k have cur: "rd_cursor ?k + 1 = l" by auto
      have len: "m = l + length es"
        using told(2) W_events e(2) by (metis add_diff_inverse_nat length_map length_upt less_imp_le not_less wire_told.simps(1))
      have "map sv_seq es = [rd_cursor ?k + 1..<rd_cursor ?k + 1 + length es]"
        using told(2) W_events cur len by simp
      from apply_events_run [OF this, of "[]"]
      have "client_reads (ws @ [w]) n = ?k\<lparr>rd_cursor := rd_cursor ?k + length es, rd_shown := rd_shown ?k @ [Shown_events es], rd_hole := False\<rparr>"
        using step W_events Cons by simp
      with k told W_events cur len show ?thesis by (simp add: saw)
    qed
  next
    case (W_control f payload)
    show ?thesis
    proof (cases f)
      case (Hello inst session first latest s gap)
      with W_control told have "l = m" by (cases "l < m") (auto simp: upt_conv_Cons simp del: upt_Suc)
      with W_control Hello ok step k told show ?thesis by (auto simp: client_saw_def simp del: upt_Suc)
    next
      case (Lagged a b r)
      with W_control ok told(2) have ab: "[a..<b + 1] = [l..<m]" "a \<le> b" by auto
      from upt_same [OF ab(1)] ab(2) have "a = l" "b + 1 = m" by simp_all
      with W_control Lagged step k told show ?thesis by (auto simp: client_saw_def simp del: upt_Suc)
    next
      case (Snapshot_frame session)
      with W_control told have "l = m" by (cases "l < m") (auto simp: upt_conv_Cons simp del: upt_Suc)
      with W_control Snapshot_frame step k told show ?thesis by (auto simp: client_saw_def simp del: upt_Suc)
    next
      case (Caught_up q)
      with W_control told have "l = m" by (cases "l < m") (auto simp: upt_conv_Cons simp del: upt_Suc)
      with W_control Caught_up step k told show ?thesis by (auto simp: client_saw_def simp del: upt_Suc)
    qed
  qed
qed

subsection \<open>What a connection holds\<close>

definition queue_bounded :: "stream_conn \<Rightarrow> bool" where
  "queue_bounded c \<longleftrightarrow> length (sc_queue c) \<le> MAX_QUEUE_EVENTS
     \<and> sc_queuedBytes c = int (sum_list (map item_bytes (sc_queue c)))
     \<and> (sc_queuedBytes c \<le> int MAX_QUEUE_BYTES \<or> length (sc_queue c) \<le> 2 \<and> ev_told (sc_queue c) = [])"

lemma bounded_fields [simp]:
  "queue_bounded (c\<lparr>sc_sending := a\<rparr>) = queue_bounded c" "queue_bounded (c\<lparr>sc_alive := a\<rparr>) = queue_bounded c"
  "queue_bounded (c\<lparr>sc_terminated := a\<rparr>) = queue_bounded c" "queue_bounded (c\<lparr>sc_heartbeat := a\<rparr>) = queue_bounded c"
  "queue_bounded (c\<lparr>sc_alive := a, sc_terminated := b\<rparr>) = queue_bounded c"
  "queue_bounded (c\<lparr>sc_listening := a, sc_watching := b\<rparr>) = queue_bounded c"
  "queue_bounded (c\<lparr>sc_cursor := n\<rparr>) = queue_bounded c"
  by (simp_all add: queue_bounded_def)

lemma bounded_dispose: "queue_bounded c \<Longrightarrow> queue_bounded (sc_dispose c)"
  by (auto simp: queue_bounded_def sc_dispose_def)

lemma bounded_close: "queue_bounded c \<Longrightarrow> queue_bounded (sc_close code reason c)"
  by (cases "sc_closed c") (auto simp: queue_bounded_def sc_close_def sc_dispose_def)

lemma bounded_flush:
  assumes "queue_bounded c"
  shows "queue_bounded (sc_flush env c)"
proof (cases "sc_queue c")
  case Nil
  then have "sc_flush env c = c" by (auto simp: sc_flush_def split: option.split)
  with assms show ?thesis by simp
next
  case (Cons x rest)
  show ?thesis
  proof (cases x)
    case (Q_event e n)
    obtain taken texts weight queue where t: "take_batch (env_encode env) [] []
        (length EVENTS_FRAME_OPEN + length EVENTS_FRAME_CLOSE) (sc_queuedBytes c) (sc_queue c) = (taken, texts, weight, queue)"
      by (metis surj_pair)
    from take_batch_takes [OF t] obtain ps where "sc_queue c = map (\<lambda>(e, n). Q_event e n) ps @ queue"
      "weight = sc_queuedBytes c - int (sum_list (map snd ps))" by auto
    then have "queue_bounded (c\<lparr>sc_queue := queue, sc_queuedBytes := weight, sc_lastSentSeq := l,
        sc_sending := True, sc_sent := sent\<rparr>)" for l sent
      using assms by (auto simp: queue_bounded_def)
    with Cons Q_event assms t show ?thesis by (simp add: sc_flush_def split: option.split)
  next
    case (Q_control f payload n)
    with Cons assms show ?thesis by (auto simp: sc_flush_def queue_bounded_def split: option.split)
  qed
qed

lemma bounded_collapse: "queue_bounded (sc_collapse env reason c)"
proof -
  have "length [control_item f, control_item g] \<le> MAX_QUEUE_EVENTS" for f g by (simp add: MAX_QUEUE_EVENTS_def)
  then show ?thesis
    by (auto simp: sc_collapse_def Let_def sc_push_def queue_bounded_def MAX_QUEUE_EVENTS_def sc_close_def sc_dispose_def)
qed

lemma bounded_enqueue:
  assumes "queue_bounded c"
  shows "queue_bounded (sc_enqueue env r x c)"
proof -
  have "queue_bounded (sc_push x c)" if "length (sc_queue (sc_push x c)) \<le> MAX_QUEUE_EVENTS"
    "sc_queuedBytes (sc_push x c) \<le> int MAX_QUEUE_BYTES"
    using that assms by (simp add: queue_bounded_def sc_push_def)
  then show ?thesis by (auto simp: sc_enqueue_def Let_def bounded_collapse intro: bounded_flush)
qed

lemma bounded_control: "queue_bounded c \<Longrightarrow> queue_bounded (sc_control env f c)"
  by (simp add: sc_control_def bounded_enqueue)

lemma bounded_emit: "queue_bounded c \<Longrightarrow> queue_bounded (sc_emit env r e c)"
  by (simp add: sc_emit_def bounded_enqueue)

lemma bounded_folds:
  "queue_bounded c \<Longrightarrow> queue_bounded (fold (sc_emit env r) es c)"
  "queue_bounded c \<Longrightarrow> queue_bounded (fold (sc_control env) fs c)"
  by (induction es arbitrary: c; auto intro: bounded_emit) (induction fs arbitrary: c; auto intro: bounded_control)

lemma bounded_drain:
  assumes "sc_drain env page c = Some d" and "queue_bounded c"
  shows "queue_bounded d"
proof -
  have "queue_bounded c \<longrightarrow> queue_bounded d"
  proof (rule sc_drain.raw_induct [where P = "\<lambda>env page c d. queue_bounded c \<longrightarrow> queue_bounded d", OF _ assms(1)])
    fix f :: "stream_env \<Rightarrow> (int \<Rightarrow> stored_event list) \<Rightarrow> stream_conn \<Rightarrow> stream_conn option"
    fix env page c d
    assume "\<And>env page c d. f env page c = Some d \<Longrightarrow> queue_bounded c \<longrightarrow> queue_bounded d"
      and "(let slice = page (int (sc_cursor c)) in
        if slice = [] then Some c else f env page (fold (sc_emit env True) slice c)) = Some d"
    then show "queue_bounded c \<longrightarrow> queue_bounded d"
      by (auto simp: Let_def bounded_folds split: if_splits)
  qed
  with assms(2) show ?thesis by simp
qed

lemma bounded_attach: "sc_attach env inst page sinceParam new_stream = Some c \<Longrightarrow> queue_bounded c"
proof -
  assume "sc_attach env inst page sinceParam new_stream = Some c"
  moreover have "queue_bounded (sc_greet env inst sinceParam new_stream)"
    unfolding sc_greet_def by (rule bounded_folds) (simp add: queue_bounded_def new_stream_def)
  ultimately show ?thesis
    using bounded_drain by (fastforce simp: sc_attach_def Let_def intro!: bounded_flush bounded_control)
qed

lemma bounded_step: "queue_bounded c \<Longrightarrow> queue_bounded (snd (stream_step store_append totals op (s, c)))"
  by (cases op)
    (auto simp: sc_on_sent_def sc_pong_def sc_heartbeat_tick_def Let_def bounded_control bounded_emit bounded_close
      bounded_dispose bounded_flush split: prod.split)

lemma bounded_steps: "queue_bounded c \<Longrightarrow> queue_bounded (snd (fold (stream_step store_append totals) ops (s, c)))"
proof (induction ops arbitrary: s c)
  case (Cons op ops)
  then show ?case
    using bounded_step [of c store_append totals op s] by (cases "stream_step store_append totals op (s, c)") simp
qed simp

subsection \<open>Properties\<close>

text \<open>The page function of one session's log over the memory store.\<close>

definition log_page :: "memory_store \<Rightarrow> ustring \<Rightarrow> int \<Rightarrow> stored_event list" where
  "log_page m i n = memory_read m i n (enat BATCH_MAX_EVENTS) (enat BATCH_MAX_BYTES)"

definition live_run :: "store_options \<Rightarrow> ustring \<Rightarrow> stream_op list \<Rightarrow> memory_store \<times> stream_conn
    \<Rightarrow> memory_store \<times> stream_conn" where
  "live_run opts i ops = fold (stream_step (memory_append opts i) (\<lambda>m. memory_stats m i)) ops"

definition greeting_weight :: "stream_env \<Rightarrow> ustring \<Rightarrow> nat option \<Rightarrow> nat" where
  "greeting_weight env inst sinceParam = sum_list (map (item_bytes \<circ> control_item) (greeting env inst sinceParam))"

text \<open>
  C17. For a client whose cursor is not past the log's end, where the log still holds all that the
  replay starts from (nothing of it was evicted) and the frames of the greeting fit the queue:
  attaching returns, and from then on, whatever the agent, the registry, the socket
  and the clock do, every number after the client's cursor up to the last of the log has been
  told once, in order, as an event or as skipped, is queued to be told, or was named only by a
  \<open>lagged\<close> frame that a collapse cleared. What the client's reducer makes of it is the same
  run, without a hole, as long as no collapse cleared such a frame, also after the end. (Where the log
  has lost events after the cursor, a collapse may name skipped numbers a second time.)
\<close>

theorem live_stream_tells_everything:
  assumes "store_ok opts m" and "env_stats env = memory_stats m i" and "n \<le> es_lastSeq (memory_stats m i)"
    and "oldestAvailable (memory_stats m i) \<le> start_from (memory_stats m i) (Some n) + 1"
    and "greeting_weight env inst (Some n) \<le> MAX_QUEUE_BYTES"
  shows "\<exists>c. sc_attach env inst (log_page m i) (Some n) new_stream = Some c \<and>
    (let (m', d) = live_run opts i ops (m, c); k = client_reads (sc_sent d) n in
      (if sc_closed d then sorted_wrt (<) (sent_told d)
       else sorted_wrt (<) (told d) \<and>
         mset (told d @ sc_forgotten d) = mset [n + 1..<es_lastSeq (memory_stats m' i) + 1]) \<and>
      (sc_forgotten d \<noteq> [] \<or> \<not> rd_hole k \<and> client_saw k = sent_told d \<and> (\<exists>l. sent_told d = [n + 1..<l])))"
proof -
  let ?since = "start_from (memory_stats m i) (Some n)"
  have asked: "asked_from (memory_stats m i) (Some n) = n" using assms(3) by (simp add: asked_from_def)
  obtain c where c: "sc_attach env inst (log_page m i) (Some n) new_stream = Some c"
    "caught_up n ?since (es_lastSeq (memory_stats m i)) c"
    using mem.attach_then_run [OF assms(1,2,4), of inst] assms(5) asked
    unfolding greeting_weight_def log_page_def by metis
  obtain m' d where run: "live_run opts i ops (m, c) = (m', d)" by fastforce
  have d: "caught_up n ?since (es_lastSeq (memory_stats m' i)) d"
    using mem.steps_caught_up [OF assms(1) c(2)] run unfolding live_run_def by blast
  have "\<not> rd_hole (client_reads (sc_sent d) n) \<and> client_saw (client_reads (sc_sent d) n) = sent_told d
      \<and> (\<exists>l. sent_told d = [n + 1..<l])" if "sc_forgotten d = []"
  proof -
    from d that obtain l where l: "sent_told d = [n + 1..<l]" by (auto simp: caught_up_def sent_prefix_def simp del: upt_Suc)
    then have "concat (map wire_told (sc_sent d)) = [n + 1..<max l (n + 1)]"
      unfolding sent_told_def by (cases "n + 1 \<le> l") (auto simp: max_def simp del: upt_Suc)
    moreover have "\<forall>w\<in>set (sc_sent d). wire_ok ?since w" using d by (simp add: caught_up_def frames_ok_def)
    ultimately show ?thesis using client_follows [of "sc_sent d" ?since n "max l (n + 1)"] l
      by (auto simp: sent_told_def simp del: upt_Suc)
  qed
  moreover have "if sc_closed d then sorted_wrt (<) (sent_told d) else sorted_wrt (<) (told d) \<and>
      mset (told d @ sc_forgotten d) = mset [n + 1..<es_lastSeq (memory_stats m' i) + 1]"
    using d inv_told(1,2) [of n d] by (auto simp: caught_up_def sent_prefix_def simp del: upt_Suc)
  ultimately show ?thesis using c(1) run by (intro exI [of _ c]) (auto simp: Let_def simp del: upt_Suc)
qed

definition quiet_env :: stream_env where
  "quiet_env = \<lparr>env_stats = memory_stats small_store [], env_snapshot = JNull, env_now = 0, env_raw = None,
     env_encode = (\<lambda>e. [])\<rparr>"

lemma small_store_ok: "store_ok (default_options\<lparr>mo_maxEvents := 2\<rparr>) small_store"
  unfolding small_store_def by (rule run_store_ok)

lemma quiet_greeting: "greeting_weight quiet_env [] (Some 3) \<le> MAX_QUEUE_BYTES"
proof -
  have f: "greeting quiet_env [] (Some 3) = [Hello [] JNull 2 3 3 False]"
    by (simp add: greeting_def quiet_env_def small_store_values asked_from_def start_from_def
        oldestAvailable_def lag_frames_def Let_def)
  have "controlItem (frame_json (Hello [] JNull 2 3 3 False)) = stringify (frame_json (Hello [] JNull 2 3 3 False))"
    by (simp add: controlItem_def fitSnapshotFrame_def fit_frame_def snapshotOnFrame_def asc_inject)
  moreover have "length (stringify (frame_json (Hello [] JNull 2 3 3 False))) \<le> 200"
    by (simp add: json_num_def decimal.simps asc_def json_quote_def escape_unit_def high_surrogate_def low_surrogate_def)
  ultimately show ?thesis
    by (simp add: greeting_weight_def f control_item_def Let_def MAX_QUEUE_BYTES_def)
qed

theorem live_stream_tells_everything_witness:
  "\<exists>c m' d. sc_attach quiet_env [] (log_page small_store []) (Some 3) new_stream = Some c
    \<and> live_run (default_options\<lparr>mo_maxEvents := 2\<rparr>) [] [On_append 4 line_event quiet_env, On_gone] (small_store, c) = (m', d)
    \<and> (sc_forgotten d = [] \<longrightarrow> \<not> rd_hole (client_reads (sc_sent d) 3))"
proof -
  let ?ops = "[On_append 4 line_event quiet_env, On_gone]"
  have "oldestAvailable (memory_stats small_store []) \<le> start_from (memory_stats small_store []) (Some 3) + 1"
    and "3 \<le> es_lastSeq (memory_stats small_store [])" and "env_stats quiet_env = memory_stats small_store []"
    by (simp_all add: quiet_env_def small_store_values oldestAvailable_def start_from_def asked_from_def Let_def)
  from live_stream_tells_everything [OF small_store_ok this(3,2,1) quiet_greeting, of ?ops] obtain c where
    c: "sc_attach quiet_env [] (log_page small_store []) (Some 3) new_stream = Some c"
      "let (m', d) = live_run (default_options\<lparr>mo_maxEvents := 2\<rparr>) [] ?ops (small_store, c); k = client_reads (sc_sent d) 3 in
        sc_forgotten d \<noteq> [] \<or> \<not> rd_hole k"
    by (auto simp: Let_def case_prod_unfold)
  obtain m' d where "live_run (default_options\<lparr>mo_maxEvents := 2\<rparr>) [] ?ops (small_store, c) = (m', d)" by fastforce
  with c show ?thesis by (auto simp: Let_def)
qed

text \<open>
  A connection's memory is bounded whatever it is asked to carry: from the attach on its
  queue has at most 8000 items, the bytes it counts are the bytes its items weigh, and they are
  at most 16 MiB unless all it holds is the one or two control frames of a collapse.
\<close>

theorem live_stream_memory_bounded:
  assumes "sc_attach env inst page sinceParam new_stream = Some c"
  shows "queue_bounded (snd (live_run opts i ops (m, c)))"
  unfolding live_run_def by (rule bounded_steps) (rule bounded_attach [OF assms])

theorem live_stream_memory_bounded_witness:
  "\<exists>c. sc_attach quiet_env [] (\<lambda>n. []) (Some 3) new_stream = Some c
    \<and> queue_bounded (snd (live_run default_options [] [On_append 4 line_event quiet_env] (small_store, c)))"
proof -
  obtain c where c: "sc_attach quiet_env [] (\<lambda>n. []) (Some 3) new_stream = Some c"
    by (simp add: sc_attach_def sc_drain.simps)
  from live_stream_memory_bounded [OF c] c show ?thesis by blast
qed

text \<open>
  A collapse forgets what was skipped. Where an item pushed onto a queue overflows it while
  a \<open>lagged\<close> frame is still waiting there, the numbers that frame names are told no more, as
  events or as skipped, although the cursor is past them: the new \<open>lagged\<close> frame starts after
  the last number sent, and the cleared frame had counted as sent when it was queued.
\<close>

theorem collapse_forgets_the_skipped:
  assumes "stream_inv asked c" and "\<not> sc_closed c" and "sc_cursor c \<le> es_lastSeq (env_stats env)"
    and "int MAX_QUEUE_BYTES < sc_queuedBytes c + int (item_bytes x)" and "item_lag x = []"
    and "k \<in> set (lag_told (sc_queue c))"
  shows "k \<notin> set (told (sc_enqueue env replaying x c)) \<and> k \<in> set (sc_forgotten (sc_enqueue env replaying x c))
    \<and> k \<le> sc_cursor (sc_enqueue env replaying x c)"
proof -
  have inv: "sorted_wrt (<) (sent_told c @ lag_told (sc_queue c))" "sc_lastSentSeq c \<le> sc_cursor c"
    "mset (sent_told c @ lag_told (sc_queue c) @ sc_forgotten c) = mset [asked + 1..<sc_lastSentSeq c + 1]"
    using assms(1) by (simp_all add: stream_inv_def)
  have "k \<in># mset (sent_told c @ lag_told (sc_queue c) @ sc_forgotten c)" using assms(6) by simp
  then have k: "k \<le> sc_lastSentSeq c" unfolding inv(3) by (auto simp del: upt_Suc)
  have "k \<notin> set (sent_told c)" using inv(1) assms(6) by (auto simp: sorted_wrt_append)
  then show ?thesis
    using assms(2-6) k inv(2)
    by (auto simp: sc_enqueue_def sc_push_def sc_collapse_def Let_def told_def sent_told_def sc_close_def
        sc_dispose_def control_item_def)
qed

definition lagging :: stream_conn where
  "lagging = new_stream\<lparr>sc_queue := [control_item (Lagged 1 5 Backlog)],
     sc_queuedBytes := int (item_bytes (control_item (Lagged 1 5 Backlog))), sc_cursor := 5, sc_lastSentSeq := 5,
     sc_sending := True\<rparr>"

theorem collapse_forgets_the_skipped_witness:
  "let c = sc_enqueue (quiet_env\<lparr>env_stats := (memory_stats small_store [])\<lparr>es_lastSeq := 9\<rparr>\<rparr>) True
      (Q_event \<lparr>sv_seq = 6, sv_ts = 0, sv_event = line_event\<rparr> 17000000) lagging
   in 3 \<notin> set (told c) \<and> 3 \<le> sc_cursor c"
proof -
  have "stream_inv 0 lagging"
    by (simp add: stream_inv_def lagging_def new_stream_def sent_told_def upt_rec)
  then show ?thesis
    using collapse_forgets_the_skipped [of 0 lagging
        "quiet_env\<lparr>env_stats := (memory_stats small_store [])\<lparr>es_lastSeq := 9\<rparr>\<rparr>"
        "Q_event \<lparr>sv_seq = 6, sv_ts = 0, sv_event = line_event\<rparr> 17000000" 3 True]
    by (simp add: lagging_def new_stream_def MAX_QUEUE_BYTES_def Let_def)
qed

text \<open>
  C18. A live stream ends with its credential. Under the default leeway, a tick of an open
  connection's timer closes it, with the code of an expired token, exactly when presenting
  the credential again would no longer be accepted, over the same channel or over none.
\<close>

theorem stream_ends_with_its_credential:
  assumes "both_verify parse ed25519 v sha256 pass token now ch = Inr p" and "sv_leewayMs v = AUTH_LEEWAY_MS"
    and "now \<le> later" and "sc_heartbeat c" and "\<not> sc_closed c"
  shows "(sc_closed (sc_heartbeat_tick later (pr_expiresAt p) ping_ok c)
      \<longleftrightarrow> both_verify parse ed25519 v sha256 pass token later ch \<noteq> Inr p)
    \<and> (sc_closed (sc_heartbeat_tick later (pr_expiresAt p) ping_ok c)
      \<longleftrightarrow> both_verify parse ed25519 v sha256 pass token later NO_CHANNEL \<noteq> Inr p)
    \<and> (sc_closed (sc_heartbeat_tick later (pr_expiresAt p) ping_ok c) \<longrightarrow>
        sc_ended (sc_heartbeat_tick later (pr_expiresAt p) ping_ok c) = Some (4401, asc ''token expired''))"
proof -
  have tick: "sc_closed (sc_heartbeat_tick later (pr_expiresAt p) ping_ok c) \<longleftrightarrow> \<not> lasts_until AUTH_LEEWAY_MS p later"
    using assms(4,5)
    by (auto simp: sc_heartbeat_tick_def lasts_until_def sc_close_def sc_dispose_def split: option.split)
  moreover have "sc_ended (sc_heartbeat_tick later (pr_expiresAt p) ping_ok c) = Some (4401, asc ''token expired'')"
    if "\<not> lasts_until AUTH_LEEWAY_MS p later"
    using that assms(4,5)
    by (auto simp: sc_heartbeat_tick_def lasts_until_def sc_close_def split: option.splits)
  ultimately show ?thesis
    using both.asking_again [OF assms(1,3)] both.presented_again [OF assms(1,3)] assms(2) by simp
qed

theorem stream_ends_with_its_credential_witness:
  "sc_closed (sc_heartbeat_tick 500000 (pr_expiresAt (signed_principal sample_claims)) True (new_stream\<lparr>sc_heartbeat := True\<rparr>))"
proof -
  obtain d where "decodeToken sample_texts sample_capability = Inr d" by (rule sample_decodes)
  note t = decoded_looks_signed [OF this] decoded_nonempty [OF this]
  have ok: "both_verify sample_texts sample_check sample_verifier id [] (Some sample_capability) 100000 NO_CHANNEL
      = Inr (signed_principal sample_claims)"
    using sample_accepted t by (simp add: both_verify_cases no_token_def)
  have "\<not> lasts_until AUTH_LEEWAY_MS (signed_principal sample_claims) 500000"
    by (simp add: lasts_until_def signed_principal_def AUTH_LEEWAY_MS_def sample_claims_def)
  then have "both_verify sample_texts sample_check sample_verifier id [] (Some sample_capability) 500000 NO_CHANNEL
      \<noteq> Inr (signed_principal sample_claims)"
    using both.inside [of sample_texts sample_check sample_verifier id "[]" "Some sample_capability" 500000 NO_CHANNEL]
    by (auto simp: new_signed_verifier_def)
  with stream_ends_with_its_credential [OF ok, of 500000 "new_stream\<lparr>sc_heartbeat := True\<rparr>" True]
  show ?thesis by (simp add: new_signed_verifier_def new_stream_def)
qed

end
