(* ===== verification/SecureSession.thy ===== *)
theory SecureSession
  imports Frames Noise Auth "HOL-Library.AList"
begin

text \<open>
  The daemon's end of an encrypted session (\<open>SecureSession\<close> of \<open>src/src/e2ee.ts\<close>): the
  handshake, the capability, and one exchange at a time carried to the daemon's own listener.

  Each callback is a function of the session's state; \<open>secure_step\<close> runs the one an event
  names. Node, \<open>ws\<close> and the URL parser are the fields of a \<open>platform\<close> record: what they
  answer, and when they throw. The requests and sockets made towards the listener are kept
  with everything done to them, so that a property can speak of what was never let go of;
  \<open>se_frames\<close> are the frames sealed so far, before encryption, and \<open>se_heard\<close> the frames opened;
  nothing reads the two.

  The handshake's Diffie-Hellman steps are awaited in the source, one chunk of the stream
  after another; here a chunk is taken whole. What can happen in between is only the end of
  the session, after which the rest of the chunk has no effect.
\<close>

subsection \<open>Constants and tests\<close>

definition BODY_CHUNK_BYTES :: nat where "BODY_CHUNK_BYTES = MAX_FRAME_PAYLOAD"
definition MAX_CLOSE_REASON_BYTES :: nat where "MAX_CLOSE_REASON_BYTES = 123"
definition FRAMING_HEADERS :: "ustring list" where
  "FRAMING_HEADERS = [asc ''content-length'', asc ''transfer-encoding'']"

definition digit_or_letter :: "nat \<Rightarrow> bool" where
  "digit_or_letter c \<longleftrightarrow> 48 \<le> c \<and> c \<le> 57 \<or> 65 \<le> c \<and> c \<le> 90 \<or> 97 \<le> c \<and> c \<le> 122"

definition HTTP_TOKEN :: "ustring \<Rightarrow> bool" where
  "HTTP_TOKEN s \<longleftrightarrow> s \<noteq> [] \<and> (\<forall>c\<in>set s. digit_or_letter c \<or> c \<in> set (asc ''!#$%&'' @ [39] @ asc ''*+-.^_`|~''))"

definition HTTP_FIELD_VALUE :: "ustring \<Rightarrow> bool" where
  "HTTP_FIELD_VALUE s \<longleftrightarrow> (\<forall>c\<in>set s. c = 9 \<or> 0x20 \<le> c \<and> c \<le> 0x7e \<or> 0x80 \<le> c \<and> c \<le> 0xff)"

text \<open>A close code, as the integer it must be.\<close>

definition isCloseCode :: "json \<Rightarrow> int option" where
  "isCloseCode code =
     (case code of
        JNum (Some r) t \<Rightarrow>
          (let n = \<lfloor>r\<rfloor> in
           if is_integer r \<and> (3000 \<le> n \<and> n \<le> 4999
             \<or> 1000 \<le> n \<and> n \<le> 1013 \<and> n \<noteq> 1004 \<and> n \<noteq> 1005 \<and> n \<noteq> 1006)
           then Some n else None)
      | _ \<Rightarrow> None)"

fun code_name :: "auth_failure_code \<Rightarrow> ustring" where
  "code_name Missing_token = asc ''missing_token''"
| "code_name Malformed_capability = asc ''malformed_token''"
| "code_name Bad_credential = asc ''bad_credential''"
| "code_name Bad_signature = asc ''bad_signature''"
| "code_name Unknown_key = asc ''unknown_key''"
| "code_name Wrong_issuer = asc ''wrong_issuer''"
| "code_name Wrong_machine = asc ''wrong_machine''"
| "code_name Unbound_capability = asc ''unbound_capability''"
| "code_name Wrong_device = asc ''wrong_device''"
| "code_name Token_expired = asc ''token_expired''"
| "code_name Token_not_yet_valid = asc ''token_not_yet_valid''"

subsection \<open>What the session drives\<close>

datatype answer_phase = No_answer | Unread_answer | Reading | Answer_over

record upstream_request =
  ur_method :: ustring
  ur_path :: ustring
  ur_headers :: "(ustring \<times> ustring) list"
  ur_body :: "bytes list"
  ur_ended :: bool
  ur_destroyed :: bool
  ur_phase :: answer_phase
  ur_paused :: bool
  ur_responsePaused :: bool

datatype ready_state = Ws_connecting | Ws_open | Ws_closing | Ws_closed

datatype socket_call = Call_send bytes | Call_close int ustring | Call_terminate

record js_url =
  url_origin :: ustring
  url_pathname :: ustring
  url_search :: ustring

record loopback_socket =
  lk_url :: js_url
  lk_headers :: "(ustring \<times> ustring) list"
  lk_state :: ready_state
  lk_calls :: "socket_call list"
  lk_paused :: bool
  lk_dialTimer :: bool

record platform =
  pf_crypto :: crypto
  pf_sha256 :: "bytes \<Rightarrow> bytes"
  pf_parse :: "bytes \<Rightarrow> json option"
  pf_verify :: "ustring option \<Rightarrow> rat \<Rightarrow> channel_identity \<Rightarrow> verify_result"
  pf_url :: "ustring \<Rightarrow> ustring option \<Rightarrow> js_url option"
  pf_host :: ustring
  pf_port :: nat
  pf_request_throws :: "ustring \<Rightarrow> ustring \<Rightarrow> (ustring \<times> ustring) list \<Rightarrow> bool"
  pf_write_takes :: "nat \<Rightarrow> bytes list \<Rightarrow> bool"
  pf_socket_throws :: "js_url \<Rightarrow> bool"
  pf_send_throws :: "ready_state \<Rightarrow> bool"
  pf_close_throws :: "ready_state \<Rightarrow> int \<Rightarrow> ustring \<Rightarrow> bool"

subsection \<open>The session\<close>

datatype carrying = Carrying_none | Carrying_request | Carrying_socket

datatype session_error = Frame_threw frame_error | Library_threw

datatype drain_listener = Resume_response nat | Resume_socket nat
datatype close_listener = Destroy_session ustring | Close_resumes_socket nat

datatype secure_event =
    Ev_handshake_failed "noise_error option"
  | Ev_refused auth_failure_code
  | Ev_threw
  | Ev_crypto_failure
  | Ev_opened ustring
  | Ev_closed ustring

record secure_session =
  se_reader :: length_reader
  se_handshake :: handshake
  se_send :: "cipher_state option"
  se_receive :: "cipher_state option"
  se_peerThumbprint :: "ustring option"
  se_capability :: "ustring option"
  se_authorized :: bool
  se_closed :: bool
  se_failed :: bool
  se_carrying :: carrying
  se_upstream :: "nat option"
  se_upstreamRequest :: "nat option"
  se_socket :: "nat option"
  se_assembler :: "assembler option"
  se_requestBody :: "nat option"
  se_requests :: "upstream_request list"
  se_sockets :: "loopback_socket list"
  se_written :: "bytes list"
  se_frames :: "bytes list"
  se_streamEnded :: bool
  se_streamDestroyed :: bool
  se_streamPaused :: bool
  se_onDrain :: "drain_listener list"
  se_onClose :: "close_listener list"
  se_failTimer :: "ustring option"
  se_events :: "secure_event list"
  se_heard :: "bytes list"

definition new_secure_session :: "handshake \<Rightarrow> secure_session" where
  "new_secure_session h = \<lparr>se_reader = new_length_reader, se_handshake = h, se_send = None, se_receive = None,
     se_peerThumbprint = None, se_capability = None, se_authorized = False, se_closed = False,
     se_failed = False, se_carrying = Carrying_none, se_upstream = None, se_upstreamRequest = None,
     se_socket = None, se_assembler = None, se_requestBody = None, se_requests = [], se_sockets = [],
     se_written = [], se_frames = [], se_streamEnded = False, se_streamDestroyed = False,
     se_streamPaused = False, se_onDrain = [], se_onClose = [], se_failTimer = None, se_events = [], se_heard = []\<rparr>"

definition edit :: "nat \<Rightarrow> ('a \<Rightarrow> 'a) \<Rightarrow> 'a list \<Rightarrow> 'a list" where
  "edit i f xs = (if i < length xs then xs[i := f (xs ! i)] else xs)"

abbreviation on_request :: "nat \<Rightarrow> (upstream_request \<Rightarrow> upstream_request) \<Rightarrow> secure_session \<Rightarrow> secure_session" where
  "on_request i f s \<equiv> s\<lparr>se_requests := edit i f (se_requests s)\<rparr>"

abbreviation on_socket :: "nat \<Rightarrow> (loopback_socket \<Rightarrow> loopback_socket) \<Rightarrow> secure_session \<Rightarrow> secure_session" where
  "on_socket j f s \<equiv> s\<lparr>se_sockets := edit j f (se_sockets s)\<rparr>"

definition called :: "socket_call \<Rightarrow> loopback_socket \<Rightarrow> loopback_socket" where
  "called c k = k\<lparr>lk_calls := lk_calls k @ [c]\<rparr>"

definition report :: "secure_event \<Rightarrow> secure_session \<Rightarrow> secure_session" where
  "report e s = s\<lparr>se_events := se_events s @ [e]\<rparr>"

text \<open>An optional chain \<open>this.x?.f()\<close>.\<close>

definition maybe :: "'a option \<Rightarrow> ('a \<Rightarrow> 's \<Rightarrow> 's) \<Rightarrow> 's \<Rightarrow> 's" where
  "maybe x f s = (case x of None \<Rightarrow> s | Some y \<Rightarrow> f y s)"

definition se_destroy :: "ustring \<Rightarrow> secure_session \<Rightarrow> secure_session" where
  "se_destroy detail s =
     (if se_closed s then s
      else
        let s = s\<lparr>se_closed := True, se_requestBody := None, se_carrying := Carrying_none\<rparr>;
            s = (maybe (se_upstreamRequest s) (\<lambda>i. on_request i (ur_destroyed_update (\<lambda>_. True))) s)
                  \<lparr>se_upstreamRequest := None\<rparr>;
            s = (maybe (se_upstream s) (\<lambda>i. on_request i (ur_destroyed_update (\<lambda>_. True))) s)
                  \<lparr>se_upstream := None\<rparr>;
            s = (maybe (se_socket s) (\<lambda>j. on_socket j (called Call_terminate)) s)\<lparr>se_socket := None\<rparr>;
            s = s\<lparr>se_assembler := None, se_streamDestroyed := True\<rparr>
        in report (Ev_closed detail) s)"

definition sealAndWrite :: "platform \<Rightarrow> bytes \<Rightarrow> secure_session \<Rightarrow> secure_session" where
  "sealAndWrite pf frame s =
     (if se_closed s then s
      else case se_send s of
        None \<Rightarrow> s
      | Some ci \<Rightarrow>
          (case cipher_encrypt (pf_crypto pf) [] frame ci of
             (Inl e, ci') \<Rightarrow> se_destroy (asc ''could not write to the stream'') (s\<lparr>se_send := Some ci'\<rparr>)
           | (Inr sealed, ci') \<Rightarrow>
               (case frameLength sealed of
                  Inl e \<Rightarrow> se_destroy (asc ''could not write to the stream'') (s\<lparr>se_send := Some ci'\<rparr>)
                | Inr w \<Rightarrow> s\<lparr>se_send := Some ci', se_written := se_written s @ [w],
                    se_frames := se_frames s @ [frame]\<rparr>)))"

definition se_write :: "platform \<Rightarrow> bytes \<Rightarrow> secure_session \<Rightarrow> secure_session" where
  "se_write pf frame s = (if se_failed s then s else sealAndWrite pf frame s)"

definition close_frame :: "int \<Rightarrow> ustring \<Rightarrow> json" where
  "close_frame code reason =
     JObj [(asc ''code'', JNum (Some (of_int code)) (if code < 0 then 45 # decimal (nat (- code)) else decimal (nat code))),
       (asc ''reason'', JStr reason)]"

text \<open>
  The refusal. Its frame is built by \<open>encodeJsonFrame\<close>, which throws for a description that
  does not fit; \<open>Inl\<close> is that throw.
\<close>

definition se_fail :: "platform \<Rightarrow> int \<Rightarrow> ustring \<Rightarrow> (secure_session, session_error, unit) throwing" where
  "se_fail pf code reason s =
     (if se_closed s \<or> se_failed s then (Inr (), s)
      else
        let s = s\<lparr>se_failed := True, se_requestBody := None\<rparr> in
        case encodeJsonFrame FAILED (close_frame code reason) of
          Inl e \<Rightarrow> (Inl (Frame_threw e), s)
        | Inr frame \<Rightarrow>
            (Inr (), (sealAndWrite pf frame s)
               \<lparr>se_streamEnded := True, se_onClose := se_onClose s @ [Destroy_session reason],
                 se_failTimer := Some reason\<rparr>))"

subsection \<open>Carrying a request\<close>

text \<open>\<open>loopback\<close>: what the path resolves to, when that is still the daemon's own listener.\<close>

definition loopback :: "platform \<Rightarrow> string \<Rightarrow> ustring \<Rightarrow> js_url option" where
  "loopback pf scheme path =
     (if take 1 path \<noteq> asc ''/'' \<or> take 2 path = asc ''//'' then None
      else
        let host = (if 58 \<in> set (pf_host pf) then [91] @ pf_host pf @ [93] else pf_host pf);
            base = asc scheme @ asc ''://'' @ host @ [58] @ decimal (pf_port pf)
        in case (pf_url pf base None, pf_url pf path (Some base)) of
             (Some origin, Some target) \<Rightarrow> if url_origin target = url_origin origin then Some target else None
           | _ \<Rightarrow> None)"

text \<open>The loop over the headers the app wrote; \<open>None\<close> is a refusal.\<close>

fun forward_headers ::
  "(ustring \<times> json) list \<Rightarrow> (ustring \<times> ustring) list \<Rightarrow> (ustring \<times> ustring) list option" where
  "forward_headers [] headers = Some headers"
| "forward_headers ((name, v) # entries) headers =
     (if lowered name = asc ''authorization'' then forward_headers entries headers
      else case v of
        JStr value \<Rightarrow>
          if \<not> HTTP_TOKEN name \<or> \<not> HTTP_FIELD_VALUE value then None
          else if lowered name \<in> set FRAMING_HEADERS then None
          else forward_headers entries (AList.update name value headers)
      | _ \<Rightarrow> None)"

definition bearer :: "ustring \<Rightarrow> ustring" where
  "bearer capability = asc ''Bearer '' @ capability"

definition with_capability :: "ustring option \<Rightarrow> (ustring \<times> ustring) list \<Rightarrow> (ustring \<times> ustring) list" where
  "with_capability capability headers =
     (case capability of None \<Rightarrow> headers | Some c \<Rightarrow> AList.update (asc ''authorization'') (bearer c) headers)"

definition header_entries :: "json option \<Rightarrow> (ustring \<times> json) list" where
  "header_entries headers = (case headers of None \<Rightarrow> [] | Some v \<Rightarrow> spread_of v)"

definition string_field :: "json \<Rightarrow> string \<Rightarrow> ustring option" where
  "string_field v k = (case field_of v (asc k) of Some (JStr s) \<Rightarrow> Some s | _ \<Rightarrow> None)"

definition new_request :: "ustring \<Rightarrow> ustring \<Rightarrow> (ustring \<times> ustring) list \<Rightarrow> upstream_request" where
  "new_request verb path headers = \<lparr>ur_method = verb, ur_path = path, ur_headers = headers, ur_body = [],
     ur_ended = False, ur_destroyed = False, ur_phase = No_answer, ur_paused = False, ur_responsePaused = False\<rparr>"

definition startRequest :: "platform \<Rightarrow> bytes \<Rightarrow> (secure_session, session_error, unit) throwing" where
  "startRequest pf payload s =
     (let unreadable = se_fail pf 400 (asc ''unreadable request'') s in
      case decodeJson (pf_parse pf) payload of
        None \<Rightarrow> unreadable
      | Some wanted \<Rightarrow>
          (case (string_field wanted ''method'', string_field wanted ''path'') of
             (Some verb, Some path) \<Rightarrow>
               if \<not> HTTP_TOKEN verb then unreadable
               else (case loopback pf ''http'' path of
                   None \<Rightarrow> unreadable
                 | Some target \<Rightarrow>
                     (case forward_headers (header_entries (field_of wanted (asc ''headers''))) [] of
                        None \<Rightarrow> unreadable
                      | Some forwarded \<Rightarrow>
                          let headers = with_capability (se_capability s) forwarded;
                              full = url_pathname target @ url_search target;
                              made = new_request verb full headers;
                              i = length (se_requests s);
                              body = truthy (field_of wanted (asc ''body''))
                          in if pf_request_throws pf verb full headers then unreadable
                             else (Inr (), s\<lparr>se_requests := se_requests s @ [made\<lparr>ur_ended := \<not> body\<rparr>],
                               se_carrying := Carrying_request, se_upstreamRequest := Some i,
                               se_requestBody := (if body then Some i else None)\<rparr>)))
           | _ \<Rightarrow> unreadable))"

text \<open>The closure in \<open>requestBody\<close>, for a chunk and for the end.\<close>

definition body_chunk :: "platform \<Rightarrow> nat \<Rightarrow> bytes \<Rightarrow> secure_session \<Rightarrow> secure_session" where
  "body_chunk pf i chunk s =
     (let r = se_requests s ! i;
          s = on_request i (ur_body_update (\<lambda>b. b @ [chunk])) s
      in if pf_write_takes pf i (ur_body r @ [chunk]) \<or> ur_paused r then s
         else (on_request i (ur_paused_update (\<lambda>_. True)) s)\<lparr>se_streamPaused := True\<rparr>)"

definition body_end :: "nat \<Rightarrow> secure_session \<Rightarrow> secure_session" where
  "body_end i s = on_request i (ur_ended_update (\<lambda>_. True)) s"

text \<open>The \<open>resume\<close> of an upload, on the request's \<open>drain\<close> and \<open>close\<close>.\<close>

definition body_resume :: "nat \<Rightarrow> secure_session \<Rightarrow> secure_session" where
  "body_resume i s =
     (if i < length (se_requests s) \<and> ur_paused (se_requests s ! i)
      then (on_request i (ur_paused_update (\<lambda>_. False)) s)\<lparr>se_streamPaused := False\<rparr> else s)"

subsection \<open>Carrying a socket\<close>

definition openSocket :: "platform \<Rightarrow> bytes \<Rightarrow> (secure_session, session_error, unit) throwing" where
  "openSocket pf payload s =
     (let unreadable = se_fail pf 400 (asc ''unreadable open'') s in
      case decodeJson (pf_parse pf) payload of
        None \<Rightarrow> unreadable
      | Some wanted \<Rightarrow>
          (case string_field wanted ''path'' of
             None \<Rightarrow> unreadable
           | Some path \<Rightarrow>
               (case loopback pf ''ws'' path of
                  None \<Rightarrow> unreadable
                | Some target \<Rightarrow>
                    let j = length (se_sockets s);
                        made = \<lparr>lk_url = target, lk_headers = with_capability (se_capability s) [],
                          lk_state = Ws_connecting, lk_calls = [], lk_paused = False, lk_dialTimer = True\<rparr>
                    in if pf_socket_throws pf target then unreadable
                       else (Inr (), s\<lparr>se_sockets := se_sockets s @ [made], se_carrying := Carrying_socket,
                         se_socket := Some j, se_assembler := Some new_assembler,
                         se_onClose := se_onClose s @ [Close_resumes_socket j]\<rparr>))))"

definition pushMessage :: "platform \<Rightarrow> bytes \<Rightarrow> (secure_session, session_error, unit) throwing" where
  "pushMessage pf payload s =
     (case se_assembler s of
        None \<Rightarrow> (Inr (), s)
      | Some a \<Rightarrow>
          (let (ok, a') = assembler_push a payload; s = s\<lparr>se_assembler := Some a'\<rparr>
           in if ok then (Inr (), s) else se_fail pf 400 (asc ''socket message too large'') s))"

definition endMessage :: "platform \<Rightarrow> (secure_session, session_error, unit) throwing" where
  "endMessage pf s =
     (case se_assembler s of
        None \<Rightarrow> (Inr (), s)
      | Some a \<Rightarrow>
          (let (ended, a') = assembler_end a; s = s\<lparr>se_assembler := Some a'\<rparr>
           in case ended of
             None \<Rightarrow> se_fail pf 400 (asc ''socket message too large'') s
           | Some msg \<Rightarrow>
               (case se_socket s of
                  None \<Rightarrow> se_fail pf 400 (asc ''a message arrived before the socket was open'') s
                | Some j \<Rightarrow>
                    let state = lk_state (se_sockets s ! j) in
                    if state \<noteq> Ws_open
                    then se_fail pf 400 (asc ''a message arrived before the socket was open'') s
                    else if pf_send_throws pf state then (Inl Library_threw, s)
                    else (Inr (), on_socket j (called (Call_send msg)) s))))"

definition nullish :: "json \<Rightarrow> string \<Rightarrow> json \<Rightarrow> json" where
  "nullish v k otherwise = (case field_of v (asc k) of None \<Rightarrow> otherwise | Some JNull \<Rightarrow> otherwise | Some x \<Rightarrow> x)"

definition closeSocket :: "platform \<Rightarrow> bytes \<Rightarrow> (secure_session, session_error, unit) throwing" where
  "closeSocket pf payload s =
     (let close = (case decodeJson (pf_parse pf) payload of None \<Rightarrow> JObj [] | Some v \<Rightarrow> v) in
      case isCloseCode (nullish close ''code'' (json_num 1000)) of
        None \<Rightarrow> se_fail pf 400 (asc ''unusable close code'') s
      | Some code \<Rightarrow>
          (case nullish close ''reason'' (JStr []) of
             JStr reason \<Rightarrow>
               if MAX_CLOSE_REASON_BYTES < utf8_bytes reason
               then se_fail pf 400 (asc ''unusable close reason'') s
               else (case se_socket s of
                   None \<Rightarrow> (Inr (), s)
                 | Some j \<Rightarrow>
                     if pf_close_throws pf (lk_state (se_sockets s ! j)) code reason then (Inl Library_threw, s)
                     else (Inr (), on_socket j (called (Call_close code reason)) s))
           | _ \<Rightarrow> se_fail pf 400 (asc ''unusable close reason'') s))"

subsection \<open>The frame loop\<close>

definition se_present :: "platform \<Rightarrow> rat \<Rightarrow> bytes \<Rightarrow> (secure_session, session_error, unit) throwing" where
  "se_present pf now payload s =
     (case Option.bind (decodeJson (pf_parse pf) payload) (\<lambda>hello. string_field hello ''capability'') of
        None \<Rightarrow> se_fail pf 400 (asc ''unreadable capability'') s
      | Some capability \<Rightarrow>
          (case pf_verify pf (Some capability) now \<lparr>peerKeyThumbprint = se_peerThumbprint s\<rparr> of
             Inl refusal \<Rightarrow> se_fail pf 401 (code_name (af_code refusal)) (report (Ev_refused (af_code refusal)) s)
           | Inr p \<Rightarrow>
               (let s = s\<lparr>se_authorized := True, se_capability := Some capability\<rparr> in
                case encodeFrame READY [] of
                  Inl e \<Rightarrow> (Inl (Frame_threw e), s)
                | Inr frame \<Rightarrow>
                    (Inr (), report (Ev_opened (case pr_deviceId p of None \<Rightarrow> pr_subject p | Some d \<Rightarrow> d))
                       (se_write pf frame s)))))"

definition already_carrying :: ustring where
  "already_carrying = asc ''this connection is already carrying something''"

definition carrying_socket :: ustring where
  "carrying_socket = asc ''this connection is carrying a socket''"

definition handle :: "platform \<Rightarrow> rat \<Rightarrow> bytes \<Rightarrow> (secure_session, session_error, unit) throwing" where
  "handle pf now frame s =
     (case decodeFrame frame of
        None \<Rightarrow> se_fail pf 400 (asc ''empty frame'') s
      | Some (t, payload) \<Rightarrow>
          if \<not> se_authorized s then
            (if t \<noteq> FRAME HELLO then se_fail pf 401 (asc ''the first frame must present a capability'') s
             else se_present pf now payload s)
          else if t = FRAME REQUEST then
            (if se_carrying s \<noteq> Carrying_none then se_fail pf 400 already_carrying s
             else startRequest pf payload s)
          else if t = FRAME REQUEST_BODY then
            (if se_carrying s = Carrying_socket then se_fail pf 400 carrying_socket s
             else (Inr (), maybe (se_requestBody s) (\<lambda>i. body_chunk pf i payload) s))
          else if t = FRAME REQUEST_END then
            (if se_carrying s = Carrying_socket then se_fail pf 400 carrying_socket s
             else (Inr (), (maybe (se_requestBody s) body_end s)\<lparr>se_requestBody := None\<rparr>))
          else if t = FRAME OPEN then
            (if se_carrying s \<noteq> Carrying_none then se_fail pf 400 already_carrying s
             else openSocket pf payload s)
          else if t = FRAME MESSAGE then pushMessage pf payload s
          else if t = FRAME MESSAGE_END then endMessage pf s
          else if t = FRAME CLOSE then closeSocket pf payload s
          else se_fail pf 400 (asc ''unexpected frame '' @ decimal (unat t)) s)"

text \<open>What \<open>handle\<close> throws becomes a refusal here; only a throw of that refusal leaves it.\<close>

definition dispatch :: "platform \<Rightarrow> rat \<Rightarrow> bytes \<Rightarrow> (secure_session, session_error, unit) throwing" where
  "dispatch pf now frame s =
     (case handle pf now frame s of
        (Inr _, s) \<Rightarrow> (Inr (), s)
      | (Inl e, s) \<Rightarrow> se_fail pf 400 (asc ''unusable frame'') (report Ev_threw s))"

text \<open>
  \<open>doHandshake\<close>: the stages that may throw, each with what the object has become; the catch
  reports and destroys. \<open>None\<close> is the error thrown when there is no peer key.
\<close>

definition handshake_steps ::
  "platform \<Rightarrow> bytes \<Rightarrow> (secure_session, noise_error option, unit) throwing" where
  "handshake_steps pf message s =
     (case readMessage (pf_crypto pf) message (se_handshake s) of
        (Inl e, h) \<Rightarrow> (Inl (Some e), s\<lparr>se_handshake := h\<rparr>)
      | (Inr _, h) \<Rightarrow>
          (case writeMessage (pf_crypto pf) [] h of
             (Inl e, h) \<Rightarrow> (Inl (Some e), s\<lparr>se_handshake := h\<rparr>)
           | (Inr reply, h) \<Rightarrow>
               (case frameLength reply of
                  Inl e \<Rightarrow> (Inl None, s\<lparr>se_handshake := h\<rparr>)
                | Inr w \<Rightarrow>
                    let s = s\<lparr>se_handshake := h, se_written := se_written s @ [w]\<rparr> in
                    case noise_split h of
                      Inl e \<Rightarrow> (Inl (Some e), s)
                    | Inr transport \<Rightarrow>
                        let s = s\<lparr>se_send := Some (nt_send transport), se_receive := Some (nt_receive transport)\<rparr> in
                        case hs_remote_static h of
                          None \<Rightarrow> (Inl None, s)
                        | Some remote \<Rightarrow>
                            (Inr (), s\<lparr>se_peerThumbprint :=
                               Some (jwkThumbprint (pf_sha256 pf) (b64uEncode remote))\<rparr>))))"

definition doHandshake :: "platform \<Rightarrow> bytes \<Rightarrow> secure_session \<Rightarrow> secure_session" where
  "doHandshake pf message s =
     (case handshake_steps pf message s of
        (Inr _, s) \<Rightarrow> s
      | (Inl e, s) \<Rightarrow> se_destroy (asc ''handshake failed'') (report (Ev_handshake_failed e) s))"

text \<open>
  One round of the loop of \<open>consume\<close>, and the loop. A throw that leaves it ends the session
  in the catch of the promise chain.
\<close>

definition consume_one :: "platform \<Rightarrow> rat \<Rightarrow> bytes \<Rightarrow> (secure_session, session_error, unit) throwing" where
  "consume_one pf now message s =
     (if se_closed s \<or> se_failed s then (Inr (), s)
      else if se_send s = None then (Inr (), doHandshake pf message s)
      else case se_receive s of
        None \<Rightarrow> (Inr (), se_destroy (asc ''bad ciphertext'') (report Ev_crypto_failure s))
      | Some ci \<Rightarrow>
          (case cipher_decrypt (pf_crypto pf) [] message ci of
             (Inl e, ci') \<Rightarrow>
               (Inr (), se_destroy (asc ''bad ciphertext'') (report Ev_crypto_failure (s\<lparr>se_receive := Some ci'\<rparr>)))
           | (Inr frame, ci') \<Rightarrow> dispatch pf now frame (s\<lparr>se_receive := Some ci', se_heard := se_heard s @ [frame]\<rparr>)))"

fun consume_each :: "platform \<Rightarrow> rat \<Rightarrow> bytes list \<Rightarrow> (secure_session, session_error, unit) throwing" where
  "consume_each pf now [] s = (Inr (), s)"
| "consume_each pf now (m # ms) s = and_then (consume_one pf now m) (\<lambda>_. consume_each pf now ms) s"

definition consume :: "platform \<Rightarrow> rat \<Rightarrow> bytes \<Rightarrow> secure_session \<Rightarrow> secure_session" where
  "consume pf now chunk s =
     (if se_closed s then s
      else
        let (messages, reader) = length_reader_push (se_reader s) chunk in
        case consume_each pf now messages (s\<lparr>se_reader := reader\<rparr>) of
          (Inr _, s) \<Rightarrow> s
        | (Inl e, s) \<Rightarrow> se_destroy (asc ''the frame loop failed'') s)"

subsection \<open>What the listener answers\<close>

definition HIGH_WATER :: nat where "HIGH_WATER = BODY_CHUNK_BYTES * 8"

datatype header_value = One_header ustring | Many_headers "ustring list" | No_header

fun answered_headers :: "(ustring \<times> header_value) list \<Rightarrow> (ustring \<times> json) list" where
  "answered_headers [] = []"
| "answered_headers ((name, One_header v) # hs) = (name, JStr v) # answered_headers hs"
| "answered_headers ((name, Many_headers vs) # hs) = (name, JStr (join (asc '', '') vs)) # answered_headers hs"
| "answered_headers ((name, No_header) # hs) = answered_headers hs"

definition response_head :: "nat option \<Rightarrow> ustring option \<Rightarrow> (ustring \<times> header_value) list \<Rightarrow> json" where
  "response_head status statusText headers =
     JObj [(asc ''status'', json_num (case status of None \<Rightarrow> 502 | Some n \<Rightarrow> n)),
       (asc ''statusText'', JStr (case statusText of None \<Rightarrow> [] | Some t \<Rightarrow> t)),
       (asc ''headers'', JObj (answered_headers headers))]"

definition request_answered ::
  "platform \<Rightarrow> nat \<Rightarrow> nat option \<Rightarrow> ustring option \<Rightarrow> (ustring \<times> header_value) list
    \<Rightarrow> (secure_session, session_error, unit) throwing" where
  "request_answered pf i status statusText headers s =
     (let s = (on_request i (ur_phase_update (\<lambda>_. Unread_answer)) s)\<lparr>se_upstream := Some i\<rparr> in
      case tryEncodeJsonFrame RESPONSE (response_head status statusText headers) of
        Inl e \<Rightarrow> (Inl (Frame_threw e), s)
      | Inr None \<Rightarrow> se_fail pf 502 (asc ''the answer's head is too large to carry'') s
      | Inr (Some frame) \<Rightarrow>
          (Inr (), on_request i (ur_phase_update (\<lambda>_. Reading)) (se_write pf frame s)))"

text \<open>Frames written one after another; a throw of the encoder is the result.\<close>

fun write_chunks :: "platform \<Rightarrow> bytes list \<Rightarrow> (secure_session, session_error, unit) throwing" where
  "write_chunks pf [] s = (Inr (), s)"
| "write_chunks pf (c # cs) s =
     (case encodeFrame RESPONSE_BODY c of
        Inl e \<Rightarrow> (Inl (Frame_threw e), s)
      | Inr frame \<Rightarrow> write_chunks pf cs (se_write pf frame s))"

definition answer_chunk ::
  "platform \<Rightarrow> nat \<Rightarrow> bytes \<Rightarrow> nat \<Rightarrow> (secure_session, session_error, unit) throwing" where
  "answer_chunk pf i chunk writableLength s =
     and_then (write_chunks pf (chunks BODY_CHUNK_BYTES chunk))
       (\<lambda>_ s. (Inr (), if HIGH_WATER < writableLength
          then (on_request i (ur_responsePaused_update (\<lambda>_. True)) s)
            \<lparr>se_onDrain := se_onDrain s @ [Resume_response i]\<rparr>
          else s)) s"

definition answer_ended :: "platform \<Rightarrow> nat \<Rightarrow> bool \<Rightarrow> (secure_session, session_error, unit) throwing" where
  "answer_ended pf i whole s =
     (let s = (on_request i (ur_phase_update (\<lambda>_. Answer_over)) s)\<lparr>se_upstream := None,
            se_onDrain := remove1 (Resume_response i) (se_onDrain s), se_requestBody := None,
            se_carrying := Carrying_none\<rparr>
      in and_then
        (if whole then
           (case encodeFrame RESPONSE_END [] of
              Inl e \<Rightarrow> throw (Frame_threw e)
            | Inr frame \<Rightarrow> (\<lambda>s. (Inr (), se_write pf frame s)))
         else se_fail pf 502 (asc ''truncated''))
        (\<lambda>_ s. (Inr (), (on_request i (\<lambda>r. if ur_ended r then r else r\<lparr>ur_destroyed := True\<rparr>) s)
           \<lparr>se_upstreamRequest := None\<rparr>)) s)"

subsection \<open>What the socket brings\<close>

definition socket_opened :: "platform \<Rightarrow> nat \<Rightarrow> (secure_session, session_error, unit) throwing" where
  "socket_opened pf j s =
     (let s = on_socket j (\<lambda>k. k\<lparr>lk_dialTimer := False\<rparr>) s in
      case encodeFrame OPENED [] of
        Inl e \<Rightarrow> (Inl (Frame_threw e), s)
      | Inr frame \<Rightarrow> (Inr (), se_write pf frame s))"

definition socket_message ::
  "platform \<Rightarrow> nat \<Rightarrow> bytes \<Rightarrow> nat \<Rightarrow> (secure_session, session_error, unit) throwing" where
  "socket_message pf j data writableLength s =
     (case encodeMessageFrames data of
        Inl e \<Rightarrow> (Inl (Frame_threw e), s)
      | Inr frames \<Rightarrow>
          (let s = fold (se_write pf) frames s in
           (Inr (), if lk_paused (se_sockets s ! j) \<or> writableLength \<le> HIGH_WATER then s
             else (on_socket j (\<lambda>k. k\<lparr>lk_paused := True\<rparr>) s)
               \<lparr>se_onDrain := se_onDrain s @ [Resume_socket j]\<rparr>)))"

definition socket_resume :: "nat \<Rightarrow> secure_session \<Rightarrow> secure_session" where
  "socket_resume j s = on_socket j (\<lambda>k. k\<lparr>lk_paused := False\<rparr>) s"

definition socket_closed ::
  "platform \<Rightarrow> nat \<Rightarrow> int \<Rightarrow> ustring \<Rightarrow> (secure_session, session_error, unit) throwing" where
  "socket_closed pf j code reason s =
     (let s = on_socket j (\<lambda>k. k\<lparr>lk_dialTimer := False\<rparr>) s in
      case encodeJsonFrame CLOSE (close_frame code reason) of
        Inl e \<Rightarrow> (Inl (Frame_threw e), s)
      | Inr frame \<Rightarrow>
          (Inr (), (let s = se_write pf frame s in s\<lparr>se_socket := None, se_assembler := None,
             se_carrying := Carrying_none, se_onClose := remove1 (Close_resumes_socket j) (se_onClose s),
             se_onDrain := remove1 (Resume_socket j) (se_onDrain s)\<rparr>)))"

definition dial_timeout :: "platform \<Rightarrow> nat \<Rightarrow> (secure_session, session_error, unit) throwing" where
  "dial_timeout pf j s =
     (if lk_state (se_sockets s ! j) \<noteq> Ws_connecting then (Inr (), s)
      else se_fail pf 502 (asc ''the socket never opened'') s)"

subsection \<open>Events\<close>

datatype session_callback =
    On_data bytes rat
  | On_stream_error
  | On_stream_close
  | On_drain
  | On_fail_timeout
  | On_response nat "nat option" "ustring option" "(ustring \<times> header_value) list"
  | On_response_data nat bytes nat
  | On_response_end nat bool
  | On_response_error nat
  | On_request_timeout nat
  | On_request_error nat
  | On_request_drain nat
  | On_request_close nat
  | On_socket_open nat
  | On_socket_message nat bytes nat
  | On_socket_closing nat
  | On_socket_close nat int ustring
  | On_socket_error nat
  | On_dial_timeout nat

fun fire_drain :: "drain_listener \<Rightarrow> secure_session \<Rightarrow> secure_session" where
  "fire_drain (Resume_response i) s = on_request i (ur_responsePaused_update (\<lambda>_. False)) s"
| "fire_drain (Resume_socket j) s = socket_resume j s"

fun fire_close :: "close_listener \<Rightarrow> secure_session \<Rightarrow> secure_session" where
  "fire_close (Destroy_session reason) s = se_destroy reason s"
| "fire_close (Close_resumes_socket j) s = socket_resume j s"

definition tunnel_failed :: "platform \<Rightarrow> (secure_session, session_error, unit) throwing" where
  "tunnel_failed pf = se_fail pf 502 (asc ''tunnel_failed'')"

fun secure_step :: "platform \<Rightarrow> session_callback \<Rightarrow> (secure_session, session_error, unit) throwing" where
  "secure_step pf (On_data chunk now) s = (Inr (), consume pf now chunk s)"
| "secure_step pf On_stream_error s = (Inr (), se_destroy (asc ''stream error'') s)"
| "secure_step pf On_stream_close s =
     (Inr (), fold fire_close (se_onClose s) ((se_destroy (asc ''stream closed'') s)\<lparr>se_onClose := []\<rparr>))"
| "secure_step pf On_drain s = (Inr (), fold fire_drain (se_onDrain s) (s\<lparr>se_onDrain := []\<rparr>))"
| "secure_step pf On_fail_timeout s =
     (Inr (), maybe (se_failTimer s) se_destroy (s\<lparr>se_failTimer := None\<rparr>))"
| "secure_step pf (On_response i status statusText headers) s = request_answered pf i status statusText headers s"
| "secure_step pf (On_response_data i chunk writableLength) s = answer_chunk pf i chunk writableLength s"
| "secure_step pf (On_response_end i whole) s = answer_ended pf i whole s"
| "secure_step pf (On_response_error i) s = tunnel_failed pf s"
| "secure_step pf (On_request_timeout i) s = (Inr (), on_request i (ur_destroyed_update (\<lambda>_. True)) s)"
| "secure_step pf (On_request_error i) s = tunnel_failed pf s"
| "secure_step pf (On_request_drain i) s = (Inr (), body_resume i s)"
| "secure_step pf (On_request_close i) s = (Inr (), body_resume i s)"
| "secure_step pf (On_socket_open j) s = socket_opened pf j (on_socket j (lk_state_update (\<lambda>_. Ws_open)) s)"
| "secure_step pf (On_socket_message j data writableLength) s = socket_message pf j data writableLength s"
| "secure_step pf (On_socket_closing j) s = (Inr (), on_socket j (lk_state_update (\<lambda>_. Ws_closing)) s)"
| "secure_step pf (On_socket_close j code reason) s =
     socket_closed pf j code reason (on_socket j (lk_state_update (\<lambda>_. Ws_closed)) s)"
| "secure_step pf (On_socket_error j) s = tunnel_failed pf s"
| "secure_step pf (On_dial_timeout j) s = dial_timeout pf j s"

subsection \<open>What the platform may do\<close>

text \<open>
  When each callback can be called, as Node and \<open>ws\<close> document it: a response comes once, to a
  request that was not destroyed; its data and its end come after it, no data while it is
  paused; a socket opens once, while connecting, and speaks after that; nothing comes after
  its close.
\<close>

definition terminated :: "loopback_socket \<Rightarrow> bool" where
  "terminated k \<longleftrightarrow> Call_terminate \<in> set (lk_calls k)"

definition request_at :: "secure_session \<Rightarrow> nat \<Rightarrow> (upstream_request \<Rightarrow> bool) \<Rightarrow> bool" where
  "request_at s i P \<longleftrightarrow> i < length (se_requests s) \<and> P (se_requests s ! i)"

definition socket_at :: "secure_session \<Rightarrow> nat \<Rightarrow> (loopback_socket \<Rightarrow> bool) \<Rightarrow> bool" where
  "socket_at s j P \<longleftrightarrow> j < length (se_sockets s) \<and> P (se_sockets s ! j)"

fun possible :: "session_callback \<Rightarrow> secure_session \<Rightarrow> bool" where
  "possible (On_response i _ _ _) s = request_at s i (\<lambda>r. ur_phase r = No_answer \<and> \<not> ur_destroyed r)"
| "possible (On_response_data i _ _) s =
     request_at s i (\<lambda>r. ur_phase r = Reading \<and> \<not> ur_destroyed r \<and> \<not> ur_responsePaused r)"
| "possible (On_response_end i _) s = request_at s i (\<lambda>r. ur_phase r = Reading \<and> \<not> ur_destroyed r)"
| "possible (On_socket_open j) s = socket_at s j (\<lambda>k. lk_state k = Ws_connecting \<and> \<not> terminated k)"
| "possible (On_socket_message j _ _) s =
     socket_at s j (\<lambda>k. lk_state k \<in> {Ws_open, Ws_closing} \<and> \<not> lk_dialTimer k \<and> \<not> terminated k)"
| "possible (On_socket_closing j) s = socket_at s j (\<lambda>k. lk_state k \<in> {Ws_connecting, Ws_open})"
| "possible (On_socket_close j code reason) s =
     (socket_at s j (\<lambda>k. lk_state k \<noteq> Ws_closed) \<and> 0 \<le> code \<and> code < 10000 \<and> length reason \<le> MAX_CLOSE_REASON_BYTES)"
| "possible (On_dial_timeout j) s = socket_at s j lk_dialTimer"
| "possible (On_response_error i) s = request_at s i (\<lambda>_. True)"
| "possible (On_request_timeout i) s = request_at s i (\<lambda>_. True)"
| "possible (On_request_error i) s = request_at s i (\<lambda>_. True)"
| "possible (On_socket_error j) s = socket_at s j (\<lambda>_. True)"
| "possible _ s = True"

inductive reaches :: "platform \<Rightarrow> secure_session \<Rightarrow> secure_session \<Rightarrow> bool" for pf where
  reaches_start: "reaches pf s s"
| reaches_step: "reaches pf s t \<Longrightarrow> possible ev t \<Longrightarrow> secure_step pf ev t = (r, u) \<Longrightarrow> reaches pf s u"

subsection \<open>Small facts\<close>

lemma length_edit [simp]: "length (edit i f xs) = length xs"
  by (simp add: edit_def)

lemma nth_edit: "k < length xs \<Longrightarrow> edit i f xs ! k = (if k = i then f (xs ! k) else xs ! k)"
  by (simp add: edit_def nth_list_update)

lemma edit_edit [simp]: "edit i f (edit i g xs) = edit i (f \<circ> g) xs"
  by (simp add: edit_def)

text \<open>
  A destroyed session: what it held is destroyed with it, and nothing else of it changes.
\<close>

definition let_go :: "secure_session \<Rightarrow> secure_session" where
  "let_go s = s\<lparr>se_closed := True, se_requestBody := None, se_carrying := Carrying_none, se_upstreamRequest := None,
     se_upstream := None, se_socket := None, se_assembler := None, se_streamDestroyed := True,
     se_requests := maybe (se_upstream s) (\<lambda>i. edit i (ur_destroyed_update (\<lambda>_. True)))
       (maybe (se_upstreamRequest s) (\<lambda>i. edit i (ur_destroyed_update (\<lambda>_. True))) (se_requests s)),
     se_sockets := maybe (se_socket s) (\<lambda>j. edit j (called Call_terminate)) (se_sockets s)\<rparr>"

lemma se_destroy_eq: "se_destroy d s = (if se_closed s then s else report (Ev_closed d) (let_go s))"
  by (cases s) (simp add: se_destroy_def let_go_def report_def maybe_def Let_def split: option.split)

lemma sealAndWrite_cases:
  obtains "sealAndWrite pf f s = s" and "se_closed s \<or> se_send s = None"
  | ci w where "\<not> se_closed s" and "se_send s \<noteq> None"
      and "sealAndWrite pf f s = s\<lparr>se_send := Some ci, se_written := se_written s @ [w], se_frames := se_frames s @ [f]\<rparr>"
  | ci d where "\<not> se_closed s" and "se_send s \<noteq> None"
      and "sealAndWrite pf f s = report (Ev_closed d) (let_go (s\<lparr>se_send := Some ci\<rparr>))"
  by (cases "se_closed s"; cases "se_send s";
      cases "cipher_encrypt (pf_crypto pf) [] f (the (se_send s))";
      cases "fst (cipher_encrypt (pf_crypto pf) [] f (the (se_send s)))";
      cases "frameLength (projr (fst (cipher_encrypt (pf_crypto pf) [] f (the (se_send s)))))")
    (auto simp: sealAndWrite_def se_destroy_eq)

text \<open>A refusal always fits its frame.\<close>

lemma length_escape_le: "length (escape_string s) \<le> 6 * length s"
  by (induction s rule: escape_string.induct) (auto simp: hex_escape_def escape_unit_def)

lemma length_utf8_le: "length (utf8_encode s) \<le> 4 * length s"
  by (induction s rule: utf8_encode.induct) (auto simp: utf8_point_def)

lemma close_frame_fits:
  assumes "0 \<le> code" and "code < 10000" and "length reason \<le> 200"
  shows "\<exists>f. encodeJsonFrame t (close_frame code reason) = Inr (FRAME t # f)"
proof -
  have "length (decimal (nat code)) \<le> 4" using length_decimal [of 4 "nat code"] assms by simp
  moreover have "length (escape_string reason) \<le> 1200" using length_escape_le [of reason] assms(3) by simp
  ultimately have "length (stringify (close_frame code reason)) \<le> 1300"
    using assms(1) by (simp add: close_frame_def json_quote_def asc_def escape_unit_def high_surrogate_def low_surrogate_def)
  then have "length (utf8_encode (stringify (close_frame code reason))) \<le> MAX_FRAME_PAYLOAD"
    using length_utf8_le [of "stringify (close_frame code reason)"] by (simp add: MAX_FRAME_PAYLOAD_def)
  then show ?thesis by (simp add: encodeJsonFrame_def tryEncodeJsonFrame_cases)
qed

definition refusing :: "platform \<Rightarrow> ustring \<Rightarrow> bytes \<Rightarrow> secure_session \<Rightarrow> secure_session" where
  "refusing pf reason frame s = (sealAndWrite pf frame (s\<lparr>se_failed := True, se_requestBody := None\<rparr>))
     \<lparr>se_streamEnded := True, se_onClose := se_onClose s @ [Destroy_session reason], se_failTimer := Some reason\<rparr>"

lemma se_onClose_seal [simp]: "se_onClose (sealAndWrite pf f s) = se_onClose s"
  by (rule sealAndWrite_cases [of pf f s]) (auto simp: let_go_def report_def)

lemma se_fail_eq:
  assumes "0 \<le> code" and "code < 10000" and "length reason \<le> 200"
  obtains f where "\<And>s. se_fail pf code reason s =
    (Inr (), if se_closed s \<or> se_failed s then s else refusing pf reason (FRAME FAILED # f) s)"
proof -
  obtain f where "encodeJsonFrame FAILED (close_frame code reason) = Inr (FRAME FAILED # f)"
    using close_frame_fits [OF assms] by blast
  then show thesis by (intro that [of f]) (simp add: se_fail_def refusing_def Let_def)
qed

subsection \<open>The invariant\<close>

text \<open>
  The daemon's side of the conversation, frame by frame: \<open>READY\<close> first, then one whole answer
  or one socket's messages at a time, and nothing after \<open>FAILED\<close>.
\<close>

datatype talk = Talk_start | Talk_idle | Talk_answer | Talk_socket | Talk_message | Talk_over

definition hears :: "talk \<Rightarrow> 8 word \<Rightarrow> talk option" where
  "hears p t =
     (if p = Talk_over then None
      else if t = FRAME FAILED then Some Talk_over
      else case p of
        Talk_start \<Rightarrow> if t = FRAME READY then Some Talk_idle else None
      | Talk_idle \<Rightarrow> if t = FRAME RESPONSE then Some Talk_answer else if t = FRAME OPENED then Some Talk_socket
          else if t = FRAME CLOSE then Some Talk_idle else None
      | Talk_answer \<Rightarrow> if t = FRAME RESPONSE_BODY then Some Talk_answer
          else if t = FRAME RESPONSE_END then Some Talk_idle else None
      | Talk_socket \<Rightarrow> if t = FRAME MESSAGE then Some Talk_message else if t = FRAME MESSAGE_END then Some Talk_socket
          else if t = FRAME CLOSE then Some Talk_idle else None
      | Talk_message \<Rightarrow> if t = FRAME MESSAGE then Some Talk_message
          else if t = FRAME MESSAGE_END then Some Talk_socket else None
      | Talk_over \<Rightarrow> None)"

fun talked :: "talk \<Rightarrow> bytes list \<Rightarrow> talk option" where
  "talked p [] = Some p"
| "talked p ([] # fs) = None"
| "talked p ((t # payload) # fs) = Option.bind (hears p t) (\<lambda>q. talked q fs)"

lemma talked_append: "talked p (fs @ gs) = Option.bind (talked p fs) (\<lambda>q. talked q gs)"
proof (induction p fs rule: talked.induct)
  case (3 p t payload fs)
  then show ?case by (cases "hears p t") simp_all
qed simp_all

definition live_request :: "upstream_request \<Rightarrow> bool" where
  "live_request r \<longleftrightarrow> \<not> ur_destroyed r \<and> \<not> (ur_ended r \<and> ur_phase r = Answer_over)"

definition live_socket :: "loopback_socket \<Rightarrow> bool" where
  "live_socket k \<longleftrightarrow> lk_state k \<noteq> Ws_closed \<and> \<not> terminated k"

definition requests_held :: "upstream_request list \<Rightarrow> nat option \<Rightarrow> bool" where
  "requests_held rs u \<longleftrightarrow> (\<forall>i<length rs. live_request (rs ! i) \<longrightarrow> u = Some i) \<and>
     (\<forall>i. u = Some i \<longrightarrow> i < length rs \<and> ur_phase (rs ! i) \<noteq> Answer_over)"

definition sockets_held :: "loopback_socket list \<Rightarrow> nat option \<Rightarrow> bool" where
  "sockets_held ks v \<longleftrightarrow> (\<forall>j<length ks. live_socket (ks ! j) \<longrightarrow> v = Some j) \<and>
     (\<forall>j. v = Some j \<longrightarrow> j < length ks \<and> live_socket (ks ! j))"

definition sane :: "bool \<Rightarrow> loopback_socket \<Rightarrow> bool" where
  "sane gone k \<longleftrightarrow> (terminated k \<longrightarrow> gone) \<and> (lk_state k = Ws_connecting \<longrightarrow> lk_dialTimer k)"

definition held :: "secure_session \<Rightarrow> bool" where
  "held s \<longleftrightarrow> requests_held (se_requests s) (se_upstreamRequest s) \<and> sockets_held (se_sockets s) (se_socket s) \<and>
     (se_upstreamRequest s = None \<or> se_socket s = None) \<and>
     se_carrying s = (if se_upstreamRequest s \<noteq> None then Carrying_request
       else if se_socket s \<noteq> None then Carrying_socket else Carrying_none) \<and>
     (se_upstream s = None \<or> se_upstream s = se_upstreamRequest s) \<and>
     (se_assembler s = None \<longleftrightarrow> se_socket s = None) \<and>
     (se_closed s \<longrightarrow> se_upstreamRequest s = None \<and> se_socket s = None) \<and>
     (\<forall>j<length (se_sockets s). sane (se_closed s) (se_sockets s ! j))"

definition holding :: "secure_session \<Rightarrow> bool" where
  "holding s \<longleftrightarrow> held s \<and> (se_requestBody s = None \<or> se_requestBody s = se_upstreamRequest s)"

definition talking :: "talk \<Rightarrow> secure_session \<Rightarrow> bool" where
  "talking p s \<longleftrightarrow>
     talked Talk_start (se_frames s) \<noteq> None \<and>
     (\<not> se_closed s \<longrightarrow> talked Talk_start (se_frames s) = Some (if se_failed s then Talk_over else p)) \<and>
     (se_send s = None \<longrightarrow> \<not> se_authorized s \<and> \<not> se_failed s) \<and>
     (\<not> se_authorized s \<longrightarrow> se_requests s = [] \<and> se_sockets s = [])"

definition talk_of :: "secure_session \<Rightarrow> talk" where
  "talk_of s =
     (if \<not> se_authorized s then Talk_start
      else case se_socket s of
        Some j \<Rightarrow> if lk_dialTimer (se_sockets s ! j) then Talk_idle else Talk_socket
      | None \<Rightarrow>
          (case se_upstreamRequest s of
             Some i \<Rightarrow> if ur_phase (se_requests s ! i) = Reading then Talk_answer else Talk_idle
           | None \<Rightarrow> Talk_idle))"

text \<open>The listeners on the stream, which outlives every exchange.\<close>

definition socket_listener :: "secure_session \<Rightarrow> close_listener list" where
  "socket_listener s = (case se_socket s of None \<Rightarrow> [] | Some j \<Rightarrow> [Close_resumes_socket j])"

definition listening :: "secure_session \<Rightarrow> bool" where
  "listening s \<longleftrightarrow>
     (\<not> se_closed s \<longrightarrow>
       (\<forall>i. Resume_response i \<in> set (se_onDrain s) \<longrightarrow> se_upstreamRequest s = Some i
          \<and> ur_responsePaused (se_requests s ! i) \<and> ur_phase (se_requests s ! i) = Reading) \<and>
       (\<forall>j. Resume_socket j \<in> set (se_onDrain s) \<longrightarrow> se_socket s = Some j \<and> lk_paused (se_sockets s ! j)) \<and>
       (if se_failed s then \<exists>reason. se_onClose s = socket_listener s @ [Destroy_session reason]
        else se_onClose s = socket_listener s)) \<and>
     length (se_onDrain s) \<le> 1 \<and> length (se_onClose s) \<le> 2"

text \<open>What no part of the invariant looks at.\<close>

lemma holding_quiet [simp]:
  "holding (s\<lparr>se_send := a\<rparr>) = holding s" "holding (s\<lparr>se_written := b\<rparr>) = holding s"
  "holding (s\<lparr>se_frames := c\<rparr>) = holding s" "holding (s\<lparr>se_reader := d\<rparr>) = holding s"
  "holding (s\<lparr>se_handshake := e\<rparr>) = holding s" "holding (s\<lparr>se_receive := f\<rparr>) = holding s"
  "holding (s\<lparr>se_peerThumbprint := g\<rparr>) = holding s" "holding (s\<lparr>se_authorized := h\<rparr>) = holding s"
  "holding (s\<lparr>se_capability := k\<rparr>) = holding s" "holding (s\<lparr>se_failed := l\<rparr>) = holding s"
  "holding (s\<lparr>se_streamEnded := m\<rparr>) = holding s" "holding (s\<lparr>se_streamPaused := n\<rparr>) = holding s"
  "holding (s\<lparr>se_onDrain := q\<rparr>) = holding s" "holding (s\<lparr>se_onClose := t\<rparr>) = holding s"
  "holding (s\<lparr>se_heard := w\<rparr>) = holding s" "holding (s\<lparr>se_failTimer := u\<rparr>) = holding s" "holding (report v s) = holding s"
  by (simp_all add: holding_def held_def report_def)

lemma held_quiet [simp]: "held (s\<lparr>se_requestBody := x\<rparr>) = held s" "held (s\<lparr>se_failed := y\<rparr>) = held s"
  by (simp_all add: held_def)

lemma talking_quiet [simp]:
  "talking p (s\<lparr>se_written := b\<rparr>) = talking p s" "talking p (s\<lparr>se_reader := d\<rparr>) = talking p s"
  "talking p (s\<lparr>se_handshake := e\<rparr>) = talking p s" "talking p (s\<lparr>se_receive := f\<rparr>) = talking p s"
  "talking p (s\<lparr>se_peerThumbprint := g\<rparr>) = talking p s" "talking p (s\<lparr>se_capability := k\<rparr>) = talking p s"
  "talking p (s\<lparr>se_streamEnded := m\<rparr>) = talking p s" "talking p (s\<lparr>se_streamPaused := n\<rparr>) = talking p s"
  "talking p (s\<lparr>se_onDrain := q\<rparr>) = talking p s" "talking p (s\<lparr>se_onClose := t\<rparr>) = talking p s"
  "talking p (s\<lparr>se_heard := cc\<rparr>) = talking p s" "talking p (s\<lparr>se_failTimer := u\<rparr>) = talking p s" "talking p (report v s) = talking p s"
  "talking p (s\<lparr>se_carrying := w\<rparr>) = talking p s" "talking p (s\<lparr>se_upstream := x\<rparr>) = talking p s"
  "talking p (s\<lparr>se_upstreamRequest := y\<rparr>) = talking p s" "talking p (s\<lparr>se_socket := z\<rparr>) = talking p s"
  "talking p (s\<lparr>se_assembler := aa\<rparr>) = talking p s" "talking p (s\<lparr>se_requestBody := bb\<rparr>) = talking p s"
  "talking p (on_request i ff s) = talking p s" "talking p (on_socket j gg s) = talking p s"
  by (simp_all add: talking_def report_def edit_def)

lemma socket_listener_quiet [simp]:
  "socket_listener (on_request i f s) = socket_listener s" "socket_listener (on_socket j g s) = socket_listener s"
  "socket_listener (s\<lparr>se_onDrain := q\<rparr>) = socket_listener s"
  by (simp_all add: socket_listener_def)

lemma listening_quiet [simp]:
  "listening (s\<lparr>se_send := a\<rparr>) = listening s" "listening (s\<lparr>se_written := b\<rparr>) = listening s"
  "listening (s\<lparr>se_frames := c\<rparr>) = listening s" "listening (s\<lparr>se_reader := d\<rparr>) = listening s"
  "listening (s\<lparr>se_handshake := e\<rparr>) = listening s" "listening (s\<lparr>se_receive := f\<rparr>) = listening s"
  "listening (s\<lparr>se_peerThumbprint := g\<rparr>) = listening s" "listening (s\<lparr>se_authorized := h\<rparr>) = listening s"
  "listening (s\<lparr>se_capability := k\<rparr>) = listening s" "listening (s\<lparr>se_requestBody := l\<rparr>) = listening s"
  "listening (s\<lparr>se_streamEnded := m\<rparr>) = listening s" "listening (s\<lparr>se_streamPaused := n\<rparr>) = listening s"
  "listening (s\<lparr>se_heard := z\<rparr>) = listening s" "listening (s\<lparr>se_failTimer := u\<rparr>) = listening s" "listening (report v s) = listening s"
  "listening (s\<lparr>se_assembler := w\<rparr>) = listening s" "listening (s\<lparr>se_upstream := x\<rparr>) = listening s"
  "listening (s\<lparr>se_carrying := y\<rparr>) = listening s"
  by (simp_all add: listening_def report_def socket_listener_def)

lemma let_go_more [simp]:
  "se_closed (let_go s)" "se_frames (let_go s) = se_frames s" "se_failed (let_go s) = se_failed s"
  "se_authorized (let_go s) = se_authorized s" "se_send (let_go s) = se_send s"
  "se_onDrain (let_go s) = se_onDrain s" "se_onClose (let_go s) = se_onClose s"
  "se_upstreamRequest (let_go s) = None" "se_upstream (let_go s) = None" "se_socket (let_go s) = None"
  "se_assembler (let_go s) = None" "se_requestBody (let_go s) = None" "se_carrying (let_go s) = Carrying_none"
  "length (se_requests (let_go s)) = length (se_requests s)" "length (se_sockets (let_go s)) = length (se_sockets s)"
  by (simp_all add: let_go_def maybe_def split: option.split)

lemma report_more [simp]:
  "se_closed (report e s) = se_closed s" "se_frames (report e s) = se_frames s" "se_failed (report e s) = se_failed s"
  "se_authorized (report e s) = se_authorized s" "se_send (report e s) = se_send s"
  "se_onDrain (report e s) = se_onDrain s" "se_requests (report e s) = se_requests s"
  "se_sockets (report e s) = se_sockets s" "se_upstreamRequest (report e s) = se_upstreamRequest s"
  "se_socket (report e s) = se_socket s"
  by (simp_all add: report_def)

lemma let_go_keeps:
  "holding s \<Longrightarrow> holding (let_go s)" "talking p s \<Longrightarrow> talking q (let_go s)" "listening s \<Longrightarrow> listening (let_go s)"
proof -
  assume h: "holding s"
  let ?gone = "ur_destroyed_update (\<lambda>_. True)"
  have "\<not> live_request (?gone r)" for r by (simp add: live_request_def)
  then have "requests_held (edit i ?gone rs) None" "requests_held (edit i ?gone (edit i ?gone rs)) None"
    if "requests_held rs (Some i)" for i rs
    using that by (auto simp: requests_held_def nth_edit)
  moreover have "sockets_held (edit j (called Call_terminate) ks) None" if "sockets_held ks (Some j)" for j ks
    using that by (auto simp: sockets_held_def nth_edit live_socket_def terminated_def called_def)
  moreover have "\<forall>j<length (se_sockets s). sane True (se_sockets (let_go s) ! j)"
  proof (intro allI impI)
    fix j
    assume j: "j < length (se_sockets s)"
    then have "sane (se_closed s) (se_sockets s ! j)" using h by (simp add: holding_def held_def)
    then show "sane True (se_sockets (let_go s) ! j)"
      using j by (cases "se_socket s") (auto simp: let_go_def maybe_def nth_edit sane_def called_def)
  qed
  ultimately show "holding (let_go s)"
    using h by (cases "se_upstream s"; cases "se_upstreamRequest s"; cases "se_socket s")
      (simp_all add: holding_def held_def let_go_def maybe_def)
next
  show "talking p s \<Longrightarrow> talking q (let_go s)"
    by (simp add: talking_def) (simp add: let_go_def maybe_def edit_def split: option.splits)
  show "listening s \<Longrightarrow> listening (let_go s)" by (simp add: listening_def)
qed

lemma se_destroy_keeps:
  "holding s \<Longrightarrow> holding (se_destroy d s)" "talking p s \<Longrightarrow> talking p (se_destroy d s)"
  "listening s \<Longrightarrow> listening (se_destroy d s)"
  by (auto simp: se_destroy_eq let_go_keeps)

lemma sealAndWrite_keeps:
  "holding s \<Longrightarrow> holding (sealAndWrite pf f s)" "listening s \<Longrightarrow> listening (sealAndWrite pf f s)"
  by (rule sealAndWrite_cases [of pf f s]; simp add: let_go_keeps)+

lemma sealAndWrite_talks:
  assumes "talking p s" and "hears p (hd f) = Some q" and "f \<noteq> []" and "\<not> se_failed s" and "se_send s \<noteq> None"
  shows "talking q (sealAndWrite pf f s)"
proof (rule sealAndWrite_cases [of pf f s])
  fix ci w
  assume t: "\<not> se_closed s" "sealAndWrite pf f s =
    s\<lparr>se_send := Some ci, se_written := se_written s @ [w], se_frames := se_frames s @ [f]\<rparr>"
  then have "talked Talk_start (se_frames s @ [f]) = Some q"
    using assms by (cases f) (auto simp: talking_def talked_append)
  with t assms show ?thesis by (simp add: talking_def)
next
  fix ci d
  assume t: "sealAndWrite pf f s = report (Ev_closed d) (let_go (s\<lparr>se_send := Some ci\<rparr>))"
  have "talking p (s\<lparr>se_send := Some ci\<rparr>)" using assms(1) by (simp add: talking_def)
  with t show ?thesis by (simp add: let_go_keeps)
next
  assume "sealAndWrite pf f s = s" "se_closed s \<or> se_send s = None"
  with assms show ?thesis by (auto simp: talking_def)
qed

lemma talking_over: "se_closed s \<or> se_failed s \<Longrightarrow> talking p s \<Longrightarrow> talking q s"
  by (auto simp: talking_def)

lemma se_write_keeps:
  "holding s \<Longrightarrow> holding (se_write pf f s)" "listening s \<Longrightarrow> listening (se_write pf f s)"
  by (simp_all add: se_write_def sealAndWrite_keeps)

lemma se_write_talks:
  "talking p s \<Longrightarrow> hears p t = Some q \<Longrightarrow> se_send s \<noteq> None \<Longrightarrow> talking q (se_write pf (t # payload) s)"
  using sealAndWrite_talks [of p s "t # payload" q pf] by (auto simp: se_write_def intro: talking_over)

text \<open>A write changes the wire, or it ends the session.\<close>

lemma se_write_open:
  assumes "\<not> se_closed (se_write pf f s)"
  shows "\<exists>a b c. se_write pf f s = s\<lparr>se_send := a, se_written := b, se_frames := c\<rparr>"
proof (cases "se_failed s")
  case True
  have "s = s\<lparr>se_send := se_send s, se_written := se_written s, se_frames := se_frames s\<rparr>" by simp
  with True show ?thesis unfolding se_write_def by metis
next
  case False
  show ?thesis
  proof (rule sealAndWrite_cases [of pf f s])
    assume "sealAndWrite pf f s = s"
    moreover have "s = s\<lparr>se_send := se_send s, se_written := se_written s, se_frames := se_frames s\<rparr>" by simp
    ultimately show ?thesis using False unfolding se_write_def by metis
  next
    fix ci w
    assume "sealAndWrite pf f s = s\<lparr>se_send := Some ci, se_written := se_written s @ [w], se_frames := se_frames s @ [f]\<rparr>"
    with False show ?thesis unfolding se_write_def by auto
  next
    fix ci d
    assume "sealAndWrite pf f s = report (Ev_closed d) (let_go (s\<lparr>se_send := Some ci\<rparr>))"
    with assms False show ?thesis by (simp add: se_write_def)
  qed
qed

lemma se_write_send: "se_send (se_write pf f s) = None \<longleftrightarrow> se_send s = None"
  by (rule sealAndWrite_cases [of pf f s]) (auto simp: se_write_def)

definition sess_ok :: "talk \<Rightarrow> secure_session \<Rightarrow> bool" where
  "sess_ok p s \<longleftrightarrow> p \<noteq> Talk_over \<and> holding s \<and> talking p s \<and> listening s"

definition sess_inv :: "secure_session \<Rightarrow> bool" where
  "sess_inv s \<longleftrightarrow> sess_ok (talk_of s) s"

lemma talk_of_not_over [simp]: "talk_of s \<noteq> Talk_over"
  by (simp add: talk_of_def split: option.split)

lemma sess_inv_over: "se_closed s \<or> se_failed s \<Longrightarrow> sess_ok p s \<Longrightarrow> sess_inv s"
  by (auto simp: sess_inv_def sess_ok_def intro: talking_over)

lemma sess_ok_destroy:
  assumes "sess_ok p s"
  shows "sess_inv (se_destroy d s)"
proof (rule sess_inv_over)
  show "se_closed (se_destroy d s) \<or> se_failed (se_destroy d s)" by (simp add: se_destroy_eq)
  show "sess_ok p (se_destroy d s)" using assms unfolding sess_ok_def by (metis se_destroy_keeps)
qed

lemma sess_ok_write:
  assumes "sess_ok p s" and "hears p t = Some q" and "q \<noteq> Talk_over" and "se_send s \<noteq> None"
  shows "sess_ok q (se_write pf (t # payload) s)"
  using assms unfolding sess_ok_def by (metis se_write_keeps se_write_talks)

lemma hears_failed: "p \<noteq> Talk_over \<Longrightarrow> hears p (FRAME FAILED) = Some Talk_over"
  by (cases p) (simp_all add: hears_def)

text \<open>A refusal, part by part: what it says, and the listeners it leaves on the stream.\<close>

lemma refusing_shape:
  assumes "\<not> se_closed s" and "se_send s \<noteq> None"
  obtains ci w where "refusing pf reason f s = s\<lparr>se_failed := True, se_requestBody := None, se_send := Some ci,
      se_written := se_written s @ [w], se_frames := se_frames s @ [f], se_streamEnded := True,
      se_onClose := se_onClose s @ [Destroy_session reason], se_failTimer := Some reason\<rparr>"
  | ci d where "refusing pf reason f s = (report (Ev_closed d) (let_go (s\<lparr>se_failed := True, se_requestBody := None,
      se_send := Some ci\<rparr>)))\<lparr>se_streamEnded := True, se_onClose := se_onClose s @ [Destroy_session reason],
      se_failTimer := Some reason\<rparr>"
proof (rule sealAndWrite_cases [of pf f "s\<lparr>se_failed := True, se_requestBody := None\<rparr>"], goal_cases)
  case 1 then show ?case using assms by simp
next
  case (2 ci w) then show ?case by (intro that(1) [of w ci]) (simp add: refusing_def)
next
  case (3 ci d) then show ?case by (intro that(2) [of d ci]) (simp add: refusing_def)
qed

lemma refusing_over: "\<not> se_closed s \<Longrightarrow> se_send s \<noteq> None \<Longrightarrow>
    se_closed (refusing pf reason f s) \<or> se_failed (refusing pf reason f s)"
  by (rule refusing_shape [of s pf reason f]) auto

lemma refusing_talks:
  assumes "talking p s" and "p \<noteq> Talk_over" and send: "se_send s \<noteq> None" and "open": "\<not> se_closed s" "\<not> se_failed s"
  shows "talking q (refusing pf reason (FRAME FAILED # f) s)"
proof -
  have talks: "talked Talk_start (se_frames s) = Some p" using assms(1) "open" by (simp add: talking_def)
  show ?thesis
  proof (rule refusing_shape [OF "open"(1) send, of pf reason "FRAME FAILED # f"])
    fix ci w
    assume "refusing pf reason (FRAME FAILED # f) s = s\<lparr>se_failed := True, se_requestBody := None, se_send := Some ci,
      se_written := se_written s @ [w], se_frames := se_frames s @ [FRAME FAILED # f], se_streamEnded := True,
      se_onClose := se_onClose s @ [Destroy_session reason], se_failTimer := Some reason\<rparr>"
    then show ?thesis
      using talks hears_failed [OF assms(2)] assms(1) by (simp add: talking_def talked_append)
  next
    fix ci d
    assume r: "refusing pf reason (FRAME FAILED # f) s = (report (Ev_closed d) (let_go (s\<lparr>se_failed := True,
      se_requestBody := None, se_send := Some ci\<rparr>)))\<lparr>se_streamEnded := True,
      se_onClose := se_onClose s @ [Destroy_session reason], se_failTimer := Some reason\<rparr>"
    have "se_requests (let_go t) = []" "se_sockets (let_go t) = []" if "se_requests t = []" "se_sockets t = []" for t
      using that by (simp_all add: let_go_def maybe_def edit_def split: option.split)
    then have "talking q (let_go (s\<lparr>se_failed := True, se_requestBody := None, se_send := Some ci\<rparr>))"
      using talks assms(1) by (simp add: talking_def)
    then show ?thesis unfolding r by simp
  qed
qed

lemma refusing_listens:
  assumes "listening s" and "se_send s \<noteq> None" and "\<not> se_closed s" and "\<not> se_failed s"
  shows "listening (refusing pf reason f s)"
  using assms by (rule_tac refusing_shape [OF assms(3,2), of pf reason f])
    (auto simp: listening_def socket_listener_def split: option.splits)

lemma refusing_ok:
  assumes ok: "sess_ok p s" and send: "se_send s \<noteq> None" and "open": "\<not> se_closed s" "\<not> se_failed s"
  shows "sess_inv (refusing pf reason (FRAME FAILED # f) s)"
proof (rule sess_inv_over)
  let ?t = "refusing pf reason (FRAME FAILED # f) s"
  have s: "holding s" "talking p s" "listening s" "p \<noteq> Talk_over" using ok by (simp_all add: sess_ok_def)
  then have "holding (s\<lparr>se_failed := True, se_requestBody := None\<rparr>)" by (simp add: holding_def)
  then have "holding ?t" by (simp add: refusing_def sealAndWrite_keeps)
  then show "sess_ok p ?t"
    using refusing_talks [OF s(2,4) send "open"] refusing_listens [OF s(3) send "open"] s(4) by (simp add: sess_ok_def)
  show "se_closed ?t \<or> se_failed ?t" by (rule refusing_over [OF "open"(1) send])
qed

text \<open>A refusal leaves the invariant, whatever the conversation was at.\<close>

lemma se_fail_ok:
  assumes "sess_ok p s" and "se_send s \<noteq> None" and "0 \<le> code" and "code < 10000" and "length reason \<le> 200"
    and "talk_of s = p"
  obtains t where "se_fail pf code reason s = (Inr (), t)" and "sess_inv t" and "se_closed t \<or> se_failed t"
proof -
  obtain f where f: "\<And>s. se_fail pf code reason s =
      (Inr (), if se_closed s \<or> se_failed s then s else refusing pf reason (FRAME FAILED # f) s)"
    using se_fail_eq [OF assms(3-5)] by metis
  have "se_closed (refusing pf reason (FRAME FAILED # f) s) \<or> se_failed (refusing pf reason (FRAME FAILED # f) s)"
    by (rule sealAndWrite_cases [of pf "FRAME FAILED # f" "s\<lparr>se_failed := True, se_requestBody := None\<rparr>"])
      (auto simp: refusing_def)
  then show thesis
    using f [of s] assms(1,2,6) refusing_ok [OF assms(1,2)]
    by (cases "se_closed s \<or> se_failed s") (auto intro: that sess_inv_over)
qed

text \<open>Changing one request or one socket in place.\<close>

lemma requests_held_edit:
  assumes "requests_held rs u" and "live_request (f (rs ! i)) \<Longrightarrow> live_request (rs ! i)"
    and "ur_phase (rs ! i) \<noteq> Answer_over \<Longrightarrow> ur_phase (f (rs ! i)) \<noteq> Answer_over"
  shows "requests_held (edit i f rs) u"
proof -
  have "live_request (edit i f rs ! k) \<longrightarrow> live_request (rs ! k)"
    and "ur_phase (rs ! k) \<noteq> Answer_over \<longrightarrow> ur_phase (edit i f rs ! k) \<noteq> Answer_over" if "k < length rs" for k
    using that assms(2,3) by (simp_all add: nth_edit)
  with assms(1) show ?thesis unfolding requests_held_def length_edit by blast
qed

lemma sane_edit:
  assumes "\<forall>j<length ks. sane c (ks ! j)" and "sane c (ks ! j) \<Longrightarrow> sane c (f (ks ! j))"
  shows "\<forall>k<length ks. sane c (edit j f ks ! k)"
  using assms by (simp add: nth_edit)

lemma sockets_held_edit:
  assumes "sockets_held ks v" and "live_socket (f (ks ! j)) \<longleftrightarrow> live_socket (ks ! j)"
  shows "sockets_held (edit j f ks) v"
proof -
  have "live_socket (edit j f ks ! k) \<longleftrightarrow> live_socket (ks ! k)" if "k < length ks" for k
    using that assms(2) by (simp add: nth_edit)
  with assms(1) show ?thesis unfolding sockets_held_def length_edit by blast
qed

lemma holding_on_request:
  assumes "holding s" and "live_request (f (se_requests s ! i)) \<Longrightarrow> live_request (se_requests s ! i)"
    and "ur_phase (se_requests s ! i) \<noteq> Answer_over \<Longrightarrow> ur_phase (f (se_requests s ! i)) \<noteq> Answer_over"
  shows "holding (on_request i f s)"
proof -
  have "requests_held (edit i f (se_requests s)) (se_upstreamRequest s)"
    by (rule requests_held_edit [where rs = "se_requests s" and f = f and i = i, OF _ assms(2,3)]) (use assms(1) in \<open>simp add: holding_def held_def\<close>)
  with assms(1) show ?thesis unfolding holding_def held_def by simp
qed

lemma holding_on_socket:
  assumes "holding s" and "live_socket (f (se_sockets s ! j)) \<longleftrightarrow> live_socket (se_sockets s ! j)"
    and "sane (se_closed s) (se_sockets s ! j) \<Longrightarrow> sane (se_closed s) (f (se_sockets s ! j))"
  shows "holding (on_socket j f s)"
proof -
  have "\<forall>k<length (se_sockets s). sane (se_closed s) (edit j f (se_sockets s) ! k)"
    by (rule sane_edit [where ks = "se_sockets s" and f = f and j = j, OF _ assms(3)])
      (use assms(1) in \<open>simp add: holding_def held_def\<close>)
  moreover have "sockets_held (edit j f (se_sockets s)) (se_socket s)"
    by (rule sockets_held_edit [where ks = "se_sockets s" and f = f and j = j, OF _ assms(2)])
      (use assms(1) in \<open>simp add: holding_def held_def\<close>)
  ultimately show ?thesis using assms(1) unfolding holding_def held_def by simp
qed

lemma listening_on_request:
  assumes "listening s" and "\<And>r. ur_responsePaused (f r) = ur_responsePaused r" and "\<And>r. ur_phase (f r) = ur_phase r"
  shows "listening (on_request i f s)"
proof -
  have "ur_responsePaused (edit i f rs ! k) = ur_responsePaused (rs ! k) \<and> ur_phase (edit i f rs ! k) = ur_phase (rs ! k)" for k rs
    using assms(2,3) by (cases "i < length rs"; cases "k = i") (simp_all add: edit_def nth_list_update_neq)
  then show ?thesis using assms(1) by (simp add: listening_def)
qed

lemma listening_on_socket:
  assumes "listening s" and "\<And>k. lk_paused k \<Longrightarrow> lk_paused (f k)"
  shows "listening (on_socket j f s)"
proof -
  have "lk_paused (ks ! k) \<Longrightarrow> lk_paused (edit j f ks ! k)" for k ks
    using assms(2) [of "ks ! k"] by (cases "j < length ks"; cases "k = j") (simp_all add: edit_def nth_list_update_neq)
  then have "\<forall>k. lk_paused (se_sockets s ! k) \<longrightarrow> lk_paused (edit j f (se_sockets s) ! k)" by blast
  then show ?thesis using assms(1) by (simp add: listening_def)
qed

lemma talk_of_on_request:
  assumes "\<And>r. ur_phase (f r) = ur_phase r"
  shows "talk_of (on_request i f s) = talk_of s"
proof -
  have "ur_phase (edit i f rs ! k) = ur_phase (rs ! k)" for k rs
    using assms by (cases "i < length rs"; cases "k = i") (simp_all add: edit_def nth_list_update_neq)
  then show ?thesis by (simp add: talk_of_def split: option.split)
qed

lemma talk_of_on_socket:
  assumes "\<And>k. lk_dialTimer (f k) = lk_dialTimer k"
  shows "talk_of (on_socket j f s) = talk_of s"
proof -
  have "lk_dialTimer (edit j f ks ! k) = lk_dialTimer (ks ! k)" for k ks
    using assms by (cases "j < length ks"; cases "k = j") (simp_all add: edit_def nth_list_update_neq)
  then show ?thesis by (simp add: talk_of_def split: option.split)
qed

lemma sess_inv_on_request:
  assumes "sess_inv s" and "\<And>r. live_request (f r) \<Longrightarrow> live_request r"
    and "\<And>r. ur_phase (f r) = ur_phase r" and "\<And>r. ur_responsePaused (f r) = ur_responsePaused r"
  shows "sess_inv (on_request i f s)"
proof -
  have "holding (on_request i f s)"
    by (rule holding_on_request [OF _ assms(2)]) (use assms(1,3) in \<open>simp_all add: sess_inv_def sess_ok_def\<close>)
  moreover have "listening (on_request i f s)"
    by (rule listening_on_request [OF _ assms(4,3)]) (use assms(1) in \<open>simp add: sess_inv_def sess_ok_def\<close>)
  ultimately show ?thesis using assms(1) by (simp add: sess_inv_def sess_ok_def talk_of_on_request assms(3))
qed

lemma sess_inv_on_socket:
  assumes "sess_inv s" and "\<And>k. live_socket (f k) \<longleftrightarrow> live_socket k"
    and "\<And>k. lk_dialTimer (f k) = lk_dialTimer k" and "\<And>k. lk_paused k \<Longrightarrow> lk_paused (f k)"
    and "\<And>c k. sane c k \<Longrightarrow> sane c (f k)"
  shows "sess_inv (on_socket j f s)"
proof -
  have "holding (on_socket j f s)"
    by (rule holding_on_socket [where f = f and s = s and j = j, OF _ assms(2) assms(5)]) (use assms(1) in \<open>simp add: sess_inv_def sess_ok_def\<close>)
  moreover have "listening (on_socket j f s)"
    by (rule listening_on_socket [OF _ assms(4)]) (use assms(1) in \<open>simp add: sess_inv_def sess_ok_def\<close>)
  ultimately show ?thesis using assms(1) by (simp add: sess_inv_def sess_ok_def talk_of_on_socket assms(3))
qed

subsection \<open>Frames keep the invariant\<close>

text \<open>What a handler leaves: no throw and the invariant.\<close>

definition returns_settled :: "(session_error, unit) result \<times> secure_session \<Rightarrow> bool" where
  "returns_settled out \<longleftrightarrow> fst out = Inr () \<and> sess_inv (snd out)"

lemma se_fail_settled:
  assumes "sess_inv s" and "se_send s \<noteq> None" and "0 \<le> code" and "code < 10000" and "length reason \<le> 200"
  shows "returns_settled (se_fail pf code reason s)"
proof -
  obtain t where "se_fail pf code reason s = (Inr (), t)" and "sess_inv t"
    by (rule se_fail_ok [of "talk_of s" s code reason pf]) (use assms in \<open>simp_all add: sess_inv_def\<close>)
  then show ?thesis by (simp add: returns_settled_def)
qed

lemma talk_of_quiet [simp]:
  "talk_of (report e s) = talk_of s" "talk_of (s\<lparr>se_receive := a\<rparr>) = talk_of s" "talk_of (s\<lparr>se_reader := b\<rparr>) = talk_of s"
  "talk_of (s\<lparr>se_streamPaused := c\<rparr>) = talk_of s" "talk_of (s\<lparr>se_requestBody := d\<rparr>) = talk_of s"
  "talk_of (s\<lparr>se_assembler := f\<rparr>) = talk_of s" "talk_of (s\<lparr>se_onDrain := g\<rparr>) = talk_of s"
  "talk_of (s\<lparr>se_onClose := h\<rparr>) = talk_of s" "talk_of (s\<lparr>se_failTimer := k\<rparr>) = talk_of s"
  "talk_of (s\<lparr>se_send := l\<rparr>) = talk_of s" "talk_of (s\<lparr>se_written := m\<rparr>) = talk_of s"
  "talk_of (s\<lparr>se_frames := n\<rparr>) = talk_of s" "talk_of (s\<lparr>se_handshake := q\<rparr>) = talk_of s"
  "talk_of (s\<lparr>se_upstream := t\<rparr>) = talk_of s" "talk_of (s\<lparr>se_heard := u\<rparr>) = talk_of s"
  by (simp_all add: report_def talk_of_def split: option.split)

lemma sess_inv_quiet [simp]:
  "sess_inv (report e s) = sess_inv s" "sess_inv (s\<lparr>se_receive := a\<rparr>) = sess_inv s"
  "sess_inv (s\<lparr>se_reader := b\<rparr>) = sess_inv s" "sess_inv (s\<lparr>se_streamPaused := c\<rparr>) = sess_inv s"
  "sess_inv (s\<lparr>se_failTimer := k\<rparr>) = sess_inv s" "sess_inv (s\<lparr>se_written := m\<rparr>) = sess_inv s"
  "sess_inv (s\<lparr>se_handshake := q\<rparr>) = sess_inv s" "sess_inv (s\<lparr>se_heard := t\<rparr>) = sess_inv s"
  by (simp_all add: sess_inv_def sess_ok_def)

lemma sess_inv_fields:
  assumes "sess_inv s"
  shows "se_carrying s = Carrying_none \<Longrightarrow> se_upstreamRequest s = None \<and> se_socket s = None"
    and "se_requestBody s = Some i \<Longrightarrow> se_upstreamRequest s = Some i"
    and "se_upstreamRequest s = Some i \<Longrightarrow> i < length (se_requests s) \<and> \<not> se_closed s \<and> se_socket s = None"
    and "se_socket s = Some j \<Longrightarrow> j < length (se_sockets s) \<and> \<not> se_closed s \<and> se_upstreamRequest s = None"
    and "se_assembler s = None \<longleftrightarrow> se_socket s = None"
proof -
  have h: "held s" "se_requestBody s = None \<or> se_requestBody s = se_upstreamRequest s"
    using assms by (simp_all add: sess_inv_def sess_ok_def holding_def)
  have r: "requests_held (se_requests s) (se_upstreamRequest s)" "sockets_held (se_sockets s) (se_socket s)"
    using h(1) by (simp_all add: held_def)
  show "se_carrying s = Carrying_none \<Longrightarrow> se_upstreamRequest s = None \<and> se_socket s = None"
    using h(1) by (cases "se_upstreamRequest s"; cases "se_socket s") (simp_all add: held_def)
  show "se_requestBody s = Some i \<Longrightarrow> se_upstreamRequest s = Some i" using h(2) by auto
  show "se_upstreamRequest s = Some i \<Longrightarrow> i < length (se_requests s) \<and> \<not> se_closed s \<and> se_socket s = None"
    using h(1) r(1) by (auto simp: held_def requests_held_def)
  show "se_socket s = Some j \<Longrightarrow> j < length (se_sockets s) \<and> \<not> se_closed s \<and> se_upstreamRequest s = None"
    using h(1) r(2) by (auto simp: held_def sockets_held_def)
  show "se_assembler s = None \<longleftrightarrow> se_socket s = None" using h(1) by (simp add: held_def)
qed

lemma startRequest_settled:
  assumes inv: "sess_inv s" and "se_send s \<noteq> None" and "se_carrying s = Carrying_none"
    and "\<not> se_closed s" and "\<not> se_failed s" and auth: "se_authorized s"
  shows "returns_settled (startRequest pf payload s)"
proof -
  have refuse: "returns_settled (se_fail pf 400 (asc ''unreadable request'') s)"
    by (rule se_fail_settled [OF assms(1,2)]) simp_all
  have made: "returns_settled (Inr (), s\<lparr>se_requests := se_requests s @ [r],
      se_carrying := Carrying_request, se_upstreamRequest := Some (length (se_requests s)),
      se_requestBody := b\<rparr>)"
    if "ur_phase r = No_answer" "b = None \<or> b = Some (length (se_requests s))" for r b
  proof -
    have none: "se_upstreamRequest s = None" "se_socket s = None" using sess_inv_fields(1) [OF inv assms(3)] by simp_all
    have "holding s" "talking (talk_of s) s" "listening s" using inv by (simp_all add: sess_inv_def sess_ok_def)
    with none that assms(3-5) auth show ?thesis
      by (auto simp: returns_settled_def sess_inv_def sess_ok_def holding_def held_def requests_held_def talking_def
          listening_def socket_listener_def talk_of_def nth_append less_Suc_eq)
  qed
  show ?thesis
    unfolding startRequest_def Let_def
    by (auto simp: refuse made new_request_def split: option.split)
qed

lemma openSocket_settled:
  assumes inv: "sess_inv s" and "se_send s \<noteq> None" and "se_carrying s = Carrying_none"
    and "\<not> se_closed s" and "\<not> se_failed s" and auth: "se_authorized s"
  shows "returns_settled (openSocket pf payload s)"
proof -
  have refuse: "returns_settled (se_fail pf 400 (asc ''unreadable open'') s)"
    by (rule se_fail_settled [OF assms(1,2)]) simp_all
  have made: "returns_settled (Inr (), s\<lparr>se_sockets := se_sockets s @ [k],
      se_carrying := Carrying_socket, se_socket := Some (length (se_sockets s)), se_assembler := Some a,
      se_onClose := se_onClose s @ [Close_resumes_socket (length (se_sockets s))]\<rparr>)"
    if "live_socket k" "lk_dialTimer k" for k a
  proof -
    have none: "se_upstreamRequest s = None" "se_socket s = None" using sess_inv_fields(1) [OF inv assms(3)] by simp_all
    have "holding s" "talking (talk_of s) s" "listening s" using inv by (simp_all add: sess_inv_def sess_ok_def)
    with none that assms(3-5) auth show ?thesis
      by (auto simp: returns_settled_def sess_inv_def sess_ok_def holding_def held_def sockets_held_def talking_def
          listening_def socket_listener_def talk_of_def nth_append less_Suc_eq sane_def live_socket_def)
  qed
  show ?thesis
    unfolding openSocket_def Let_def
    by (auto simp: refuse made live_socket_def terminated_def split: option.split)
qed

lemma live_update [simp]:
  "live_request (ur_body_update f r) = live_request r" "live_request (ur_paused_update g r) = live_request r"
  "live_socket (called (Call_send m) k) = live_socket k" "live_socket (called (Call_close c t) k) = live_socket k"
  "lk_paused (called x k) = lk_paused k" "lk_dialTimer (called x k) = lk_dialTimer k" "lk_state (called x k) = lk_state k"
  "sane b (called (Call_send m) k) = sane b k" "sane b (called (Call_close c t) k) = sane b k"
  by (simp_all add: live_request_def live_socket_def terminated_def called_def sane_def)

lemma body_chunk_inv:
  assumes "sess_inv s"
  shows "sess_inv (body_chunk pf i chunk s)"
proof -
  have "sess_inv (on_request i (ur_body_update (\<lambda>b. b @ [chunk])) s)"
    by (rule sess_inv_on_request [OF assms]) simp_all
  moreover from this have "sess_inv (on_request i (ur_paused_update (\<lambda>_. True)) (on_request i (ur_body_update (\<lambda>b. b @ [chunk])) s))"
    by (rule sess_inv_on_request) simp_all
  ultimately show ?thesis by (simp add: body_chunk_def Let_def)
qed

lemma body_resume_inv:
  assumes "sess_inv s"
  shows "sess_inv (body_resume i s)"
proof -
  have "sess_inv (on_request i (ur_paused_update (\<lambda>_. False)) s)" by (rule sess_inv_on_request [OF assms]) simp_all
  with assms show ?thesis by (simp add: body_resume_def)
qed

lemma body_end_inv:
  assumes "sess_inv s"
  shows "sess_inv ((maybe (se_requestBody s) body_end s)\<lparr>se_requestBody := None\<rparr>)"
proof -
  have "sess_inv (maybe (se_requestBody s) body_end s)"
    using assms by (cases "se_requestBody s")
      (auto simp: maybe_def body_end_def live_request_def intro!: sess_inv_on_request)
  then show ?thesis by (simp add: sess_inv_def sess_ok_def holding_def)
qed

lemma sess_inv_assembler:
  assumes "sess_inv s" and "se_assembler s \<noteq> None"
  shows "sess_inv (s\<lparr>se_assembler := Some a\<rparr>)"
  using assms unfolding sess_inv_def sess_ok_def holding_def held_def by simp

lemma pushMessage_settled:
  assumes "sess_inv s" and "se_send s \<noteq> None"
  shows "returns_settled (pushMessage pf payload s)"
proof (cases "se_assembler s")
  case None
  then show ?thesis using assms by (simp add: pushMessage_def returns_settled_def)
next
  case (Some a)
  have inv: "sess_inv (s\<lparr>se_assembler := Some b\<rparr>)" for b using sess_inv_assembler [OF assms(1)] Some by simp
  have "returns_settled (se_fail pf 400 (asc ''socket message too large'') (s\<lparr>se_assembler := Some b\<rparr>))" for b
    by (rule se_fail_settled [OF inv]) (use assms(2) in simp_all)
  with inv show ?thesis
    by (cases "assembler_push a payload") (simp add: pushMessage_def Some returns_settled_def Let_def)
qed

text \<open>
  The two calls the checks above them make safe: \<open>ws\<close> sends on an open socket, and closes with
  a code and a reason it accepts.
\<close>

definition platform_ok :: "platform \<Rightarrow> bool" where
  "platform_ok pf \<longleftrightarrow> \<not> pf_send_throws pf Ws_open \<and>
     (\<forall>state code reason. (3000 \<le> code \<and> code \<le> 4999 \<or> 1000 \<le> code \<and> code \<le> 1014 \<and> code \<notin> {1004, 1005, 1006})
        \<longrightarrow> utf8_bytes reason \<le> 123 \<longrightarrow> \<not> pf_close_throws pf state code reason)"

definition settles :: "platform \<Rightarrow> (session_error, unit) result \<times> secure_session \<Rightarrow> bool" where
  "settles pf out \<longleftrightarrow> sess_inv (snd out) \<and> (platform_ok pf \<longrightarrow> fst out = Inr ())"

lemma settled_settles: "returns_settled out \<Longrightarrow> settles pf out"
  by (simp add: returns_settled_def settles_def)

lemma endMessage_settles:
  assumes "sess_inv s" and "se_send s \<noteq> None"
  shows "settles pf (endMessage pf s)"
proof (cases "se_assembler s")
  case None
  then show ?thesis using assms by (simp add: endMessage_def settles_def)
next
  case (Some a)
  have inv: "sess_inv (s\<lparr>se_assembler := Some b\<rparr>)" for b using sess_inv_assembler [OF assms(1)] Some by simp
  have refuse: "settles pf (se_fail pf 400 reason (s\<lparr>se_assembler := Some b\<rparr>))" if "length reason \<le> 200" for b reason
    by (rule settled_settles, rule se_fail_settled [OF inv]) (use assms(2) that in simp_all)
  have sent: "sess_inv (on_socket j (called (Call_send m)) (s\<lparr>se_assembler := Some b\<rparr>))" for j m b
    by (rule sess_inv_on_socket [OF inv]) simp_all
  show ?thesis
    using Some refuse sent inv
    by (auto simp: endMessage_def settles_def platform_ok_def Let_def split: option.split prod.split)
qed

lemma isCloseCode_valid:
  "isCloseCode v = Some code \<Longrightarrow> 3000 \<le> code \<and> code \<le> 4999 \<or> 1000 \<le> code \<and> code \<le> 1014 \<and> code \<notin> {1004, 1005, 1006}"
  by (auto simp: isCloseCode_def Let_def simp del: numeral_le_floor floor_le_numeral
      split: json.splits option.splits if_splits)

lemma closeSocket_settles:
  assumes "sess_inv s" and "se_send s \<noteq> None"
  shows "settles pf (closeSocket pf payload s)"
proof -
  have refuse: "settles pf (se_fail pf 400 reason s)" if "length reason \<le> 200" for reason
    by (rule settled_settles, rule se_fail_settled [OF assms]) (use that in simp_all)
  have closed: "sess_inv (on_socket j (called (Call_close code reason)) s)" for j code reason
    by (rule sess_inv_on_socket [OF assms(1)]) simp_all
  let ?code = "isCloseCode (nullish (case decodeJson (pf_parse pf) payload of None \<Rightarrow> JObj [] | Some v \<Rightarrow> v) ''code'' (json_num 1000))"
  show ?thesis
  proof (cases ?code)
    case None
    then show ?thesis by (simp add: closeSocket_def refuse)
  next
    case (Some code)
    have safe: "\<not> pf_close_throws pf state code reason" if "platform_ok pf" "utf8_bytes reason \<le> 123" for state reason
      using isCloseCode_valid [OF Some] that unfolding platform_ok_def by blast
    show ?thesis
      using Some refuse closed safe assms(1)
      by (auto simp: closeSocket_def settles_def MAX_CLOSE_REASON_BYTES_def Let_def split: option.split json.split)
  qed
qed

lemma present_settled:
  assumes inv: "sess_inv s" and send: "se_send s \<noteq> None" and new: "\<not> se_authorized s"
  shows "returns_settled (se_present pf now payload s)"
proof -
  have refuse: "returns_settled (se_fail pf code reason s)" "returns_settled (se_fail pf code reason (report e s))"
    if "0 \<le> code" "code < 10000" "length reason \<le> 200" for code reason e
    by (rule se_fail_settled; use that inv send in simp)+
  have short: "length (code_name c) \<le> 200" for c by (cases c) simp_all
  have ready: "returns_settled (Inr (), report e (se_write pf [FRAME READY] (s\<lparr>se_authorized := True, se_capability := c\<rparr>)))" for e c
  proof -
    let ?s = "s\<lparr>se_authorized := True, se_capability := c\<rparr>"
    have "talk_of s = Talk_start" using new by (simp add: talk_of_def)
    then have ok: "sess_ok Talk_start s" using inv by (simp add: sess_inv_def)
    then have "talking Talk_start ?s" using send by (simp add: sess_ok_def talking_def)
    then have "sess_ok Talk_start ?s" using ok by (simp add: sess_ok_def)
    then have t: "sess_ok Talk_idle (se_write pf [FRAME READY] ?s)"
      by (rule sess_ok_write) (use send in \<open>simp_all add: hears_def\<close>)
    have "talk_of (se_write pf [FRAME READY] ?s) = Talk_idle" if "\<not> se_closed (se_write pf [FRAME READY] ?s)"
    proof -
      have none: "se_requests s = []" "se_sockets s = []" using ok new by (simp_all add: sess_ok_def talking_def)
      then have "se_upstreamRequest s = None" "se_socket s = None"
        using ok by (auto simp: sess_ok_def holding_def held_def requests_held_def sockets_held_def)
      with se_write_open [OF that] show ?thesis by (auto simp: talk_of_def)
    qed
    with t have "sess_inv (se_write pf [FRAME READY] ?s)"
      using sess_inv_over [OF _ t] by (cases "se_closed (se_write pf [FRAME READY] ?s)") (simp_all add: sess_inv_def)
    then show ?thesis by (simp add: returns_settled_def)
  qed
  show ?thesis
    unfolding se_present_def
    by (auto simp: refuse short ready encodeFrame_def Let_def split: option.split sum.split)
qed

lemma length_decimal_byte: "length (decimal (unat (t :: 8 word))) \<le> 3"
  using length_decimal [of 3 "unat t"] unat_byte_lt [of t] by (simp del: unat_byte_lt)

lemma handle_settles:
  assumes inv: "sess_inv s" and "se_send s \<noteq> None" and "open": "\<not> se_closed s" "\<not> se_failed s"
  shows "settles pf (handle pf now frame s)"
proof -
  note use = settled_settles
  have refuse: "settles pf (se_fail pf code reason s)" if "0 \<le> code" "code < 10000" "length reason \<le> 200" for code reason
    by (rule settled_settles, rule se_fail_settled [OF assms(1,2)]) (use that in simp_all)
  have body: "sess_inv (maybe (se_requestBody s) (\<lambda>i. body_chunk pf i payload) s)" for payload
    using inv by (cases "se_requestBody s") (simp_all add: maybe_def body_chunk_inv)
  have unexpected: "length (asc ''unexpected frame '' @ decimal (unat (t :: 8 word))) \<le> 200" for t
    using length_decimal_byte [of t] by simp
  show ?thesis
    unfolding handle_def
    by (auto simp: refuse already_carrying_def carrying_socket_def body body_end_inv [OF inv] settles_def [of pf "(Inr (), _)"]
        present_settled [OF assms(1,2), THEN use] startRequest_settled [OF assms(1,2) _ "open", THEN use]
        openSocket_settled [OF assms(1,2) _ "open", THEN use] pushMessage_settled [OF assms(1,2), THEN use]
        endMessage_settles [OF assms(1,2)] closeSocket_settles [OF assms(1,2)] unexpected [simplified]
        split: option.split)
qed

text \<open>Handling a frame never takes the sending cipher away.\<close>

lemma send_kept [simp]:
  "se_send (sealAndWrite pf f s) = None \<longleftrightarrow> se_send s = None" "se_send (se_write pf f s) = None \<longleftrightarrow> se_send s = None"
proof -
  show "se_send (sealAndWrite pf f s) = None \<longleftrightarrow> se_send s = None" by (rule sealAndWrite_cases [of pf f s]) auto
  then show "se_send (se_write pf f s) = None \<longleftrightarrow> se_send s = None" by (simp add: se_write_def)
qed

lemma fail_send [simp]: "se_send (snd (se_fail pf code reason s)) = None \<longleftrightarrow> se_send s = None"
  by (auto simp: se_fail_def Let_def split: sum.split)

lemma handle_send: "se_send (snd (handle pf now frame s)) = None \<longleftrightarrow> se_send s = None"
proof -
  have "se_send (snd (startRequest pf payload s)) = None \<longleftrightarrow> se_send s = None"
    and "se_send (snd (openSocket pf payload s)) = None \<longleftrightarrow> se_send s = None"
    and "se_send (snd (pushMessage pf payload s)) = None \<longleftrightarrow> se_send s = None"
    and "se_send (snd (endMessage pf s)) = None \<longleftrightarrow> se_send s = None"
    and "se_send (snd (closeSocket pf payload s)) = None \<longleftrightarrow> se_send s = None"
    and "se_send (snd (se_present pf now payload s)) = None \<longleftrightarrow> se_send s = None"
    and "se_send (body_chunk pf i payload s) = None \<longleftrightarrow> se_send s = None" for payload i
    by (auto simp: startRequest_def openSocket_def pushMessage_def endMessage_def closeSocket_def se_present_def
        body_chunk_def encodeFrame_def Let_def report_def
        split: option.split prod.split json.split sum.split)
  then show ?thesis
    by (auto simp: handle_def maybe_def body_end_def split: option.split)
qed

lemma dispatch_settled:
  assumes "sess_inv s" and "se_send s \<noteq> None" and "\<not> se_closed s" and "\<not> se_failed s"
  shows "returns_settled (dispatch pf now frame s)" and "platform_ok pf \<Longrightarrow> dispatch pf now frame s = handle pf now frame s"
proof -
  obtain r t where h: "handle pf now frame s = (r, t)" by fastforce
  have t: "sess_inv t" "platform_ok pf \<longrightarrow> r = Inr ()" "se_send t \<noteq> None"
    using handle_settles [OF assms, of pf now frame] handle_send [of pf now frame s] assms(2) h
    by (simp_all add: settles_def)
  have "returns_settled (se_fail pf 400 (asc ''unusable frame'') (report Ev_threw t))"
    by (rule se_fail_settled) (use t in simp_all)
  with h t show "returns_settled (dispatch pf now frame s)" by (cases r) (simp_all add: dispatch_def returns_settled_def)
  show "platform_ok pf \<Longrightarrow> dispatch pf now frame s = handle pf now frame s"
    using h t by (simp add: dispatch_def)
qed

subsection \<open>Chunks keep the invariant\<close>

lemma sess_inv_destroy: "sess_inv s \<Longrightarrow> sess_inv (se_destroy d s)"
  by (auto simp: sess_inv_def [of s] intro: sess_ok_destroy)

text \<open>Before the handshake nothing was said and nothing is held.\<close>

lemma doHandshake_inv:
  assumes "sess_inv s" and "se_send s = None"
  shows "sess_inv (doHandshake pf message s)"
proof -
  have t: "\<not> se_authorized s" "\<not> se_failed s" "talking Talk_start s" "holding s" "listening s"
    using assms by (auto simp: sess_inv_def sess_ok_def talking_def talk_of_def)
  have "sess_inv (snd (handshake_steps pf message s))"
    using t assms(1)
    by (auto simp: handshake_steps_def Let_def sess_inv_def sess_ok_def talk_of_def split: prod.split sum.split option.split)
      (simp_all add: talking_def)
  then show ?thesis
    by (cases "handshake_steps pf message s"; cases "fst (handshake_steps pf message s)")
      (auto simp: doHandshake_def intro!: sess_inv_destroy)
qed

lemma consume_one_settled:
  assumes "sess_inv s"
  shows "returns_settled (consume_one pf now m s)"
proof (cases "se_closed s \<or> se_failed s \<or> se_send s = None")
  case True
  then show ?thesis using assms doHandshake_inv [OF assms, of pf m]
    by (auto simp: consume_one_def returns_settled_def)
next
  case False
  have gone: "sess_inv (se_destroy d (report e (s\<lparr>se_receive := c\<rparr>)))" for d e c
    by (rule sess_inv_destroy) (simp add: assms)
  have "sess_inv (se_destroy d (report e s))" for d e by (rule sess_inv_destroy) (simp add: assms)
  moreover have "returns_settled (dispatch pf now f (s\<lparr>se_receive := c, se_heard := h\<rparr>))" for f c h
    by (rule dispatch_settled) (use False assms in auto)
  ultimately show ?thesis
    using False gone by (auto simp: consume_one_def returns_settled_def split: option.split prod.split sum.split)
qed

lemma consume_inv:
  assumes "sess_inv s"
  shows "sess_inv (consume pf now chunk s)"
proof -
  have "sess_inv s \<Longrightarrow> returns_settled (consume_each pf now ms s)" for ms s
  proof (induction ms arbitrary: s)
    case (Cons m ms)
    from consume_one_settled [OF Cons.prems] obtain t where "consume_one pf now m s = (Inr (), t)" "sess_inv t"
      by (metis returns_settled_def prod.collapse)
    with Cons.IH show ?case by (simp add: and_then_def)
  qed (simp add: returns_settled_def)
  then have "returns_settled (consume_each pf now ms (s\<lparr>se_reader := r\<rparr>))" for ms r using assms by simp
  then obtain t where "consume_each pf now (fst (length_reader_push (se_reader s) chunk))
      (s\<lparr>se_reader := snd (length_reader_push (se_reader s) chunk)\<rparr>) = (Inr (), t)" and "sess_inv t"
    by (metis returns_settled_def prod.collapse)
  then show ?thesis using assms by (simp add: consume_def case_prod_unfold)
qed

subsection \<open>Callbacks keep the invariant\<close>

lemma request_is_held:
  assumes "sess_inv s" and "request_at s i (\<lambda>r. ur_phase r \<noteq> Answer_over \<and> \<not> ur_destroyed r)"
  shows "se_upstreamRequest s = Some i" and "\<not> se_closed s" and "se_socket s = None" and "se_authorized s"
    and "se_send s \<noteq> None" and "i < length (se_requests s)"
proof -
  have i: "i < length (se_requests s)" "live_request (se_requests s ! i)"
    using assms(2) by (simp_all add: request_at_def live_request_def)
  have h: "held s" "talking (talk_of s) s" using assms(1) by (simp_all add: sess_inv_def sess_ok_def holding_def)
  have "requests_held (se_requests s) (se_upstreamRequest s)" using h(1) unfolding held_def by blast
  then show u: "se_upstreamRequest s = Some i" using i unfolding requests_held_def by blast
  show "\<not> se_closed s" "se_socket s = None" using sess_inv_fields(3) [OF assms(1) u] by simp_all
  have none: "\<not> se_authorized s \<longrightarrow> se_requests s = []" "se_send s = None \<longrightarrow> \<not> se_authorized s"
    using h(2) unfolding talking_def by blast+
  with i(1) show "se_authorized s" by force
  with none show "se_send s \<noteq> None" by blast
  show "i < length (se_requests s)" by (rule i)
qed

lemma socket_is_held:
  assumes "sess_inv s" and "socket_at s j (\<lambda>k. lk_state k \<noteq> Ws_closed)" and "\<not> se_closed s"
  shows "se_socket s = Some j" and "se_upstreamRequest s = None" and "se_authorized s"
    and "se_send s \<noteq> None" and "live_socket (se_sockets s ! j)" and "j < length (se_sockets s)"
proof -
  have h: "held s" "talking (talk_of s) s" using assms(1) by (simp_all add: sess_inv_def sess_ok_def holding_def)
  have j: "j < length (se_sockets s)" "lk_state (se_sockets s ! j) \<noteq> Ws_closed"
    using assms(2) by (simp_all add: socket_at_def)
  moreover from j(1) have "\<not> terminated (se_sockets s ! j)"
    using h(1) assms(3) unfolding held_def sane_def by blast
  ultimately show live: "live_socket (se_sockets s ! j)" by (simp add: live_socket_def)
  have "sockets_held (se_sockets s) (se_socket s)" using h(1) unfolding held_def by blast
  then show u: "se_socket s = Some j" using j(1) live unfolding sockets_held_def by blast
  show "se_upstreamRequest s = None" using sess_inv_fields(4) [OF assms(1) u] by simp
  have none: "\<not> se_authorized s \<longrightarrow> se_sockets s = []" "se_send s = None \<longrightarrow> \<not> se_authorized s"
    using h(2) unfolding talking_def by blast+
  with j(1) show "se_authorized s" by force
  with none show "se_send s \<noteq> None" by blast
  show "j < length (se_sockets s)" by (rule j)
qed

lemma sent_after_request:
  assumes "sess_inv s" and "se_requests s \<noteq> [] \<or> se_sockets s \<noteq> []"
  shows "se_send s \<noteq> None"
  using assms unfolding sess_inv_def sess_ok_def talking_def by blast

lemma tunnel_failed_settled:
  assumes "sess_inv s" and "se_requests s \<noteq> [] \<or> se_sockets s \<noteq> []"
  shows "returns_settled (tunnel_failed pf s)"
  unfolding tunnel_failed_def
  by (rule se_fail_settled) (use assms sent_after_request in simp_all)

text \<open>What a run of writes leaves: the session it started from with more on the wire, or an end.\<close>

definition wrote :: "secure_session \<Rightarrow> secure_session \<Rightarrow> bool" where
  "wrote s t \<longleftrightarrow> se_closed t \<or> (\<exists>a b c. t = s\<lparr>se_send := a, se_written := b, se_frames := c\<rparr>)"

lemma wrote_refl: "wrote s s"
proof -
  have "s = s\<lparr>se_send := se_send s, se_written := se_written s, se_frames := se_frames s\<rparr>" by simp
  then show ?thesis unfolding wrote_def by metis
qed

lemma write_keeps_closed: "se_closed s \<Longrightarrow> se_write pf f s = s"
  by (simp add: se_write_def sealAndWrite_def)

lemma wrote_write:
  assumes "wrote s t"
  shows "wrote s (se_write pf f t)"
proof (cases "se_closed (se_write pf f t)")
  case False
  then have "\<not> se_closed t" using write_keeps_closed by metis
  with assms obtain a b c where "t = s\<lparr>se_send := a, se_written := b, se_frames := c\<rparr>" by (auto simp: wrote_def)
  moreover from se_write_open [OF False] obtain a b c where
    "se_write pf f t = t\<lparr>se_send := a, se_written := b, se_frames := c\<rparr>" by blast
  ultimately show ?thesis by (auto simp: wrote_def)
qed (simp add: wrote_def)

lemma wrote_talk: "wrote s t \<Longrightarrow> \<not> se_closed t \<Longrightarrow> talk_of t = talk_of s"
  by (auto simp: wrote_def)

lemma wrote_drain [simp]: "se_onDrain (se_write pf f s) = se_onDrain s"
  by (rule sealAndWrite_cases [of pf f s]) (auto simp: se_write_def)

text \<open>Writes that leave the conversation where the state says it is.\<close>

lemma wrote_inv:
  assumes "wrote s t" and "sess_ok (talk_of s) t"
  shows "sess_inv t"
proof (cases "se_closed t")
  case True
  then show ?thesis using assms(2) sess_inv_over by blast
next
  case False
  then show ?thesis using assms(2) wrote_talk [OF assms(1)] by (simp add: sess_inv_def)
qed

lemma write_phase [simp]: "ur_phase (se_requests (se_write pf f s) ! i) = ur_phase (se_requests s ! i)"
proof -
  have "ur_phase (edit k (ur_destroyed_update (\<lambda>_. True)) rs ! i) = ur_phase (rs ! i)"
    for k and rs :: "upstream_request list"
    by (cases "k < length rs"; cases "k = i") (simp_all add: edit_def nth_list_update_neq)
  then have "ur_phase (se_requests (let_go t) ! i) = ur_phase (se_requests t ! i)" for t
    by (simp add: let_go_def maybe_def split: option.split)
  then show ?thesis by (cases "se_failed s"; rule_tac sealAndWrite_cases [of pf f s]) (simp_all add: se_write_def)
qed

text \<open>A request no listener waits for may change as it likes.\<close>

lemma listening_unheard:
  assumes "listening s" and "se_closed s \<or> Resume_response i \<notin> set (se_onDrain s)"
  shows "listening (on_request i f s)"
proof -
  have "edit i f rs ! k = rs ! k" if "k \<noteq> i" for rs k using that by (simp add: edit_def)
  then have "edit i f (se_requests s) ! k = se_requests s ! k"
    if "Resume_response k \<in> set (se_onDrain s)" "\<not> se_closed s" for k using assms(2) that by metis
  with assms(1) show ?thesis unfolding listening_def by simp
qed

lemma request_answered_settled:
  assumes inv: "sess_inv s" and p: "possible (On_response i status statusText hs) s"
  shows "returns_settled (request_answered pf i status statusText hs s)"
proof -
  let ?s = "(on_request i (ur_phase_update (\<lambda>_. Unread_answer)) s)\<lparr>se_upstream := Some i\<rparr>"
  have i: "i < length (se_requests s)" "ur_phase (se_requests s ! i) = No_answer" "\<not> ur_destroyed (se_requests s ! i)"
    using p by (simp_all add: request_at_def)
  then have "request_at s i (\<lambda>r. ur_phase r \<noteq> Answer_over \<and> \<not> ur_destroyed r)" by (simp add: request_at_def)
  note held = request_is_held [OF inv this]
  have parts: "holding s" "talking (talk_of s) s" "listening s" using inv by (simp_all add: sess_inv_def sess_ok_def)
  have idle: "talk_of s = Talk_idle" "talk_of ?s = Talk_idle" using held i by (simp_all add: talk_of_def nth_edit)
  have unheard: "Resume_response i \<notin> set (se_onDrain s)" using parts(3) held(2) i(2) by (auto simp: listening_def)
  have "holding (on_request i (ur_phase_update (\<lambda>_. Unread_answer)) s)"
    by (rule holding_on_request [OF parts(1)]) (use i in \<open>simp_all add: live_request_def\<close>)
  then have "holding ?s" using held(1-3) by (simp add: holding_def held_def)
  then have ok: "sess_ok Talk_idle ?s"
    using parts(2) idle listening_unheard [OF parts(3)] unheard by (simp add: sess_ok_def)
  then have refuse: "returns_settled (se_fail pf 502 (asc ''the answer's head is too large to carry'') ?s)"
    by (intro se_fail_settled) (use held(5) idle in \<open>simp_all add: sess_inv_def\<close>)
  have "sess_inv (on_request i (ur_phase_update (\<lambda>_. Reading)) (se_write pf (FRAME RESPONSE # f) ?s))" for f
  proof -
    let ?t = "se_write pf (FRAME RESPONSE # f) ?s" and ?r = "ur_phase_update (\<lambda>_. Reading)"
    have t: "sess_ok Talk_answer ?t" by (rule sess_ok_write [OF ok]) (use held(5) in \<open>simp_all add: hears_def\<close>)
    have "holding (on_request i ?r ?t)"
      by (rule holding_on_request) (use t i in \<open>simp_all add: sess_ok_def live_request_def nth_edit\<close>)
    moreover have "listening (on_request i ?r ?t)"
      by (rule listening_unheard) (use t unheard in \<open>simp_all add: sess_ok_def\<close>)
    ultimately have u: "sess_ok Talk_answer (on_request i ?r ?t)" using t by (simp add: sess_ok_def)
    have "wrote ?s ?t" by (rule wrote_write [OF wrote_refl])
    then have "talk_of (on_request i ?r ?t) = Talk_answer" if "\<not> se_closed ?t"
      using that held i by (auto simp: wrote_def talk_of_def nth_edit)
    with u show ?thesis using sess_inv_over [OF _ u] by (cases "se_closed ?t") (simp_all add: sess_inv_def)
  qed
  with refuse show ?thesis
    by (auto simp: request_answered_def Let_def tryEncodeJsonFrame_cases returns_settled_def)
qed

lemma drain_heard:
  assumes "sess_inv s" and "\<not> se_closed s"
  shows "Resume_response i \<in> set (se_onDrain s) \<Longrightarrow> se_upstreamRequest s = Some i
      \<and> ur_responsePaused (se_requests s ! i) \<and> ur_phase (se_requests s ! i) = Reading"
    and "Resume_socket j \<in> set (se_onDrain s) \<Longrightarrow> se_socket s = Some j \<and> lk_paused (se_sockets s ! j)"
  using assms unfolding sess_inv_def sess_ok_def listening_def by blast+

lemma write_chunks_ok:
  assumes "sess_ok Talk_answer s" and "se_send s \<noteq> None" and "\<forall>c\<in>set cs. length c \<le> MAX_FRAME_PAYLOAD"
  obtains t where "write_chunks pf cs s = (Inr (), t)" and "sess_ok Talk_answer t" and "wrote s t"
    and "se_onDrain t = se_onDrain s"
proof -
  have "sess_ok Talk_answer s \<Longrightarrow> se_send s \<noteq> None \<Longrightarrow> wrote u s \<Longrightarrow>
      \<exists>t. write_chunks pf cs s = (Inr (), t) \<and> sess_ok Talk_answer t \<and> wrote u t \<and> se_onDrain t = se_onDrain s" for u
    using assms(3)
  proof (induction cs arbitrary: s)
    case (Cons c cs)
    have "sess_ok Talk_answer (se_write pf (FRAME RESPONSE_BODY # c) s)"
      by (rule sess_ok_write [OF Cons.prems(1)]) (use Cons.prems(2) in \<open>simp_all add: hears_def\<close>)
    then show ?case
      using Cons.IH [of "se_write pf (FRAME RESPONSE_BODY # c) s"] Cons.prems wrote_write [OF Cons.prems(3)]
      by (simp add: encodeFrame_def)
  qed simp
  then show thesis using assms(1,2) wrote_refl that by blast
qed

lemma answer_chunk_settled:
  assumes inv: "sess_inv s" and p: "possible (On_response_data i chunk wl) s"
  shows "returns_settled (answer_chunk pf i chunk wl s)"
proof -
  have i: "i < length (se_requests s)" "ur_phase (se_requests s ! i) = Reading" "\<not> ur_responsePaused (se_requests s ! i)"
    "request_at s i (\<lambda>r. ur_phase r \<noteq> Answer_over \<and> \<not> ur_destroyed r)" using p by (simp_all add: request_at_def)
  note held = request_is_held [OF inv i(4)]
  have talk: "talk_of s = Talk_answer" using held i by (simp add: talk_of_def)
  have "Resume_response k \<notin> set (se_onDrain s)" "Resume_socket k \<notin> set (se_onDrain s)" for k
    using drain_heard [OF inv held(2)] held(1,3) i(3) by fastforce+
  then have empty: "se_onDrain s = []" by (metis drain_listener.exhaust list.set_intros(1) neq_Nil_conv)
  obtain t where t: "write_chunks pf (chunks BODY_CHUNK_BYTES chunk) s = (Inr (), t)" "sess_ok Talk_answer t"
    "wrote s t" "se_onDrain t = se_onDrain s"
    by (rule write_chunks_ok [of s "chunks BODY_CHUNK_BYTES chunk" pf])
      (use inv talk held(5) chunks_length [of _ BODY_CHUNK_BYTES chunk] in
        \<open>auto simp: sess_inv_def BODY_CHUNK_BYTES_def\<close>)
  let ?u = "(on_request i (ur_responsePaused_update (\<lambda>_. True)) t)\<lparr>se_onDrain := se_onDrain t @ [Resume_response i]\<rparr>"
  have "sess_inv ?u"
  proof -
    have "holding (on_request i (ur_responsePaused_update (\<lambda>_. True)) t)"
      by (rule holding_on_request) (use t(2) in \<open>simp_all add: sess_ok_def live_request_def\<close>)
    moreover have "listening ?u"
      using t(2,3) empty t(4) held i by (auto simp: sess_ok_def listening_def wrote_def nth_edit)
    ultimately have u: "sess_ok Talk_answer ?u" using t(2) by (simp add: sess_ok_def)
    have "talk_of ?u = Talk_answer" if "\<not> se_closed ?u"
      using that wrote_talk [OF t(3)] talk by (simp add: talk_of_on_request)
    with u show ?thesis using sess_inv_over [OF _ u] by (cases "se_closed ?u") (simp_all add: sess_inv_def)
  qed
  moreover have "sess_inv t" using wrote_inv [OF t(3)] t(2) talk by simp
  ultimately show ?thesis using t(1) by (simp add: answer_chunk_def and_then_def returns_settled_def)
qed

text \<open>
  The end of an answer lets go of the request only after the last frame; in between it is
  still held, although it is over.
\<close>

definition finished :: "nat \<Rightarrow> secure_session \<Rightarrow> secure_session" where
  "finished i s = (on_request i (ur_phase_update (\<lambda>_. Answer_over)) s)\<lparr>se_upstream := None,
     se_onDrain := remove1 (Resume_response i) (se_onDrain s), se_requestBody := None, se_carrying := Carrying_none\<rparr>"

definition released :: "nat \<Rightarrow> secure_session \<Rightarrow> secure_session" where
  "released i t = (on_request i (\<lambda>r. if ur_ended r then r else r\<lparr>ur_destroyed := True\<rparr>) t)\<lparr>se_upstreamRequest := None\<rparr>"

lemma answer_ended_eq:
  "answer_ended pf i whole s =
     and_then (if whole then \<lambda>s. (Inr (), se_write pf [FRAME RESPONSE_END] s) else se_fail pf 502 (asc ''truncated''))
       (\<lambda>_ t. (Inr (), released i t)) (finished i s)"
  by (simp add: answer_ended_def finished_def released_def encodeFrame_def Let_def)

lemma remove_only:
  assumes "length xs \<le> Suc 0" and "\<And>x. x \<in> set xs \<Longrightarrow> x = a"
  shows "remove1 a xs = []"
  using assms by (cases xs) (auto split: if_splits)

lemma released_holding:
  assumes "requests_held (se_requests (released i t)) None" and "sockets_held (se_sockets t) None"
    and "\<forall>j<length (se_sockets t). sane (se_closed t) (se_sockets t ! j)" and "se_carrying t = Carrying_none"
    and "se_upstream t = None" and "se_assembler t = None" and "se_requestBody t = None" and "se_socket t = None"
  shows "holding (released i t)"
  using assms by (simp add: holding_def held_def released_def)

text \<open>The session between the end of an answer and the last word about it, ended or not.\<close>

definition between :: "nat \<Rightarrow> secure_session \<Rightarrow> bool" where
  "between i t \<longleftrightarrow> talking Talk_idle t \<and> listening t \<and> (\<not> se_closed t \<longrightarrow> se_authorized t) \<and>
     se_onDrain t = [] \<and> se_socket t = None \<and> holding (released i t)"

lemma released_inv:
  assumes "between i t"
  shows "sess_inv (released i t)"
proof -
  have "listening (released i t)"
    using assms by (auto simp: between_def listening_def released_def socket_listener_def)
  then have ok: "sess_ok Talk_idle (released i t)" using assms by (simp add: sess_ok_def between_def) (simp add: released_def)
  show ?thesis
  proof (cases "se_closed t")
    case True
    then show ?thesis by (intro sess_inv_over [OF _ ok]) (simp add: released_def)
  next
    case False
    with assms have "talk_of (released i t) = Talk_idle" by (simp add: between_def talk_of_def released_def)
    with ok show ?thesis by (simp add: sess_inv_def)
  qed
qed

lemma over_requests:
  assumes "requests_held rs (Some i)"
  shows "requests_held (edit i (\<lambda>r. if ur_ended r then r else r\<lparr>ur_destroyed := True\<rparr>) (edit i (ur_phase_update (\<lambda>_. Answer_over)) rs)) None"
    and "requests_held (edit i (\<lambda>r. if ur_ended r then r else r\<lparr>ur_destroyed := True\<rparr>)
      (edit i (ur_destroyed_update (\<lambda>_. True)) (edit i (ur_phase_update (\<lambda>_. Answer_over)) rs))) None"
proof -
  have "\<not> live_request (rs ! k)" if "k < length rs" "k \<noteq> i" for k using assms that by (auto simp: requests_held_def)
  then show "requests_held (edit i (\<lambda>r. if ur_ended r then r else r\<lparr>ur_destroyed := True\<rparr>) (edit i (ur_phase_update (\<lambda>_. Answer_over)) rs)) None"
    and "requests_held (edit i (\<lambda>r. if ur_ended r then r else r\<lparr>ur_destroyed := True\<rparr>)
      (edit i (ur_destroyed_update (\<lambda>_. True)) (edit i (ur_phase_update (\<lambda>_. Answer_over)) rs))) None"
    by (simp_all add: requests_held_def nth_edit) (simp_all add: live_request_def)
qed

lemma answer_ended_settled:
  assumes inv: "sess_inv s" and p: "possible (On_response_end i whole) s"
  shows "returns_settled (answer_ended pf i whole s)"
proof -
  let ?s = "finished i s" and ?g = "\<lambda>r. if ur_ended r then r else r\<lparr>ur_destroyed := True\<rparr>"
    and ?o = "ur_phase_update (\<lambda>_. Answer_over)" and ?d = "ur_destroyed_update (\<lambda>_. True)"
  have i: "ur_phase (se_requests s ! i) = Reading" "request_at s i (\<lambda>r. ur_phase r \<noteq> Answer_over \<and> \<not> ur_destroyed r)"
    using p by (simp_all add: request_at_def)
  note held = request_is_held [OF inv i(2)]
  have parts: "holding s" "talking (talk_of s) s" "listening s" using inv by (simp_all add: sess_inv_def sess_ok_def)
  have talk: "talk_of s = Talk_answer" using held i(1) by (simp add: talk_of_def)
  have "x = Resume_response i" if "x \<in> set (se_onDrain s)" for x
    using drain_heard [OF inv held(2)] held(1,3) that by (cases x) auto
  then have drained: "remove1 (Resume_response i) (se_onDrain s) = []"
    by (intro remove_only) (use parts(3) in \<open>simp_all add: listening_def\<close>)
  then have lis: "listening ?s" and drain: "se_onDrain ?s = []"
    using parts(3) by (auto simp: finished_def listening_def socket_listener_def)
  have tlk: "talking Talk_answer ?s" using parts(2) talk by (simp add: finished_def)
  have core: "se_upstreamRequest ?s = Some i" "se_socket ?s = None" "se_upstream ?s = None" "se_requestBody ?s = None"
    "se_carrying ?s = Carrying_none" "se_sockets ?s = se_sockets s" "se_requests ?s = edit i ?o (se_requests s)"
    "\<not> se_closed ?s" "se_authorized ?s" "se_send ?s \<noteq> None" "se_failed ?s = se_failed s" "se_assembler ?s = None"
    using held sess_inv_fields(5) [OF inv] by (simp_all add: finished_def)
  have socks: "sockets_held (se_sockets s) None" "\<forall>j<length (se_sockets s). sane b (se_sockets s ! j)" for b
    using parts(1) held(2,3) by (simp_all add: holding_def held_def) (simp add: sane_def)
  have reqs: "requests_held (edit i ?g (edit i ?o (se_requests s))) None"
    "requests_held (edit i ?g (edit i ?d (edit i ?o (se_requests s)))) None"
    using over_requests [of "se_requests s" i] parts(1) held(1) by (simp_all add: holding_def held_def)
  have hold: "holding (released i t)"
    if "se_requests t = se_requests ?s \<or> se_requests t = edit i ?d (se_requests ?s)" "se_sockets t = se_sockets s"
      "se_carrying t = Carrying_none" "se_upstream t = None" "se_assembler t = None" "se_requestBody t = None"
      "se_socket t = None" for t
    by (rule released_holding) (use that reqs socks core in \<open>auto simp: released_def\<close>)
  have ended: "between i (se_write pf [FRAME RESPONSE_END] ?s)"
  proof -
    let ?t = "se_write pf [FRAME RESPONSE_END] ?s"
    have "talking Talk_idle ?t" by (rule se_write_talks [OF tlk]) (use core in \<open>simp_all add: hears_def\<close>)
    moreover have "holding (released i ?t) \<and> se_socket ?t = None \<and> (\<not> se_closed ?t \<longrightarrow> se_authorized ?t)"
      using core by (cases "se_failed ?s"; rule_tac sealAndWrite_cases [of pf "[FRAME RESPONSE_END]" ?s])
        (auto intro!: hold simp: se_write_def let_go_def maybe_def report_def)
    ultimately show ?thesis using se_write_keeps(2) [OF lis] drain by (simp add: between_def)
  qed
  have truncated: "between i (if se_closed ?s \<or> se_failed ?s then ?s else refusing pf reason (FRAME FAILED # f) ?s)" for reason f
  proof (cases "se_failed ?s")
    case True
    with core lis drain hold [of ?s] talking_over [OF _ tlk] show ?thesis by (simp add: between_def)
  next
    case False
    let ?t = "refusing pf reason (FRAME FAILED # f) ?s"
    have "talking Talk_idle ?t" by (rule refusing_talks [OF tlk]) (use core False in simp_all)
    moreover have "listening ?t" by (rule refusing_listens [OF lis]) (use core False in simp_all)
    moreover have "holding (released i ?t) \<and> se_socket ?t = None \<and> (\<not> se_closed ?t \<longrightarrow> se_authorized ?t) \<and> se_onDrain ?t = []"
      by (rule refusing_shape [OF core(8,10), of pf reason "FRAME FAILED # f"])
        (use core drain in \<open>auto intro!: hold simp: let_go_def maybe_def report_def\<close>)
    ultimately show ?thesis using False core by (simp add: between_def)
  qed
  obtain f where "\<And>s. se_fail pf 502 (asc ''truncated'') s = (Inr (), if se_closed s \<or> se_failed s then s
      else refusing pf (asc ''truncated'') (FRAME FAILED # f) s)"
    using se_fail_eq [of 502 "asc ''truncated''" pf] by auto
  then show ?thesis
    using released_inv [OF ended] released_inv [OF truncated [of "asc ''truncated''" f]]
    by (simp add: answer_ended_eq and_then_def returns_settled_def)
qed

lemma not_terminated_simps [simp]:
  "terminated (lk_state_update f k) = terminated k" "terminated (lk_dialTimer_update g k) = terminated k"
  "terminated (lk_paused_update h k) = terminated k"
  by (simp_all add: terminated_def)

lemma socket_opened_settled:
  assumes inv: "sess_inv s" and p: "possible (On_socket_open j) s"
  shows "returns_settled (secure_step pf (On_socket_open j) s)"
proof -
  let ?f = "\<lambda>k :: loopback_socket. (k\<lparr>lk_state := Ws_open\<rparr>)\<lparr>lk_dialTimer := False\<rparr>" and ?s = "\<lambda>f. on_socket j f s"
  have j: "j < length (se_sockets s)" "lk_state (se_sockets s ! j) = Ws_connecting" "\<not> terminated (se_sockets s ! j)"
    using p by (simp_all add: socket_at_def)
  have parts: "holding s" "talking (talk_of s) s" "listening s" using inv by (simp_all add: sess_inv_def sess_ok_def)
  have h: "sockets_held (se_sockets s) (se_socket s)" "\<forall>j<length (se_sockets s). sane (se_closed s) (se_sockets s ! j)"
    using parts(1) unfolding holding_def held_def by blast+
  have "live_socket (se_sockets s ! j)" using j by (simp add: live_socket_def)
  then have u: "se_socket s = Some j" using h(1) j(1) unfolding sockets_held_def by blast
  then have "open": "\<not> se_closed s" using sess_inv_fields(4) [OF inv] by blast
  have at: "socket_at s j (\<lambda>k. lk_state k \<noteq> Ws_closed)" using j by (simp add: socket_at_def)
  note held = socket_is_held [OF inv at "open"]
  have timer: "lk_dialTimer (se_sockets s ! j)" using h(2) j by (simp add: sane_def)
  then have talk: "talk_of s = Talk_idle" using held u by (simp add: talk_of_def)
  have "holding (?s ?f)"
    by (rule holding_on_socket [OF parts(1)]) (use j in \<open>simp_all add: live_socket_def sane_def\<close>)
  moreover have "listening (?s ?f)" by (rule listening_on_socket [OF parts(3)]) simp
  ultimately have "sess_ok Talk_idle (?s ?f)" using parts(2) talk by (simp add: sess_ok_def)
  then have t: "sess_ok Talk_socket (se_write pf [FRAME OPENED] (?s ?f))"
    by (rule sess_ok_write) (use held(4) in \<open>simp_all add: hears_def\<close>)
  have "talk_of (?s ?f) = Talk_socket" using held u j by (simp add: talk_of_def nth_edit)
  with t have "sess_inv (se_write pf [FRAME OPENED] (?s ?f))" by (intro wrote_inv [OF wrote_write [OF wrote_refl]]) simp
  moreover have "(\<lambda>k. k\<lparr>lk_dialTimer := False\<rparr>) \<circ> lk_state_update (\<lambda>_. Ws_open) = ?f" by (rule ext) simp
  ultimately show ?thesis by (simp add: socket_opened_def encodeFrame_def returns_settled_def)
qed

lemma write_paused [simp]:
  "lk_paused (se_sockets (se_write pf f s) ! j) = lk_paused (se_sockets s ! j)"
  "lk_paused (se_sockets (fold (se_write pf) fs s) ! j) = lk_paused (se_sockets s ! j)"
proof -
  have "lk_paused (edit k (called Call_terminate) ks ! j) = lk_paused (ks ! j)" for k ks
    by (cases "k < length ks"; cases "k = j") (simp_all add: edit_def nth_list_update_neq)
  then have "lk_paused (se_sockets (let_go t) ! j) = lk_paused (se_sockets t ! j)" for t
    by (simp add: let_go_def maybe_def split: option.split)
  then have one: "lk_paused (se_sockets (se_write pf f s) ! j) = lk_paused (se_sockets s ! j)" for f s
    by (cases "se_failed s"; rule_tac sealAndWrite_cases [of pf f s]) (simp_all add: se_write_def)
  then show "lk_paused (se_sockets (se_write pf f s) ! j) = lk_paused (se_sockets s ! j)" .
  show "lk_paused (se_sockets (fold (se_write pf) fs s) ! j) = lk_paused (se_sockets s ! j)"
    by (induction fs arbitrary: s) (simp_all add: one)
qed

lemma message_frames_written:
  assumes "sess_ok Talk_socket s" and "se_send s \<noteq> None"
  shows "sess_ok Talk_socket (fold (se_write pf) (map (\<lambda>c. FRAME MESSAGE # c) cs @ [[FRAME MESSAGE_END]]) s)
    \<and> wrote s (fold (se_write pf) (map (\<lambda>c. FRAME MESSAGE # c) cs @ [[FRAME MESSAGE_END]]) s)
    \<and> se_onDrain (fold (se_write pf) (map (\<lambda>c. FRAME MESSAGE # c) cs @ [[FRAME MESSAGE_END]]) s) = se_onDrain s"
proof -
  have "sess_ok p t \<Longrightarrow> p \<in> {Talk_socket, Talk_message} \<Longrightarrow> se_send t \<noteq> None \<Longrightarrow> wrote s t \<Longrightarrow>
      sess_ok Talk_socket (fold (se_write pf) (map (\<lambda>c. FRAME MESSAGE # c) cs @ [[FRAME MESSAGE_END]]) t)
      \<and> wrote s (fold (se_write pf) (map (\<lambda>c. FRAME MESSAGE # c) cs @ [[FRAME MESSAGE_END]]) t)
      \<and> se_onDrain (fold (se_write pf) (map (\<lambda>c. FRAME MESSAGE # c) cs @ [[FRAME MESSAGE_END]]) t) = se_onDrain t" for p t
  proof (induction cs arbitrary: p t)
    case Nil
    have "hears p (FRAME MESSAGE_END) = Some Talk_socket" using Nil.prems(2) by (auto simp: hears_def)
    with Nil.prems show ?case using sess_ok_write [OF Nil.prems(1)] wrote_write by simp
  next
    case (Cons c cs)
    have "hears p (FRAME MESSAGE) = Some Talk_message" using Cons.prems(2) by (auto simp: hears_def)
    then have "sess_ok Talk_message (se_write pf (FRAME MESSAGE # c) t)"
      using sess_ok_write [OF Cons.prems(1)] Cons.prems(3) by simp
    then show ?case using Cons.IH [of Talk_message "se_write pf (FRAME MESSAGE # c) t"] Cons.prems wrote_write by simp
  qed
  with assms wrote_refl show ?thesis by blast
qed

lemma socket_message_settled:
  assumes inv: "sess_inv s" and p: "possible (On_socket_message j data wl) s"
  shows "returns_settled (socket_message pf j data wl s)"
proof -
  have j: "j < length (se_sockets s)" "\<not> lk_dialTimer (se_sockets s ! j)" "live_socket (se_sockets s ! j)"
    using p by (auto simp: socket_at_def live_socket_def)
  have parts: "holding s" "talking (talk_of s) s" "listening s" using inv by (simp_all add: sess_inv_def sess_ok_def)
  have "sockets_held (se_sockets s) (se_socket s)" using parts(1) unfolding holding_def held_def by blast
  then have u: "se_socket s = Some j" using j(1,3) unfolding sockets_held_def by blast
  then have "open": "\<not> se_closed s" using sess_inv_fields(4) [OF inv] by blast
  have at: "socket_at s j (\<lambda>k. lk_state k \<noteq> Ws_closed)" using j by (simp add: socket_at_def live_socket_def)
  note held = socket_is_held [OF inv at "open"]
  have talk: "talk_of s = Talk_socket" using held u j by (simp add: talk_of_def)
  then have ok: "sess_ok Talk_socket s" using inv by (simp add: sess_inv_def)
  let ?t = "fold (se_write pf) (map (\<lambda>c. FRAME MESSAGE # c) (chunks MAX_FRAME_PAYLOAD data) @ [[FRAME MESSAGE_END]]) s"
  let ?u = "(on_socket j (\<lambda>k. k\<lparr>lk_paused := True\<rparr>) ?t)\<lparr>se_onDrain := se_onDrain ?t @ [Resume_socket j]\<rparr>"
  have t: "sess_ok Talk_socket ?t" "wrote s ?t" "se_onDrain ?t = se_onDrain s"
    using message_frames_written [OF ok held(4)] by blast+
  have "sess_inv ?u" if unpaused: "\<not> lk_paused (se_sockets ?t ! j)"
  proof -
    have "\<not> lk_paused (se_sockets s ! j)" using unpaused by simp
    then have "Resume_response k \<notin> set (se_onDrain s)" "Resume_socket k \<notin> set (se_onDrain s)" for k
      using drain_heard [OF inv "open"] u held(2) by fastforce+
    then have empty: "se_onDrain s = []" by (metis drain_listener.exhaust list.set_intros(1) neq_Nil_conv)
    have "holding (on_socket j (\<lambda>k. k\<lparr>lk_paused := True\<rparr>) ?t)"
      by (rule holding_on_socket) (use t(1) in \<open>simp_all add: sess_ok_def live_socket_def sane_def\<close>)
    moreover have "listening ?u"
      using t(1,2) empty t(3) u j(1) by (auto simp: sess_ok_def listening_def wrote_def nth_edit)
    ultimately have ok: "sess_ok Talk_socket ?u" using t(1) by (simp add: sess_ok_def)
    have "talk_of ?u = Talk_socket" if "\<not> se_closed ?u"
      using that wrote_talk [OF t(2)] talk by (simp add: talk_of_on_socket)
    with ok show ?thesis using sess_inv_over [OF _ ok] by (cases "se_closed ?u") (simp_all add: sess_inv_def)
  qed
  moreover have "sess_inv ?t" using wrote_inv [OF t(2)] t(1) talk by simp
  ultimately show ?thesis
    by (auto simp: socket_message_def encodeMessageFrames_eq returns_settled_def Let_def)
qed

text \<open>The close of a socket: the last frame goes out before the session lets go of it.\<close>

definition dropped :: "nat \<Rightarrow> secure_session \<Rightarrow> secure_session" where
  "dropped j s = s\<lparr>se_socket := None, se_assembler := None, se_carrying := Carrying_none,
     se_onClose := remove1 (Close_resumes_socket j) (se_onClose s), se_onDrain := remove1 (Resume_socket j) (se_onDrain s)\<rparr>"

lemma length_remove1_le: "length (remove1 x xs) \<le> length xs"
  by (simp add: length_remove1)

lemma dropped_closed:
  assumes "sess_ok p s" and "se_closed s"
  shows "sess_inv (dropped j s)"
proof (rule sess_inv_over)
  have "holding (dropped j s)" using assms by (auto simp: sess_ok_def holding_def held_def dropped_def)
  moreover have "listening (dropped j s)"
    using assms length_remove1_le [of "Resume_socket j" "se_onDrain s"] length_remove1_le [of "Close_resumes_socket j" "se_onClose s"]
    by (simp add: sess_ok_def listening_def dropped_def)
  ultimately show "sess_ok p (dropped j s)" using assms(1) by (simp add: sess_ok_def dropped_def)
qed (use assms in \<open>simp add: dropped_def\<close>)

lemma closed_sockets:
  assumes "sockets_held ks (Some j)"
  shows "sockets_held (edit j (\<lambda>k. (k\<lparr>lk_state := Ws_closed\<rparr>)\<lparr>lk_dialTimer := False\<rparr>) ks) None"
    and "sockets_held (edit j (called Call_terminate) (edit j (\<lambda>k. (k\<lparr>lk_state := Ws_closed\<rparr>)\<lparr>lk_dialTimer := False\<rparr>) ks)) None"
proof -
  have "\<not> live_socket (ks ! k)" if "k < length ks" "k \<noteq> j" for k using assms that by (auto simp: sockets_held_def)
  then show "sockets_held (edit j (\<lambda>k. (k\<lparr>lk_state := Ws_closed\<rparr>)\<lparr>lk_dialTimer := False\<rparr>) ks) None"
    and "sockets_held (edit j (called Call_terminate) (edit j (\<lambda>k. (k\<lparr>lk_state := Ws_closed\<rparr>)\<lparr>lk_dialTimer := False\<rparr>) ks)) None"
    by (simp_all add: sockets_held_def nth_edit) (simp_all add: live_socket_def called_def)
qed

lemma socket_closed_settled:
  assumes inv: "sess_inv s" and p: "possible (On_socket_close j code reason) s"
  shows "returns_settled (secure_step pf (On_socket_close j code reason) s)"
proof -
  let ?f = "\<lambda>k :: loopback_socket. (k\<lparr>lk_state := Ws_closed\<rparr>)\<lparr>lk_dialTimer := False\<rparr>"
  let ?s = "on_socket j ?f s"
  obtain fr where fr: "encodeJsonFrame CLOSE (close_frame code reason) = Inr (FRAME CLOSE # fr)"
    using close_frame_fits [of code reason CLOSE] p by (auto simp: MAX_CLOSE_REASON_BYTES_def)
  have "(\<lambda>k. k\<lparr>lk_dialTimer := False\<rparr>) \<circ> lk_state_update (\<lambda>_. Ws_closed) = ?f" by (rule ext) simp
  then have step: "secure_step pf (On_socket_close j code reason) s = (Inr (), dropped j (se_write pf (FRAME CLOSE # fr) ?s))"
    by (simp add: socket_closed_def fr dropped_def Let_def)
  have parts: "holding s" "talking (talk_of s) s" "listening s" using inv by (simp_all add: sess_inv_def sess_ok_def)
  have at: "socket_at s j (\<lambda>k. lk_state k \<noteq> Ws_closed)" using p by simp
  have lis: "listening ?s" by (rule listening_on_socket [OF parts(3)]) simp
  have "sess_inv (dropped j (se_write pf (FRAME CLOSE # fr) ?s))"
  proof (cases "se_closed s")
    case True
    have "holding ?s"
    proof -
      have "\<forall>k<length (se_sockets s). sane True (edit j ?f (se_sockets s) ! k)"
        by (rule sane_edit) (use parts(1) True in \<open>auto simp: holding_def held_def sane_def\<close>)
      moreover have "sockets_held (edit j ?f (se_sockets s)) None"
        using parts(1) True by (auto simp: holding_def held_def sockets_held_def nth_edit live_socket_def)
      ultimately show ?thesis using parts(1) True by (auto simp: holding_def held_def)
    qed
    then have "sess_ok Talk_idle ?s"
      using lis talking_over [OF _ parts(2)] True by (simp add: sess_ok_def)
    then show ?thesis using True by (simp add: write_keeps_closed dropped_closed)
  next
    case False
    note held = socket_is_held [OF inv at False]
    have drained: "remove1 (Resume_socket j) (se_onDrain s) = []"
    proof (rule remove_only)
      show "x = Resume_socket j" if "x \<in> set (se_onDrain s)" for x
        using drain_heard [OF inv False] held(1,2) that by (cases x) auto
    qed (use parts(3) in \<open>simp add: listening_def\<close>)
    have p2: "talk_of s = Talk_idle \<or> talk_of s = Talk_socket" using held by (simp add: talk_of_def)
    have tlk: "talking Talk_idle (se_write pf (FRAME CLOSE # fr) ?s)"
      by (rule se_write_talks [of "talk_of s"]) (use parts(2) p2 held(4) in \<open>auto simp: hears_def\<close>)
    have lis': "listening (se_write pf (FRAME CLOSE # fr) ?s)" by (rule se_write_keeps(2) [OF lis])
    have reqs: "requests_held (se_requests s) None" "se_requestBody s = None" "se_upstream s = None"
      "sockets_held (se_sockets s) (Some j)" "\<forall>k<length (se_sockets s). sane False (se_sockets s ! k)"
      using parts(1) held(1,2) False by (auto simp: holding_def held_def)
    have socks: "sockets_held (edit j ?f (se_sockets s)) None"
      "sockets_held (edit j (called Call_terminate) (edit j ?f (se_sockets s))) None"
      using closed_sockets [OF reqs(4)] by blast+
    have sane: "\<forall>k<length (se_sockets s). sane b (edit j ?f (se_sockets s) ! k)"
      "\<forall>k<length (se_sockets s). sane True (edit j (called Call_terminate) (edit j ?f (se_sockets s)) ! k)" for b
      using reqs(5) by (auto simp: sane_def nth_edit called_def)
    have hold: "holding (dropped j t)"
      if "se_requests t = se_requests s" "se_upstreamRequest t = None" "se_upstream t = None" "se_requestBody t = None"
        "se_sockets t = edit j ?f (se_sockets s) \<or> se_closed t \<and> se_sockets t = edit j (called Call_terminate) (edit j ?f (se_sockets s))" for t
      using that(5)
    proof
      assume "se_sockets t = edit j ?f (se_sockets s)"
      then show ?thesis using that(1-4) reqs(1) socks(1) sane(1) by (simp add: holding_def held_def dropped_def)
    next
      assume "se_closed t \<and> se_sockets t = edit j (called Call_terminate) (edit j ?f (se_sockets s))"
      then show ?thesis using that(1-4) reqs(1) socks(2) sane(2) by (simp add: holding_def held_def dropped_def)
    qed
    let ?t = "se_write pf (FRAME CLOSE # fr) ?s"
    have holds: "holding (dropped j ?t)"
      using held(1,2) reqs(2,3) False
      by (cases "se_failed ?s"; rule_tac sealAndWrite_cases [of pf "FRAME CLOSE # fr" ?s])
        (auto intro!: hold simp: se_write_def let_go_def maybe_def report_def)
    have lis: "listening (dropped j ?t)"
    proof (cases "se_closed ?t")
      case True
      with lis' show ?thesis
        using length_remove1_le [of "Resume_socket j" "se_onDrain ?t"] length_remove1_le [of "Close_resumes_socket j" "se_onClose ?t"]
        by (simp add: listening_def dropped_def)
    next
      case openT: False
      from se_write_open [OF this] obtain a b c where "?t = ?s\<lparr>se_send := a, se_written := b, se_frames := c\<rparr>" by blast
      then show ?thesis using parts(3) False held(1) drained
        by (auto simp: listening_def dropped_def socket_listener_def)
    qed
    have ok: "sess_ok Talk_idle (dropped j ?t)"
      using holds lis tlk by (simp add: sess_ok_def) (simp add: dropped_def)
    show ?thesis
    proof (cases "se_closed ?t")
      case True
      then show ?thesis by (intro sess_inv_over [OF _ ok]) (simp add: dropped_def)
    next
      case False
      from se_write_open [OF this] obtain a b c where "?t = ?s\<lparr>se_send := a, se_written := b, se_frames := c\<rparr>" by blast
      then have "talk_of (dropped j ?t) = Talk_idle" using held(2,3) by (simp add: talk_of_def dropped_def)
      with ok show ?thesis by (simp add: sess_inv_def)
    qed
  qed
  then show ?thesis unfolding step returns_settled_def by simp
qed

lemma dial_timeout_settled:
  assumes "sess_inv s" and "possible (On_dial_timeout j) s"
  shows "returns_settled (dial_timeout pf j s)"
proof -
  have "se_sockets s \<noteq> []" using assms(2) by (auto simp: socket_at_def)
  then have "se_send s \<noteq> None" using sent_after_request [OF assms(1)] by blast
  then have "returns_settled (se_fail pf 502 (asc ''the socket never opened'') s)"
    by (intro se_fail_settled [OF assms(1)]) simp_all
  with assms(1) show ?thesis by (simp add: dial_timeout_def returns_settled_def)
qed

lemma fire_drain_inv:
  assumes "sess_inv s" and "se_onDrain s = []"
  shows "sess_inv (fold fire_drain ls s) \<and> se_onDrain (fold fire_drain ls s) = []"
  using assms
proof (induction ls arbitrary: s)
  case (Cons l ls)
  have parts: "holding s" "talking (talk_of s) s" "listening s" using Cons.prems by (simp_all add: sess_inv_def sess_ok_def)
  have "sess_inv (fire_drain l s)"
  proof (cases l)
    case (Resume_response i)
    have "holding (on_request i (ur_responsePaused_update (\<lambda>_. False)) s)"
      by (rule holding_on_request [OF parts(1)]) (simp_all add: live_request_def)
    moreover have "listening (on_request i (ur_responsePaused_update (\<lambda>_. False)) s)"
      by (rule listening_unheard [OF parts(3)]) (simp add: Cons.prems)
    ultimately show ?thesis using parts(2) Resume_response by (simp add: sess_inv_def sess_ok_def talk_of_on_request)
  next
    case (Resume_socket j)
    have "holding (on_socket j (\<lambda>k. k\<lparr>lk_paused := False\<rparr>) s)"
      by (rule holding_on_socket [OF parts(1)]) (simp_all add: live_socket_def sane_def)
    moreover have "listening (on_socket j (\<lambda>k. k\<lparr>lk_paused := False\<rparr>) s)"
      using parts(3) Cons.prems(2) by (simp add: listening_def)
    ultimately show ?thesis
      using parts(2) Resume_socket by (simp add: socket_resume_def sess_inv_def sess_ok_def talk_of_on_socket)
  qed
  moreover have "se_onDrain (fire_drain l s) = []" using Cons.prems(2) by (cases l) (simp_all add: socket_resume_def)
  ultimately show ?case using Cons.IH by simp
qed simp

lemma fire_close_inv:
  assumes "sess_inv s" and "se_closed s"
  shows "sess_inv (fold fire_close ls s) \<and> se_closed (fold fire_close ls s)"
  using assms
proof (induction ls arbitrary: s)
  case (Cons l ls)
  have parts: "holding s" "talking (talk_of s) s" "listening s" using Cons.prems by (simp_all add: sess_inv_def sess_ok_def)
  have "sess_inv (fire_close l s) \<and> se_closed (fire_close l s)"
  proof (cases l)
    case (Destroy_session reason)
    then show ?thesis using Cons.prems by (simp add: se_destroy_eq)
  next
    case (Close_resumes_socket j)
    have "holding (on_socket j (\<lambda>k. k\<lparr>lk_paused := False\<rparr>) s)"
      by (rule holding_on_socket [OF parts(1)]) (simp_all add: live_socket_def sane_def)
    moreover have "listening (on_socket j (\<lambda>k. k\<lparr>lk_paused := False\<rparr>) s)"
      using parts(3) Cons.prems(2) by (simp add: listening_def)
    ultimately show ?thesis
      using parts(2) Close_resumes_socket Cons.prems(2)
      by (simp add: socket_resume_def sess_inv_def sess_ok_def talk_of_on_socket)
  qed
  then show ?case using Cons.IH by simp
qed simp

lemma tunnel_possible:
  assumes "sess_inv s" and "possible (On_response_error i) s \<or> possible (On_request_error i) s \<or> possible (On_socket_error i) s"
  shows "returns_settled (tunnel_failed pf s)"
  using assms(2) by (intro tunnel_failed_settled [OF assms(1)]) (auto simp: request_at_def socket_at_def)

text \<open>Every callback keeps the invariant, and none throws.\<close>

lemma secure_step_settled:
  assumes inv: "sess_inv s" and p: "possible ev s"
  shows "returns_settled (secure_step pf ev s)"
proof (cases ev)
  case On_stream_close
  have "sess_inv ((se_destroy d s)\<lparr>se_onClose := []\<rparr>) \<and> se_closed ((se_destroy d s)\<lparr>se_onClose := []\<rparr>)" for d
  proof -
    have "sess_inv (se_destroy d s)" "se_closed (se_destroy d s)"
      using sess_inv_destroy [OF inv] by (simp_all add: se_destroy_eq)
    then show ?thesis by (simp add: sess_inv_def sess_ok_def listening_def)
  qed
  then show ?thesis using fire_close_inv On_stream_close by (simp add: returns_settled_def)
next
  case On_drain
  have "sess_inv (s\<lparr>se_onDrain := []\<rparr>)" using inv by (simp add: sess_inv_def sess_ok_def listening_def)
  then show ?thesis using fire_drain_inv [of "s\<lparr>se_onDrain := []\<rparr>"] On_drain by (simp add: returns_settled_def)
next
  case On_fail_timeout
  then show ?thesis using inv by (cases "se_failTimer s") (simp_all add: returns_settled_def maybe_def sess_inv_destroy)
next
  case (On_request_timeout i)
  have "sess_inv (on_request i (ur_destroyed_update (\<lambda>_. True)) s)"
    by (rule sess_inv_on_request [OF inv]) (simp_all add: live_request_def)
  then show ?thesis using On_request_timeout by (simp add: returns_settled_def)
next
  case (On_socket_closing j)
  have parts: "holding s" "talking (talk_of s) s" "listening s" using inv by (simp_all add: sess_inv_def sess_ok_def)
  have "holding (on_socket j (lk_state_update (\<lambda>_. Ws_closing)) s)"
    by (rule holding_on_socket [OF parts(1)]) (use p On_socket_closing in \<open>auto simp: socket_at_def live_socket_def sane_def\<close>)
  moreover have "listening (on_socket j (lk_state_update (\<lambda>_. Ws_closing)) s)" by (rule listening_on_socket [OF parts(3)]) simp
  ultimately show ?thesis
    using parts(2) On_socket_closing by (simp add: returns_settled_def sess_inv_def sess_ok_def talk_of_on_socket)
next
  case (On_response_error i)
  then show ?thesis using tunnel_possible [OF inv, of i pf] p by simp
next
  case (On_request_error i)
  then show ?thesis using tunnel_possible [OF inv, of i pf] p by simp
next
  case (On_socket_error i)
  then show ?thesis using tunnel_possible [OF inv, of i pf] p by simp
qed (use inv p consume_inv [OF inv] sess_inv_destroy [OF inv] request_answered_settled [OF inv] answer_chunk_settled [OF inv]
    answer_ended_settled [OF inv] body_resume_inv [OF inv] socket_opened_settled [OF inv] socket_message_settled [OF inv]
    socket_closed_settled [OF inv] dial_timeout_settled [OF inv]
    in \<open>auto simp: returns_settled_def simp del: possible.simps\<close>)

lemma new_session_inv: "sess_inv (new_secure_session h)"
  by (simp add: sess_inv_def sess_ok_def new_secure_session_def holding_def held_def requests_held_def sockets_held_def
      talking_def talk_of_def listening_def socket_listener_def)

lemma reaches_inv: "reaches pf s t \<Longrightarrow> sess_inv s \<Longrightarrow> sess_inv t"
proof (induction rule: reaches.induct)
  case (reaches_step s t ev r u)
  then show ?case using secure_step_settled [of t ev pf] by (simp add: returns_settled_def)
qed

end
