(* ===== verification/SecureChannel.thy ===== *)
theory SecureChannel
  imports SecureSession
begin

text \<open>
  What the encrypted session promises: the frames a peer seals are the frames it handles,
  however the stream was cut; nothing is driven but for the device whose key the channel
  proved; one exchange at a time and nothing left behind; and its side of the conversation is
  always well formed.
\<close>

subsection \<open>Hearing what was sealed\<close>

lemma let_go_receive [simp]:
  "se_receive (let_go s) = se_receive s" "se_heard (let_go s) = se_heard s"
  "se_receive (report e s) = se_receive s" "se_heard (report e s) = se_heard s"
  "se_reader (let_go s) = se_reader s" "se_reader (report e s) = se_reader s"
  by (simp_all add: let_go_def report_def)

lemma seal_receive [simp]:
  "se_receive (sealAndWrite pf f s) = se_receive s" "se_heard (sealAndWrite pf f s) = se_heard s"
  "se_reader (sealAndWrite pf f s) = se_reader s"
  by (rule sealAndWrite_cases [of pf f s]; simp)+

lemma write_receive [simp]:
  "se_receive (se_write pf f s) = se_receive s" "se_heard (se_write pf f s) = se_heard s"
  "se_reader (se_write pf f s) = se_reader s"
  by (simp_all add: se_write_def)

lemma fail_receive [simp]:
  "se_receive (snd (se_fail pf code reason s)) = se_receive s" "se_heard (snd (se_fail pf code reason s)) = se_heard s"
  "se_reader (snd (se_fail pf code reason s)) = se_reader s"
  by (auto simp: se_fail_def Let_def split: sum.split)

definition same_ear :: "secure_session \<Rightarrow> secure_session \<Rightarrow> bool" where
  "same_ear s t \<longleftrightarrow> se_receive t = se_receive s \<and> se_heard t = se_heard s \<and> se_reader t = se_reader s"

lemma handle_ear: "same_ear s (snd (handle pf now f s))"
proof -
  have "same_ear s (snd (startRequest pf p s))" "same_ear s (snd (openSocket pf p s))" "same_ear s (snd (pushMessage pf p s))"
    "same_ear s (snd (endMessage pf s))" "same_ear s (snd (closeSocket pf p s))" "same_ear s (snd (se_present pf now p s))"
    "same_ear s (body_chunk pf i p s)" "same_ear s (snd (se_fail pf code reason s))" for p i code reason
    by (simp_all add: same_ear_def startRequest_def openSocket_def pushMessage_def endMessage_def closeSocket_def
        se_present_def body_chunk_def encodeFrame_def Let_def split: option.split prod.split json.split sum.split)
  then show ?thesis
    by (simp add: handle_def maybe_def body_end_def split: option.split) (simp add: same_ear_def)
qed

lemma handle_receive [simp]:
  "se_receive (snd (handle pf now f s)) = se_receive s" "se_heard (snd (handle pf now f s)) = se_heard s"
  "se_reader (snd (handle pf now f s)) = se_reader s"
  using handle_ear [of s pf now f] by (simp_all add: same_ear_def)

lemma dispatch_receive [simp]:
  "se_receive (snd (dispatch pf now f s)) = se_receive s" "se_heard (snd (dispatch pf now f s)) = se_heard s"
  "se_reader (snd (dispatch pf now f s)) = se_reader s"
proof -
  obtain r t where h: "handle pf now f s = (r, t)" by fastforce
  then have "se_receive t = se_receive s" "se_heard t = se_heard s" "se_reader t = se_reader s"
    using handle_receive [of pf now f s] by simp_all
  with h show "se_receive (snd (dispatch pf now f s)) = se_receive s" "se_heard (snd (dispatch pf now f s)) = se_heard s"
    "se_reader (snd (dispatch pf now f s)) = se_reader s"
    by (cases r; simp add: dispatch_def)+
qed

text \<open>A message that is a frame sealed by the facing cipher is opened and handled.\<close>

lemma consume_one_sealed:
  assumes "crypto_ok (pf_crypto pf)" and "cipher_encrypt (pf_crypto pf) [] f ci = (Inr w, ci')"
    and "se_receive s = Some ci" and "se_send s \<noteq> None" and "\<not> se_closed s" and "\<not> se_failed s"
  shows "consume_one pf now w s = dispatch pf now f (s\<lparr>se_receive := Some ci', se_heard := se_heard s @ [f]\<rparr>)"
  using assms cipher_decrypt_encrypt [OF assms(1,2)] by (auto simp: consume_one_def)

lemma consume_one_over: "se_closed s \<or> se_failed s \<Longrightarrow> consume_one pf now m s = (Inr (), s)"
  by (auto simp: consume_one_def)

lemma consume_each_over: "se_closed s \<or> se_failed s \<Longrightarrow> consume_each pf now ms s = (Inr (), s)"
  by (induction ms) (simp_all add: consume_one_over and_then_def)

text \<open>A session past its handshake whose primitives work.\<close>

definition in_tune :: "platform \<Rightarrow> secure_session \<Rightarrow> bool" where
  "in_tune pf s \<longleftrightarrow> sess_inv s \<and> crypto_ok (pf_crypto pf) \<and> se_send s \<noteq> None"

lemma dispatch_send: "returns_settled (dispatch pf now f s) \<Longrightarrow> se_send s \<noteq> None \<Longrightarrow>
    se_send (snd (dispatch pf now f s)) \<noteq> None"
proof -
  assume s: "se_send s \<noteq> None"
  obtain r t where h: "handle pf now f s = (r, t)" by fastforce
  then have "se_send t \<noteq> None" using handle_send [of pf now f s] s by simp
  with h show ?thesis by (cases r) (simp_all add: dispatch_def)
qed

lemma consume_each_sealed:
  assumes "in_tune pf s" and "se_receive s = Some ci"
    and "encrypt_all (pf_crypto pf) fs ci = (Inr ws, ci')"
  shows "\<exists>t n. consume_each pf now ws s = (Inr (), t) \<and> in_tune pf t \<and> n \<le> length fs \<and>
    se_heard t = se_heard s @ take n fs \<and> se_reader t = se_reader s \<and>
    (\<not> se_closed t \<and> \<not> se_failed t \<longrightarrow> n = length fs \<and> se_receive t = Some ci')"
  using assms
proof (induction fs arbitrary: s ci ws)
  case Nil
  then show ?case by (auto simp: done_with_def)
next
  case (Cons f fs)
  from Cons.prems(3) obtain w ws' d where w: "cipher_encrypt (pf_crypto pf) [] f ci = (Inr w, d)"
    "encrypt_all (pf_crypto pf) fs d = (Inr ws', ci')" "ws = w # ws'"
    by (auto simp: and_then_def done_with_def split: prod.splits sum.splits)
  show ?case
  proof (cases "se_closed s \<or> se_failed s")
    case True
    then have "consume_each pf now ws s = (Inr (), s)" by (rule consume_each_over)
    with Cons.prems(1) True show ?thesis by (intro exI [of _ s] exI [of _ 0]) auto
  next
    case False
    let ?s = "s\<lparr>se_receive := Some d, se_heard := se_heard s @ [f]\<rparr>"
    from Cons.prems(1) have tune: "sess_inv ?s" "se_send ?s \<noteq> None" "crypto_ok (pf_crypto pf)" by (auto simp: in_tune_def)
    have "returns_settled (dispatch pf now f ?s)" by (rule dispatch_settled [OF tune(1,2)]) (use False in simp_all)
    moreover from this obtain t where t: "dispatch pf now f ?s = (Inr (), t)" by (auto simp: returns_settled_def) (metis prod.collapse)
    ultimately have "in_tune pf t" "se_receive t = Some d" "se_heard t = se_heard s @ [f]" "se_reader t = se_reader s"
      using dispatch_send [of pf now f ?s] dispatch_receive [of pf now f ?s] tune
      by (auto simp: in_tune_def returns_settled_def)
    from Cons.IH [OF this(1,2) w(2)] obtain u n where u: "consume_each pf now ws' t = (Inr (), u)" "in_tune pf u"
      "n \<le> length fs" "se_heard u = se_heard t @ take n fs" "se_reader u = se_reader t"
      "\<not> se_closed u \<and> \<not> se_failed u \<longrightarrow> n = length fs \<and> se_receive u = Some ci'" by blast
    have "consume_each pf now ws s = (Inr (), u)"
      using w(3) u(1) t consume_one_sealed [OF tune(3) w(1) Cons.prems(2)] Cons.prems(1) False
      by (simp add: and_then_def in_tune_def)
    with u show ?thesis using \<open>se_heard t = se_heard s @ [f]\<close> \<open>se_reader t = se_reader s\<close>
      by (intro exI [of _ u] exI [of _ "Suc n"]) auto
  qed
qed

lemma encrypt_all_split:
  assumes "encrypt_all c fs ci = (Inr (us @ vs), ci')"
  obtains gs hs d where "fs = gs @ hs" and "encrypt_all c gs ci = (Inr us, d)" and "encrypt_all c hs d = (Inr vs, ci')"
proof -
  have "\<exists>gs hs d. fs = gs @ hs \<and> encrypt_all c gs ci = (Inr us, d) \<and> encrypt_all c hs d = (Inr vs, ci')"
    using assms
  proof (induction us arbitrary: fs ci)
    case Nil
    then show ?case by (intro exI [of _ "[]"] exI [of _ fs] exI [of _ ci]) (simp add: done_with_def)
  next
    case (Cons u us)
    then obtain f fs' d where f: "fs = f # fs'" "cipher_encrypt c [] f ci = (Inr u, d)"
      "encrypt_all c fs' d = (Inr (us @ vs), ci')"
      by (cases fs) (auto simp: and_then_def done_with_def split: prod.splits sum.splits)
    from Cons.IH [OF f(3)] obtain gs hs e where "fs' = gs @ hs" "encrypt_all c gs d = (Inr us, e)"
      "encrypt_all c hs e = (Inr vs, ci')" by blast
    with f show ?case
      by (intro exI [of _ "f # gs"] exI [of _ hs] exI [of _ e]) (simp add: and_then_def done_with_def)
  qed
  then show thesis using that by blast
qed

lemma consume_over: "se_closed s \<or> se_failed s \<Longrightarrow> se_heard (consume pf now c s) = se_heard s
    \<and> (se_closed (consume pf now c s) \<or> se_failed (consume pf now c s))"
  by (auto simp: consume_def consume_each_over case_prod_unfold)

lemma consume_all_over:
  assumes "in_tune pf s" and "se_closed s \<or> se_failed s"
  shows "in_tune pf (fold (consume pf now) cs s) \<and> se_heard (fold (consume pf now) cs s) = se_heard s
    \<and> (se_closed (fold (consume pf now) cs s) \<or> se_failed (fold (consume pf now) cs s))"
  using assms
proof (induction cs arbitrary: s)
  case (Cons c cs)
  have "in_tune pf (consume pf now c s)"
    using Cons.prems by (auto simp: consume_def consume_each_over case_prod_unfold in_tune_def)
  with Cons show ?case using consume_over [of s pf now c] by simp
qed simp

lemma consume_chunks:
  assumes "in_tune pf s" and "\<not> se_closed s \<and> \<not> se_failed s \<longrightarrow> se_receive s = Some ci"
    and "feed length_reader_push (se_reader s) cs = (ws, rd)"
    and "encrypt_all (pf_crypto pf) fs ci = (Inr ws, ci')"
  shows "\<exists>n. in_tune pf (fold (consume pf now) cs s) \<and> n \<le> length fs \<and>
    se_heard (fold (consume pf now) cs s) = se_heard s @ take n fs \<and>
    (\<not> se_closed (fold (consume pf now) cs s) \<and> \<not> se_failed (fold (consume pf now) cs s) \<longrightarrow>
      n = length fs \<and> se_receive (fold (consume pf now) cs s) = Some ci')"
  using assms
proof (induction cs arbitrary: s ws fs ci)
  case Nil
  then have "ws = []" by simp
  with Nil.prems(4) have "fs = [] \<and> ci = ci'"
    by (cases fs) (auto simp: done_with_def and_then_def split: prod.splits sum.splits)
  with Nil.prems show ?case by auto
next
  case (Cons c cs)
  let ?t = "consume pf now c s"
  obtain us rd' where us: "length_reader_push (se_reader s) c = (us, rd')" by fastforce
  with Cons.prems(3) obtain vs where vs: "feed length_reader_push rd' cs = (vs, rd)" "ws = us @ vs"
    by (cases "feed length_reader_push rd' cs") auto
  from Cons.prems(4) [unfolded vs(2)] obtain gs hs d where split: "fs = gs @ hs"
    "encrypt_all (pf_crypto pf) gs ci = (Inr us, d)" "encrypt_all (pf_crypto pf) hs d = (Inr vs, ci')"
    by (rule encrypt_all_split)
  show ?case
  proof (cases "se_closed s \<or> se_failed s")
    case True
    from consume_all_over [OF Cons.prems(1) this, of now "c # cs"] show ?thesis by (intro exI [of _ 0]) auto
  next
    case False
    let ?s = "s\<lparr>se_reader := rd'\<rparr>"
    have "in_tune pf ?s" "se_receive ?s = Some ci" using Cons.prems(1,2) False by (simp_all add: in_tune_def)
    from consume_each_sealed [OF this split(2), of now] obtain t n where t: "consume_each pf now us ?s = (Inr (), t)"
      "in_tune pf t" "n \<le> length gs" "se_heard t = se_heard s @ take n gs"
      "se_reader t = rd'"
      "\<not> se_closed t \<and> \<not> se_failed t \<longrightarrow> n = length gs \<and> se_receive t = Some d" by auto
    have c: "fold (consume pf now) (c # cs) s = fold (consume pf now) cs t" using False us t(1) by (simp add: consume_def)
    show ?thesis
    proof (cases "se_closed t \<or> se_failed t")
      case True
      from consume_all_over [OF t(2) this, of now cs] t(3,4) show ?thesis
        unfolding c split(1) by (intro exI [of _ n]) auto
    next
      case over: False
      then have "feed length_reader_push (se_reader t) cs = (vs, rd)" using vs t(5) by simp
      from Cons.IH [OF t(2) _ this split(3)] over t(6) obtain m where
        "in_tune pf (fold (consume pf now) cs t) \<and> m \<le> length hs \<and>
          se_heard (fold (consume pf now) cs t) = se_heard t @ take m hs \<and>
          (\<not> se_closed (fold (consume pf now) cs t) \<and> \<not> se_failed (fold (consume pf now) cs t) \<longrightarrow>
            m = length hs \<and> se_receive (fold (consume pf now) cs t) = Some ci')" by blast
      then show ?thesis using over t(4,6) unfolding c split(1) by (intro exI [of _ "length gs + m"]) auto
    qed
  qed
qed

subsection \<open>From the first byte on\<close>

text \<open>The responder's handshake, from a first message that reads.\<close>

lemma new_session_handshake:
  assumes read: "readMessage (pf_crypto pf) m1 R = (Inr p1, R1)"
    and wrote: "writeMessage (pf_crypto pf) [] R1 = (Inr m2, R2)"
    and split: "noise_split R2 = Inr tR" and remote: "hs_remote_static R2 = Some key"
    and short: "length m2 \<le> 65535" and framed: "frameLength m1 = Inr x1" and cut: "concat cs = x1"
  obtains w2 where "frameLength m2 = Inr w2"
    and "fold (consume pf now) cs (new_secure_session R) = (new_secure_session R)\<lparr>se_handshake := R2, se_written := [w2],
      se_send := Some (nt_send tR), se_receive := Some (nt_receive tR),
      se_peerThumbprint := Some (jwkThumbprint (pf_sha256 pf) (b64uEncode key))\<rparr>"
    and "sess_inv (fold (consume pf now) cs (new_secure_session R))"
proof -
  obtain w2 where w2: "frameLength m2 = Inr w2" using short by (simp add: frameLength_def)
  define t where "t = (new_secure_session R)\<lparr>se_handshake := R2, se_written := [w2], se_send := Some (nt_send tR),
    se_receive := Some (nt_receive tR), se_peerThumbprint := Some (jwkThumbprint (pf_sha256 pf) (b64uEncode key))\<rparr>"
  have hand: "doHandshake pf m1 ((new_secure_session R)\<lparr>se_reader := r\<rparr>) = t\<lparr>se_reader := r\<rparr>" for r
    using read wrote split remote w2 by (simp add: doHandshake_def handshake_steps_def t_def new_secure_session_def Let_def)
  have part: "fold (consume pf now) cs ((new_secure_session R)\<lparr>se_reader := r\<rparr>) = t\<lparr>se_reader := rd\<rparr>"
    if "feed length_reader_push r cs = ([m1], rd)" for r rd
    using that
  proof (induction cs arbitrary: r)
    case (Cons c cs)
    obtain us r' where us: "length_reader_push r c = (us, r')" by fastforce
    show ?case
    proof (cases us)
      case Nil
      with us have "consume pf now c ((new_secure_session R)\<lparr>se_reader := r\<rparr>) = (new_secure_session R)\<lparr>se_reader := r'\<rparr>"
        by (simp add: consume_def) (simp add: new_secure_session_def)
      with Cons.IH [of r'] Cons.prems us Nil show ?thesis by simp
    next
      case (Cons u us')
      with Cons.prems us have u: "us = [m1]" and rest: "feed length_reader_push r' cs = ([], rd)"
        by (auto simp: prod_eq_iff)
      have one: "consume pf now c ((new_secure_session R)\<lparr>se_reader := r\<rparr>) = t\<lparr>se_reader := r'\<rparr>"
        using us u hand [of r']
        by (simp add: consume_def consume_one_def and_then_def) (simp add: new_secure_session_def)
      have "fold (consume pf now) cs (t\<lparr>se_reader := r'\<rparr>) = t\<lparr>se_reader := rd\<rparr>"
        using rest
      proof (induction cs arbitrary: r')
        case (Cons d ds)
        obtain vs r2 where vs: "length_reader_push r' d = (vs, r2)" by fastforce
        with Cons.prems have "vs = []" "feed length_reader_push r2 ds = ([], rd)" by (auto simp: prod_eq_iff)
        with vs Cons.IH [of r2] show ?case by (simp add: consume_def t_def new_secure_session_def)
      qed (simp add: t_def new_secure_session_def)
      with one show ?thesis by simp
    qed
  qed simp
  have "feed length_reader_push new_length_reader cs = ([m1], new_length_reader)"
  proof -
    have "feed length_reader_push new_length_reader cs = length_reader_push new_length_reader (concat cs)"
      by (rule lr.feed_concat) (simp add: length_reader_ready_def new_length_reader_def)
    moreover have "whole_messages (concat [x1]) = ([m1], [])" by (rule whole_messages_frames) (simp add: framed)
    ultimately show ?thesis using cut by (simp add: length_reader_push_def new_length_reader_def)
  qed
  from part [OF this] have final: "fold (consume pf now) cs (new_secure_session R) = t\<lparr>se_reader := new_length_reader\<rparr>"
    by (simp add: new_secure_session_def)
  moreover have "sess_inv (fold (consume pf now) cs (new_secure_session R))"
  proof -
    have "sess_inv s \<Longrightarrow> sess_inv (fold (consume pf now) cs s)" for s
      by (induction cs arbitrary: s) (simp_all add: consume_inv)
    then show ?thesis using new_session_inv by blast
  qed
  moreover have "t\<lparr>se_reader := new_length_reader\<rparr> = t" by (simp add: t_def new_secure_session_def)
  ultimately show thesis by (intro that [OF w2]) (simp_all add: t_def)
qed

subsection \<open>Who is served\<close>

text \<open>The headers a request to the listener carries: the session's capability and no other.\<close>

definition clean_headers :: "ustring \<Rightarrow> (ustring \<times> ustring) list \<Rightarrow> bool" where
  "clean_headers t hs \<longleftrightarrow> (asc ''authorization'', bearer t) \<in> set hs \<and>
     (\<forall>(name, v)\<in>set hs. if lowered name = asc ''authorization'' then (name, v) = (asc ''authorization'', bearer t)
        else HTTP_TOKEN name \<and> HTTP_FIELD_VALUE v \<and> lowered name \<notin> set FRAMING_HEADERS)"

lemma set_alist_update: "set (AList.update k v xs) \<subseteq> insert (k, v) (set xs)" "(k, v) \<in> set (AList.update k v xs)"
  by (induction xs) auto

lemma forward_headers_clean:
  assumes "forward_headers es acc = Some hs"
    and "\<forall>(name, v)\<in>set acc. lowered name \<noteq> asc ''authorization'' \<and> HTTP_TOKEN name \<and> HTTP_FIELD_VALUE v
      \<and> lowered name \<notin> set FRAMING_HEADERS"
  shows "\<forall>(name, v)\<in>set hs. lowered name \<noteq> asc ''authorization'' \<and> HTTP_TOKEN name \<and> HTTP_FIELD_VALUE v
      \<and> lowered name \<notin> set FRAMING_HEADERS"
  using assms
proof (induction es acc rule: forward_headers.induct)
  case (2 name v entries headers)
  show ?case
  proof (cases v)
    case (JStr x)
    with 2 show ?thesis using set_alist_update(1) [of name x headers]
      by (auto split: if_splits)
  qed (use 2 in \<open>auto split: if_splits\<close>)
qed simp

lemma capability_clean:
  assumes "forward_headers es [] = Some hs"
  shows "clean_headers t (with_capability (Some t) hs)"
  using forward_headers_clean [OF assms] set_alist_update [of "asc ''authorization''" "bearer t" hs]
  by (fastforce simp: clean_headers_def with_capability_def lowered_def asc_def)

lemma capability_alone: "clean_headers t (with_capability (Some t) [])"
  using capability_clean [of "[]" "[]" t] by simp

definition face :: "secure_session \<Rightarrow> _" where
  "face s = (se_handshake s, se_peerThumbprint s, se_capability s, se_authorized s, se_send s = None,
     map ur_headers (se_requests s), map lk_headers (se_sockets s))"

definition same_face :: "secure_session \<Rightarrow> secure_session \<Rightarrow> bool" where
  "same_face s t \<longleftrightarrow> face t = face s \<and> (se_closed s \<longrightarrow> se_closed t)"

lemma same_face_refl [simp]: "same_face s s"
  by (simp add: same_face_def)

lemma same_face_trans: "same_face s t \<Longrightarrow> same_face t u \<Longrightarrow> same_face s u"
  by (simp add: same_face_def)

lemma map_edit: "(\<And>x. g (f x) = g x) \<Longrightarrow> map g (edit i f xs) = map g xs"
  by (simp add: edit_def map_update list_update_same_conv)

lemma face_quiet [simp]:
  "face (s\<lparr>se_written := b\<rparr>) = face s" "face (s\<lparr>se_frames := c\<rparr>) = face s" "face (s\<lparr>se_reader := d\<rparr>) = face s"
  "face (s\<lparr>se_receive := f\<rparr>) = face s" "face (s\<lparr>se_closed := g\<rparr>) = face s" "face (s\<lparr>se_failed := h\<rparr>) = face s"
  "face (s\<lparr>se_carrying := k\<rparr>) = face s" "face (s\<lparr>se_upstream := l\<rparr>) = face s" "face (s\<lparr>se_upstreamRequest := m\<rparr>) = face s"
  "face (s\<lparr>se_socket := n\<rparr>) = face s" "face (s\<lparr>se_assembler := p\<rparr>) = face s" "face (s\<lparr>se_requestBody := q\<rparr>) = face s"
  "face (s\<lparr>se_streamEnded := r\<rparr>) = face s" "face (s\<lparr>se_streamDestroyed := t\<rparr>) = face s"
  "face (s\<lparr>se_streamPaused := u\<rparr>) = face s" "face (s\<lparr>se_onDrain := v\<rparr>) = face s" "face (s\<lparr>se_onClose := w\<rparr>) = face s"
  "face (s\<lparr>se_failTimer := x\<rparr>) = face s" "face (s\<lparr>se_events := y\<rparr>) = face s" "face (s\<lparr>se_heard := z\<rparr>) = face s"
  "face (report e s) = face s"
  by (simp_all add: face_def report_def)

lemma face_on_request: "(\<And>r. ur_headers (f r) = ur_headers r) \<Longrightarrow> face (on_request i f s) = face s"
  by (simp add: face_def map_edit)

lemma face_on_socket: "(\<And>k. lk_headers (f k) = lk_headers k) \<Longrightarrow> face (on_socket j f s) = face s"
  by (simp add: face_def map_edit)

lemma face_more [simp]:
  "face (on_request i (ur_destroyed_update a) s) = face s" "face (on_request i (ur_ended_update a) s) = face s"
  "face (on_request i (ur_body_update b) s) = face s" "face (on_request i (ur_paused_update a) s) = face s"
  "face (on_request i (ur_phase_update c) s) = face s" "face (on_request i (ur_responsePaused_update a) s) = face s"
  "face (on_socket j (called d) s) = face s" "face (on_socket j (lk_state_update e) s) = face s"
  "face (on_socket j (\<lambda>k. k\<lparr>lk_dialTimer := g\<rparr>) s) = face s" "face (on_socket j (\<lambda>k. k\<lparr>lk_paused := h\<rparr>) s) = face s"
  by (simp_all add: face_on_request face_on_socket called_def)

lemma let_go_face [simp]: "face (let_go s) = face s"
  by (simp add: let_go_def face_def maybe_def map_edit called_def split: option.split)

lemma destroy_face: "same_face s (se_destroy d s)"
  by (simp add: same_face_def se_destroy_eq)

lemma face_sent: "se_send s \<noteq> None \<Longrightarrow> face (s\<lparr>se_send := Some ci\<rparr>) = face s"
  by (simp add: face_def)

lemma seal_face: "same_face s (sealAndWrite pf f s)"
  by (rule sealAndWrite_cases [of pf f s]) (simp_all add: same_face_def face_sent)

lemma write_face: "same_face s (se_write pf f s)"
  by (simp add: se_write_def seal_face)

lemma fail_face: "same_face s (snd (se_fail pf code reason s))"
  using seal_face [of "s\<lparr>se_failed := True, se_requestBody := None\<rparr>" pf]
  by (auto simp: se_fail_def Let_def same_face_def split: sum.split)

text \<open>
  What ties a session to its device: the thumbprint is of the key the handshake proved, the
  capability was accepted over it, and every request and socket carries that capability.
\<close>

definition bound :: "platform \<Rightarrow> secure_session \<Rightarrow> bool" where
  "bound pf s \<longleftrightarrow>
     (\<forall>x. se_peerThumbprint s = Some x \<longrightarrow> se_send s \<noteq> None \<and>
        (\<exists>key. hs_remote_static (se_handshake s) = Some key \<and> x = jwkThumbprint (pf_sha256 pf) (b64uEncode key))) \<and>
     (se_authorized s \<longrightarrow> se_peerThumbprint s \<noteq> None \<and> (\<exists>t. se_capability s = Some t \<and>
        (\<exists>now p. pf_verify pf (Some t) now \<lparr>peerKeyThumbprint = se_peerThumbprint s\<rparr> = Inr p) \<and>
        list_all (clean_headers t) (map ur_headers (se_requests s) @ map lk_headers (se_sockets s)))) \<and>
     (\<not> se_authorized s \<longrightarrow> se_requests s = [] \<and> se_sockets s = [])"

definition named :: "secure_session \<Rightarrow> bool" where
  "named s \<longleftrightarrow> se_send s \<noteq> None \<longrightarrow> se_closed s \<or> se_peerThumbprint s \<noteq> None"

lemma same_face_bound: "same_face s t \<Longrightarrow> bound pf s \<Longrightarrow> bound pf t"
  unfolding same_face_def bound_def face_def by (auto simp del: not_None_eq)

lemma same_face_named: "same_face s t \<Longrightarrow> named s \<Longrightarrow> named t"
  by (auto simp: same_face_def named_def face_def)

lemma startRequest_bound:
  assumes "bound pf s" and "se_authorized s"
  shows "bound pf (snd (startRequest pf payload s))"
proof -
  from assms obtain t where t: "se_capability s = Some t" by (auto simp: bound_def)
  have fail: "bound pf (snd (se_fail pf code reason s))" for code reason
    using same_face_bound [OF fail_face assms(1)] .
  have made: "bound pf (s\<lparr>se_requests := se_requests s @ [(new_request verb full (with_capability (se_capability s) hs))\<lparr>ur_ended := e\<rparr>],
      se_carrying := c, se_upstreamRequest := u, se_requestBody := b\<rparr>)" if "forward_headers es [] = Some hs" for verb full hs e c u b es
    using assms capability_clean [OF that, of t] t by (simp add: bound_def new_request_def)
  show ?thesis
    using fail made by (simp add: startRequest_def Let_def split: option.split)
qed

lemma openSocket_bound:
  assumes "bound pf s" and "se_authorized s"
  shows "bound pf (snd (openSocket pf payload s))"
proof -
  from assms obtain t where t: "se_capability s = Some t" by (auto simp: bound_def)
  have fail: "bound pf (snd (se_fail pf code reason s))" for code reason
    using same_face_bound [OF fail_face assms(1)] .
  have made: "bound pf (s\<lparr>se_sockets := se_sockets s @ [\<lparr>lk_url = target, lk_headers = with_capability (se_capability s) [],
      lk_state = st, lk_calls = cs, lk_paused = p, lk_dialTimer = d\<rparr>], se_carrying := c, se_socket := u, se_assembler := a,
      se_onClose := l\<rparr>)" for target st cs p d c u a l
    using assms capability_alone [of t] t by (simp add: bound_def)
  show ?thesis
    using fail made by (simp add: openSocket_def Let_def split: option.split)
qed

lemma face_sent_message: "face (s\<lparr>se_assembler := a, se_sockets := edit j (called c) (se_sockets s)\<rparr>) = face s"
  by (simp add: face_def map_edit called_def)

lemma face_body: "face (on_request i (ur_paused_update f \<circ> ur_body_update g) s) = face s"
  by (simp add: face_def map_edit)

lemma other_frames_face:
  "same_face s (snd (pushMessage pf p s))" "same_face s (snd (endMessage pf s))" "same_face s (snd (closeSocket pf p s))"
  "same_face s (body_chunk pf i p s)" "same_face s (body_end i s)"
  using fail_face [of s pf] fail_face [of "s\<lparr>se_assembler := Some _\<rparr>" pf]
  by (auto simp: pushMessage_def endMessage_def closeSocket_def body_chunk_def body_end_def Let_def same_face_def
      face_sent_message face_body split: option.split prod.split json.split)

lemma present_bound:
  assumes "bound pf s" and "\<not> se_authorized s" and "se_peerThumbprint s \<noteq> None"
  shows "bound pf (snd (se_present pf now payload s))"
proof -
  have fail: "bound pf (snd (se_fail pf code reason s))" "bound pf (snd (se_fail pf code reason (report e s)))" for code reason e
    using same_face_bound [OF fail_face assms(1)] same_face_bound [OF fail_face [of "report e s"], of pf] assms(1)
    by (simp_all add: bound_def report_def)
  let ?s = "\<lambda>c. s\<lparr>se_authorized := True, se_capability := Some c\<rparr>"
  have ok: "bound pf (?s c)" if "pf_verify pf (Some c) now \<lparr>peerKeyThumbprint = se_peerThumbprint s\<rparr> = Inr p" for c p
    using assms that by (auto simp: bound_def)
  have "bound pf (report e (se_write pf f (?s c)))" if "bound pf (?s c)" for e f c
    using same_face_bound [OF write_face that] by (simp add: bound_def report_def)
  with fail ok show ?thesis by (auto simp: se_present_def Let_def encodeFrame_def split: option.split sum.split)
qed

text \<open>What holds of every way a frame can be handled holds of handling one.\<close>

lemma handle_any:
  assumes "\<And>code reason. P (snd (se_fail pf code reason s))"
    and "\<And>payload. \<not> se_authorized s \<Longrightarrow> P (snd (se_present pf now payload s))"
    and "\<And>payload. se_authorized s \<Longrightarrow> P (snd (startRequest pf payload s))"
    and "\<And>payload. se_authorized s \<Longrightarrow> P (snd (openSocket pf payload s))"
    and "\<And>payload. P (snd (pushMessage pf payload s))" and "P (snd (endMessage pf s))"
    and "\<And>payload. P (snd (closeSocket pf payload s))" and "\<And>i payload. P (body_chunk pf i payload s)"
    and "\<And>i. P ((body_end i s)\<lparr>se_requestBody := None\<rparr>)" and "P (s\<lparr>se_requestBody := None\<rparr>)" and "P s"
  shows "P (snd (handle pf now f s))"
  unfolding handle_def maybe_def by (simp add: assms split: option.split)

lemma handle_bound:
  assumes "bound pf s" and "named s" and "se_send s \<noteq> None" and "\<not> se_closed s"
  shows "bound pf (snd (handle pf now f s))"
proof -
  have other: "same_face s t \<Longrightarrow> bound pf t" for t using same_face_bound [OF _ assms(1)] by blast
  have quiet: "bound pf (t\<lparr>se_requestBody := b\<rparr>) = bound pf t" for b t by (simp add: bound_def)
  have present: "bound pf (snd (se_present pf now payload s))" if "\<not> se_authorized s" for payload
    by (rule present_bound [OF assms(1) that]) (use assms in \<open>simp add: named_def\<close>)
  show ?thesis
    by (rule handle_any [where P = "bound pf"])
      (simp_all add: quiet present startRequest_bound [OF assms(1)] openSocket_bound [OF assms(1)] other fail_face
        other_frames_face assms(1))
qed

text \<open>And in any case the thumbprint stays, and an ended session stays ended.\<close>

definition settled_face :: "secure_session \<Rightarrow> secure_session \<Rightarrow> bool" where
  "settled_face s t \<longleftrightarrow> (se_closed s \<longrightarrow> se_closed t) \<and> se_peerThumbprint t = se_peerThumbprint s"

lemma same_face_settled: "same_face s t \<Longrightarrow> settled_face s t"
  by (simp add: same_face_def face_def settled_face_def)

lemma settled_face_quiet:
  "settled_face (s\<lparr>se_authorized := a, se_capability := c\<rparr>) t = settled_face s t"
  "settled_face (report e s) t = settled_face s t" "settled_face s (report e t) = settled_face s t"
  "settled_face s (t\<lparr>se_requestBody := b\<rparr>) = settled_face s t"
  by (simp_all add: settled_face_def report_def)

lemma handle_settled_face: "settled_face s (snd (handle pf now f s))"
proof (rule handle_any [where P = "settled_face s"])
  have fail: "settled_face s (snd (se_fail pf code reason s))" "settled_face s (snd (se_fail pf code reason (report e s)))"
    for code reason e
    using same_face_settled [OF fail_face [of s]] same_face_settled [OF fail_face [of "report e s"], of pf]
    by (simp_all add: settled_face_quiet)
  show "settled_face s (snd (se_fail pf code reason s))" for code reason by (rule fail)
  show "settled_face s (snd (startRequest pf payload s))" "settled_face s (snd (openSocket pf payload s))" for payload
    using fail(1) by (simp_all add: startRequest_def openSocket_def Let_def settled_face_def split: option.split)
  have "settled_face s (se_write pf g (s\<lparr>se_authorized := True, se_capability := Some c\<rparr>))" for g c
    using same_face_settled [OF write_face] settled_face_quiet by metis
  then show "settled_face s (snd (se_present pf now payload s))" for payload
    using fail by (auto simp: se_present_def Let_def encodeFrame_def settled_face_quiet split: option.split sum.split)
qed (simp_all add: settled_face_quiet same_face_settled other_frames_face)

definition tied :: "platform \<Rightarrow> secure_session \<Rightarrow> bool" where
  "tied pf s \<longleftrightarrow> bound pf s \<and> named s"

lemma tied_face: "same_face s t \<Longrightarrow> tied pf s \<Longrightarrow> tied pf t"
  using same_face_bound same_face_named by (auto simp: tied_def)

lemma dispatch_tied:
  assumes "tied pf s" and "se_send s \<noteq> None" and "\<not> se_closed s"
  shows "tied pf (snd (dispatch pf now f s))"
proof -
  obtain r t where h: "handle pf now f s = (r, t)" by fastforce
  have "bound pf t" using handle_bound [of pf s now f] assms h by (simp add: tied_def)
  moreover have "named t"
    using handle_settled_face [of s pf now f] handle_send [of pf now f s] assms h
    by (auto simp: tied_def named_def settled_face_def)
  ultimately have "tied pf t" by (simp add: tied_def)
  moreover from this have "tied pf (report e t)" for e by (rule tied_face [rotated]) (simp add: same_face_def report_def face_def)
  ultimately show ?thesis using h tied_face [OF fail_face] by (cases r) (simp_all add: dispatch_def)
qed

lemma doHandshake_tied:
  assumes "tied pf s" and "se_send s = None"
  shows "tied pf (doHandshake pf message s)"
proof -
  have s: "se_peerThumbprint s = None" "\<not> se_authorized s" "se_requests s = []" "se_sockets s = []"
    using assms by (auto simp: tied_def bound_def)
  have quiet: "face (t\<lparr>se_events := e\<rparr>) = face t" for t e by simp
  have over: "tied pf (se_destroy d (report e t))" if "bound pf t" for d e t
  proof -
    have "bound pf (report e t)" using that by (simp add: bound_def report_def)
    from same_face_bound [OF destroy_face this] show ?thesis by (simp add: tied_def named_def se_destroy_eq)
  qed
  obtain r t where h: "handshake_steps pf message s = (r, t)" by fastforce
  have "bound pf t \<and> (r = Inr () \<longrightarrow> named t)"
    using s h by (auto simp: handshake_steps_def bound_def named_def Let_def split: prod.splits sum.splits option.splits)
  with h over show ?thesis by (cases r) (auto simp: doHandshake_def tied_def)
qed

lemma consume_tied:
  assumes "tied pf s"
  shows "tied pf (consume pf now chunk s)"
proof -
  have reader: "tied pf (u\<lparr>se_reader := x\<rparr>) = tied pf u" "tied pf (u\<lparr>se_receive := y, se_heard := z\<rparr>) = tied pf u"
    "tied pf (u\<lparr>se_receive := y\<rparr>) = tied pf u" "tied pf (report e u) = tied pf u" for u x y z e
    by (simp_all add: tied_def bound_def named_def report_def)
  have one: "tied pf (snd (consume_one pf now m u))" if "tied pf u" for m u
  proof (cases "se_closed u \<or> se_failed u \<or> se_send u = None \<or> se_receive u = None")
    case True
    then show ?thesis using that doHandshake_tied [OF that] tied_face [OF destroy_face] reader
      by (auto simp: consume_one_def split: option.split)
  next
    case False
    then obtain ci where ci: "se_receive u = Some ci" by blast
    obtain r d where d: "cipher_decrypt (pf_crypto pf) [] m ci = (r, d)" by fastforce
    show ?thesis
    proof (cases r)
      case (Inl e)
      then show ?thesis using False ci d that reader tied_face [OF destroy_face] by (auto simp: consume_one_def)
    next
      case (Inr f)
      have "tied pf (snd (dispatch pf now f (u\<lparr>se_receive := Some d, se_heard := se_heard u @ [f]\<rparr>)))"
        by (rule dispatch_tied) (use that False reader in simp_all)
      with Inr False ci d show ?thesis by (auto simp: consume_one_def)
    qed
  qed
  have each: "tied pf (snd (consume_each pf now ms u))" if "tied pf u" for ms u
    using that
  proof (induction ms arbitrary: u)
    case (Cons m ms)
    obtain r t where h: "consume_one pf now m u = (r, t)" by fastforce
    then have "tied pf t" using one [OF Cons.prems, of m] by simp
    with h Cons.IH show ?case by (cases r) (simp_all add: and_then_def)
  qed simp
  obtain ms rd where rd: "length_reader_push (se_reader s) chunk = (ms, rd)" by fastforce
  obtain r t where h: "consume_each pf now ms (s\<lparr>se_reader := rd\<rparr>) = (r, t)" by fastforce
  then have "tied pf t" using each [of "s\<lparr>se_reader := rd\<rparr>" ms] reader(1) [where u = s and x = rd] assms by simp
  with h rd assms show ?thesis using tied_face [OF destroy_face] by (cases r) (simp_all add: consume_def)
qed

lemma fold_write_face: "same_face s (fold (se_write pf) fs s)"
proof (induction fs arbitrary: s)
  case (Cons f fs)
  show ?case using same_face_trans [OF write_face Cons.IH] by simp
qed simp

lemma write_chunks_face: "same_face s (snd (write_chunks pf cs s))"
proof (induction cs arbitrary: s)
  case (Cons c cs)
  show ?case using same_face_trans [OF write_face Cons.IH] by (auto split: sum.split)
qed simp

lemma answers_face:
  "same_face s (snd (request_answered pf i st txt hs s))" "same_face s (snd (answer_chunk pf i c n s))"
  "same_face s (snd (answer_ended pf i w s))" "same_face s (snd (socket_opened pf j s))"
  "same_face s (snd (socket_message pf j c n s))" "same_face s (snd (socket_closed pf j code reason s))"
  "same_face s (snd (dial_timeout pf j s))"
proof -
  note more = same_face_def Let_def
  have fin: "face (on_request i (\<lambda>r. if ur_ended r then r else r\<lparr>ur_destroyed := True\<rparr>) t) = face t" for t
    by (rule face_on_request) simp
  show "same_face s (snd (request_answered pf i st txt hs s))"
    using fail_face [of "(on_request i (ur_phase_update (\<lambda>_. Unread_answer)) s)\<lparr>se_upstream := Some i\<rparr>" pf]
      write_face [of "(on_request i (ur_phase_update (\<lambda>_. Unread_answer)) s)\<lparr>se_upstream := Some i\<rparr>" pf]
    by (simp add: request_answered_def more split: sum.split option.split)
  obtain r t where h: "write_chunks pf (chunks BODY_CHUNK_BYTES c) s = (r, t)" by fastforce
  then show "same_face s (snd (answer_chunk pf i c n s))"
    using write_chunks_face [of s pf "chunks BODY_CHUNK_BYTES c"] by (cases r) (simp_all add: answer_chunk_def and_then_def more)
  let ?s = "(on_request i (ur_phase_update (\<lambda>_. Answer_over)) s)\<lparr>se_upstream := None,
    se_onDrain := remove1 (Resume_response i) (se_onDrain s), se_requestBody := None, se_carrying := Carrying_none\<rparr>"
  obtain r' t' where h': "se_fail pf 502 (asc ''truncated'') ?s = (r', t')" by fastforce
  then have "same_face ?s t'" using fail_face [of ?s pf] by (metis snd_conv)
  then show "same_face s (snd (answer_ended pf i w s))"
    using h' write_face [of ?s pf] fin by (cases r') (simp_all add: answer_ended_def and_then_def encodeFrame_def more)
  show "same_face s (snd (socket_opened pf j s))"
    using write_face [of "on_socket j (\<lambda>k. k\<lparr>lk_dialTimer := False\<rparr>) s" pf]
    by (simp add: socket_opened_def more split: sum.split)
  show "same_face s (snd (socket_message pf j c n s))"
    using fold_write_face [of s pf] by (simp add: socket_message_def more split: sum.split)
  show "same_face s (snd (socket_closed pf j code reason s))"
    using write_face [of "on_socket j (\<lambda>k. k\<lparr>lk_dialTimer := False\<rparr>) s" pf]
    by (simp add: socket_closed_def more split: sum.split)
  show "same_face s (snd (dial_timeout pf j s))" using fail_face [of s pf] by (simp add: dial_timeout_def more)
qed

lemma fold_face: "(\<And>x t. same_face t (f x t)) \<Longrightarrow> same_face s (fold f xs s)"
proof (induction xs arbitrary: s)
  case (Cons x xs)
  have "same_face s (fold f xs (f x s))" by (rule same_face_trans [OF Cons.prems Cons.IH [OF Cons.prems]])
  then show ?case by simp
qed simp

lemma fire_face: "same_face s (fold fire_drain ls s)" "same_face s (fold fire_close ks s)"
proof -
  have "same_face t (fire_drain l t)" for l t by (cases l) (simp_all add: same_face_def socket_resume_def)
  then show "same_face s (fold fire_drain ls s)" by (rule fold_face)
  have "same_face t (fire_close k t)" for k t using destroy_face by (cases k) (simp_all add: same_face_def socket_resume_def)
  then show "same_face s (fold fire_close ks s)" by (rule fold_face)
qed

lemma secure_step_tied:
  assumes "tied pf s"
  shows "tied pf (snd (secure_step pf ev s))"
proof -
  have other: "same_face s t \<Longrightarrow> tied pf t" for t using tied_face assms by blast
  have via: "same_face s (snd (g (on_socket j (lk_state_update (\<lambda>_. x)) s)))"
    if "\<And>t. same_face t (snd (g t))" for g :: "secure_session \<Rightarrow> 'x \<times> secure_session" and j x
    by (rule same_face_trans [OF _ that]) (simp add: same_face_def)
  have quiet: "same_face s t" if "face t = face s" "se_closed t = se_closed s" for t using that by (simp add: same_face_def)
  show ?thesis
  proof (cases ev)
    case On_stream_close
    have "same_face s ((se_destroy d s)\<lparr>se_onClose := []\<rparr>)" for d using destroy_face [of s d] by (simp add: same_face_def)
    then show ?thesis using other [OF same_face_trans [OF _ fire_face(2)]] On_stream_close by simp
  next
    case On_drain
    have "same_face s (s\<lparr>se_onDrain := []\<rparr>)" by (rule quiet) simp_all
    then show ?thesis using other [OF same_face_trans [OF _ fire_face(1)]] On_drain by simp
  next
    case On_fail_timeout
    have "same_face s (s\<lparr>se_failTimer := None\<rparr>)" by (rule quiet) simp_all
    then show ?thesis using other [OF same_face_trans [OF _ destroy_face]] other On_fail_timeout
      by (cases "se_failTimer s") (simp_all add: maybe_def)
  next
    case (On_socket_open j)
    then show ?thesis using other [OF via [OF answers_face(4)]] by simp
  next
    case (On_socket_close j code reason)
    then show ?thesis using other [OF via [OF answers_face(6)]] by simp
  qed (simp_all add: other answers_face destroy_face fail_face tunnel_failed_def consume_tied [OF assms] quiet body_resume_def)
qed

lemma reaches_tied: "reaches pf s t \<Longrightarrow> tied pf s \<Longrightarrow> tied pf t"
proof (induction rule: reaches.induct)
  case (reaches_step s t ev r u)
  then show ?case using secure_step_tied [of pf t ev] by simp
qed

lemma new_session_tied: "tied pf (new_secure_session h)"
  by (simp add: tied_def bound_def named_def new_secure_session_def)

lemma held_by_one:
  assumes "\<forall>i<length xs. P (xs ! i) \<longrightarrow> u = Some i"
  shows "length (filter P xs) \<le> (if u = None then 0 else 1)"
proof -
  have "{i. i < length xs \<and> P (xs ! i)} \<subseteq> set_option u" using assms by auto
  then have "card {i. i < length xs \<and> P (xs ! i)} \<le> card (set_option u)" by (rule card_mono [rotated]) (cases u; simp)
  then show ?thesis by (cases u) (simp_all add: length_filter_conv_card)
qed

subsection \<open>A session to try the properties on\<close>

definition toy_platform :: platform where
  "toy_platform = \<lparr>pf_crypto = toy_crypto, pf_sha256 = id,
     pf_parse = (\<lambda>_. Some (JObj [(asc ''capability'', JStr (asc ''secret'')), (asc ''method'', JStr (asc ''GET'')),
       (asc ''path'', JStr (asc ''/''))])),
     pf_verify = both_verify sample_texts sample_check sample_verifier id (asc ''secret''),
     pf_url = (\<lambda>_ _. Some \<lparr>url_origin = [], url_pathname = asc ''/'', url_search = []\<rparr>),
     pf_host = asc ''localhost'', pf_port = 80, pf_request_throws = (\<lambda>_ _ _. False), pf_write_takes = (\<lambda>_ _. True),
     pf_socket_throws = (\<lambda>_. False), pf_send_throws = (\<lambda>_. False), pf_close_throws = (\<lambda>_ _ _. False)\<rparr>"

definition toy_request :: upstream_request where
  "toy_request = (new_request (asc ''GET'') (asc ''/'') [(asc ''authorization'', asc ''Bearer secret'')])\<lparr>ur_ended := True\<rparr>"

lemma toy_fields: "pf_crypto toy_platform = toy_crypto" "crypto_ok (pf_crypto toy_platform)"
  by (simp_all add: toy_platform_def toy_crypto_ok)

lemma toy_encrypts:
  assumes "cs_counter ci = n" and "n < 5" and "length f < 1000"
  obtains w x ci' where "cipher_encrypt toy_crypto [] f ci = (Inr w, ci')" and "frameLength w = Inr x"
    and "cs_counter ci' \<le> Suc n"
proof -
  have "cs_counter ci < RESERVED_NONCE" using assms by (simp add: RESERVED_NONCE_def)
  with assms that show thesis
    by (cases "cs_key ci") (auto simp: cipher_encrypt_def frameLength_def toy_crypto_def)
qed

text \<open>One whole message, heard.\<close>

lemma consume_frame:
  assumes "crypto_ok (pf_crypto pf)" and "cipher_encrypt (pf_crypto pf) [] f ci = (Inr w, ci')" and "frameLength w = Inr x"
    and "se_receive s = Some ci" and "se_send s \<noteq> None" and "\<not> se_closed s" and "\<not> se_failed s"
    and "se_reader s = new_length_reader"
    and "dispatch pf now f (s\<lparr>se_receive := Some ci', se_heard := se_heard s @ [f]\<rparr>) = (Inr (), t)"
  shows "consume pf now x s = t"
proof -
  have "length_reader_push new_length_reader x = ([w], new_length_reader)"
    using whole_messages_frames [of "[w]" "[x]"] assms(3) by (simp add: length_reader_push_def new_length_reader_def)
  moreover have same: "s\<lparr>se_reader := new_length_reader\<rparr> = s" using assms(8) by simp
  moreover have "consume_one pf now w (s\<lparr>se_reader := new_length_reader\<rparr>) = (Inr (), t)"
    unfolding same using consume_one_sealed [OF assms(1,2,4-7), of now] assms(9) by simp
  ultimately show ?thesis using assms(6,8) by (simp add: consume_def and_then_def)
qed

lemma toy_hello:
  assumes "\<not> se_authorized s" and "se_send s = Some ci" and "cs_counter ci = 0" and "\<not> se_closed s" and "\<not> se_failed s"
  obtains t a b c e where "dispatch toy_platform now [FRAME HELLO] s = (Inr (), t)"
    and "t = s\<lparr>se_authorized := True, se_capability := Some (asc ''secret''), se_send := Some a, se_written := b,
      se_frames := c, se_events := e\<rparr>"
proof -
  obtain w x ci' where w: "cipher_encrypt toy_crypto [] [FRAME READY] ci = (Inr w, ci')" "frameLength w = Inr x"
    by (rule toy_encrypts [OF assms(3), of "[FRAME READY]"]) simp_all
  have "both_verify sample_texts sample_check sample_verifier id (asc ''secret'') (Some (asc ''secret'')) now ch
      = Inr shared_principal" for ch
    by (simp add: both_verify_cases no_token_def looksLikeSignedToken_def shared_verify_def secretMatches_def asc_def)
  then have "handle toy_platform now [FRAME HELLO] s = (Inr (), report (Ev_opened (asc ''shared-secret''))
      (se_write toy_platform [FRAME READY] (s\<lparr>se_authorized := True, se_capability := Some (asc ''secret'')\<rparr>)))"
    using assms
    by (simp add: handle_def decodeFrame_def se_present_def decodeJson_def toy_platform_def string_field_def
        asc_inject shared_principal_def encodeFrame_def Let_def)
  moreover have "se_write toy_platform [FRAME READY] (s\<lparr>se_authorized := True, se_capability := Some (asc ''secret'')\<rparr>)
      = s\<lparr>se_authorized := True, se_capability := Some (asc ''secret''), se_send := Some ci',
        se_written := se_written s @ [x], se_frames := se_frames s @ [[FRAME READY]]\<rparr>"
    using assms w by (simp add: se_write_def sealAndWrite_def toy_fields)
  ultimately show thesis by (intro that) (simp_all add: dispatch_def report_def)
qed

lemma toy_asks:
  assumes "se_authorized s" and "se_capability s = Some (asc ''secret'')" and "se_carrying s = Carrying_none"
    and "se_requests s = []"
  shows "dispatch toy_platform now [FRAME REQUEST] s = (Inr (), s\<lparr>se_requests := [toy_request],
     se_carrying := Carrying_request, se_upstreamRequest := Some 0, se_requestBody := None\<rparr>)"
proof -
  have "loopback toy_platform ''http'' (asc ''/'') = Some \<lparr>url_origin = [], url_pathname = asc ''/'', url_search = []\<rparr>"
    by (simp add: loopback_def toy_platform_def asc_def)
  moreover have "HTTP_TOKEN (asc ''GET'')" by (simp add: HTTP_TOKEN_def asc_def digit_or_letter_def)
  ultimately have "startRequest toy_platform [] s = (Inr (), s\<lparr>se_requests := [toy_request], se_carrying := Carrying_request,
      se_upstreamRequest := Some 0, se_requestBody := None\<rparr>)"
    using assms
    by (simp add: startRequest_def decodeJson_def toy_platform_def string_field_def asc_inject header_entries_def
        with_capability_def Let_def toy_request_def new_request_def bearer_def) (simp add: asc_def)
  then show ?thesis using assms by (simp add: dispatch_def handle_def decodeFrame_def)
qed

lemma toy_run:
  obtains h s where "reaches toy_platform (new_secure_session h) s" and "\<not> se_closed s" and "\<not> se_failed s"
    and "se_requests s = [toy_request]" and "se_sockets s = []" and "se_upstreamRequest s = Some 0"
proof -
  obtain I where I: "noise_start toy_crypto True (localStaticKey toy_crypto (toy_key 1))
      (Some (c_public toy_crypto (toy_key 2))) [] (\<lambda>_. ephemeral_of toy_crypto (toy_key 3)) = Inr I"
    using toy_crypto_ok by (simp add: noise_start_def)
  obtain R where R: "noise_start toy_crypto False (localStaticKey toy_crypto (toy_key 2)) None []
      (\<lambda>_. ephemeral_of toy_crypto (toy_key 4)) = Inr R"
    by (simp add: noise_start_def)
  from ik_agrees [OF toy_crypto_ok _ _ _ _ I R, of "[]" "[]"] obtain m1 R1 m2 R2 tR where
    w: "readMessage toy_crypto m1 R = (Inr [], R1)" "writeMessage toy_crypto [] R1 = (Inr m2, R2)"
      "noise_split R2 = Inr tR" "hs_remote_static R2 = Some (c_public toy_crypto (toy_key 1))"
      "length m1 = 2 * KEY_BYTES + 2 * TAG_BYTES" "length m2 = KEY_BYTES + TAG_BYTES"
    and counters: "cs_counter (nt_send tR) = 0" "cs_counter (nt_receive tR) = 0" by auto
  obtain x1 where x1: "frameLength m1 = Inr x1" using w(5) by (simp add: frameLength_def KEY_BYTES_def TAG_BYTES_def)
  have short: "length m2 \<le> 65535" using w(6) by (simp add: KEY_BYTES_def TAG_BYTES_def)
  define s1 where "s1 = consume toy_platform 0 x1 (new_secure_session R)"
  obtain w2 where s1: "s1 = (new_secure_session R)\<lparr>se_handshake := R2, se_written := [w2],
      se_send := Some (nt_send tR), se_receive := Some (nt_receive tR),
      se_peerThumbprint := Some (jwkThumbprint (pf_sha256 toy_platform) (b64uEncode (c_public toy_crypto (toy_key 1))))\<rparr>"
    using new_session_handshake [OF w(1-4) [folded toy_fields(1)] short x1, of "[x1]" 0] unfolding s1_def toy_fields(1)
    by auto
  obtain e1 x2 c1 where e1: "cipher_encrypt toy_crypto [] [FRAME HELLO] (nt_receive tR) = (Inr e1, c1)" "frameLength e1 = Inr x2"
    "cs_counter c1 \<le> 1"
    by (rule toy_encrypts [OF counters(2), of "[FRAME HELLO]"]) simp_all
  obtain e2 x3 c2 where e2: "cipher_encrypt toy_crypto [] [FRAME REQUEST] c1 = (Inr e2, c2)" "frameLength e2 = Inr x3"
    by (rule toy_encrypts [OF refl, of c1 "[FRAME REQUEST]"]) (use e1(3) in simp_all)
  have ok: "crypto_ok (pf_crypto toy_platform)" by (rule toy_fields)
  obtain s2 a b c e where hello: "dispatch toy_platform 0 [FRAME HELLO]
      (s1\<lparr>se_receive := Some c1, se_heard := se_heard s1 @ [[FRAME HELLO]]\<rparr>) = (Inr (), s2)"
    and s2: "s2 = (s1\<lparr>se_receive := Some c1, se_heard := se_heard s1 @ [[FRAME HELLO]]\<rparr>)\<lparr>se_authorized := True,
      se_capability := Some (asc ''secret''), se_send := Some a, se_written := b, se_frames := c, se_events := e\<rparr>"
    by (rule toy_hello [of "s1\<lparr>se_receive := Some c1, se_heard := se_heard s1 @ [[FRAME HELLO]]\<rparr>" "nt_send tR" 0])
      (use counters in \<open>simp_all add: s1 new_secure_session_def\<close>)
  have step2: "consume toy_platform 0 x2 s1 = s2"
    by (rule consume_frame [OF ok _ e1(2) _ _ _ _ _ hello]) (use e1(1) in \<open>simp_all add: toy_fields s1 new_secure_session_def\<close>)
  define s3 where "s3 = (s2\<lparr>se_receive := Some c2, se_heard := se_heard s2 @ [[FRAME REQUEST]]\<rparr>)\<lparr>se_requests := [toy_request],
     se_carrying := Carrying_request, se_upstreamRequest := Some 0, se_requestBody := None\<rparr>"
  have asks: "dispatch toy_platform 0 [FRAME REQUEST]
      (s2\<lparr>se_receive := Some c2, se_heard := se_heard s2 @ [[FRAME REQUEST]]\<rparr>) = (Inr (), s3)"
    unfolding s3_def by (rule toy_asks) (simp_all add: s2 s1 new_secure_session_def)
  have step3: "consume toy_platform 0 x3 s2 = s3"
    by (rule consume_frame [OF ok _ e2(2) _ _ _ _ _ asks]) (use e2(1) in \<open>simp_all add: toy_fields s2 s1 new_secure_session_def\<close>)
  have data: "reaches toy_platform u t \<Longrightarrow> reaches toy_platform u (consume toy_platform 0 x t)" for x t u
    by (erule reaches_step [where ev = "On_data x 0"]) simp_all
  have "reaches toy_platform (new_secure_session R) s3"
    using data [OF data [OF data [OF reaches_start]], of "new_secure_session R" x3 x2 x1] step2 step3 by (simp add: s1_def)
  moreover have "\<not> se_closed s3" "\<not> se_failed s3" "se_requests s3 = [toy_request]" "se_sockets s3 = []"
    "se_upstreamRequest s3 = Some 0" by (simp_all add: s3_def s2 s1 new_secure_session_def)
  ultimately show thesis by (rule that)
qed

subsection \<open>Properties\<close>

text \<open>
  C5. The whole way from a client's first byte to the frames the daemon acts on. A client
  that knows the daemon's key writes one message; wherever its bytes are cut, the session
  answers with one message that completes the client's handshake and records the
  thumbprint of the client's own key. Whatever frames the client then seals, in order, and
  wherever that stream is cut, the session acts on exactly those frames, in that order: on
  all of them, or on a first part of them after which it is refused or over.
\<close>

theorem sealed_frames_are_heard:
  fixes pf :: platform
  assumes ok: "crypto_ok (pf_crypto pf)"
    and lengths: "length si = KEY_BYTES" "length sr = KEY_BYTES" "length ei = KEY_BYTES" "length er = KEY_BYTES"
    and I: "noise_start (pf_crypto pf) True (localStaticKey (pf_crypto pf) si) (Some (c_public (pf_crypto pf) sr)) prologue
        (\<lambda>_. ephemeral_of (pf_crypto pf) ei) = Inr I"
    and R: "noise_start (pf_crypto pf) False (localStaticKey (pf_crypto pf) sr) None prologue
        (\<lambda>_. ephemeral_of (pf_crypto pf) er) = Inr R"
  shows "\<exists>m1 I1 x1. writeMessage (pf_crypto pf) [] I = (Inr m1, I1) \<and> frameLength m1 = Inr x1 \<and>
    (\<forall>cs. concat cs = x1 \<longrightarrow> (\<exists>s m2 w2 I2 tI. fold (consume pf now) cs (new_secure_session R) = s \<and>
      se_written s = [w2] \<and> frameLength m2 = Inr w2 \<and> readMessage (pf_crypto pf) m2 I1 = (Inr [], I2) \<and>
      noise_split I2 = Inr tI \<and> cs_counter (nt_send tI) = 0 \<and>
      se_peerThumbprint s = Some (jwkThumbprint (pf_sha256 pf) (b64uEncode (c_public (pf_crypto pf) si))) \<and>
      (\<forall>fs ws ci xs ds. encrypt_all (pf_crypto pf) fs (nt_send tI) = (Inr ws, ci) \<longrightarrow>
        list_all2 (\<lambda>w x. frameLength w = Inr x) ws xs \<longrightarrow> concat ds = concat xs \<longrightarrow>
        (\<exists>n t. fold (consume pf later) ds s = t \<and> n \<le> length fs \<and> se_heard t = take n fs \<and>
          (n = length fs \<or> se_failed t \<or> se_closed t)))))"
proof -
  from ik_agrees [OF ok lengths I R, of "[]" "[]"] obtain m1 I1 R1 m2 R2 I2 tI tR where
    w: "writeMessage (pf_crypto pf) [] I = (Inr m1, I1)" "readMessage (pf_crypto pf) m1 R = (Inr [], R1)"
      "writeMessage (pf_crypto pf) [] R1 = (Inr m2, R2)" "readMessage (pf_crypto pf) m2 I1 = (Inr [], I2)"
      "hs_remote_static R2 = Some (c_public (pf_crypto pf) si)" "noise_split I2 = Inr tI" "noise_split R2 = Inr tR"
      "nt_send tI = nt_receive tR" "cs_counter (nt_send tI) = 0"
    and long: "length m2 = KEY_BYTES + TAG_BYTES" "length m1 = 2 * KEY_BYTES + 2 * TAG_BYTES" by auto
  obtain x1 where x1: "frameLength m1 = Inr x1" using long by (simp add: frameLength_def KEY_BYTES_def TAG_BYTES_def)
  have short: "length m2 \<le> 65535" using long by (simp add: KEY_BYTES_def TAG_BYTES_def)
  have rest: "\<exists>n t. fold (consume pf later) ds s = t \<and> n \<le> length fs \<and> se_heard t = take n fs \<and>
      (n = length fs \<or> se_failed t \<or> se_closed t)"
    if s: "se_send s = Some (nt_send tR)" "se_receive s = Some (nt_receive tR)" "se_reader s = new_length_reader"
      "se_heard s = []" "sess_inv s"
    and e: "encrypt_all (pf_crypto pf) fs (nt_send tI) = (Inr ws, ci)"
      "list_all2 (\<lambda>w x. frameLength w = Inr x) ws xs" "concat ds = concat xs" for s fs ws ci xs ds
  proof -
    have tune: "in_tune pf s" using s ok by (simp add: in_tune_def)
    have "feed length_reader_push (se_reader s) ds = length_reader_push (se_reader s) (concat ds)"
      by (rule lr.feed_concat) (simp add: s length_reader_ready_def new_length_reader_def)
    then have "feed length_reader_push (se_reader s) ds = (ws, new_length_reader)"
      using whole_messages_frames [OF e(2)] e(3) s(3) by (simp add: length_reader_push_def new_length_reader_def)
    from consume_chunks [OF tune _ this e(1) [unfolded w(8)], of later] s(2,4) show ?thesis by auto
  qed
  have "\<exists>s m2 w2 I2 tI. fold (consume pf now) cs (new_secure_session R) = s \<and>
      se_written s = [w2] \<and> frameLength m2 = Inr w2 \<and> readMessage (pf_crypto pf) m2 I1 = (Inr [], I2) \<and>
      noise_split I2 = Inr tI \<and> cs_counter (nt_send tI) = 0 \<and>
      se_peerThumbprint s = Some (jwkThumbprint (pf_sha256 pf) (b64uEncode (c_public (pf_crypto pf) si))) \<and>
      (\<forall>fs ws ci xs ds. encrypt_all (pf_crypto pf) fs (nt_send tI) = (Inr ws, ci) \<longrightarrow>
        list_all2 (\<lambda>w x. frameLength w = Inr x) ws xs \<longrightarrow> concat ds = concat xs \<longrightarrow>
        (\<exists>n t. fold (consume pf later) ds s = t \<and> n \<le> length fs \<and> se_heard t = take n fs \<and>
          (n = length fs \<or> se_failed t \<or> se_closed t)))" if cut: "concat cs = x1" for cs
  proof (rule new_session_handshake [OF w(2,3,7,5) short x1 cut, of now])
    fix w2
    define s where "s = fold (consume pf now) cs (new_secure_session R)"
    assume w2: "frameLength m2 = Inr w2" and eq: "fold (consume pf now) cs (new_secure_session R) = (new_secure_session R)\<lparr>se_handshake := R2,
      se_written := [w2], se_send := Some (nt_send tR), se_receive := Some (nt_receive tR),
      se_peerThumbprint := Some (jwkThumbprint (pf_sha256 pf) (b64uEncode (c_public (pf_crypto pf) si)))\<rparr>"
      and inv: "sess_inv (fold (consume pf now) cs (new_secure_session R))"
    have s: "se_send s = Some (nt_send tR)" "se_receive s = Some (nt_receive tR)" "se_reader s = new_length_reader"
      "se_heard s = []" "sess_inv s" "se_written s = [w2]"
      "se_peerThumbprint s = Some (jwkThumbprint (pf_sha256 pf) (b64uEncode (c_public (pf_crypto pf) si)))"
      using inv unfolding s_def eq by (simp_all add: new_secure_session_def)
    show ?thesis using rest [OF s(1-5)] s(6,7) w2 w(4,6,9) unfolding s_def
      by (intro exI [of _ "fold (consume pf now) cs (new_secure_session R)"] exI [of _ m2] exI [of _ w2]
        exI [of _ I2] exI [of _ tI]) blast
  qed
  with w(1) x1 show ?thesis by blast
qed

theorem sealed_frames_are_heard_witness:
  "\<exists>I R m1 I1 x1 s I2 tI w ci x t n. noise_start toy_crypto True (localStaticKey toy_crypto (toy_key 1))
      (Some (c_public toy_crypto (toy_key 2))) [] (\<lambda>_. ephemeral_of toy_crypto (toy_key 3)) = Inr I \<and>
    writeMessage toy_crypto [] I = (Inr m1, I1) \<and> frameLength m1 = Inr x1 \<and>
    consume toy_platform 0 x1 (new_secure_session R) = s \<and> noise_split I2 = Inr tI \<and>
    encrypt_all toy_crypto [[FRAME HELLO]] (nt_send tI) = (Inr [w], ci) \<and> frameLength w = Inr x \<and>
    consume toy_platform 0 x s = t \<and> se_heard t = take n [[FRAME HELLO]] \<and> (n = 1 \<or> se_failed t \<or> se_closed t)"
proof -
  obtain I where I: "noise_start toy_crypto True (localStaticKey toy_crypto (toy_key 1))
      (Some (c_public toy_crypto (toy_key 2))) [] (\<lambda>_. ephemeral_of toy_crypto (toy_key 3)) = Inr I"
    using toy_crypto_ok by (simp add: noise_start_def)
  obtain R where R: "noise_start toy_crypto False (localStaticKey toy_crypto (toy_key 2)) None []
      (\<lambda>_. ephemeral_of toy_crypto (toy_key 4)) = Inr R"
    by (simp add: noise_start_def)
  from sealed_frames_are_heard [OF toy_fields(2) _ _ _ _ I [folded toy_fields(1)] R [folded toy_fields(1)], of 0 0]
  obtain m1 I1 x1 where 1: "writeMessage toy_crypto [] I = (Inr m1, I1)" "frameLength m1 = Inr x1"
    and all: "\<forall>cs. concat cs = x1 \<longrightarrow> (\<exists>s m2 w2 I2 tI. fold (consume toy_platform 0) cs (new_secure_session R) = s \<and>
      se_written s = [w2] \<and> frameLength m2 = Inr w2 \<and> readMessage toy_crypto m2 I1 = (Inr [], I2) \<and>
      noise_split I2 = Inr tI \<and> cs_counter (nt_send tI) = 0 \<and>
      se_peerThumbprint s = Some (jwkThumbprint (pf_sha256 toy_platform) (b64uEncode (c_public toy_crypto (toy_key 1)))) \<and>
      (\<forall>fs ws ci xs ds. encrypt_all toy_crypto fs (nt_send tI) = (Inr ws, ci) \<longrightarrow>
        list_all2 (\<lambda>w x. frameLength w = Inr x) ws xs \<longrightarrow> concat ds = concat xs \<longrightarrow>
        (\<exists>n t. fold (consume toy_platform 0) ds s = t \<and> n \<le> length fs \<and> se_heard t = take n fs \<and>
          (n = length fs \<or> se_failed t \<or> se_closed t))))"
    unfolding toy_fields(1) by auto
  from all [rule_format, of "[x1]"] obtain s I2 tI where 2: "consume toy_platform 0 x1 (new_secure_session R) = s"
    "noise_split I2 = Inr tI" "cs_counter (nt_send tI) = 0"
    and hears: "\<forall>fs ws ci xs ds. encrypt_all toy_crypto fs (nt_send tI) = (Inr ws, ci) \<longrightarrow>
        list_all2 (\<lambda>w x. frameLength w = Inr x) ws xs \<longrightarrow> concat ds = concat xs \<longrightarrow>
        (\<exists>n t. fold (consume toy_platform 0) ds s = t \<and> n \<le> length fs \<and> se_heard t = take n fs \<and>
          (n = length fs \<or> se_failed t \<or> se_closed t))" by auto
  obtain w x ci where 3: "cipher_encrypt toy_crypto [] [FRAME HELLO] (nt_send tI) = (Inr w, ci)" "frameLength w = Inr x"
    by (rule toy_encrypts [OF 2(3), of "[FRAME HELLO]"]) simp_all
  then have enc: "encrypt_all toy_crypto [[FRAME HELLO]] (nt_send tI) = (Inr [w], ci)"
    by (simp add: and_then_def done_with_def)
  with hears [rule_format, of "[[FRAME HELLO]]" "[w]" ci "[x]" "[x]"] 3(2) obtain n t where
    "consume toy_platform 0 x s = t" "se_heard t = take n [[FRAME HELLO]]" "n = 1 \<or> se_failed t \<or> se_closed t"
    by auto
  with I 1 2 enc 3(2) show ?thesis by blast
qed

text \<open>
  C4. Only the device whose key the channel proved is served. Whatever a peer sends and
  however the libraries behave, every request and every socket the session makes towards the
  daemon carries one capability as its only authorization; that capability was accepted over
  this channel, and where it was a signed one its claims confirm the thumbprint of the very
  key the handshake authenticated. No header the peer writes replaces it, reframes the
  request, or holds a character HTTP does not allow.
\<close>

theorem only_the_bound_device_is_served:
  assumes "pf_verify pf = both_verify parse ed25519 v sha256 secret"
    and "reaches pf (new_secure_session h) s"
    and "hs \<in> set (map ur_headers (se_requests s) @ map lk_headers (se_sockets s))"
  shows "\<exists>t key thumb now p. hs_remote_static (se_handshake s) = Some key
    \<and> thumb = jwkThumbprint (pf_sha256 pf) (b64uEncode key)
    \<and> both_verify parse ed25519 v sha256 secret (Some t) now \<lparr>peerKeyThumbprint = Some thumb\<rparr> = Inr p
    \<and> (pr_via p = Signed \<longrightarrow> Option.bind (claimed parse t) cl_cnf = Some thumb)
    \<and> clean_headers t hs"
proof -
  from reaches_tied [OF assms(2) new_session_tied] have b: "bound pf s" by (simp add: tied_def)
  with assms(3) have "se_authorized s" by (auto simp: bound_def)
  with b obtain t thumb now p where t: "se_peerThumbprint s = Some thumb"
    "pf_verify pf (Some t) now \<lparr>peerKeyThumbprint = Some thumb\<rparr> = Inr p"
    "list_all (clean_headers t) (map ur_headers (se_requests s) @ map lk_headers (se_sockets s))"
    unfolding bound_def by (metis option.exhaust)
  moreover from b t(1) obtain key where "hs_remote_static (se_handshake s) = Some key"
    "thumb = jwkThumbprint (pf_sha256 pf) (b64uEncode key)" by (auto simp: bound_def)
  moreover have "clean_headers t hs" using t(3) assms(3) by (simp only: list_all_iff) 
  ultimately show ?thesis using both.binding [of parse ed25519 v sha256 secret t now _ p thumb] assms(1)
    by (intro exI [of _ t] exI [of _ key] exI [of _ thumb] exI [of _ now] exI [of _ p]) simp
qed

theorem only_the_bound_device_is_served_witness:
  "\<exists>h s t. reaches toy_platform (new_secure_session h) s \<and> se_requests s = [toy_request] \<and> clean_headers t (ur_headers toy_request)"
proof -
  obtain h s where s: "reaches toy_platform (new_secure_session h) s" "se_requests s = [toy_request]" by (rule toy_run)
  have v: "pf_verify toy_platform = both_verify sample_texts sample_check sample_verifier id (asc ''secret'')"
    by (simp add: toy_platform_def)
  from only_the_bound_device_is_served [OF v s(1), of "ur_headers toy_request"] s show ?thesis by auto
qed

text \<open>
  C13. One exchange at a time, and nothing left behind. Whatever happens, at most one request
  or socket towards the daemon is alive, the session holds it while it is, a session that has
  ended has none, and the listeners left on the long-lived stream never accumulate.
\<close>

theorem one_exchange_nothing_orphaned:
  assumes "reaches pf (new_secure_session h) s"
  shows "length (filter live_request (se_requests s)) + length (filter live_socket (se_sockets s)) \<le> 1
    \<and> (se_closed s \<longrightarrow> filter live_request (se_requests s) = [] \<and> filter live_socket (se_sockets s) = [])
    \<and> (se_carrying s = Carrying_none \<longrightarrow> filter live_request (se_requests s) = [] \<and> filter live_socket (se_sockets s) = [])
    \<and> length (se_onDrain s) \<le> 1 \<and> length (se_onClose s) \<le> 2"
proof -
  from reaches_inv [OF assms new_session_inv] have inv: "holding s" "listening s" by (simp_all add: sess_inv_def sess_ok_def)
  from inv(1) have h: "requests_held (se_requests s) (se_upstreamRequest s)" "sockets_held (se_sockets s) (se_socket s)"
    "se_upstreamRequest s = None \<or> se_socket s = None"
    "se_carrying s = (if se_upstreamRequest s \<noteq> None then Carrying_request
       else if se_socket s \<noteq> None then Carrying_socket else Carrying_none)"
    "se_closed s \<longrightarrow> se_upstreamRequest s = None \<and> se_socket s = None" unfolding holding_def held_def by - (elim conjE; assumption)+
  have "length (filter live_request (se_requests s)) \<le> (if se_upstreamRequest s = None then 0 else 1)"
    by (rule held_by_one) (rule h(1) [unfolded requests_held_def, THEN conjunct1])
  moreover have "length (filter live_socket (se_sockets s)) \<le> (if se_socket s = None then 0 else 1)"
    by (rule held_by_one) (rule h(2) [unfolded sockets_held_def, THEN conjunct1])
  moreover have "se_upstreamRequest s = None \<or> se_socket s = None"
    "se_closed s \<or> se_carrying s = Carrying_none \<Longrightarrow> se_upstreamRequest s = None \<and> se_socket s = None"
    using h(3-5) by (cases "se_upstreamRequest s"; cases "se_socket s"; simp)+
  moreover have "length (se_onDrain s) \<le> 1" "length (se_onClose s) \<le> 2" using inv(2) by (simp_all add: listening_def)
  moreover have "a + b \<le> 1 \<and> (gone \<longrightarrow> a = 0 \<and> b = 0)" if "a \<le> (if u = None then 0 else 1)" "b \<le> (if w = None then 0 else 1)"
    "u = None \<or> w = None" "gone \<Longrightarrow> u = None \<and> w = None" for a b :: nat and u w :: "nat option" and gone
    using that by (cases u; cases w) auto
  ultimately have "length (filter live_request (se_requests s)) + length (filter live_socket (se_sockets s)) \<le> 1 \<and>
      (se_closed s \<or> se_carrying s = Carrying_none \<longrightarrow>
        length (filter live_request (se_requests s)) = 0 \<and> length (filter live_socket (se_sockets s)) = 0)"
    "length (se_onDrain s) \<le> 1 \<and> length (se_onClose s) \<le> 2" by - blast+
  then show ?thesis by (simp only: length_0_conv) blast
qed

theorem one_exchange_nothing_orphaned_witness:
  "\<exists>h s. reaches toy_platform (new_secure_session h) s \<and> filter live_request (se_requests s) = [toy_request]
    \<and> filter live_socket (se_sockets s) = [] \<and> \<not> se_closed s \<and> se_carrying s \<noteq> Carrying_none"
proof -
  obtain h s where s: "reaches toy_platform (new_secure_session h) s" "\<not> se_closed s" "se_requests s = [toy_request]"
    "se_sockets s = []" by (rule toy_run)
  have "live_request toy_request" by (simp add: live_request_def toy_request_def new_request_def)
  then have "filter live_request (se_requests s) = [toy_request]" "filter live_socket (se_sockets s) = []"
    "se_carrying s \<noteq> Carrying_none" using one_exchange_nothing_orphaned [OF s(1)] s by auto
  with s show ?thesis by blast
qed

text \<open>
  C14. The daemon's side of the conversation is always well formed: \<open>READY\<close> before anything,
  then whole answers and whole messages one after another, never a frame of one inside the
  other, and nothing after \<open>FAILED\<close>, whose being sent is exactly the session's being failed.
\<close>

theorem answers_never_interleave:
  assumes "reaches pf (new_secure_session h) s"
  shows "talked Talk_start (se_frames s) \<noteq> None
    \<and> (\<not> se_closed s \<longrightarrow> talked Talk_start (se_frames s) = Some (if se_failed s then Talk_over else talk_of s))"
  using reaches_inv [OF assms new_session_inv] by (simp add: sess_inv_def sess_ok_def talking_def)

theorem answers_never_interleave_witness:
  "\<exists>h s. reaches toy_platform (new_secure_session h) s \<and> talked Talk_start (se_frames s) = Some (talk_of s) \<and> \<not> se_failed s"
proof -
  obtain h s where s: "reaches toy_platform (new_secure_session h) s" "\<not> se_closed s" "\<not> se_failed s" by (rule toy_run)
  with answers_never_interleave [OF s(1)] show ?thesis by auto
qed

text \<open>
  C15. No callback throws. In every state a session can reach, on every event that can come
  there, and whatever the socket library or the request constructor throws at it, the
  callback returns: what was thrown is a refusal to the peer or the session's end.
\<close>

theorem callbacks_never_throw:
  assumes "reaches pf (new_secure_session h) s" and "possible ev s"
  shows "fst (secure_step pf ev s) = Inr ()"
  using secure_step_settled [OF reaches_inv [OF assms(1) new_session_inv] assms(2)] by (simp add: returns_settled_def)

theorem callbacks_never_throw_witness:
  "\<exists>h s. reaches toy_platform (new_secure_session h) s \<and> possible (On_response 0 (Some 200) None []) s
    \<and> fst (secure_step toy_platform (On_response 0 (Some 200) None []) s) = Inr ()"
proof -
  obtain h s where s: "reaches toy_platform (new_secure_session h) s" "se_requests s = [toy_request]" by (rule toy_run)
  have "possible (On_response 0 (Some 200) None []) s" using s(2) by (simp add: request_at_def toy_request_def new_request_def)
  with callbacks_never_throw [OF s(1)] s(1) show ?thesis by blast
qed

text \<open>
  A message racing the daemon's own close. The comments beside the assembler say that what
  arrives while a socket is ending is ignored; a message that ends while the listener's socket
  is closing, before its close is told, is answered with a refusal instead, and the refusal
  keeps the socket's own close from ever reaching the peer.
\<close>

theorem message_racing_a_close_is_refused:
  assumes "\<not> se_closed s" and "\<not> se_failed s" and "se_authorized s"
    and "se_socket s = Some j" and "lk_state (se_sockets s ! j) = Ws_closing"
    and "se_assembler s = Some a" and "assembler_end a = (Some msg, a')"
  shows "\<exists>t. handle pf now (FRAME MESSAGE_END # payload) s = (Inr (), t) \<and> se_failed t \<and>
    (\<forall>code reason. se_frames (snd (socket_closed pf j code reason t)) = se_frames t)"
proof -
  obtain f where f: "\<And>s. se_fail pf 400 (asc ''a message arrived before the socket was open'') s =
      (Inr (), if se_closed s \<or> se_failed s then s
        else refusing pf (asc ''a message arrived before the socket was open'') (FRAME FAILED # f) s)"
    by (rule se_fail_eq [where pf = pf, of 400 "asc ''a message arrived before the socket was open''"]) simp_all
  define t where "t = refusing pf (asc ''a message arrived before the socket was open'') (FRAME FAILED # f)
      (s\<lparr>se_assembler := Some a'\<rparr>)"
  have "handle pf now (FRAME MESSAGE_END # payload) s = (Inr (), t)"
    using assms f by (simp add: handle_def decodeFrame_def endMessage_def t_def Let_def)
  moreover have "se_failed t"
    by (rule sealAndWrite_cases [of pf "FRAME FAILED # f" "s\<lparr>se_assembler := Some a', se_failed := True, se_requestBody := None\<rparr>"])
      (simp_all add: t_def refusing_def)
  moreover from this have "se_frames (snd (socket_closed pf j code reason t)) = se_frames t" for code reason
    by (simp add: socket_closed_def se_write_def Let_def split: sum.split)
  ultimately show ?thesis by blast
qed

end
