(* ===== verification/Throttle.thy ===== *)
theory Throttle
  imports Token "HOL-Library.AList"
begin

text \<open>
  What stops somebody guessing (\<open>LoginThrottle\<close> and the key builders of
  \<open>src/packages/control-plane/src/throttle.ts\<close>): counters per key with a window, an
  escalating block, pruning and a cap on the table. Times are milliseconds as rationals; the
  table is an association list, in the insertion order of the source's \<open>Map\<close>.
  \<open>toLowerCase\<close>, which knows all of Unicode, is the argument \<open>lower\<close>. The address a caller is counted
  under is \<open>callerAddressOf\<close> of \<open>src/packages/control-plane/src/net.ts\<close>.
\<close>

subsection \<open>Policies\<close>

record throttle_options =
  to_threshold :: nat
  to_windowMs :: rat
  to_baseBlockMs :: rat
  to_maxBlockMs :: rat
  to_maxEntries :: nat

definition DEFAULT_THROTTLE :: throttle_options where
  "DEFAULT_THROTTLE = \<lparr>to_threshold = 5, to_windowMs = 15 * 60 * 1000, to_baseBlockMs = 30 * 1000,
     to_maxBlockMs = 15 * 60 * 1000, to_maxEntries = 10000\<rparr>"

definition ADDRESS_THROTTLE :: throttle_options where
  "ADDRESS_THROTTLE = \<lparr>to_threshold = 30, to_windowMs = 15 * 60 * 1000, to_baseBlockMs = 30 * 1000,
     to_maxBlockMs = 15 * 60 * 1000, to_maxEntries = 10000\<rparr>"

definition MAIL_THROTTLE :: throttle_options where
  "MAIL_THROTTLE = \<lparr>to_threshold = 3, to_windowMs = 60 * 60 * 1000, to_baseBlockMs = 15 * 60 * 1000,
     to_maxBlockMs = 6 * 60 * 60 * 1000, to_maxEntries = 10000\<rparr>"

definition RESET_MAIL_THROTTLE :: throttle_options where
  "RESET_MAIL_THROTTLE = \<lparr>to_threshold = 3, to_windowMs = 60 * 60 * 1000, to_baseBlockMs = 15 * 60 * 1000,
     to_maxBlockMs = 15 * 60 * 1000, to_maxEntries = 10000\<rparr>"

definition WRITE_THROTTLE :: throttle_options where
  "WRITE_THROTTLE = \<lparr>to_threshold = 60, to_windowMs = 60 * 1000, to_baseBlockMs = 10 * 1000,
     to_maxBlockMs = 10 * 1000, to_maxEntries = 10000\<rparr>"

definition MAX_KEY_CHARS :: nat where "MAX_KEY_CHARS = 320"
definition PRUNE_EVERY :: nat where "PRUNE_EVERY = 256"

subsection \<open>The counters\<close>

record throttle_entry =
  te_failures :: nat
  te_firstAt :: rat
  te_blockedUntil :: rat

record throttle_decision =
  td_allowed :: bool
  td_retryAfterSeconds :: int

definition ALLOWED :: throttle_decision where
  "ALLOWED = \<lparr>td_allowed = True, td_retryAfterSeconds = 0\<rparr>"

record login_throttle =
  lt_options :: throttle_options
  lt_entries :: "(ustring \<times> throttle_entry) list"
  lt_sincePrune :: nat

definition new_throttle :: "throttle_options \<Rightarrow> login_throttle" where
  "new_throttle options = \<lparr>lt_options = options, lt_entries = [], lt_sincePrune = 0\<rparr>"

definition normalize_key :: "(ustring \<Rightarrow> ustring) \<Rightarrow> ustring \<Rightarrow> ustring" where
  "normalize_key lower key = lower (take MAX_KEY_CHARS (js_trim key))"

definition is_settled :: "throttle_options \<Rightarrow> rat \<Rightarrow> throttle_entry \<Rightarrow> bool" where
  "is_settled options now e \<longleftrightarrow> te_blockedUntil e \<le> now \<and> to_windowMs options < now - te_firstAt e"

definition dropSettled :: "rat \<Rightarrow> login_throttle \<Rightarrow> login_throttle" where
  "dropSettled now t = t\<lparr>lt_entries := filter (\<lambda>(id, e). \<not> is_settled (lt_options t) now e) (lt_entries t)\<rparr>"

definition maybePrune :: "rat \<Rightarrow> login_throttle \<Rightarrow> login_throttle" where
  "maybePrune now t =
     (let t = t\<lparr>lt_sincePrune := lt_sincePrune t + 1\<rparr> in
      if lt_sincePrune t < PRUNE_EVERY then t else dropSettled now (t\<lparr>lt_sincePrune := 0\<rparr>))"

definition enforceCap :: "rat \<Rightarrow> login_throttle \<Rightarrow> login_throttle" where
  "enforceCap now t =
     (if length (lt_entries t) \<le> to_maxEntries (lt_options t) then t
      else
        let t = dropSettled now t in
        if to_maxEntries (lt_options t) < length (lt_entries t) then t\<lparr>lt_entries := []\<rparr> else t)"

definition decide :: "throttle_entry option \<Rightarrow> rat \<Rightarrow> throttle_decision" where
  "decide entry now =
     (case entry of
        None \<Rightarrow> ALLOWED
      | Some e \<Rightarrow>
          if te_blockedUntil e \<le> now then ALLOWED
          else \<lparr>td_allowed = False, td_retryAfterSeconds = max 1 \<lceil>(te_blockedUntil e - now) / 1000\<rceil>\<rparr>)"

definition throttle_check ::
  "(ustring \<Rightarrow> ustring) \<Rightarrow> ustring \<Rightarrow> rat \<Rightarrow> login_throttle \<Rightarrow> throttle_decision \<times> login_throttle" where
  "throttle_check lower key now t =
     (let t = maybePrune now t in (decide (map_of (lt_entries t) (normalize_key lower key)) now, t))"

text \<open>How long the block is that a failure past the threshold sets.\<close>

definition block_ms :: "throttle_options \<Rightarrow> nat \<Rightarrow> rat" where
  "block_ms options over = min (to_baseBlockMs options * 2 ^ min over 30) (to_maxBlockMs options)"

definition failed_entry :: "throttle_options \<Rightarrow> throttle_entry option \<Rightarrow> rat \<Rightarrow> throttle_entry" where
  "failed_entry options existing now =
     (let e = (case existing of
                 None \<Rightarrow> \<lparr>te_failures = 0, te_firstAt = now, te_blockedUntil = 0\<rparr>
               | Some e \<Rightarrow> if to_windowMs options < now - te_firstAt e
                   then \<lparr>te_failures = 0, te_firstAt = now, te_blockedUntil = 0\<rparr> else e);
          e = e\<lparr>te_failures := te_failures e + 1\<rparr>
      in if to_threshold options < te_failures e
         then e\<lparr>te_blockedUntil := now + block_ms options (te_failures e - to_threshold options - 1)\<rparr>
         else e)"

definition throttle_fail :: "(ustring \<Rightarrow> ustring) \<Rightarrow> ustring \<Rightarrow> rat \<Rightarrow> login_throttle \<Rightarrow> login_throttle" where
  "throttle_fail lower key now t =
     (let id = normalize_key lower key;
          e = failed_entry (lt_options t) (map_of (lt_entries t) id) now
      in enforceCap now (t\<lparr>lt_entries := AList.update id e (lt_entries t)\<rparr>))"

definition throttle_succeed :: "(ustring \<Rightarrow> ustring) \<Rightarrow> ustring \<Rightarrow> login_throttle \<Rightarrow> login_throttle" where
  "throttle_succeed lower key t =
     t\<lparr>lt_entries := AList.delete (normalize_key lower key) (lt_entries t)\<rparr>"

definition forgiven_entry :: "throttle_options \<Rightarrow> throttle_entry \<Rightarrow> throttle_entry option" where
  "forgiven_entry options e =
     (let e = e\<lparr>te_failures := te_failures e - 1\<rparr>;
          e = (if te_failures e < to_threshold options then e\<lparr>te_blockedUntil := 0\<rparr> else e)
      in if te_failures e = 0 then None else Some e)"

definition throttle_forgive :: "(ustring \<Rightarrow> ustring) \<Rightarrow> ustring \<Rightarrow> login_throttle \<Rightarrow> login_throttle" where
  "throttle_forgive lower key t =
     (let id = normalize_key lower key in
      case map_of (lt_entries t) id of
        None \<Rightarrow> t
      | Some e \<Rightarrow>
          (case forgiven_entry (lt_options t) e of
             None \<Rightarrow> t\<lparr>lt_entries := AList.delete id (lt_entries t)\<rparr>
           | Some e \<Rightarrow> t\<lparr>lt_entries := AList.update id e (lt_entries t)\<rparr>))"

definition throttle_size :: "login_throttle \<Rightarrow> nat" where
  "throttle_size t = length (lt_entries t)"

subsection \<open>Keys\<close>

definition MAX_NAME_KEY_CHARS :: nat where "MAX_NAME_KEY_CHARS = 120"
definition MAX_EMAIL_KEY_CHARS :: nat where "MAX_EMAIL_KEY_CHARS = 254"
definition MAX_ADDRESS_CHARS :: nat where "MAX_ADDRESS_CHARS = 64"
definition SEPARATOR :: nat where "SEPARATOR = 124"

definition key_field :: "(ustring \<Rightarrow> ustring) \<Rightarrow> ustring \<Rightarrow> nat \<Rightarrow> ustring" where
  "key_field lower s max_chars =
     map (\<lambda>c. if c = SEPARATOR then 95 else c) (take max_chars (normalize_key lower s))"

definition composed :: "string \<Rightarrow> ustring list \<Rightarrow> ustring" where
  "composed ns parts = join [SEPARATOR] (asc ns # parts)"

definition loginKey :: "(ustring \<Rightarrow> ustring) \<Rightarrow> ustring \<Rightarrow> ustring \<Rightarrow> ustring" where
  "loginKey lower identifier address =
     composed ''login'' [key_field lower identifier MAX_EMAIL_KEY_CHARS, key_field lower address MAX_ADDRESS_CHARS]"

definition addressKey :: "(ustring \<Rightarrow> ustring) \<Rightarrow> ustring \<Rightarrow> ustring" where
  "addressKey lower address = composed ''addr'' [key_field lower address MAX_ADDRESS_CHARS]"

definition passwordChangeKey :: "(ustring \<Rightarrow> ustring) \<Rightarrow> ustring \<Rightarrow> ustring" where
  "passwordChangeKey lower userId = composed ''pwchg'' [key_field lower userId MAX_NAME_KEY_CHARS]"

definition registerKey :: "(ustring \<Rightarrow> ustring) \<Rightarrow> ustring \<Rightarrow> ustring \<Rightarrow> ustring" where
  "registerKey lower name address =
     composed ''reg'' [key_field lower name MAX_NAME_KEY_CHARS, key_field lower address MAX_ADDRESS_CHARS]"

definition mailKey :: "(ustring \<Rightarrow> ustring) \<Rightarrow> ustring \<Rightarrow> ustring" where
  "mailKey lower emailFolded = composed ''mail'' [key_field lower emailFolded MAX_EMAIL_KEY_CHARS]"

definition resetMailKey :: "(ustring \<Rightarrow> ustring) \<Rightarrow> ustring \<Rightarrow> ustring" where
  "resetMailKey lower emailFolded = composed ''resetmail'' [key_field lower emailFolded MAX_EMAIL_KEY_CHARS]"

definition confirmKey :: "(ustring \<Rightarrow> ustring) \<Rightarrow> ustring \<Rightarrow> ustring" where
  "confirmKey lower address = composed ''confirm'' [key_field lower address MAX_ADDRESS_CHARS]"

definition resetKey :: "(ustring \<Rightarrow> ustring) \<Rightarrow> ustring \<Rightarrow> ustring" where
  "resetKey lower address = composed ''reset'' [key_field lower address MAX_ADDRESS_CHARS]"

definition mailTestKey :: "(ustring \<Rightarrow> ustring) \<Rightarrow> ustring \<Rightarrow> ustring" where
  "mailTestKey lower userId = composed ''mailtest'' [key_field lower userId MAX_NAME_KEY_CHARS]"

definition enrollKey :: "(ustring \<Rightarrow> ustring) \<Rightarrow> ustring \<Rightarrow> ustring" where
  "enrollKey lower address = composed ''enroll'' [key_field lower address MAX_ADDRESS_CHARS]"

definition provisionKey :: "(ustring \<Rightarrow> ustring) \<Rightarrow> ustring \<Rightarrow> ustring" where
  "provisionKey lower address = composed ''provision'' [key_field lower address MAX_ADDRESS_CHARS]"

definition writeKey :: "(ustring \<Rightarrow> ustring) \<Rightarrow> ustring \<Rightarrow> ustring \<Rightarrow> ustring" where
  "writeKey lower userId what =
     composed ''write'' [key_field lower what MAX_NAME_KEY_CHARS, key_field lower userId MAX_NAME_KEY_CHARS]"

subsection \<open>Whose address\<close>

definition DEFAULT_TRUSTED_PROXY_HOPS :: int where "DEFAULT_TRUSTED_PROXY_HOPS = 0"

definition forwardingIgnored :: "ustring option \<Rightarrow> int \<Rightarrow> bool" where
  "forwardingIgnored forwardedFor trustedHops \<longleftrightarrow>
     trustedHops \<le> 0 \<and> js_trim (case forwardedFor of None \<Rightarrow> [] | Some f \<Rightarrow> f) \<noteq> []"

definition trustedFrom :: "ustring option \<Rightarrow> int \<Rightarrow> ustring option" where
  "trustedFrom forwardedFor trustedHops =
     (if trustedHops \<le> 0 then None
      else
        let entries = filter (\<lambda>e. e \<noteq> []) (map js_trim (split_on 44 (case forwardedFor of None \<Rightarrow> [] | Some f \<Rightarrow> f))) in
        if int (length entries) < trustedHops then None
        else Some (entries ! (length entries - nat trustedHops)))"

definition callerAddressOf :: "ustring option \<Rightarrow> ustring option \<Rightarrow> int \<Rightarrow> ustring" where
  "callerAddressOf forwardedFor remoteAddress trustedHops =
     (let chosen = (case trustedFrom forwardedFor trustedHops of
                      Some a \<Rightarrow> a
                    | None \<Rightarrow> js_trim (case remoteAddress of None \<Rightarrow> [] | Some r \<Rightarrow> r))
      in if chosen = [] then asc ''unknown''
         else take MAX_ADDRESS_CHARS
           (if take 7 chosen = asc ''::ffff:'' then drop 7 chosen else chosen))"

subsection \<open>Tables\<close>

lemma map_of_alist [simp]:
  "map_of (AList.update k v xs) = (map_of xs)(k \<mapsto> v)" "map_of (AList.delete k xs) = (map_of xs)(k := None)"
  by (simp_all add: AList.update_conv' delete_conv')

definition table_ok :: "login_throttle \<Rightarrow> bool" where
  "table_ok t \<longleftrightarrow> distinct (map fst (lt_entries t)) \<and> length (lt_entries t) \<le> to_maxEntries (lt_options t)"

lemma distinct_filter_keys: "distinct (map fst xs) \<Longrightarrow> distinct (map fst (filter P xs))"
  by (induction xs) auto

lemma map_of_filter_keys:
  "distinct (map fst xs) \<Longrightarrow> map_of (filter (\<lambda>(k, e). P e) xs) k = (case map_of xs k of None \<Rightarrow> None | Some e \<Rightarrow> if P e then Some e else None)"
proof (induction xs)
  case (Cons x xs)
  then have "map_of xs (fst x) = None" by (simp add: map_of_eq_None_iff)
  with Cons show ?case by (cases x) (auto split: option.split)
qed simp

lemma dropSettled_ok: "distinct (map fst (lt_entries t)) \<Longrightarrow>
    distinct (map fst (lt_entries (dropSettled now t))) \<and> length (lt_entries (dropSettled now t)) \<le> length (lt_entries t)"
  by (simp add: dropSettled_def distinct_filter_keys)

lemma maybePrune_ok: "table_ok t \<Longrightarrow> table_ok (maybePrune now t) \<and> lt_options (maybePrune now t) = lt_options t"
  using dropSettled_ok [of "t\<lparr>lt_sincePrune := 0\<rparr>" now]
  by (auto simp: maybePrune_def table_ok_def Let_def dropSettled_def intro: le_trans [OF length_filter_le])

lemma enforceCap_ok:
  assumes "distinct (map fst (lt_entries t))"
  shows "table_ok (enforceCap now t)" and "lt_options (enforceCap now t) = lt_options t"
  using dropSettled_ok [OF assms, of now] assms
  by (auto simp: enforceCap_def table_ok_def Let_def dropSettled_def)

lemma throttle_fail_ok:
  assumes "table_ok t"
  shows "table_ok (throttle_fail lower key now t)" and "lt_options (throttle_fail lower key now t) = lt_options t"
  using enforceCap_ok [of "t\<lparr>lt_entries := AList.update id e (lt_entries t)\<rparr>" now for id e] assms
  by (auto simp: throttle_fail_def Let_def table_ok_def distinct_update)

lemma delete_ok: "distinct (map fst xs) \<Longrightarrow> distinct (map fst (AList.delete k xs)) \<and> length (AList.delete k xs) \<le> length xs"
  by (simp add: distinct_delete length_delete_le)

lemma length_update_known: "map_of xs k = Some e \<Longrightarrow> length (AList.update k v xs) = length xs"
  by (induction xs) (auto split: if_splits)

lemma throttle_forgive_ok:
  assumes "table_ok t"
  shows "table_ok (throttle_forgive lower key t)" and "lt_options (throttle_forgive lower key t) = lt_options t"
  using assms delete_ok [of "lt_entries t"]
  by (auto simp: throttle_forgive_def Let_def table_ok_def length_update_known distinct_update
      intro: le_trans split: option.split)

lemma throttle_succeed_ok: "table_ok t \<Longrightarrow> table_ok (throttle_succeed lower key t)"
  using delete_ok [of "lt_entries t"] by (auto simp: throttle_succeed_def table_ok_def intro: le_trans)

subsection \<open>Runs\<close>

datatype throttle_op = Op_check ustring rat | Op_fail ustring rat | Op_succeed ustring | Op_forgive ustring

fun throttle_step :: "(ustring \<Rightarrow> ustring) \<Rightarrow> throttle_op \<Rightarrow> login_throttle \<Rightarrow> throttle_decision option \<times> login_throttle" where
  "throttle_step lower (Op_check key now) t = (let (d, t) = throttle_check lower key now t in (Some d, t))"
| "throttle_step lower (Op_fail key now) t = (None, throttle_fail lower key now t)"
| "throttle_step lower (Op_succeed key) t = (None, throttle_succeed lower key t)"
| "throttle_step lower (Op_forgive key) t = (None, throttle_forgive lower key t)"

fun throttle_run :: "(ustring \<Rightarrow> ustring) \<Rightarrow> throttle_op list \<Rightarrow> login_throttle \<Rightarrow> throttle_decision option list \<times> login_throttle" where
  "throttle_run lower [] t = ([], t)"
| "throttle_run lower (op # ops) t =
     (let (d, t) = throttle_step lower op t; (ds, t) = throttle_run lower ops t in (d # ds, t))"

lemma throttle_step_ok: "table_ok t \<Longrightarrow> table_ok (snd (throttle_step lower op t)) \<and>
    lt_options (snd (throttle_step lower op t)) = lt_options t"
  by (cases op) (simp_all add: throttle_check_def Let_def maybePrune_ok throttle_fail_ok throttle_forgive_ok
      throttle_succeed_ok, simp_all add: throttle_succeed_def)

lemma throttle_run_ok: "table_ok t \<Longrightarrow> table_ok (snd (throttle_run lower ops t)) \<and>
    lt_options (snd (throttle_run lower ops t)) = lt_options t"
proof (induction ops arbitrary: t)
  case (Cons op ops)
  then show ?case using throttle_step_ok [OF Cons.prems, of lower op] by (simp add: Let_def case_prod_unfold)
qed simp

lemma new_throttle_ok: "table_ok (new_throttle options)"
  by (simp add: table_ok_def new_throttle_def)

text \<open>The clock of a run: the times of its checks and failures do not go back.\<close>

fun clock_runs :: "rat \<Rightarrow> throttle_op list \<Rightarrow> bool" where
  "clock_runs t [] = True"
| "clock_runs t (Op_check key now # ops) = (t \<le> now \<and> clock_runs now ops)"
| "clock_runs t (Op_fail key now # ops) = (t \<le> now \<and> clock_runs now ops)"
| "clock_runs t (_ # ops) = clock_runs t ops"

subsection \<open>The table without pruning\<close>

text \<open>
  The counters as one would specify them: a map that forgets nothing of its own accord.
\<close>

type_synonym counters = "ustring \<rightharpoonup> throttle_entry"

fun counter_step ::
  "(ustring \<Rightarrow> ustring) \<Rightarrow> throttle_options \<Rightarrow> throttle_op \<Rightarrow> counters \<Rightarrow> throttle_decision option \<times> counters" where
  "counter_step lower options (Op_check key now) m = (Some (decide (m (normalize_key lower key)) now), m)"
| "counter_step lower options (Op_fail key now) m =
     (None, m(normalize_key lower key \<mapsto> failed_entry options (m (normalize_key lower key)) now))"
| "counter_step lower options (Op_succeed key) m = (None, m(normalize_key lower key := None))"
| "counter_step lower options (Op_forgive key) m =
     (None, m(normalize_key lower key := Option.bind (m (normalize_key lower key)) (forgiven_entry options)))"

fun counter_run ::
  "(ustring \<Rightarrow> ustring) \<Rightarrow> throttle_options \<Rightarrow> throttle_op list \<Rightarrow> counters \<Rightarrow> throttle_decision option list" where
  "counter_run lower options [] m = []"
| "counter_run lower options (op # ops) m =
     (let (d, m) = counter_step lower options op m in d # counter_run lower options ops m)"

definition simulates :: "rat \<Rightarrow> login_throttle \<Rightarrow> counters \<Rightarrow> bool" where
  "simulates now t m \<longleftrightarrow>
     (\<forall>id. map_of (lt_entries t) id = m id \<or>
       map_of (lt_entries t) id = None \<and> (\<exists>e. m id = Some e \<and> is_settled (lt_options t) now e))"

lemma settled_later: "is_settled options now e \<Longrightarrow> now \<le> later \<Longrightarrow> is_settled options later e"
  by (auto simp: is_settled_def)

lemma simulates_later: "simulates now t m \<Longrightarrow> now \<le> later \<Longrightarrow> simulates later t m"
  unfolding simulates_def using settled_later by blast

lemma decide_settled: "is_settled options now e \<Longrightarrow> decide (Some e) now = decide None now"
  by (simp add: is_settled_def decide_def)

lemma failed_settled: "is_settled options now e \<Longrightarrow> failed_entry options (Some e) now = failed_entry options None now"
  by (simp add: is_settled_def failed_entry_def)

lemma forgiven_settled:
  "is_settled options now e \<Longrightarrow> 0 \<le> now \<Longrightarrow> forgiven_entry options e = Some e' \<Longrightarrow> is_settled options now e'"
  by (auto simp: is_settled_def forgiven_entry_def Let_def split: if_splits)

lemma dropSettled_simulates:
  assumes "simulates now t m" and "distinct (map fst (lt_entries t))"
  shows "simulates now (dropSettled now t) m"
proof -
  have "map_of (lt_entries (dropSettled now t)) id = map_of (lt_entries t) id \<or>
      map_of (lt_entries (dropSettled now t)) id = None \<and>
        (\<exists>e. map_of (lt_entries t) id = Some e \<and> is_settled (lt_options t) now e)" for id
    using map_of_filter_keys [OF assms(2), of "\<lambda>e. \<not> is_settled (lt_options t) now e"]
    by (auto simp: dropSettled_def split: option.splits if_splits)
  with assms(1) show ?thesis unfolding simulates_def by (simp add: dropSettled_def) metis
qed

lemma maybePrune_simulates:
  assumes "simulates now t m" and "distinct (map fst (lt_entries t))"
  shows "simulates now (maybePrune now t) m"
proof -
  have "simulates now (t\<lparr>lt_sincePrune := n\<rparr>) m" for n using assms(1) by (simp add: simulates_def)
  with dropSettled_simulates [of now _ m] assms(2) show ?thesis by (simp add: maybePrune_def Let_def)
qed

definition keys_in :: "login_throttle \<Rightarrow> ustring set \<Rightarrow> bool" where
  "keys_in t K \<longleftrightarrow> dom (map_of (lt_entries t)) \<subseteq> K \<and> finite K \<and> card K \<le> to_maxEntries (lt_options t)"

lemma dom_alist: "dom (map_of xs) = fst ` set xs"
  by (rule dom_map_of_conv_image_fst)

lemma keys_in_filter: "keys_in t K \<Longrightarrow> keys_in (dropSettled now t) K"
  by (auto simp: keys_in_def dom_alist dropSettled_def)

lemma maybePrune_keys: "keys_in t K \<Longrightarrow> keys_in (maybePrune now t) K"
  using keys_in_filter [of "t\<lparr>lt_sincePrune := 0\<rparr>" K now] by (auto simp: maybePrune_def Let_def keys_in_def)

lemma cap_not_reached:
  assumes "keys_in t K" and "distinct (map fst (lt_entries t))"
  shows "enforceCap now t = t"
proof -
  have "length (lt_entries t) = card (dom (map_of (lt_entries t)))"
    using distinct_card [OF assms(2)] by (simp add: dom_alist)
  also have "\<dots> \<le> to_maxEntries (lt_options t)" using assms(1) card_mono [of K "dom (map_of (lt_entries t))"] unfolding keys_in_def by linarith
  finally show ?thesis by (simp add: enforceCap_def)
qed

fun fails_in :: "(ustring \<Rightarrow> ustring) \<Rightarrow> ustring set \<Rightarrow> throttle_op \<Rightarrow> bool" where
  "fails_in lower K (Op_fail key now) = (normalize_key lower key \<in> K)"
| "fails_in lower K _ = True"

lemma simulates_update:
  "simulates now t m \<Longrightarrow> simulates now (t\<lparr>lt_entries := AList.update k e (lt_entries t)\<rparr>) (m(k \<mapsto> e))"
  "simulates now t m \<Longrightarrow> simulates now (t\<lparr>lt_entries := AList.delete k (lt_entries t)\<rparr>) (m(k := None))"
  unfolding simulates_def by auto

lemma fail_simulates:
  assumes "simulates now t m" and "keys_in t K" and "k \<in> K" and "table_ok t" and k_def: "normalize_key lower key = k"
  shows "simulates now (throttle_fail lower key now t) (m(k \<mapsto> failed_entry (lt_options t) (m k) now)) \<and>
    keys_in (throttle_fail lower key now t) K"
proof -
  define e where "e = failed_entry (lt_options t) (map_of (lt_entries t) k) now"
  let ?t = "t\<lparr>lt_entries := AList.update k e (lt_entries t)\<rparr>"
  have same: "failed_entry (lt_options t) (m k) now = e"
    using assms(1) failed_settled unfolding simulates_def e_def by (metis (no_types))
  have "keys_in ?t K" using assms(2,3) by (auto simp: keys_in_def k_def)
  moreover have "enforceCap now ?t = ?t"
    by (rule cap_not_reached [OF calculation]) (use assms(4) in \<open>simp add: table_ok_def distinct_update\<close>)
  ultimately show ?thesis
    using simulates_update(1) [OF assms(1), of k e] same by (simp add: throttle_fail_def Let_def e_def k_def)
qed

lemma forgive_simulates:
  assumes "simulates now t m" and "0 \<le> now" and "keys_in t K" and k_def: "normalize_key lower key = k"
  shows "simulates now (throttle_forgive lower key t) (m(k := Option.bind (m k) (forgiven_entry (lt_options t)))) \<and>
    keys_in (throttle_forgive lower key t) K"
proof (cases "map_of (lt_entries t) k")
  case None
  have "m k = None \<or> (\<exists>e. m k = Some e \<and> is_settled (lt_options t) now e)"
    using assms(1) None unfolding simulates_def by metis
  then have "Option.bind (m k) (forgiven_entry (lt_options t)) = None \<or>
      (\<exists>e. Option.bind (m k) (forgiven_entry (lt_options t)) = Some e \<and> is_settled (lt_options t) now e)"
    using forgiven_settled assms(2) by (cases "Option.bind (m k) (forgiven_entry (lt_options t))") auto
  then have "simulates now t (m(k := Option.bind (m k) (forgiven_entry (lt_options t))))"
    using assms(1) None unfolding simulates_def by auto
  then show ?thesis using None assms(3) by (simp add: throttle_forgive_def k_def Let_def)
next
  case (Some e)
  have m: "m k = Some e" using assms(1) Some unfolding simulates_def by (metis option.distinct(1))
  show ?thesis
    using Some m simulates_update [OF assms(1), of k] assms(3)
    by (cases "forgiven_entry (lt_options t) e") (auto simp: throttle_forgive_def k_def Let_def keys_in_def)
qed

lemma run_simulates:
  assumes "simulates now t m" and "0 \<le> now" and "clock_runs now ops" and "table_ok t" and "keys_in t K"
    and "list_all (fails_in lower K) ops"
  shows "fst (throttle_run lower ops t) = counter_run lower (lt_options t) ops m"
  using assms
proof (induction ops arbitrary: now t m)
  case (Cons op ops)
  note ok = throttle_step_ok [OF Cons.prems(4), of lower op]
  show ?case
  proof (cases op)
    case (Op_check key later)
    let ?p = "maybePrune later t" and ?k = "normalize_key lower key"
    have le: "now \<le> later" "clock_runs later ops" using Cons.prems(3) Op_check by simp_all
    have sim: "simulates later ?p m"
      using maybePrune_simulates simulates_later Cons.prems(1,4) le(1) by (simp add: table_ok_def)
    have p: "table_ok ?p" "lt_options ?p = lt_options t" "keys_in ?p K"
      using maybePrune_ok [OF Cons.prems(4), of later] maybePrune_keys [OF Cons.prems(5)] by simp_all
    have "decide (map_of (lt_entries ?p) ?k) later = decide (m ?k) later"
      using sim decide_settled unfolding simulates_def by (metis (no_types))
    with Cons.IH [OF sim _ le(2) p(1,3)] Cons.prems(2,6) le(1) p(2) Op_check show ?thesis
      by (simp add: throttle_check_def Let_def case_prod_unfold)
  next
    case (Op_fail key later)
    then have le: "now \<le> later" "clock_runs later ops" "normalize_key lower key \<in> K" using Cons.prems(3,6) by simp_all
    from fail_simulates [OF simulates_later [OF Cons.prems(1) le(1)] Cons.prems(5) le(3) Cons.prems(4) refl]
    have "simulates later (throttle_fail lower key later t)
        (m(normalize_key lower key \<mapsto> failed_entry (lt_options t) (m (normalize_key lower key)) later))"
      "keys_in (throttle_fail lower key later t) K" by simp_all
    from Cons.IH [OF this(1) _ le(2) _ this(2)] Cons.prems(2,6) le(1) ok Op_fail show ?thesis
      by (simp add: Let_def case_prod_unfold fun_upd_def)
  next
    case (Op_succeed key)
    have "simulates now (throttle_succeed lower key t) (m(normalize_key lower key := None))"
      using simulates_update(2) [OF Cons.prems(1)] by (simp add: throttle_succeed_def)
    moreover have "keys_in (throttle_succeed lower key t) K" using Cons.prems(5) by (auto simp: keys_in_def throttle_succeed_def)
    ultimately show ?thesis
      using Cons.IH [of now "throttle_succeed lower key t" "m(normalize_key lower key := None)"] Cons.prems ok Op_succeed
      by (simp add: Let_def case_prod_unfold fun_upd_def)
  next
    case (Op_forgive key)
    from forgive_simulates [OF Cons.prems(1,2,5) refl, of lower key]
    show ?thesis using Cons.IH [of now "throttle_forgive lower key t"] Cons.prems ok Op_forgive
      by (simp add: Let_def case_prod_unfold fun_upd_def)
  qed
qed simp

subsection \<open>How long a block can be\<close>

text \<open>The blocks up to the next one, and their sum.\<close>

fun blocks_before :: "throttle_options \<Rightarrow> nat \<Rightarrow> rat" where
  "blocks_before options 0 = 0"
| "blocks_before options (Suc k) = blocks_before options k + block_ms options k"

definition throttle_options_ok :: "throttle_options \<Rightarrow> bool" where
  "throttle_options_ok options \<longleftrightarrow> 0 \<le> to_baseBlockMs options \<and> 0 \<le> to_maxBlockMs options \<and> 0 \<le> to_windowMs options"

lemma block_ms_nonneg: "throttle_options_ok options \<Longrightarrow> 0 \<le> block_ms options k"
  by (simp add: throttle_options_ok_def block_ms_def)

lemma block_ms_doubles:
  assumes "throttle_options_ok options"
  shows "block_ms options (Suc k) \<le> 2 * block_ms options k"
proof -
  have "(2::rat) ^ min (Suc k) 30 \<le> 2 * 2 ^ min k 30" by (cases "k < 30") (simp_all add: min_def)
  then have "to_baseBlockMs options * 2 ^ min (Suc k) 30 \<le> to_baseBlockMs options * (2 * 2 ^ min k 30)"
    using assms by (intro mult_left_mono) (simp_all add: throttle_options_ok_def)
  then show ?thesis using assms by (auto simp: block_ms_def throttle_options_ok_def min_def)
qed

lemma block_ms_sum: "throttle_options_ok options \<Longrightarrow> block_ms options k \<le> blocks_before options k + to_baseBlockMs options"
proof (induction k)
  case 0
  then show ?case by (simp add: block_ms_def)
next
  case (Suc k)
  then show ?case using block_ms_doubles [OF Suc.prems, of k] by simp
qed

text \<open>The most an entry can still block for, when nobody fails while blocked.\<close>

definition longest_block :: "throttle_options \<Rightarrow> rat" where
  "longest_block options = min (to_maxBlockMs options) (to_windowMs options + to_baseBlockMs options)"

definition entry_ok :: "throttle_options \<Rightarrow> rat \<Rightarrow> throttle_entry \<Rightarrow> bool" where
  "entry_ok options now e \<longleftrightarrow> te_firstAt e \<le> now \<and> te_blockedUntil e \<le> now + longest_block options \<and>
     (to_threshold options < te_failures e \<longrightarrow>
        blocks_before options (te_failures e - to_threshold options) \<le> te_blockedUntil e - te_firstAt e)"

lemma entry_ok_later: "entry_ok options now e \<Longrightarrow> now \<le> later \<Longrightarrow> entry_ok options later e"
  by (auto simp: entry_ok_def)

lemma longest_nonneg: "throttle_options_ok options \<Longrightarrow> 0 \<le> longest_block options"
  by (simp add: throttle_options_ok_def longest_block_def)

lemma failed_entry_ok:
  assumes ok: "throttle_options_ok options" and "0 \<le> now" and e: "\<And>e. existing = Some e \<Longrightarrow> entry_ok options now e"
    and free: "td_allowed (decide existing now)"
  shows "entry_ok options now (failed_entry options existing now)"
proof -
  define e where "e = (case existing of None \<Rightarrow> \<lparr>te_failures = 0, te_firstAt = now, te_blockedUntil = 0\<rparr>
    | Some e \<Rightarrow> if to_windowMs options < now - te_firstAt e
        then \<lparr>te_failures = 0, te_firstAt = now, te_blockedUntil = 0\<rparr> else e)"
  define k where "k = te_failures e - to_threshold options"
  have base: "te_firstAt e \<le> now" "te_blockedUntil e \<le> now" "now - te_firstAt e \<le> to_windowMs options"
    "to_threshold options < te_failures e \<longrightarrow> blocks_before options k \<le> te_blockedUntil e - te_firstAt e"
    using assms by (auto simp: e_def k_def entry_ok_def throttle_options_ok_def decide_def split: option.splits if_splits)
  have before: "blocks_before options k \<le> now - te_firstAt e"
    using base by (cases "to_threshold options < te_failures e") (simp_all add: k_def)
  then have "block_ms options k \<le> longest_block options"
    using block_ms_sum [OF ok, of k] base(3) by (simp add: longest_block_def) (simp add: block_ms_def)
  moreover have "failed_entry options existing now = (if to_threshold options \<le> te_failures e
      then e\<lparr>te_failures := te_failures e + 1, te_blockedUntil := now + block_ms options k\<rparr>
      else e\<lparr>te_failures := te_failures e + 1\<rparr>)"
    by (simp add: failed_entry_def e_def [symmetric] k_def Let_def less_Suc_eq_le)
  moreover have "te_failures e + 1 - to_threshold options = Suc k" if "to_threshold options \<le> te_failures e"
    using that by (simp add: k_def)
  ultimately show ?thesis
    using base before longest_nonneg [OF ok] by (auto simp: entry_ok_def)
qed

text \<open>A run in which nobody fails under a key that is blocked: every route asks first.\<close>

fun asks_first :: "(ustring \<Rightarrow> ustring) \<Rightarrow> throttle_op \<Rightarrow> login_throttle \<Rightarrow> bool" where
  "asks_first lower (Op_fail key now) t = td_allowed (decide (map_of (lt_entries t) (normalize_key lower key)) now)"
| "asks_first lower _ t = True"

fun disciplined :: "(ustring \<Rightarrow> ustring) \<Rightarrow> throttle_op list \<Rightarrow> login_throttle \<Rightarrow> bool" where
  "disciplined lower [] t = True"
| "disciplined lower (op # ops) t = (asks_first lower op t \<and> disciplined lower ops (snd (throttle_step lower op t)))"

definition entries_ok :: "rat \<Rightarrow> login_throttle \<Rightarrow> bool" where
  "entries_ok now t \<longleftrightarrow> (\<forall>k e. map_of (lt_entries t) k = Some e \<longrightarrow> entry_ok (lt_options t) now e)"

lemma entries_ok_later: "entries_ok now t \<Longrightarrow> now \<le> later \<Longrightarrow> entries_ok later t"
  unfolding entries_ok_def using entry_ok_later by blast

lemma dropSettled_keeps: "distinct (map fst (lt_entries t)) \<Longrightarrow> map_of (lt_entries (dropSettled now t)) k =
    (case map_of (lt_entries t) k of None \<Rightarrow> None | Some e \<Rightarrow> if is_settled (lt_options t) now e then None else Some e)"
  using map_of_filter_keys [of "lt_entries t" "\<lambda>e. \<not> is_settled (lt_options t) now e" k]
  by (simp add: dropSettled_def split: option.split)

lemma maybePrune_keeps:
  assumes "distinct (map fst (lt_entries t))"
  shows "map_of (lt_entries (maybePrune now t)) k = map_of (lt_entries t) k \<or>
    map_of (lt_entries (maybePrune now t)) k = None \<and>
      (\<exists>e. map_of (lt_entries t) k = Some e \<and> is_settled (lt_options t) now e)"
  using dropSettled_keeps [of "t\<lparr>lt_sincePrune := 0\<rparr>" now k] assms
  by (auto simp: maybePrune_def Let_def split: option.splits)

lemma enforceCap_keeps:
  assumes "distinct (map fst (lt_entries t))"
  shows "map_of (lt_entries (enforceCap now t)) k = map_of (lt_entries t) k \<or> map_of (lt_entries (enforceCap now t)) k = None"
  using dropSettled_keeps [OF assms, of now k] by (auto simp: enforceCap_def Let_def split: option.splits)

text \<open>Pruning is not seen by a check.\<close>

lemma check_decides:
  assumes "table_ok t"
  shows "fst (throttle_check lower key now t) = decide (map_of (lt_entries t) (normalize_key lower key)) now"
  using maybePrune_keeps [of t now "normalize_key lower key"] decide_settled assms
  by (auto simp: throttle_check_def Let_def table_ok_def)

lemma throttle_step_entries_ok:
  assumes ok: "throttle_options_ok (lt_options t)" "table_ok t" "entries_ok now t" "0 \<le> now"
    and op: "clock_runs now [op]" "asks_first lower op t"
  shows "entries_ok (case op of Op_check _ later \<Rightarrow> later | Op_fail _ later \<Rightarrow> later | _ \<Rightarrow> now) (snd (throttle_step lower op t))"
proof (cases op)
  case (Op_check key later)
  then have "entries_ok later t" using ok(3) op(1) entries_ok_later by simp
  moreover have "map_of (lt_entries t) k = Some e" if "map_of (lt_entries (maybePrune later t)) k = Some e" for k e
    using maybePrune_keeps [of t later k] ok(2) that by (auto simp: table_ok_def)
  ultimately show ?thesis
    using maybePrune_ok [OF ok(2), of later] Op_check by (auto simp: entries_ok_def throttle_check_def Let_def)
next
  case (Op_fail key later)
  let ?k = "normalize_key lower key" and ?e = "failed_entry (lt_options t) (map_of (lt_entries t) (normalize_key lower key)) later"
  have t: "entries_ok later t" "0 \<le> later" using ok(3,4) op(1) entries_ok_later Op_fail by auto
  have e: "entry_ok (lt_options t) later ?e"
    by (rule failed_entry_ok [OF ok(1) t(2)]) (use t(1) op(2) Op_fail in \<open>simp_all add: entries_ok_def\<close>)
  have d: "distinct (map fst (AList.update ?k ?e (lt_entries t)))" using ok(2) by (simp add: table_ok_def distinct_update)
  have "entry_ok (lt_options t) later f" if "map_of (lt_entries (throttle_fail lower key later t)) k = Some f" for k f
    using enforceCap_keeps [of "t\<lparr>lt_entries := AList.update ?k ?e (lt_entries t)\<rparr>" later k] d e t(1) that
    by (auto simp: throttle_fail_def Let_def entries_ok_def split: if_splits)
  then show ?thesis using throttle_fail_ok(2) [OF ok(2)] Op_fail by (simp add: entries_ok_def)
next
  case (Op_succeed key)
  then show ?thesis using ok(3) by (auto simp: entries_ok_def throttle_succeed_def split: if_splits)
next
  case (Op_forgive key)
  have "entry_ok (lt_options t) now f" if "forgiven_entry (lt_options t) e = Some f" "entry_ok (lt_options t) now e" for e f
  proof -
    have "blocks_before (lt_options t) (te_failures e - 1 - to_threshold (lt_options t))
        \<le> blocks_before (lt_options t) (te_failures e - to_threshold (lt_options t))"
    proof (cases "te_failures e - to_threshold (lt_options t)")
      case (Suc n)
      then have "te_failures e - 1 - to_threshold (lt_options t) = n" by simp
      with Suc block_ms_nonneg [OF ok(1), of n] show ?thesis by simp
    qed simp
    then show ?thesis
      using that longest_nonneg [OF ok(1)] ok(4)
      by (auto simp: forgiven_entry_def Let_def entry_ok_def split: if_splits)
  qed
  then show ?thesis
    using ok(3) Op_forgive throttle_forgive_ok(2) [OF ok(2)]
    by (auto simp: entries_ok_def throttle_forgive_def Let_def split: option.splits if_splits)
qed

lemma run_blocks:
  assumes "throttle_options_ok (lt_options t)" and "table_ok t" and "entries_ok now t" and "0 \<le> now"
    and "clock_runs now ops" and "disciplined lower ops t" and "Some d \<in> set (fst (throttle_run lower ops t))"
  shows "td_retryAfterSeconds d \<le> \<lceil>longest_block (lt_options t) / 1000\<rceil>"
  using assms
proof (induction ops arbitrary: now t)
  case (Cons op ops)
  define later where "later = (case op of Op_check _ later \<Rightarrow> later | Op_fail _ later \<Rightarrow> later | _ \<Rightarrow> now)"
  have le: "clock_runs now [op]" "asks_first lower op t" "now \<le> later" "clock_runs later ops"
    using Cons.prems(5,6) by (cases op; simp add: later_def)+
  note next_ok = throttle_step_entries_ok [OF Cons.prems(1-4) le(1,2), folded later_def]
  note ok = throttle_step_ok [OF Cons.prems(2), of lower op]
  have here: "td_retryAfterSeconds d \<le> \<lceil>longest_block (lt_options t) / 1000\<rceil>"
    if "fst (throttle_step lower op t) = Some d"
  proof -
    from that obtain key where op: "op = Op_check key later" by (cases op) (auto simp: later_def Let_def)
    then have d: "d = decide (map_of (lt_entries t) (normalize_key lower key)) later"
      using that check_decides [OF Cons.prems(2), of lower key later] by (simp add: case_prod_unfold)
    have pos: "0 \<le> \<lceil>longest_block (lt_options t) / 1000\<rceil>"
      using longest_nonneg [OF Cons.prems(1)] by simp
    show ?thesis
    proof (cases "map_of (lt_entries t) (normalize_key lower key)")
      case None
      with d pos show ?thesis by (simp add: decide_def ALLOWED_def)
    next
      case (Some e)
      have "entry_ok (lt_options t) later e"
        using Cons.prems(3) Some entry_ok_later [OF _ le(3)] by (auto simp: entries_ok_def)
      then have "(te_blockedUntil e - later) / 1000 \<le> longest_block (lt_options t) / 1000"
        by (simp add: entry_ok_def divide_right_mono)
      then have "\<lceil>(te_blockedUntil e - later) / 1000\<rceil> \<le> \<lceil>longest_block (lt_options t) / 1000\<rceil>" by (rule ceiling_mono)
      moreover have "1 \<le> \<lceil>(te_blockedUntil e - later) / 1000\<rceil>" if "later < te_blockedUntil e"
        using that by (simp add: one_le_ceiling)
      ultimately show ?thesis using d Some pos by (auto simp: decide_def ALLOWED_def)
    qed
  qed
  show ?case
  proof (cases "fst (throttle_step lower op t) = Some d")
    case True
    then show ?thesis by (rule here)
  next
    case False
    with Cons.prems(7) have "Some d \<in> set (fst (throttle_run lower ops (snd (throttle_step lower op t))))"
      by (auto simp: Let_def case_prod_unfold)
    with Cons.IH [of "snd (throttle_step lower op t)" later] next_ok ok le Cons.prems(1,4,6) show ?thesis by simp
  qed
qed simp

subsection \<open>Key spaces\<close>

text \<open>
  What \<open>toLowerCase\<close> does at a separator: \<open>|\<close> has no case and none of its neighbours' cases
  depends on what is across it; small letters of ASCII stay.
\<close>

definition folds_case :: "(ustring \<Rightarrow> ustring) \<Rightarrow> bool" where
  "folds_case lower \<longleftrightarrow>
     (\<forall>s t. lower (s @ [SEPARATOR] @ t) = lower s @ [SEPARATOR] @ lower t) \<and>
     (\<forall>s. (\<forall>c\<in>set s. 97 \<le> c \<and> c \<le> 122) \<longrightarrow> lower s = s)"

definition name_space :: "string \<Rightarrow> bool" where
  "name_space ns \<longleftrightarrow> ns \<noteq> [] \<and> length ns < 300 \<and> (\<forall>c\<in>set (asc ns). 97 \<le> c \<and> c \<le> 122)"

lemma dropWhile_rev_keeps: "\<not> P x \<Longrightarrow> \<exists>zs. rev (dropWhile P (rev (xs @ x # ys))) = xs @ x # zs"
proof (induction ys rule: rev_induct)
  case (snoc y ys)
  then show ?case by (cases "P y") auto
qed simp

lemma normalize_composed:
  assumes "folds_case lower" and "name_space ns" and "parts \<noteq> []"
  shows "takeWhile (\<lambda>c. c \<noteq> SEPARATOR) (normalize_key lower (composed ns parts)) = asc ns"
proof -
  obtain rest where c: "composed ns parts = asc ns @ SEPARATOR # rest"
    using assms(3) by (cases parts) (auto simp: composed_def)
  have sep: "SEPARATOR \<notin> set (asc ns)" "\<not> js_space SEPARATOR"
    using assms(2) by (auto simp: name_space_def SEPARATOR_def js_space_def)
  obtain a as where ns: "asc ns = a # as" using assms(2) by (cases ns) (auto simp: name_space_def asc_def)
  then have "\<not> js_space a" using assms(2) by (auto simp: name_space_def js_space_def)
  then have "dropWhile js_space (composed ns parts) = composed ns parts" by (simp add: c ns)
  then obtain zs where "js_trim (composed ns parts) = asc ns @ SEPARATOR # zs"
    using dropWhile_rev_keeps [of js_space SEPARATOR "asc ns" rest] sep(2) c by (auto simp: js_trim_def)
  moreover have "length ns < 300" using assms(2) by (simp add: name_space_def)
  then have "MAX_KEY_CHARS = length (asc ns) + Suc (MAX_KEY_CHARS - length ns - 1)" by (simp add: MAX_KEY_CHARS_def)
  then obtain n where "length ns \<le> MAX_KEY_CHARS" "MAX_KEY_CHARS - length ns = Suc n" by (metis diff_add_inverse le_add1 length_asc)
  ultimately have "take MAX_KEY_CHARS (js_trim (composed ns parts)) = asc ns @ [SEPARATOR] @ take n zs" by simp
  then have "normalize_key lower (composed ns parts) = asc ns @ [SEPARATOR] @ lower (take n zs)"
    using assms(1,2) by (simp add: normalize_key_def folds_case_def name_space_def)
  moreover have "\<forall>x\<in>set (asc ns). x \<noteq> SEPARATOR" using sep(1) by auto
  ultimately show ?thesis by simp
qed

text \<open>Failing under one key never blocks another.\<close>

lemma fail_elsewhere:
  assumes "table_ok t" and "normalize_key lower key \<noteq> normalize_key lower other"
    and "td_allowed (fst (throttle_check lower key now t))"
  shows "td_allowed (fst (throttle_check lower key now (throttle_fail lower other before t)))"
proof -
  let ?o = "normalize_key lower other"
  let ?t = "t\<lparr>lt_entries := AList.update ?o (failed_entry (lt_options t) (map_of (lt_entries t) ?o) before) (lt_entries t)\<rparr>"
  have "distinct (map fst (lt_entries ?t))" using assms(1) by (simp add: table_ok_def distinct_update)
  from enforceCap_keeps [OF this, of before "normalize_key lower key"] assms(2)
  have "map_of (lt_entries (throttle_fail lower other before t)) (normalize_key lower key) = map_of (lt_entries t) (normalize_key lower key)
    \<or> map_of (lt_entries (throttle_fail lower other before t)) (normalize_key lower key) = None"
    by (simp add: throttle_fail_def Let_def)
  then show ?thesis
    using assms(1,3) check_decides [OF assms(1), of lower key now] check_decides [OF throttle_fail_ok(1) [OF assms(1)], of lower key now]
    by (auto simp: decide_def ALLOWED_def)
qed

subsection \<open>Properties\<close>

text \<open>
  C34. Pruning is not seen. While no more distinct keys fail than the table has room for, the
  throttle that drops settled entries, whenever it does, answers every check of every run of
  checks, failures, successes and forgivings exactly as counters that forget nothing of their
  own accord would.
\<close>

theorem pruning_refines_counters:
  assumes "clock_runs 0 ops"
    and "card {normalize_key lower key | key now. Op_fail key now \<in> set ops} \<le> to_maxEntries options"
  shows "fst (throttle_run lower ops (new_throttle options)) = counter_run lower options ops Map.empty"
proof -
  define K where "K = {normalize_key lower key | key now. Op_fail key now \<in> set ops}"
  have "K \<subseteq> (\<lambda>op. case op of Op_fail key now \<Rightarrow> normalize_key lower key | _ \<Rightarrow> []) ` set ops"
    unfolding K_def by force
  then have fin: "finite K" by (rule finite_subset) simp
  have "fails_in lower K op" if "op \<in> set ops" for op
  proof (cases op)
    case (Op_fail key now)
    with that have "\<exists>k n. normalize_key lower key = normalize_key lower k \<and> Op_fail k n \<in> set ops" by blast
    then show ?thesis using Op_fail unfolding K_def by simp
  qed simp_all
  then have "list_all (fails_in lower K) ops" by (simp add: list_all_iff)
  moreover have "simulates 0 (new_throttle options) Map.empty" by (simp add: simulates_def new_throttle_def)
  moreover have "keys_in (new_throttle options) K" using fin assms(2) by (simp add: keys_in_def new_throttle_def K_def)
  ultimately show ?thesis
    using run_simulates [of 0 "new_throttle options" Map.empty ops K lower] assms(1) new_throttle_ok
    by (simp add: new_throttle_def)
qed

theorem pruning_refines_counters_witness:
  "fst (throttle_run lowered [Op_fail (asc ''Ada'') 1, Op_check (asc ''ada'') 2] (new_throttle DEFAULT_THROTTLE)) =
    counter_run lowered DEFAULT_THROTTLE [Op_fail (asc ''Ada'') 1, Op_check (asc ''ada'') 2] Map.empty"
proof (rule pruning_refines_counters)
  have "{normalize_key lowered key | key now. Op_fail key now \<in> set [Op_fail (asc ''Ada'') 1, Op_check (asc ''ada'') 2]}
    = {normalize_key lowered (asc ''Ada'')}" by auto
  then show "card {normalize_key lowered key | key now. Op_fail key now \<in> set [Op_fail (asc ''Ada'') 1, Op_check (asc ''ada'') 2]}
    \<le> to_maxEntries DEFAULT_THROTTLE" by (simp add: DEFAULT_THROTTLE_def)
qed simp

text \<open>
  A refusal is short. Where nobody fails under a key that is blocked, which is how the
  routes use it, no check of any run is told to wait longer than the policy's longest block,
  nor than its window and one base block together, whatever was counted before and however
  far the doubling has gone.
\<close>

theorem refusals_are_short:
  assumes "throttle_options_ok options" and "clock_runs 0 ops" and "disciplined lower ops (new_throttle options)"
    and "Some d \<in> set (fst (throttle_run lower ops (new_throttle options)))"
  shows "td_retryAfterSeconds d \<le> \<lceil>min (to_maxBlockMs options) (to_windowMs options + to_baseBlockMs options) / 1000\<rceil>"
  using run_blocks [of "new_throttle options" 0 ops lower d] new_throttle_ok assms
  by (simp add: new_throttle_def entries_ok_def longest_block_def)

theorem refusals_are_short_witness:
  "\<exists>d. Some d \<in> set (fst (throttle_run lowered [Op_fail [97] 0, Op_fail [97] 1, Op_fail [97] 2, Op_fail [97] 3, Op_check [97] 4]
      (new_throttle MAIL_THROTTLE))) \<and> \<not> td_allowed d \<and> td_retryAfterSeconds d = 900 \<and> td_retryAfterSeconds d \<le> 4500"
proof -
  let ?ops = "[Op_fail [97] 0, Op_fail [97] 1, Op_fail [97] 2, Op_fail [97] 3, Op_check [97] 4]"
  let ?t = "\<lambda>n b. \<lparr>lt_options = MAIL_THROTTLE, lt_entries = [([97], \<lparr>te_failures = n, te_firstAt = 0, te_blockedUntil = b\<rparr>)],
    lt_sincePrune = 0\<rparr>"
  have id: "normalize_key lowered [97] = [97]"
    by (simp add: normalize_key_def js_trim_def js_space_def MAX_KEY_CHARS_def lowered_def)
  have one: "throttle_fail lowered [97] 0 (new_throttle MAIL_THROTTLE) = ?t 1 0"
    by (simp add: id throttle_fail_def failed_entry_def new_throttle_def enforceCap_def) (simp add: MAIL_THROTTLE_def)
  have more: "throttle_fail lowered [97] now (?t n b) = ?t (Suc n) (if 3 \<le> n then now + block_ms MAIL_THROTTLE (n - 3) else b)"
    if "now \<le> 3600000" for now n b
    using that by (auto simp: id throttle_fail_def failed_entry_def enforceCap_def MAIL_THROTTLE_def Let_def)
  have check: "throttle_check lowered [97] 4 (?t n b) = (decide (Some \<lparr>te_failures = n, te_firstAt = 0, te_blockedUntil = b\<rparr>) 4,
      (?t n b)\<lparr>lt_sincePrune := 1\<rparr>)" for n b
    by (simp add: throttle_check_def id maybePrune_def PRUNE_EVERY_def)
  have block: "block_ms MAIL_THROTTLE 0 = 900000" by (simp add: block_ms_def MAIL_THROTTLE_def)
  have late: "decide (Some \<lparr>te_failures = 4, te_firstAt = 0, te_blockedUntil = 900003\<rparr>) 4 = \<lparr>td_allowed = False, td_retryAfterSeconds = 900\<rparr>"
    by (simp add: decide_def ceiling_eq_iff)
  have steps: "throttle_fail lowered [97] 1 (?t (Suc 0) 0) = ?t 2 0" "throttle_fail lowered [97] 2 (?t 2 0) = ?t 3 0"
    "throttle_fail lowered [97] 3 (?t 3 0) = ?t 4 900003"
    using more [of 1 1 0] more [of 2 2 0] more [of 3 3 0] block by (simp_all add: numeral_2_eq_2 numeral_3_eq_3 eval_nat_numeral)
  have run: "fst (throttle_run lowered ?ops (new_throttle MAIL_THROTTLE)) = [None, None, None, None, Some \<lparr>td_allowed = False, td_retryAfterSeconds = 900\<rparr>]"
    by (simp add: one steps check late)
  have ok: "disciplined lowered ?ops (new_throttle MAIL_THROTTLE)"
    by (simp add: one steps id) (simp add: decide_def ALLOWED_def new_throttle_def)
  from refusals_are_short [OF _ _ ok, of "\<lparr>td_allowed = False, td_retryAfterSeconds = 900\<rparr>"] run
  show ?thesis by (simp add: throttle_options_ok_def MAIL_THROTTLE_def)
qed

text \<open>
  C40. Keys of different routes never share a counter, and counters do not block each other. The
  twelve kinds of key have pairwise distinct counters whatever names, addresses and identifiers they
  are made of, so failing under a key of one kind never turns an allowed attempt under a key of
  another kind into a refused one; nor does failing under a key of the same kind whose counter is
  another. (Two keys of one kind have one counter when they agree after folding and cutting, as
  \<open>long_sign_ins_share_a_counter\<close> shows they may.)
\<close>

theorem key_spaces_never_meet:
  assumes "folds_case lower"
  shows "distinct (map (normalize_key lower) [loginKey lower a1 a2, addressKey lower b, passwordChangeKey lower c,
      registerKey lower d1 d2, mailKey lower e, resetMailKey lower f, confirmKey lower g, resetKey lower h,
      mailTestKey lower i, enrollKey lower j, provisionKey lower k, writeKey lower l1 l2])
    \<and> (\<forall>t key other now before. table_ok t \<and> normalize_key lower key \<noteq> normalize_key lower other \<and>
      td_allowed (fst (throttle_check lower key now t)) \<longrightarrow>
      td_allowed (fst (throttle_check lower key now (throttle_fail lower other before t))))"
proof -
  let ?keys = "[loginKey lower a1 a2, addressKey lower b, passwordChangeKey lower c,
      registerKey lower d1 d2, mailKey lower e, resetMailKey lower f, confirmKey lower g, resetKey lower h,
      mailTestKey lower i, enrollKey lower j, provisionKey lower k, writeKey lower l1 l2]"
  let ?space = "takeWhile (\<lambda>c. c \<noteq> SEPARATOR)"
  have "map ?space (map (normalize_key lower) ?keys) = map asc [''login'', ''addr'', ''pwchg'', ''reg'', ''mail'', ''resetmail'',
      ''confirm'', ''reset'', ''mailtest'', ''enroll'', ''provision'', ''write'']"
    by (simp add: loginKey_def addressKey_def passwordChangeKey_def registerKey_def mailKey_def resetMailKey_def
        confirmKey_def resetKey_def mailTestKey_def enrollKey_def provisionKey_def writeKey_def
        normalize_composed [OF assms] name_space_def asc_def)
  moreover have "distinct (map asc [''login'', ''addr'', ''pwchg'', ''reg'', ''mail'', ''resetmail'',
      ''confirm'', ''reset'', ''mailtest'', ''enroll'', ''provision'', ''write''])" by (simp add: asc_inject)
  ultimately have "distinct (map ?space (map (normalize_key lower) ?keys))" by metis
  then have "distinct (map (normalize_key lower) ?keys)" by (rule distinct_map [THEN iffD1, THEN conjunct1])
  with fail_elsewhere show ?thesis by blast
qed

lemma lowered_folds_case: "folds_case lowered"
  by (auto simp: folds_case_def lowered_def SEPARATOR_def intro!: map_idI)

theorem key_spaces_never_meet_witness:
  "normalize_key lowered (loginKey lowered (asc ''pwchg'') (asc ''u_1'')) \<noteq> normalize_key lowered (passwordChangeKey lowered (asc ''u_1''))
    \<and> td_allowed (fst (throttle_check lowered (passwordChangeKey lowered (asc ''u_1'')) 9
        (throttle_fail lowered (loginKey lowered (asc ''pwchg'') (asc ''u_1'')) 8 (new_throttle DEFAULT_THROTTLE))))"
proof -
  note all = key_spaces_never_meet [OF lowered_folds_case, of "asc ''pwchg''" "asc ''u_1''" "[]" "asc ''u_1''"]
  have free: "td_allowed (fst (throttle_check lowered key now (new_throttle DEFAULT_THROTTLE)))" for key now
    by (simp add: check_decides [OF new_throttle_ok]) (simp add: new_throttle_def decide_def ALLOWED_def)
  from all [THEN conjunct1] have apart: "normalize_key lowered (loginKey lowered (asc ''pwchg'') (asc ''u_1'')) \<noteq>
    normalize_key lowered (passwordChangeKey lowered (asc ''u_1''))" by simp
  from all [THEN conjunct2, rule_format, OF conjI [OF new_throttle_ok conjI [OF apart [symmetric] free]]] apart
  show ?thesis by simp
qed

text \<open>
  A caller cannot choose the address it is counted under. Behind as many proxies of one's
  own as the service is told of, each appending the address it was called from, the address is
  the one the outermost of them appended, cut to its bound, whatever the caller wrote into the
  header before it and whatever the socket says.
\<close>

theorem forwarded_header_is_not_believed:
  assumes "length appended = hops" and "0 < hops"
    and "\<forall>e\<in>set appended. js_trim e \<noteq> [] \<and> 44 \<notin> set e"
  shows "callerAddressOf (Some (written @ [44] @ join [44] appended)) remote (int hops) =
      callerAddressOf None (Some (hd appended)) 0"
proof -
  have cut: "split_on 44 (s @ 44 # r) = split_on 44 s @ split_on 44 r" for s r
    by (induction s) simp_all
  have plain: "split_on 44 e = [e]" if "44 \<notin> set e" for e using that by (induction e) auto
  have "split_on 44 (join [44] es) = es" if "es \<noteq> []" "\<forall>e\<in>set es. 44 \<notin> set e" for es
    using that
  proof (induction es)
    case (Cons e es)
    then show ?case using plain cut by (cases es) auto
  qed simp
  moreover have "appended \<noteq> []" using assms(1,2) by auto
  ultimately have cuts: "split_on 44 (written @ [44] @ join [44] appended) = split_on 44 written @ appended"
    using cut assms(3) by simp
  define xs where "xs = filter (\<lambda>e. e \<noteq> []) (map js_trim (split_on 44 written))"
  have "filter (\<lambda>e. e \<noteq> []) (map js_trim appended) = map js_trim appended"
    using assms(3) by (simp add: filter_id_conv)
  then have entries: "filter (\<lambda>e. e \<noteq> []) (map js_trim (split_on 44 (written @ [44] @ join [44] appended))) = xs @ map js_trim appended"
    unfolding cuts by (simp add: xs_def)
  have "(xs @ map js_trim appended) ! (length xs + length appended - hops) = js_trim (hd appended)"
    using assms(1,2) nth_map [of 0 appended js_trim] \<open>appended \<noteq> []\<close> by (simp add: nth_append hd_conv_nth)
  then have "trustedFrom (Some (written @ [44] @ join [44] appended)) (int hops) = Some (js_trim (hd appended))"
    using assms(1,2) entries by (simp add: trustedFrom_def Let_def)
  then show ?thesis by (simp add: callerAddressOf_def) (simp add: trustedFrom_def)
qed

theorem forwarded_header_is_not_believed_witness:
  "callerAddressOf (Some (asc ''1.1.1.1, 2.2.2.2'' @ [44] @ join [44] [asc '' 10.0.0.5''])) (Some (asc ''127.0.0.1'')) (int 1) = asc ''10.0.0.5''"
  by (subst forwarded_header_is_not_believed)
    (simp_all add: js_trim_def js_space_def asc_def callerAddressOf_def trustedFrom_def MAX_ADDRESS_CHARS_def)

text \<open>
  The composed key of a sign-in can be longer than what is kept of it: a name of 254
  characters and two addresses of 64 that differ at the end share one counter.
\<close>

theorem long_sign_ins_share_a_counter:
  "\<exists>name a b. key_field lowered a MAX_ADDRESS_CHARS \<noteq> key_field lowered b MAX_ADDRESS_CHARS \<and>
    normalize_key lowered (loginKey lowered name a) = normalize_key lowered (loginKey lowered name b)"
proof -
  have norm: "normalize_key lowered s = take MAX_KEY_CHARS s" if "\<forall>c\<in>set s. 97 \<le> c \<and> c \<le> 124" for s
  proof -
    have plain: "\<forall>c\<in>set s. \<not> js_space c" using that by (auto simp: js_space_def)
    then have "dropWhile js_space s = s" by (cases s) simp_all
    moreover have "dropWhile js_space (rev s) = rev s" using plain by (cases s rule: rev_cases) simp_all
    ultimately have "js_trim s = s" by (simp add: js_trim_def)
    then show ?thesis using that by (fastforce simp: normalize_key_def lowered_def intro!: map_idI dest: in_set_takeD)
  qed
  have plain: "key_field lowered s n = take n s" if "\<forall>c\<in>set s. 97 \<le> c \<and> c < 124" "length s \<le> 320" for s n
  proof -
    have "\<forall>c\<in>set s. 97 \<le> c \<and> c \<le> 124" using that(1) by fastforce
    then have "normalize_key lowered s = s" using norm [of s] that(2) by (simp add: MAX_KEY_CHARS_def)
    moreover have "c \<noteq> 124" if "c \<in> set (take n s)" for c using that \<open>\<forall>c\<in>set s. 97 \<le> c \<and> c < 124\<close> in_set_takeD by fastforce
    ultimately show ?thesis by (auto simp: key_field_def SEPARATOR_def intro!: map_idI)
  qed
  let ?name = "replicate 254 (97::nat)" and ?a = "\<lambda>c. replicate 63 (97::nat) @ [c]"
  have key: "loginKey lowered ?name (?a c) = asc ''login'' @ [124] @ ?name @ [124] @ ?a c" if "c = 97 \<or> c = 98" for c
    using that plain [of ?name 254] plain [of "?a c" 64]
    by (auto simp: loginKey_def composed_def MAX_EMAIL_KEY_CHARS_def MAX_ADDRESS_CHARS_def SEPARATOR_def)
  have "normalize_key lowered (loginKey lowered ?name (?a c)) = asc ''login'' @ [124] @ ?name @ [124] @ replicate 59 97"
    if "c = 97 \<or> c = 98" for c
  proof -
    have "normalize_key lowered (loginKey lowered ?name (?a c)) = take 320 (asc ''login'' @ [124] @ ?name @ [124] @ ?a c)"
      unfolding key [OF that] using that by (subst norm) (auto simp: asc_def MAX_KEY_CHARS_def)
    also have "\<dots> = asc ''login'' @ [124] @ ?name @ [124] @ replicate 59 97" by (simp add: take_Cons')
    finally show ?thesis .
  qed
  then have "normalize_key lowered (loginKey lowered ?name (?a 97)) = normalize_key lowered (loginKey lowered ?name (?a 98))"
    by simp
  moreover have "key_field lowered (?a 97) MAX_ADDRESS_CHARS \<noteq> key_field lowered (?a 98) MAX_ADDRESS_CHARS"
    using plain [of "?a 97" 64] plain [of "?a 98" 64] by (simp add: MAX_ADDRESS_CHARS_def)
  ultimately show ?thesis by blast
qed

end
