(* ===== verification/Settings.thy ===== *)
theory Settings
  imports Token
begin

text \<open>
  The settings of a control plane (\<open>src/packages/control-plane/src/settings.ts\<close>) and the check
  of an email address (\<open>mail/address.ts\<close> beside it): what is admissible for a key, what is read
  back for it, and what that makes of mail and registration. The table is a map from key names
  to text, the environment another; \<open>toLowerCase\<close> and the URL parser are arguments.
\<close>

subsection \<open>Keys\<close>

datatype setting_key = Machines_per_user | Registration_enabled | Registration_email_domains
  | Mail_from | Mail_from_name | Mail_reply_to | Mail_public_url
  | Smtp_host | Smtp_port | Smtp_security | Smtp_username | Smtp_password | Smtp_auth
  | Smtp_tls_reject_unauthorized

fun setting_name :: "setting_key \<Rightarrow> ustring" where
  "setting_name Machines_per_user = asc ''machines.per_user''"
| "setting_name Registration_enabled = asc ''registration.enabled''"
| "setting_name Registration_email_domains = asc ''registration.email_domains''"
| "setting_name Mail_from = asc ''mail.from''"
| "setting_name Mail_from_name = asc ''mail.from_name''"
| "setting_name Mail_reply_to = asc ''mail.reply_to''"
| "setting_name Mail_public_url = asc ''mail.public_url''"
| "setting_name Smtp_host = asc ''smtp.host''"
| "setting_name Smtp_port = asc ''smtp.port''"
| "setting_name Smtp_security = asc ''smtp.security''"
| "setting_name Smtp_username = asc ''smtp.username''"
| "setting_name Smtp_password = asc ''smtp.password''"
| "setting_name Smtp_auth = asc ''smtp.auth''"
| "setting_name Smtp_tls_reject_unauthorized = asc ''smtp.tls_reject_unauthorized''"

definition SETTING_KEYS :: "setting_key list" where
  "SETTING_KEYS = [Machines_per_user, Registration_enabled, Registration_email_domains, Mail_from, Mail_from_name,
     Mail_reply_to, Mail_public_url, Smtp_host, Smtp_port, Smtp_security, Smtp_username, Smtp_password, Smtp_auth,
     Smtp_tls_reject_unauthorized]"

definition isSettingKey :: "ustring \<Rightarrow> bool" where
  "isSettingKey name \<longleftrightarrow> name \<in> set (map setting_name SETTING_KEYS)"

definition SECRET_SETTING_KEYS :: "setting_key list" where "SECRET_SETTING_KEYS = [Smtp_password]"

definition envNameFor :: "setting_key \<Rightarrow> ustring" where
  "envNameFor key = asc ''REEMOAT_CP_'' @
     map (\<lambda>c. if c = 46 then 95 else if 97 \<le> c \<and> c \<le> 122 then c - 32 else c) (setting_name key)"

subsection \<open>Reading\<close>

type_synonym settings = "ustring \<rightharpoonup> ustring"

datatype setting_source = From_database | From_environment | Unset

definition readSetting :: "settings \<Rightarrow> settings \<Rightarrow> setting_key \<Rightarrow> ustring option \<times> setting_source" where
  "readSetting env db key =
     (case db (setting_name key) of
        Some v \<Rightarrow> (Some v, From_database)
      | None \<Rightarrow>
          (let fromEnv = js_trim (case env (envNameFor key) of None \<Rightarrow> [] | Some v \<Rightarrow> v) in
           if fromEnv \<noteq> [] then (Some fromEnv, From_environment) else (None, Unset)))"

definition readString :: "settings \<Rightarrow> settings \<Rightarrow> setting_key \<Rightarrow> ustring option" where
  "readString env db key = fst (readSetting env db key)"

definition readBoolean :: "settings \<Rightarrow> settings \<Rightarrow> setting_key \<Rightarrow> bool \<Rightarrow> bool" where
  "readBoolean env db key fallback =
     (case readString env db key of
        None \<Rightarrow> fallback
      | Some raw \<Rightarrow> if raw = asc ''true'' then True else if raw = asc ''false'' then False else fallback)"

text \<open>\<open>Number.parseInt(raw, 10)\<close>; \<open>None\<close> is \<open>NaN\<close>.\<close>

definition is_digit :: "nat \<Rightarrow> bool" where "is_digit c \<longleftrightarrow> 48 \<le> c \<and> c \<le> 57"

definition digits_value :: "ustring \<Rightarrow> nat" where
  "digits_value ds = fold (\<lambda>c n. 10 * n + (c - 48)) ds 0"

definition js_parse_int :: "ustring \<Rightarrow> int option" where
  "js_parse_int raw =
     (let s = dropWhile js_space raw;
          negative = (take 1 s = [45]);
          ds = takeWhile is_digit (if take 1 s = [45] \<or> take 1 s = [43] then drop 1 s else s)
      in if ds = [] then None else Some (if negative then - int (digits_value ds) else int (digits_value ds)))"

definition readInteger :: "settings \<Rightarrow> settings \<Rightarrow> setting_key \<Rightarrow> int \<Rightarrow> int \<Rightarrow> int \<Rightarrow> int" where
  "readInteger env db key fallback lo hi =
     (case Option.bind (readString env db key) js_parse_int of
        None \<Rightarrow> fallback
      | Some n \<Rightarrow> if n < lo \<or> hi < n then fallback else n)"

definition readPort :: "settings \<Rightarrow> settings \<Rightarrow> setting_key \<Rightarrow> int \<Rightarrow> int" where
  "readPort env db key fallback =
     (case Option.bind (readString env db key) js_parse_int of
        None \<Rightarrow> fallback
      | Some n \<Rightarrow> if n < 1 \<or> 65535 < n then fallback else n)"

definition readEnum :: "settings \<Rightarrow> settings \<Rightarrow> setting_key \<Rightarrow> ustring list \<Rightarrow> ustring \<Rightarrow> ustring" where
  "readEnum env db key admissible fallback =
     (case readString env db key of
        None \<Rightarrow> fallback
      | Some raw \<Rightarrow> if raw \<in> set admissible then raw else fallback)"

definition writeSetting :: "setting_key \<Rightarrow> ustring \<Rightarrow> settings \<Rightarrow> settings" where
  "writeSetting key v db = db(setting_name key \<mapsto> v)"

definition clearSetting :: "setting_key \<Rightarrow> settings \<Rightarrow> bool \<times> settings" where
  "clearSetting key db = (db (setting_name key) \<noteq> None, db(setting_name key := None))"

subsection \<open>Email addresses\<close>

definition MAX_EMAIL_CHARS :: nat where "MAX_EMAIL_CHARS = 254"
definition STRUCTURAL :: ustring where "STRUCTURAL = [44, 59, 60, 62, 34, 92]"

definition foldEmail :: "(ustring \<Rightarrow> ustring) \<Rightarrow> ustring \<Rightarrow> ustring" where
  "foldEmail lower raw = lower (js_trim raw)"

definition control_char :: "nat \<Rightarrow> bool" where "control_char c \<longleftrightarrow> c \<le> 0x1f \<or> c = 0x7f"

datatype address_refusal = Address_required | Address_too_long | Address_control | Address_space
  | Address_character nat | Address_one_at | Address_local | Address_domain

definition checkEmailAddress ::
  "(ustring \<Rightarrow> ustring) \<Rightarrow> ustring option \<Rightarrow> (address_refusal, ustring \<times> ustring) result" where
  "checkEmailAddress lower raw =
     (case raw of
        None \<Rightarrow> Inl Address_required
      | Some raw \<Rightarrow>
          (let address = js_trim raw in
           if address = [] then Inl Address_required
           else if MAX_EMAIL_CHARS < length address then Inl Address_too_long
           else if list_ex control_char address then Inl Address_control
           else if list_ex js_space address then Inl Address_space
           else case List.find (\<lambda>c. c \<in> set STRUCTURAL) address of
             Some c \<Rightarrow> Inl (Address_character c)
           | None \<Rightarrow>
               if count_list address 64 \<noteq> 1 then Inl Address_one_at
               else if hd address = 64 then Inl Address_local
               else if last address = 64 then Inl Address_domain
               else Inr (address, foldEmail lower address)))"

text \<open>What follows the last \<open>@\<close>, the whole text when there is none.\<close>

definition after_last_at :: "ustring \<Rightarrow> ustring" where
  "after_last_at s = rev (takeWhile (\<lambda>c. c \<noteq> 64) (rev s))"

definition domainOf :: "ustring \<Rightarrow> ustring" where
  "domainOf emailFolded = (if 64 \<in> set emailFolded then after_last_at emailFolded else [])"

subsection \<open>What a key admits\<close>

definition MAX_MACHINES_PER_USER :: int where "MAX_MACHINES_PER_USER = 50"

definition SMTP_SECURITIES :: "ustring list" where
  "SMTP_SECURITIES = [asc ''implicit_tls'', asc ''starttls'', asc ''plaintext'']"

definition SMTP_AUTHS :: "ustring list" where
  "SMTP_AUTHS = [asc ''plain'', asc ''login'', asc ''none'']"

datatype setting_refusal = Value_too_long | Value_control | Value_not_whole | Value_not_boolean | Value_not_port
  | Value_not_one_of "ustring list" | Value_not_absolute | Value_not_http | Value_address address_refusal

definition string_of_int :: "int \<Rightarrow> ustring" where
  "string_of_int n = (if n < 0 then 45 # decimal (nat (- n)) else decimal (nat n))"

text \<open>\<open>None\<close> is admissible. \<open>scheme_of\<close> is the protocol of a parsed URL, \<open>None\<close> where it throws.\<close>

definition checkSettingValue ::
  "(ustring \<Rightarrow> ustring) \<Rightarrow> (ustring \<Rightarrow> ustring option) \<Rightarrow> setting_key \<Rightarrow> ustring \<Rightarrow> setting_refusal option" where
  "checkSettingValue lower scheme_of key v =
     (if 2048 < length v then Some Value_too_long
      else if list_ex control_char v then Some Value_control
      else case key of
        Machines_per_user \<Rightarrow>
          (case js_parse_int v of
             None \<Rightarrow> Some Value_not_whole
           | Some n \<Rightarrow> if string_of_int n = js_trim v \<and> 0 \<le> n \<and> n \<le> MAX_MACHINES_PER_USER then None
               else Some Value_not_whole)
      | Registration_enabled \<Rightarrow> if v = asc ''true'' \<or> v = asc ''false'' then None else Some Value_not_boolean
      | Smtp_tls_reject_unauthorized \<Rightarrow> if v = asc ''true'' \<or> v = asc ''false'' then None else Some Value_not_boolean
      | Smtp_port \<Rightarrow>
          (case js_parse_int v of
             None \<Rightarrow> Some Value_not_port
           | Some n \<Rightarrow> if 1 \<le> n \<and> n \<le> 65535 then None else Some Value_not_port)
      | Smtp_security \<Rightarrow> if v \<in> set SMTP_SECURITIES then None else Some (Value_not_one_of SMTP_SECURITIES)
      | Smtp_auth \<Rightarrow> if v \<in> set SMTP_AUTHS then None else Some (Value_not_one_of SMTP_AUTHS)
      | Mail_public_url \<Rightarrow>
          (case scheme_of v of
             None \<Rightarrow> Some Value_not_absolute
           | Some p \<Rightarrow> if p = asc ''http:'' \<or> p = asc ''https:'' then None else Some Value_not_http)
      | Mail_from \<Rightarrow> if v = [] then None
          else (case checkEmailAddress lower (Some v) of Inr _ \<Rightarrow> None | Inl r \<Rightarrow> Some (Value_address r))
      | Mail_reply_to \<Rightarrow> if v = [] then None
          else (case checkEmailAddress lower (Some v) of Inr _ \<Rightarrow> None | Inl r \<Rightarrow> Some (Value_address r))
      | _ \<Rightarrow> None)"

subsection \<open>Mail and registration\<close>

record mail_config =
  mc_host :: ustring
  mc_port :: int
  mc_security :: ustring
  mc_auth :: ustring
  mc_username :: "ustring option"
  mc_password :: "ustring option"
  mc_rejectUnauthorized :: bool
  mc_from :: ustring
  mc_fromName :: "ustring option"
  mc_replyTo :: "ustring option"
  mc_publicUrl :: ustring

definition DEFAULT_SMTP_PORT :: int where "DEFAULT_SMTP_PORT = 587"

fun js_includes :: "ustring \<Rightarrow> ustring \<Rightarrow> bool" where
  "js_includes needle [] = (needle = [])"
| "js_includes needle (c # s) = (take (length needle) (c # s) = needle \<or> js_includes needle s)"

definition isMissing :: "ustring \<Rightarrow> bool" where
  "isMissing problem = js_includes (asc ''is not set'') problem"

definition usable :: "ustring option \<Rightarrow> bool" where
  "usable v \<longleftrightarrow> (case v of None \<Rightarrow> False | Some t \<Rightarrow> js_trim t \<noteq> [])"

definition smtp_auth :: "settings \<Rightarrow> settings \<Rightarrow> ustring" where
  "smtp_auth env db = readEnum env db Smtp_auth SMTP_AUTHS (asc ''plain'')"

text \<open>The dash of the messages.\<close>

definition dash :: ustring where "dash = [0x2014]"

definition sender_warning :: "ustring \<Rightarrow> ustring \<Rightarrow> ustring" where
  "sender_warning sender username = asc ''mail.from ('' @ sender @ asc '') is not the mailbox you sign in as (''
     @ username @ asc '') '' @ dash @ asc '' many providers refuse that unless it is an alias of it''"

definition url_warning :: "ustring \<Rightarrow> ustring" where
  "url_warning publicUrl = asc ''mail.public_url ('' @ publicUrl @ asc '') points at this control plane, which serves no browser UI ''
     @ dash @ asc '' links in messages answer an error rather than a page. Point it at wherever you serve the ''
     @ asc ''client, or tell people to paste the link into the Reemoat app, which takes one''"

definition missing_parts :: "settings \<Rightarrow> settings \<Rightarrow> ustring list" where
  "missing_parts env db =
     (if readString env db Smtp_host = None then [asc ''smtp.host is not set''] else []) @
     (if readString env db Mail_from = None then [asc ''mail.from is not set''] else []) @
     (if readString env db Mail_public_url = None
      then [asc ''mail.public_url is not set, so links in messages would have nowhere to point''] else []) @
     (if smtp_auth env db = asc ''none'' then []
      else (if usable (readString env db Smtp_username) then []
            else [asc ''smtp.username is not set '' @ dash @ asc '' most servers want the full mailbox address'']) @
           (if usable (readString env db Smtp_password) then [] else [asc ''smtp.password is not set'']))"

text \<open>\<open>origin_of\<close> is the origin of a parsed URL, \<open>None\<close> where the parser throws.\<close>

definition warnings ::
  "(ustring \<Rightarrow> ustring) \<Rightarrow> (ustring \<Rightarrow> ustring option) \<Rightarrow> settings \<Rightarrow> settings \<Rightarrow> ustring option \<Rightarrow> ustring list" where
  "warnings lower origin_of env db apiOriginServingNoWeb =
     (case (readString env db Smtp_username, readString env db Mail_from) of
        (Some username, Some sender) \<Rightarrow>
          if smtp_auth env db \<noteq> asc ''none'' \<and> 64 \<in> set username \<and> lower username \<noteq> lower sender
          then [sender_warning sender username] else []
      | _ \<Rightarrow> []) @
     (case (apiOriginServingNoWeb, readString env db Mail_public_url) of
        (Some api, Some publicUrl) \<Rightarrow>
          (case (origin_of publicUrl, origin_of api) of
             (Some a, Some b) \<Rightarrow> if a = b then [url_warning publicUrl] else []
           | _ \<Rightarrow> [])
      | _ \<Rightarrow> [])"

definition mailConfigured ::
  "(ustring \<Rightarrow> ustring) \<Rightarrow> (ustring \<Rightarrow> ustring option) \<Rightarrow> settings \<Rightarrow> settings \<Rightarrow> ustring option \<Rightarrow> bool \<times> ustring list" where
  "mailConfigured lower origin_of env db apiOriginServingNoWeb =
     (let problems = missing_parts env db @ warnings lower origin_of env db apiOriginServingNoWeb
      in (\<not> list_ex isMissing problems, problems))"

definition mailConfig ::
  "(ustring \<Rightarrow> ustring) \<Rightarrow> (ustring \<Rightarrow> ustring option) \<Rightarrow> settings \<Rightarrow> settings \<Rightarrow> mail_config option" where
  "mailConfig lower origin_of env db =
     (if \<not> fst (mailConfigured lower origin_of env db None) then None
      else Some \<lparr>mc_host = (case readString env db Smtp_host of None \<Rightarrow> [] | Some h \<Rightarrow> h),
        mc_port = readPort env db Smtp_port DEFAULT_SMTP_PORT,
        mc_security = readEnum env db Smtp_security SMTP_SECURITIES (asc ''starttls''),
        mc_auth = smtp_auth env db,
        mc_username = (if usable (readString env db Smtp_username) then readString env db Smtp_username else None),
        mc_password = (if usable (readString env db Smtp_password) then readString env db Smtp_password else None),
        mc_rejectUnauthorized = readBoolean env db Smtp_tls_reject_unauthorized True,
        mc_from = (case readString env db Mail_from of None \<Rightarrow> [] | Some f \<Rightarrow> f),
        mc_fromName = readString env db Mail_from_name,
        mc_replyTo = readString env db Mail_reply_to,
        mc_publicUrl = rev (dropWhile (\<lambda>c. c = 47) (rev (case readString env db Mail_public_url of None \<Rightarrow> [] | Some u \<Rightarrow> u)))\<rparr>)"

record registration_mode =
  rm_enabled :: bool
  rm_requiresEmail :: bool

definition registrationMode ::
  "(ustring \<Rightarrow> ustring) \<Rightarrow> (ustring \<Rightarrow> ustring option) \<Rightarrow> settings \<Rightarrow> settings \<Rightarrow> registration_mode" where
  "registrationMode lower origin_of env db =
     \<lparr>rm_enabled = readBoolean env db Registration_enabled False,
      rm_requiresEmail = fst (mailConfigured lower origin_of env db None)\<rparr>"

definition parseEmailDomains :: "(ustring \<Rightarrow> ustring) \<Rightarrow> ustring option \<Rightarrow> ustring list" where
  "parseEmailDomains lower raw =
     (case raw of
        None \<Rightarrow> []
      | Some r \<Rightarrow> filter (\<lambda>p. p \<noteq> [])
          (map (\<lambda>part. lower (let t = js_trim part in if take 1 t = [64] then drop 1 t else t)) (split_on 44 r)))"

definition emailDomainAllowed :: "ustring \<Rightarrow> ustring list \<Rightarrow> bool" where
  "emailDomainAllowed emailFolded domains \<longleftrightarrow>
     domains = [] \<or> 64 \<in> set emailFolded \<and> after_last_at emailFolded \<in> set domains"

subsection \<open>Facts about reading\<close>

lemma setting_name_inject: "setting_name a = setting_name b \<longleftrightarrow> a = b"
  by (cases a; cases b) (simp_all add: asc_inject)

lemma every_key_is_listed: "isSettingKey (setting_name key)"
  by (cases key) (simp_all add: isSettingKey_def SETTING_KEYS_def)

lemma readString_written [simp]: "readString env (writeSetting key v db) key = Some v"
  by (simp add: readString_def readSetting_def writeSetting_def)

lemma readString_elsewhere: "key \<noteq> other \<Longrightarrow> readString env (writeSetting other v db) key = readString env db key"
  by (simp add: readString_def readSetting_def writeSetting_def setting_name_inject)

lemma digits_value_snoc: "digits_value (ds @ [c]) = 10 * digits_value ds + (c - 48)"
  by (simp add: digits_value_def)

lemma digits_of_decimal: "decimal n \<noteq> [] \<and> (\<forall>c\<in>set (decimal n). is_digit c) \<and> digits_value (decimal n) = n"
proof (induction n rule: decimal.induct)
  case (1 n)
  show ?case
  proof (cases "n < 10")
    case True
    then show ?thesis by (simp add: is_digit_def digits_value_def decimal.simps [of n])
  next
    case False
    then have "decimal n = decimal (n div 10) @ [48 + n mod 10]" by (simp add: decimal.simps [of n])
    moreover have "is_digit (48 + n mod 10)" by (simp add: is_digit_def)
    ultimately show ?thesis using 1 False by (simp add: digits_value_snoc)
  qed
qed

text \<open>Text without a character of the needle is a wall the needle cannot cross.\<close>

lemma js_includes_wall:
  assumes "c \<notin> set needle" and "needle \<noteq> []"
  shows "js_includes needle (xs @ c # ys) \<longleftrightarrow> js_includes needle xs \<or> js_includes needle ys"
proof (induction xs)
  case Nil
  then show ?case using assms by (cases needle) auto
next
  case (Cons x xs)
  have "take (length needle) (x # xs @ c # ys) = needle \<longleftrightarrow> take (length needle) (x # xs) = needle"
  proof (cases "length needle \<le> length (x # xs)")
    case False
    then have "c \<in> set (take (length needle) (x # xs @ c # ys))"
      by (cases needle) (auto simp: take_Cons')
    moreover have "length (take (length needle) (x # xs)) \<noteq> length needle" using False by simp
    ultimately show ?thesis using assms(1) by metis
  next
    case True
    then have "take (length needle) ((x # xs) @ c # ys) = take (length needle) (x # xs)" by (simp only: take_append) simp
    then show ?thesis by simp
  qed
  with Cons show ?case by simp
qed

lemma sender_warning_present:
  assumes "\<not> js_includes (asc ''is not set'') sender" and "\<not> js_includes (asc ''is not set'') username"
  shows "\<not> isMissing (sender_warning sender username)"
proof -
  have "sender_warning sender username = asc ''mail.from '' @ 40 # sender @ 41 # asc '' is not the mailbox you sign in as '' @ 40 #
      username @ 41 # 32 # dash @ asc '' many providers refuse that unless it is an alias of it''"
    by (simp add: sender_warning_def asc_def)
  then show ?thesis
    using assms by (simp add: isMissing_def js_includes_wall asc_def dash_def)
qed

lemma url_warning_present:
  assumes "\<not> js_includes (asc ''is not set'') publicUrl"
  shows "\<not> isMissing (url_warning publicUrl)"
proof -
  have "url_warning publicUrl = asc ''mail.public_url '' @ 40 # publicUrl @ 41 # asc '' points at this control plane, which serves no browser UI ''
     @ dash @ asc '' links in messages answer an error rather than a page. Point it at wherever you serve the ''
     @ asc ''client, or tell people to paste the link into the Reemoat app, which takes one''"
    by (simp add: url_warning_def asc_def)
  then show ?thesis
    using assms by (simp add: isMissing_def js_includes_wall asc_def dash_def)
qed

lemma missing_parts_missing: "p \<in> set (missing_parts env db) \<Longrightarrow> isMissing p"
  by (auto simp: missing_parts_def isMissing_def asc_def split: if_splits)

lemma warnings_present:
  assumes "\<And>key v. readString env db key = Some v \<Longrightarrow> \<not> js_includes (asc ''is not set'') v"
    and "p \<in> set (warnings lower origin_of env db api)"
  shows "\<not> isMissing p"
  using assms sender_warning_present url_warning_present
  by (auto simp: warnings_def split: option.splits if_splits)

lemma configured_exactly:
  assumes "\<And>key v. readString env db key = Some v \<Longrightarrow> \<not> js_includes (asc ''is not set'') v"
  shows "fst (mailConfigured lower origin_of env db api) \<longleftrightarrow> missing_parts env db = []"
proof -
  have "list_ex isMissing (missing_parts env db) \<longleftrightarrow> missing_parts env db \<noteq> []"
  proof (cases "missing_parts env db")
    case (Cons p ps)
    then have "isMissing p" using missing_parts_missing [of p env db] by simp
    with Cons show ?thesis by simp
  qed simp
  moreover have "\<not> list_ex isMissing (warnings lower origin_of env db api)"
    using warnings_present [OF assms] by (auto simp: list_ex_iff)
  ultimately show ?thesis by (simp add: mailConfigured_def Let_def)
qed

subsection \<open>Properties\<close>

text \<open>
  What is admitted is what is read. A value the check admits for a key is, once written,
  what the key's own reader answers, whatever its fallback: the number it spells for the
  machine limit, the port it begins with, the truth it names, one of the listed words, and
  for the rest the very text.
\<close>

theorem admitted_settings_are_read:
  assumes "checkSettingValue lower scheme_of key v = None"
  shows "case key of
      Machines_per_user \<Rightarrow> (\<exists>n. string_of_int n = js_trim v \<and> 0 \<le> n \<and>
        readInteger env (writeSetting key v db) key fallback 0 MAX_MACHINES_PER_USER = n)
    | Smtp_port \<Rightarrow> js_parse_int v = Some (readPort env (writeSetting key v db) key fallback)
    | Registration_enabled \<Rightarrow> readBoolean env (writeSetting key v db) key otherwise = (v = asc ''true'')
    | Smtp_tls_reject_unauthorized \<Rightarrow> readBoolean env (writeSetting key v db) key otherwise = (v = asc ''true'')
    | Smtp_security \<Rightarrow> readEnum env (writeSetting key v db) key SMTP_SECURITIES word = v
    | Smtp_auth \<Rightarrow> readEnum env (writeSetting key v db) key SMTP_AUTHS word = v
    | _ \<Rightarrow> readString env (writeSetting key v db) key = Some v"
  using assms
  by (cases key) (auto simp: checkSettingValue_def readInteger_def readPort_def readBoolean_def readEnum_def asc_inject
      split: if_splits option.splits)

theorem admitted_settings_are_read_witness:
  "readInteger Map.empty (writeSetting Machines_per_user (asc ''0'') Map.empty) Machines_per_user 50 0 MAX_MACHINES_PER_USER = 0"
proof -
  have ok: "checkSettingValue lowered (\<lambda>_. None) Machines_per_user (asc ''0'') = None"
    by (simp add: checkSettingValue_def asc_def control_char_def js_parse_int_def js_space_def is_digit_def digits_value_def
        string_of_int_def decimal.simps js_trim_def MAX_MACHINES_PER_USER_def)
  have "string_of_int n = asc ''0'' \<Longrightarrow> 0 \<le> n \<Longrightarrow> n = 0" for n
    using digits_of_decimal [of "nat n"] digits_of_decimal [of 0]
    by (auto simp: string_of_int_def asc_def digits_value_def split: if_splits)
  moreover have "js_trim (asc ''0'') = asc ''0''" by (simp add: js_trim_def js_space_def asc_def)
  ultimately show ?thesis using admitted_settings_are_read [OF ok, of Map.empty Map.empty 50] by auto
qed

text \<open>
  Mail is on exactly when nothing it needs is missing. As long as no setting's text spells
  the words that mark a missing one, an instance counts as configured if and only if a host, a
  sender and a public address are there and, unless the server asks for no sign-in, a user
  name and a password that are more than blanks; no warning ever turns it off. Then there is a
  configuration for the transport, and its credentials are those two or none.
\<close>

theorem mail_is_on_when_complete:
  assumes "\<forall>key v. readString env db key = Some v \<longrightarrow> \<not> js_includes (asc ''is not set'') v"
  shows "(fst (mailConfigured lower origin_of env db api) \<longleftrightarrow>
      readString env db Smtp_host \<noteq> None \<and> readString env db Mail_from \<noteq> None \<and> readString env db Mail_public_url \<noteq> None \<and>
      (smtp_auth env db = asc ''none'' \<or> usable (readString env db Smtp_username) \<and> usable (readString env db Smtp_password)))
    \<and> (fst (mailConfigured lower origin_of env db api) \<longleftrightarrow> mailConfig lower origin_of env db \<noteq> None)
    \<and> (\<forall>c. mailConfig lower origin_of env db = Some c \<longrightarrow> mc_auth c \<noteq> asc ''none'' \<longrightarrow>
        mc_username c \<noteq> None \<and> mc_password c \<noteq> None \<and> usable (mc_username c) \<and> usable (mc_password c))"
proof -
  have parts: "missing_parts env db = [] \<longleftrightarrow>
      readString env db Smtp_host \<noteq> None \<and> readString env db Mail_from \<noteq> None \<and> readString env db Mail_public_url \<noteq> None \<and>
      (smtp_auth env db = asc ''none'' \<or> usable (readString env db Smtp_username) \<and> usable (readString env db Smtp_password))"
    by (auto simp: missing_parts_def)
  have on: "fst (mailConfigured lower origin_of env db x) \<longleftrightarrow> missing_parts env db = []" for x
    using configured_exactly assms by blast
  have "usable v \<Longrightarrow> v \<noteq> None" for v by (cases v) (simp_all add: usable_def)
  with parts on show ?thesis by (auto simp: mailConfig_def)
qed

definition sample_mail :: settings where
  "sample_mail = [setting_name Smtp_host \<mapsto> asc ''mx'', setting_name Mail_from \<mapsto> asc ''a@b.c'', setting_name Mail_public_url \<mapsto> asc ''https://x'',
     setting_name Smtp_username \<mapsto> asc ''a@b.c'', setting_name Smtp_password \<mapsto> asc ''pw'']"

theorem mail_is_on_when_complete_witness:
  "\<exists>c. mailConfig lowered (\<lambda>_. None) Map.empty sample_mail = Some c \<and> mc_username c = Some (asc ''a@b.c'')"
proof -
  have texts: "readString Map.empty sample_mail key = Some v \<Longrightarrow> \<not> js_includes (asc ''is not set'') v" for key v
    by (cases key) (auto simp: readString_def readSetting_def sample_mail_def asc_inject asc_def js_trim_def)
  have parts: "readString Map.empty sample_mail Smtp_host = Some (asc ''mx'')" "readString Map.empty sample_mail Mail_from = Some (asc ''a@b.c'')"
    "readString Map.empty sample_mail Mail_public_url = Some (asc ''https://x'')"
    "readString Map.empty sample_mail Smtp_username = Some (asc ''a@b.c'')" "readString Map.empty sample_mail Smtp_password = Some (asc ''pw'')"
    by (simp_all add: readString_def readSetting_def sample_mail_def asc_inject)
  have "usable (Some (asc ''a@b.c''))" "usable (Some (asc ''pw''))"
    by (simp_all add: usable_def js_trim_def js_space_def asc_def)
  with parts mail_is_on_when_complete [of Map.empty sample_mail lowered "\<lambda>_. None" None] texts
  have "mailConfig lowered (\<lambda>_. None) Map.empty sample_mail \<noteq> None" by auto
  then show ?thesis using parts \<open>usable (Some (asc ''a@b.c''))\<close> by (auto simp: mailConfig_def split: if_splits)
qed

text \<open>
  An empty sender counts as configured. The check admits an empty \<open>mail.from\<close> because, its
  comment says, \<open>mailConfigured\<close> catches it as missing; but an empty text in the table is a
  value, so with a host, a public address and no sign-in the instance is configured, and the
  transport is told to send from nobody.
\<close>

theorem empty_sender_counts_as_configured:
  assumes "readString env db Smtp_host = Some h" and "readString env db Mail_public_url = Some u"
    and "smtp_auth env db = asc ''none''"
  shows "checkSettingValue lower scheme_of Mail_from [] = None
    \<and> fst (mailConfigured lower origin_of env (writeSetting Mail_from [] db) None)
    \<and> (\<exists>c. mailConfig lower origin_of env (writeSetting Mail_from [] db) = Some c \<and> mc_from c = [])"
proof -
  have "smtp_auth env (writeSetting Mail_from [] db) = asc ''none''"
    using assms(3) by (simp add: smtp_auth_def readEnum_def readString_elsewhere)
  then have "fst (mailConfigured lower origin_of env (writeSetting Mail_from [] db) None)"
    using assms by (auto simp: mailConfigured_def missing_parts_def warnings_def readString_elsewhere Let_def split: option.split)
  then show ?thesis by (simp add: mailConfig_def checkSettingValue_def)
qed

theorem empty_sender_counts_as_configured_witness:
  "fst (mailConfigured lowered (\<lambda>_. None) Map.empty (writeSetting Mail_from []
      [setting_name Smtp_host \<mapsto> asc ''mx'', setting_name Mail_public_url \<mapsto> asc ''https://x'', setting_name Smtp_auth \<mapsto> asc ''none'']) None)"
  using empty_sender_counts_as_configured [of Map.empty
      "[setting_name Smtp_host \<mapsto> asc ''mx'', setting_name Mail_public_url \<mapsto> asc ''https://x'', setting_name Smtp_auth \<mapsto> asc ''none'']"
      "asc ''mx''" "asc ''https://x''" lowered "\<lambda>_. None" "\<lambda>_. None"]
  by (simp add: readString_def readSetting_def smtp_auth_def readEnum_def SMTP_AUTHS_def asc_inject)

end
