(* ===== verification/ControlDb.thy ===== *)
theory ControlDb
  imports Settings "HOL-Library.List_Lexorder" "HOL-Library.Product_Lexorder"
begin

text \<open>
  The database of a control plane (\<open>src/packages/control-plane/src/schema.sql\<close>) and the reads
  every process makes of it (\<open>store.ts\<close>). A table is the list of its rows in the order they were
  inserted, a table read only by its primary key is a map; \<open>UPDATE\<close>, \<open>DELETE\<close> and \<open>COUNT\<close> are
  functions on lists. Foreign keys are off in the code, so nothing here relates two tables.
  Where \<open>ORDER BY\<close> leaves rows tied, the model keeps them in the order of insertion.
\<close>

subsection \<open>Rows\<close>

record user_row =
  us_id :: ustring
  us_name :: ustring
  us_isAdmin :: bool
  us_createdAt :: int
  us_disabledAt :: "int option"
  us_passwordChangedAt :: "int option"

record api_key_row =
  ak_id :: ustring
  ak_user :: ustring
  ak_prefix :: ustring
  ak_hash :: ustring
  ak_createdAt :: int
  ak_revokedAt :: "int option"
  ak_lastUsedAt :: "int option"

record session_row =
  sn_id :: ustring
  sn_user :: ustring
  sn_prefix :: ustring
  sn_hash :: ustring
  sn_createdAt :: int
  sn_expiresAt :: int
  sn_lastSeenAt :: int
  sn_revokedAt :: "int option"
  sn_device :: "ustring option"

record device_row =
  dv_id :: ustring
  dv_user :: ustring
  dv_name :: ustring
  dv_platform :: ustring
  dv_createdAt :: int
  dv_revokedAt :: "int option"
  dv_key :: "ustring option"
  dv_keySetAt :: "int option"

record owner_row =
  ow_machine :: ustring
  ow_user :: ustring
  ow_label :: ustring
  ow_createdAt :: int

record machine_row =
  ma_id :: ustring
  ma_name :: ustring
  ma_createdAt :: int
  ma_enrolledAt :: "int option"
  ma_revokedAt :: "int option"
  ma_enrolledBy :: "ustring option"
  ma_key :: "ustring option"
  ma_keySetAt :: "int option"
  ma_daemonVersion :: "ustring option"
  ma_daemonProtocol :: "int option"
  ma_daemonAgents :: "ustring option"
  ma_daemonSeenAt :: "int option"

record grant_row =
  gr_user :: ustring
  gr_machine :: ustring
  gr_scopes :: ustring
  gr_createdAt :: int

record signing_key_row =
  sk_kid :: ustring
  sk_privatePem :: ustring
  sk_publicJwk :: ustring
  sk_createdAt :: int
  sk_retiredAt :: "int option"

record code_row =
  ec_id :: ustring
  ec_hash :: ustring
  ec_machine :: ustring
  ec_createdBy :: ustring
  ec_createdAt :: int
  ec_expiresAt :: int
  ec_usedAt :: "int option"
  ec_usedFrom :: "ustring option"

record tunnel_key_row =
  mt_id :: ustring
  mt_machine :: ustring
  mt_prefix :: ustring
  mt_hash :: ustring
  mt_createdAt :: int
  mt_revokedAt :: "int option"

record provisioning_row =
  pk_id :: ustring
  pk_prefix :: ustring
  pk_hash :: ustring
  pk_createdAt :: int
  pk_createdBy :: "ustring option"
  pk_revokedAt :: "int option"

record email_row =
  em_user :: ustring
  em_email :: ustring
  em_folded :: ustring
  em_verifiedAt :: "int option"
  em_updatedAt :: int

record email_token_row =
  ut_id :: ustring
  ut_user :: ustring
  ut_purpose :: ustring
  ut_hash :: ustring
  ut_folded :: ustring
  ut_createdAt :: int
  ut_expiresAt :: int
  ut_usedAt :: "int option"
  ut_usedFrom :: "ustring option"

record pending_row =
  pn_id :: ustring
  pn_hash :: ustring
  pn_name :: ustring
  pn_nameFolded :: ustring
  pn_email :: ustring
  pn_emailFolded :: ustring
  pn_passwordHash :: ustring
  pn_createdAt :: int
  pn_expiresAt :: int
  pn_usedAt :: "int option"
  pn_usedFrom :: "ustring option"

text \<open>What an account is made of, and what machines are made of.\<close>

record control_db =
  db_users :: "user_row list"
  db_apiKeys :: "api_key_row list"
  db_passwords :: "ustring \<rightharpoonup> ustring"
  db_sessions :: "session_row list"
  db_origins :: "ustring \<rightharpoonup> ustring option \<times> ustring option"
  db_devices :: "device_row list"
  db_obligations :: "ustring \<rightharpoonup> ustring"
  db_emails :: "email_row list"
  db_emailTokens :: "email_token_row list"
  db_pending :: "pending_row list"
  db_owners :: "owner_row list"
  db_machines :: "machine_row list"
  db_grants :: "grant_row list"
  db_signingKeys :: "signing_key_row list"
  db_codes :: "code_row list"
  db_tunnelKeys :: "tunnel_key_row list"
  db_settings :: settings
  db_limits :: "ustring \<rightharpoonup> int"
  db_provisioning :: "provisioning_row list"

definition empty_db :: control_db where
  "empty_db = \<lparr>db_users = [], db_apiKeys = [], db_passwords = Map.empty, db_sessions = [], db_origins = Map.empty, db_devices = [],
     db_obligations = Map.empty, db_emails = [], db_emailTokens = [], db_pending = [], db_owners = [], db_machines = [], db_grants = [],
     db_signingKeys = [], db_codes = [], db_tunnelKeys = [], db_settings = Map.empty, db_limits = Map.empty, db_provisioning = []\<rparr>"

subsection \<open>Statements\<close>

definition update_where :: "('r \<Rightarrow> bool) \<Rightarrow> ('r \<Rightarrow> 'r) \<Rightarrow> 'r list \<Rightarrow> 'r list" where
  "update_where p f t = map (\<lambda>r. if p r then f r else r) t"

definition delete_where :: "('r \<Rightarrow> bool) \<Rightarrow> 'r list \<Rightarrow> 'r list" where
  "delete_where p t = filter (\<lambda>r. \<not> p r) t"

definition count_where :: "('r \<Rightarrow> bool) \<Rightarrow> 'r list \<Rightarrow> nat" where
  "count_where p t = length (filter p t)"

lemma update_where_simps [simp]:
  "update_where p f [] = []"
  "update_where p f (r # t) = (if p r then f r else r) # update_where p f t"
  "update_where p f (t @ u) = update_where p f t @ update_where p f u"
  "length (update_where p f t) = length t"
  by (simp_all add: update_where_def)

lemma in_update_where: "r \<in> set (update_where p f t) \<longleftrightarrow> (\<exists>q\<in>set t. r = (if p q then f q else q))"
  by (auto simp: update_where_def)

lemma in_update_whereE:
  assumes "r \<in> set (update_where p f t)"
  obtains (changed) q where "q \<in> set t" "p q" "r = f q" | (kept) "r \<in> set t" "\<not> p r"
  using assms by (auto simp: update_where_def split: if_splits)

lemma map_update_where: "(\<And>r. k (f r) = k r) \<Longrightarrow> map k (update_where p f t) = map k t"
  by (simp add: update_where_def)

lemma in_delete_where [simp]: "r \<in> set (delete_where p t) \<longleftrightarrow> r \<in> set t \<and> \<not> p r"
  by (auto simp: delete_where_def)

lemma distinct_delete_where: "distinct (map k t) \<Longrightarrow> distinct (map k (delete_where p t))"
  by (simp add: delete_where_def distinct_map_filter)

lemma count_where_append [simp]: "count_where p (t @ u) = count_where p t + count_where p u"
  by (simp add: count_where_def)

lemma count_where_zero: "count_where p t = 0 \<longleftrightarrow> (\<forall>r\<in>set t. \<not> p r)"
  by (auto simp: count_where_def filter_empty_conv)

lemma find_in: "List.find p t = Some r \<Longrightarrow> r \<in> set t \<and> p r"
  by (auto simp: find_Some_iff)

lemma find_none_iff: "List.find p t = None \<longleftrightarrow> (\<forall>r\<in>set t. \<not> p r)"
  by (auto simp: find_None_iff)

lemma find_filtered: "(\<And>r. p r \<Longrightarrow> q r) \<Longrightarrow> List.find p (filter q t) = List.find p t"
  by (induction t) auto

lemma find_after: "\<forall>r\<in>set t. \<not> p r \<Longrightarrow> List.find p (t @ u) = List.find p u"
  by (induction t) auto

text \<open>A key names at most one row.\<close>

lemma same_key: "distinct (map k t) \<Longrightarrow> a \<in> set t \<Longrightarrow> b \<in> set t \<Longrightarrow> k a = k b \<Longrightarrow> a = b"
  by (metis distinct_map inj_onD)

lemma find_by_key:
  assumes "distinct (map k t)" and "r \<in> set t"
  shows "List.find (\<lambda>x. k x = k r) t = Some r"
proof (cases "List.find (\<lambda>x. k x = k r) t")
  case None
  then show ?thesis using assms(2) by (auto simp: find_None_iff)
next
  case (Some q)
  then show ?thesis using same_key [OF assms(1) _ assms(2)] by (auto dest!: find_in)
qed

subsection \<open>The reads of \<open>store.ts\<close>\<close>

text \<open>\<open>split(/\\s+/)\<close> and the empty pieces dropped.\<close>

fun spaced_words :: "ustring \<Rightarrow> ustring \<Rightarrow> ustring list" where
  "spaced_words w [] = (if w = [] then [] else [rev w])"
| "spaced_words w (c # s) =
     (if js_space c then (if w = [] then [] else [rev w]) @ spaced_words [] s else spaced_words (c # w) s)"

definition words_of :: "ustring \<Rightarrow> ustring list" where "words_of s = spaced_words [] s"

definition grantFor :: "control_db \<Rightarrow> ustring \<Rightarrow> ustring \<Rightarrow> ustring list option" where
  "grantFor db userId machineId =
     map_option (\<lambda>g. words_of (gr_scopes g)) (List.find (\<lambda>g. gr_user g = userId \<and> gr_machine g = machineId) (db_grants db))"

record machine_summary =
  ms_id :: ustring
  ms_name :: ustring
  ms_enrolled :: bool
  ms_revoked :: bool

definition machineById :: "control_db \<Rightarrow> ustring \<Rightarrow> machine_summary option" where
  "machineById db machineId =
     map_option (\<lambda>m. \<lparr>ms_id = ma_id m, ms_name = ma_name m, ms_enrolled = ma_enrolledAt m \<noteq> None, ms_revoked = ma_revokedAt m \<noteq> None\<rparr>)
       (List.find (\<lambda>m. ma_id m = machineId) (db_machines db))"

definition activeUser :: "control_db \<Rightarrow> ustring \<Rightarrow> (ustring \<times> ustring) option" where
  "activeUser db userId =
     (case List.find (\<lambda>u. us_id u = userId) (db_users db) of
        None \<Rightarrow> None
      | Some u \<Rightarrow> if us_disabledAt u \<noteq> None then None else Some (us_id u, us_name u))"

text \<open>Joined with one blank, words come apart again.\<close>

lemma spaced_words_word:
  "\<forall>c\<in>set w. \<not> js_space c \<Longrightarrow> spaced_words v (w @ s) = spaced_words (rev w @ v) s"
  by (induction w arbitrary: v) simp_all

lemma words_of_join:
  assumes "\<forall>w\<in>set ws. w \<noteq> [] \<and> (\<forall>c\<in>set w. \<not> js_space c)"
  shows "words_of (join [32] ws) = ws"
  using assms
proof (induction ws rule: induct_list012)
  case (2 w)
  then show ?case using spaced_words_word [of w "[]" "[]"] by (simp add: words_of_def)
next
  case (3 w v ws)
  have "js_space 32" by (simp add: js_space_def)
  with 3 show ?case
    using spaced_words_word [of w "[]" "32 # join [32] (v # ws)"] by (simp add: words_of_def)
qed (simp add: words_of_def)

end
