(* ===== verification/Credentials.thy ===== *)
theory Credentials
  imports ControlDb
begin

text \<open>
  Credentials of the control plane (\<open>src/packages/control-plane/src/keys.ts\<close>) and the keys that
  machines announce (\<open>machinekeys.ts\<close>): signing keys, tunnel keys, provisioning keys, enrollment
  codes. Random text and the SHA-256 of a text, in hexadecimal, are arguments. A transaction is
  an option: \<open>None\<close> where a statement throws, which rolls it back.
\<close>

subsection \<open>Making and comparing credentials\<close>

record minted_key =
  ky_key :: ustring
  ky_prefix :: ustring
  ky_hash :: ustring

definition keyPrefix :: "ustring \<Rightarrow> ustring" where "keyPrefix key = take 8 (drop 3 key)"

definition hashCredential :: "(ustring \<Rightarrow> ustring) \<Rightarrow> ustring \<Rightarrow> ustring" where
  "hashCredential sha v = sha (js_trim v)"

definition credentialMatches :: "(ustring \<Rightarrow> ustring) \<Rightarrow> ustring \<Rightarrow> ustring \<Rightarrow> bool" where
  "credentialMatches sha provided storedHash \<longleftrightarrow> hashCredential sha provided = storedHash"

definition tagged_key :: "(ustring \<Rightarrow> ustring) \<Rightarrow> string \<Rightarrow> ustring \<Rightarrow> minted_key" where
  "tagged_key sha tag secret =
     \<lparr>ky_key = asc tag @ secret, ky_prefix = keyPrefix (asc tag @ secret), ky_hash = hashCredential sha (asc tag @ secret)\<rparr>"

definition newApiKey :: "(ustring \<Rightarrow> ustring) \<Rightarrow> ustring \<Rightarrow> minted_key" where "newApiKey sha secret = tagged_key sha ''rk_'' secret"
definition newEnrollmentCode :: "(ustring \<Rightarrow> ustring) \<Rightarrow> ustring \<Rightarrow> minted_key" where "newEnrollmentCode sha secret = tagged_key sha ''ec_'' secret"
definition newProvisioningKey :: "(ustring \<Rightarrow> ustring) \<Rightarrow> ustring \<Rightarrow> minted_key" where "newProvisioningKey sha secret = tagged_key sha ''pk_'' secret"
definition newTunnelKey :: "(ustring \<Rightarrow> ustring) \<Rightarrow> ustring \<Rightarrow> minted_key" where "newTunnelKey sha secret = tagged_key sha ''tk_'' secret"
definition newSessionToken :: "(ustring \<Rightarrow> ustring) \<Rightarrow> ustring \<Rightarrow> minted_key" where "newSessionToken sha secret = tagged_key sha ''rs_'' secret"
definition newEmailToken :: "(ustring \<Rightarrow> ustring) \<Rightarrow> ustring \<Rightarrow> minted_key" where "newEmailToken sha secret = tagged_key sha ''et_'' secret"
definition newRegistrationToken :: "(ustring \<Rightarrow> ustring) \<Rightarrow> ustring \<Rightarrow> minted_key" where "newRegistrationToken sha secret = tagged_key sha ''pr_'' secret"

definition newId :: "string \<Rightarrow> ustring \<Rightarrow> ustring" where "newId prefix hex = asc prefix @ 95 # hex"

lemmas new_credential_defs = newApiKey_def newEnrollmentCode_def newProvisioningKey_def newTunnelKey_def newSessionToken_def
  newEmailToken_def newRegistrationToken_def tagged_key_def

text \<open>What is minted holds no blank, so reading it back trims nothing.\<close>

definition url_safe :: "nat \<Rightarrow> bool" where
  "url_safe c \<longleftrightarrow> 48 \<le> c \<and> c \<le> 57 \<or> 65 \<le> c \<and> c \<le> 90 \<or> 97 \<le> c \<and> c \<le> 122 \<or> c = 95 \<or> c = 45"

lemma js_trim_safe: "list_all url_safe s \<Longrightarrow> js_trim s = s"
proof -
  assume "list_all url_safe s"
  moreover have "url_safe c \<Longrightarrow> \<not> js_space c" for c by (auto simp: url_safe_def js_space_def)
  ultimately have plain: "\<forall>c\<in>set s. \<not> js_space c" by (auto simp: list_all_iff)
  have "dropWhile js_space s = s" if "\<forall>c\<in>set s. \<not> js_space c" for s :: ustring
    using that by (cases s) auto
  from this [OF plain] this [of "rev s"] plain show ?thesis by (simp add: js_trim_def)
qed

lemma minted_trim:
  assumes "list_all url_safe secret"
  shows "js_trim (asc ''rk_'' @ secret) = asc ''rk_'' @ secret" "js_trim (asc ''ec_'' @ secret) = asc ''ec_'' @ secret"
    "js_trim (asc ''pk_'' @ secret) = asc ''pk_'' @ secret" "js_trim (asc ''tk_'' @ secret) = asc ''tk_'' @ secret"
    "js_trim (asc ''rs_'' @ secret) = asc ''rs_'' @ secret" "js_trim (asc ''et_'' @ secret) = asc ''et_'' @ secret"
    "js_trim (asc ''pr_'' @ secret) = asc ''pr_'' @ secret"
  using assms by (auto intro!: js_trim_safe simp: asc_def url_safe_def)

subsection \<open>Signing keys\<close>

text \<open>\<open>digest\<close> is SHA-256 on bytes; the canonical text of a public key names its members in order.\<close>

definition keyIdFor :: "(bytes \<Rightarrow> bytes) \<Rightarrow> ustring \<Rightarrow> ustring \<Rightarrow> ustring \<Rightarrow> ustring" where
  "keyIdFor digest crv kty x =
     asc ''k_'' @ take 12 (b64uEncode (digest (utf8_encode (stringify
       (JObj [(asc ''crv'', JStr crv), (asc ''kty'', JStr kty), (asc ''x'', JStr x)])))))"

record 'k signing_key =
  sg_kid :: ustring
  sg_private :: 'k
  sg_jwk :: json

definition active_rows :: "control_db \<Rightarrow> signing_key_row list" where
  "active_rows db = sort_key (\<lambda>r. - sk_createdAt r) (filter (\<lambda>r. sk_retiredAt r = None) (db_signingKeys db))"

definition parse_signing_key :: "(ustring \<Rightarrow> 'k option) \<Rightarrow> (ustring \<Rightarrow> json option) \<Rightarrow> signing_key_row \<Rightarrow> 'k signing_key option" where
  "parse_signing_key private_of parse r =
     (case (private_of (sk_privatePem r), parse (sk_publicJwk r)) of
        (Some k, Some j) \<Rightarrow> Some \<lparr>sg_kid = sk_kid r, sg_private = k, sg_jwk = j\<rparr>
      | _ \<Rightarrow> None)"

definition activeSigningKeys :: "(ustring \<Rightarrow> 'k option) \<Rightarrow> (ustring \<Rightarrow> json option) \<Rightarrow> control_db \<Rightarrow> 'k signing_key list option" where
  "activeSigningKeys private_of parse db = those (map (parse_signing_key private_of parse) (active_rows db))"

definition activePublicKeys :: "(ustring \<Rightarrow> json option) \<Rightarrow> control_db \<Rightarrow> (ustring \<times> json) list option" where
  "activePublicKeys parse db = those (map (\<lambda>r. map_option (Pair (sk_kid r)) (parse (sk_publicJwk r))) (active_rows db))"

record key_pair =
  kp_pem :: ustring
  kp_x :: ustring

definition ed25519_jwk :: "ustring \<Rightarrow> json" where
  "ed25519_jwk x = JObj [(asc ''kty'', JStr (asc ''OKP'')), (asc ''crv'', JStr (asc ''Ed25519'')), (asc ''x'', JStr x)]"

definition mintSigningKey :: "(bytes \<Rightarrow> bytes) \<Rightarrow> key_pair \<Rightarrow> int \<Rightarrow> control_db \<Rightarrow> (ustring \<times> control_db) option" where
  "mintSigningKey digest pair now db =
     (let kid = keyIdFor digest (asc ''Ed25519'') (asc ''OKP'') (kp_x pair) in
      if list_ex (\<lambda>r. sk_kid r = kid) (db_signingKeys db) then None
      else Some (kid, db\<lparr>db_signingKeys := db_signingKeys db @
             [\<lparr>sk_kid = kid, sk_privatePem = kp_pem pair, sk_publicJwk = stringify (ed25519_jwk (kp_x pair)),
               sk_createdAt = now, sk_retiredAt = None\<rparr>]\<rparr>))"

text \<open>The newest active key, minted when there is none.\<close>

definition ensureSigningKey ::
  "(ustring \<Rightarrow> 'k option) \<Rightarrow> (ustring \<Rightarrow> json option) \<Rightarrow> (bytes \<Rightarrow> bytes) \<Rightarrow> key_pair \<Rightarrow> int \<Rightarrow> control_db \<Rightarrow> (ustring \<times> control_db) option" where
  "ensureSigningKey private_of parse digest pair now db =
     (case activeSigningKeys private_of parse db of
        None \<Rightarrow> None
      | Some [] \<Rightarrow> mintSigningKey digest pair now db
      | Some (newest # _) \<Rightarrow> Some (sg_kid newest, db))"

datatype retire_result = Key_retired | Key_not_found | Key_last_active

definition retireSigningKey :: "ustring \<Rightarrow> int \<Rightarrow> control_db \<Rightarrow> retire_result \<times> control_db" where
  "retireSigningKey kid now db =
     (let active = map sk_kid (filter (\<lambda>r. sk_retiredAt r = None) (db_signingKeys db)) in
      if kid \<notin> set active then (Key_not_found, db)
      else if length active \<le> 1 then (Key_last_active, db)
      else (Key_retired, db\<lparr>db_signingKeys :=
             update_where (\<lambda>r. sk_kid r = kid \<and> sk_retiredAt r = None) (\<lambda>r. r\<lparr>sk_retiredAt := Some now\<rparr>) (db_signingKeys db)\<rparr>))"

definition signingKeyRows :: "control_db \<Rightarrow> (ustring \<times> int \<times> int option) list" where
  "signingKeyRows db = map (\<lambda>r. (sk_kid r, sk_createdAt r, sk_retiredAt r)) (sort_key (\<lambda>r. - sk_createdAt r) (db_signingKeys db))"

subsection \<open>Tunnel keys and provisioning keys\<close>

definition resolveTunnelKey :: "(ustring \<Rightarrow> ustring) \<Rightarrow> control_db \<Rightarrow> ustring \<Rightarrow> ustring option" where
  "resolveTunnelKey sha db presented =
     (let key = js_trim presented in
      if key = [] then None
      else case List.find (\<lambda>(t, m). credentialMatches sha key (mt_hash t))
          [(t, m). t \<leftarrow> db_tunnelKeys db, mt_prefix t = keyPrefix key, m \<leftarrow> db_machines db, ma_id m = mt_machine t] of
        None \<Rightarrow> None
      | Some (t, m) \<Rightarrow> if mt_revokedAt t \<noteq> None \<or> ma_revokedAt m \<noteq> None then None else Some (mt_machine t))"

definition issueTunnelKey :: "(ustring \<Rightarrow> ustring) \<Rightarrow> ustring \<Rightarrow> ustring \<Rightarrow> ustring \<Rightarrow> int \<Rightarrow> control_db \<Rightarrow> (ustring \<times> control_db) option" where
  "issueTunnelKey sha secret hex machineId now db =
     (let tunnel = newTunnelKey sha secret; keyId = newId ''mt'' hex in
      if list_ex (\<lambda>t. mt_id t = keyId) (db_tunnelKeys db) then None
      else Some (ky_key tunnel, db\<lparr>db_tunnelKeys :=
        update_where (\<lambda>t. mt_machine t = machineId \<and> mt_revokedAt t = None) (\<lambda>t. t\<lparr>mt_revokedAt := Some now\<rparr>) (db_tunnelKeys db) @
        [\<lparr>mt_id = keyId, mt_machine = machineId, mt_prefix = ky_prefix tunnel, mt_hash = ky_hash tunnel,
          mt_createdAt = now, mt_revokedAt = None\<rparr>]\<rparr>))"

definition resolveProvisioningKey :: "(ustring \<Rightarrow> ustring) \<Rightarrow> control_db \<Rightarrow> ustring \<Rightarrow> ustring option" where
  "resolveProvisioningKey sha db presented =
     (let key = js_trim presented in
      if key = [] then None
      else case List.find (\<lambda>r. credentialMatches sha key (pk_hash r)) (filter (\<lambda>r. pk_prefix r = keyPrefix key) (db_provisioning db)) of
        None \<Rightarrow> None
      | Some r \<Rightarrow> if pk_revokedAt r \<noteq> None then None else Some (pk_id r))"

definition hasProvisioningKey :: "control_db \<Rightarrow> bool" where
  "hasProvisioningKey db \<longleftrightarrow> list_ex (\<lambda>r. pk_revokedAt r = None) (db_provisioning db)"

definition mintProvisioningKey ::
  "(ustring \<Rightarrow> ustring) \<Rightarrow> ustring \<Rightarrow> ustring \<Rightarrow> ustring option \<Rightarrow> int \<Rightarrow> control_db \<Rightarrow> (ustring \<times> control_db) option" where
  "mintProvisioningKey sha secret hex createdBy now db =
     (let minted = newProvisioningKey sha secret; keyId = newId ''pk'' hex in
      if list_ex (\<lambda>r. pk_id r = keyId) (db_provisioning db) then None
      else Some (ky_key minted, db\<lparr>db_provisioning :=
        update_where (\<lambda>r. pk_revokedAt r = None) (\<lambda>r. r\<lparr>pk_revokedAt := Some now\<rparr>) (db_provisioning db) @
        [\<lparr>pk_id = keyId, pk_prefix = ky_prefix minted, pk_hash = ky_hash minted, pk_createdAt = now,
          pk_createdBy = createdBy, pk_revokedAt = None\<rparr>]\<rparr>))"

subsection \<open>Enrollment codes\<close>

definition ENROLLMENT_RETENTION_MS :: int where "ENROLLMENT_RETENTION_MS = 7 * 24 * 60 * 60 * 1000"

definition pruneEnrollmentCodes :: "int \<Rightarrow> control_db \<Rightarrow> nat \<times> control_db" where
  "pruneEnrollmentCodes now db =
     (let old = (\<lambda>r. (case ec_usedAt r of None \<Rightarrow> ec_expiresAt r | Some t \<Rightarrow> t) < now - ENROLLMENT_RETENTION_MS)
      in (count_where old (db_codes db), db\<lparr>db_codes := delete_where old (db_codes db)\<rparr>))"

text \<open>Every unused code that satisfies \<open>p\<close> is marked used, by whom or for what in \<open>from\<close>.\<close>

definition burn_codes :: "(code_row \<Rightarrow> bool) \<Rightarrow> ustring \<Rightarrow> int \<Rightarrow> control_db \<Rightarrow> nat \<times> control_db" where
  "burn_codes p usedFrom now db =
     (count_where (\<lambda>r. ec_usedAt r = None \<and> p r) (db_codes db),
      db\<lparr>db_codes := update_where (\<lambda>r. ec_usedAt r = None \<and> p r) (\<lambda>r. r\<lparr>ec_usedAt := Some now, ec_usedFrom := Some usedFrom\<rparr>) (db_codes db)\<rparr>)"

definition mintEnrollmentCode ::
  "(ustring \<Rightarrow> ustring) \<Rightarrow> ustring \<Rightarrow> ustring \<Rightarrow> ustring \<Rightarrow> ustring \<Rightarrow> int \<Rightarrow> int \<Rightarrow> control_db \<Rightarrow> ((ustring \<times> int) \<times> control_db) option" where
  "mintEnrollmentCode sha secret hex machineId createdBy ttlMs now db =
     (let minted = newEnrollmentCode sha secret;
          burnt = snd (burn_codes (\<lambda>r. ec_machine r = machineId) (asc ''superseded'') now db);
          codeId = newId ''ec'' hex
      in if list_ex (\<lambda>r. ec_id r = codeId \<or> ec_hash r = ky_hash minted) (db_codes db) then None
         else Some ((ky_key minted, now + ttlMs), burnt\<lparr>db_codes := db_codes burnt @
           [\<lparr>ec_id = codeId, ec_hash = ky_hash minted, ec_machine = machineId, ec_createdBy = createdBy,
             ec_createdAt = now, ec_expiresAt = now + ttlMs, ec_usedAt = None, ec_usedFrom = None\<rparr>]\<rparr>))"

definition burnMachineCodes :: "ustring \<Rightarrow> int \<Rightarrow> control_db \<Rightarrow> nat \<times> control_db" where
  "burnMachineCodes machineId now db = burn_codes (\<lambda>r. ec_machine r = machineId) (asc ''revoked'') now db"

datatype code_burn_reason = User_deleted | User_disabled

fun burn_reason_name :: "code_burn_reason \<Rightarrow> ustring" where
  "burn_reason_name User_deleted = asc ''user_deleted''"
| "burn_reason_name User_disabled = asc ''user_disabled''"

definition burnUserCodes :: "ustring \<Rightarrow> code_burn_reason \<Rightarrow> int \<Rightarrow> control_db \<Rightarrow> nat \<times> control_db" where
  "burnUserCodes userId reason now db = burn_codes (\<lambda>r. ec_createdBy r = userId) (burn_reason_name reason) now db"

definition burnGranteeCodes :: "ustring \<Rightarrow> code_burn_reason \<Rightarrow> int \<Rightarrow> control_db \<Rightarrow> nat \<times> control_db" where
  "burnGranteeCodes userId reason now db =
     burn_codes (\<lambda>r. ec_machine r \<in> set (map gr_machine (filter (\<lambda>g. gr_user g = userId) (db_grants db)))) (burn_reason_name reason) now db"

subsection \<open>The key a machine announces\<close>

datatype machine_key_pin = Key_pinned | Key_unchanged | Key_mismatch

definition machineKeyFor :: "control_db \<Rightarrow> ustring \<Rightarrow> ustring option" where
  "machineKeyFor db machineId = Option.bind (List.find (\<lambda>m. ma_id m = machineId) (db_machines db)) ma_key"

definition setMachineKey :: "ustring \<Rightarrow> ustring \<Rightarrow> int \<Rightarrow> control_db \<Rightarrow> control_db" where
  "setMachineKey machineId announced now db =
     db\<lparr>db_machines := update_where (\<lambda>m. ma_id m = machineId) (\<lambda>m. m\<lparr>ma_key := Some announced, ma_keySetAt := Some now\<rparr>) (db_machines db)\<rparr>"

definition pinMachineKey :: "ustring \<Rightarrow> ustring \<Rightarrow> int \<Rightarrow> control_db \<Rightarrow> machine_key_pin \<times> control_db" where
  "pinMachineKey machineId announced now db =
     (let empty = (\<lambda>m. ma_id m = machineId \<and> ma_key m = None) in
      if count_where empty (db_machines db) = 1
      then (Key_pinned, db\<lparr>db_machines := update_where empty (\<lambda>m. m\<lparr>ma_key := Some announced, ma_keySetAt := Some now\<rparr>) (db_machines db)\<rparr>)
      else case machineKeyFor db machineId of
        None \<Rightarrow> (Key_unchanged, db)
      | Some held \<Rightarrow> (if held = announced then Key_unchanged else Key_mismatch, db))"

end
