(* ===== verification/Accounts.thy ===== *)
theory Accounts
  imports Credentials
begin

text \<open>
  What an account is made of beside its name: sign-in sessions (\<open>sessions.ts\<close>), the devices they
  are bound to (\<open>devices.ts\<close>), its address and the links mailed to it (\<open>emails.ts\<close>), and sign-ups
  that wait for their confirmation (\<open>registration.ts\<close>), all under
  \<open>src/packages/control-plane/src\<close>. Random text, the hash of a credential and \<open>toLowerCase\<close> are
  arguments; SQLite's \<open>lower()\<close> folds ASCII only. A function that may throw answers an option.
\<close>

subsection \<open>Sessions\<close>

definition SESSION_TTL_MS :: int where "SESSION_TTL_MS = 30 * 24 * 60 * 60 * 1000"
definition SESSION_IDLE_MS :: int where "SESSION_IDLE_MS = 14 * 24 * 60 * 60 * 1000"
definition LAST_SEEN_WRITE_INTERVAL_MS :: int where "LAST_SEEN_WRITE_INTERVAL_MS = 15 * 60 * 1000"
definition MAX_SESSIONS_PER_USER :: nat where "MAX_SESSIONS_PER_USER = 10"
definition MAX_USER_AGENT_CHARS :: nat where "MAX_USER_AGENT_CHARS = 256"
definition MAX_SESSION_ADDRESS_CHARS :: nat where "MAX_SESSION_ADDRESS_CHARS = 64"

definition clamp_text :: "ustring option \<Rightarrow> nat \<Rightarrow> ustring option" where
  "clamp_text v n =
     (case v of None \<Rightarrow> None | Some t \<Rightarrow> if js_trim t = [] then None else Some (take n (js_trim t)))"

record session_origin =
  so_ip :: "ustring option"
  so_userAgent :: "ustring option"

record minted_session =
  mn_token :: ustring
  mn_id :: ustring
  mn_expiresAt :: int

definition live_sessions :: "ustring \<Rightarrow> int \<Rightarrow> control_db \<Rightarrow> session_row list" where
  "live_sessions userId now db =
     sort_key (\<lambda>r. - sn_createdAt r) (filter (\<lambda>r. sn_user r = userId \<and> sn_revokedAt r = None \<and> now < sn_expiresAt r) (db_sessions db))"

definition mintSession ::
  "(ustring \<Rightarrow> ustring) \<Rightarrow> ustring \<Rightarrow> ustring \<Rightarrow> ustring \<Rightarrow> session_origin \<Rightarrow> ustring option \<Rightarrow> int \<Rightarrow> control_db
     \<Rightarrow> (minted_session \<times> control_db) option" where
  "mintSession sha secret hex userId origin deviceId now db =
     (let minted = newSessionToken sha secret;
          newSession = newId ''s'' hex;
          displaced = map sn_id (drop (MAX_SESSIONS_PER_USER - 1) (live_sessions userId now db))
      in if list_ex (\<lambda>r. sn_id r = newSession) (db_sessions db) \<or> db_origins db newSession \<noteq> None then None
         else Some (\<lparr>mn_token = ky_key minted, mn_id = newSession, mn_expiresAt = now + SESSION_TTL_MS\<rparr>,
           db\<lparr>db_sessions :=
                update_where (\<lambda>r. sn_id r \<in> set displaced) (\<lambda>r. r\<lparr>sn_revokedAt := Some now\<rparr>) (db_sessions db) @
                [\<lparr>sn_id = newSession, sn_user = userId, sn_prefix = ky_prefix minted, sn_hash = ky_hash minted, sn_createdAt = now,
                  sn_expiresAt = now + SESSION_TTL_MS, sn_lastSeenAt = now, sn_revokedAt = None, sn_device = deviceId\<rparr>],
              db_origins := (db_origins db)(newSession \<mapsto>
                (clamp_text (so_ip origin) MAX_SESSION_ADDRESS_CHARS, clamp_text (so_userAgent origin) MAX_USER_AGENT_CHARS))\<rparr>))"

datatype session_refusal = Session_unknown | Session_revoked | Session_expired | Session_device_revoked

record resolved_session =
  rv_id :: ustring
  rv_userId :: ustring
  rv_deviceId :: "ustring option"

definition deviceRevoked :: "control_db \<Rightarrow> ustring \<Rightarrow> bool" where
  "deviceRevoked db deviceId =
     (case List.find (\<lambda>d. dv_id d = deviceId) (db_devices db) of None \<Rightarrow> False | Some d \<Rightarrow> dv_revokedAt d \<noteq> None)"

definition resolveSession ::
  "(ustring \<Rightarrow> ustring) \<Rightarrow> control_db \<Rightarrow> ustring \<Rightarrow> int \<Rightarrow> (session_refusal, resolved_session) result" where
  "resolveSession sha db presented now =
     (let token = js_trim presented in
      if token = [] then Inl Session_unknown
      else case List.find (\<lambda>r. credentialMatches sha token (sn_hash r)) (filter (\<lambda>r. sn_prefix r = keyPrefix token) (db_sessions db)) of
        None \<Rightarrow> Inl Session_unknown
      | Some r \<Rightarrow>
          if (case sn_device r of None \<Rightarrow> False | Some d \<Rightarrow> deviceRevoked db d) then Inl Session_device_revoked
          else if sn_revokedAt r \<noteq> None then Inl Session_revoked
          else if sn_expiresAt r \<le> now then Inl Session_expired
          else if SESSION_IDLE_MS < now - sn_lastSeenAt r then Inl Session_expired
          else Inr \<lparr>rv_id = sn_id r, rv_userId = sn_user r, rv_deviceId = sn_device r\<rparr>)"

definition touchSession :: "ustring \<Rightarrow> int \<Rightarrow> control_db \<Rightarrow> control_db" where
  "touchSession sessionId now db = db\<lparr>db_sessions :=
     update_where (\<lambda>r. sn_id r = sessionId \<and> sn_lastSeenAt r < now - LAST_SEEN_WRITE_INTERVAL_MS)
       (\<lambda>r. r\<lparr>sn_lastSeenAt := now\<rparr>) (db_sessions db)\<rparr>"

text \<open>Sessions not yet revoked that satisfy \<open>p\<close> are, and counted.\<close>

definition revoke_where :: "(session_row \<Rightarrow> bool) \<Rightarrow> int \<Rightarrow> control_db \<Rightarrow> nat \<times> control_db" where
  "revoke_where p now db =
     (count_where (\<lambda>r. p r \<and> sn_revokedAt r = None) (db_sessions db),
      db\<lparr>db_sessions := update_where (\<lambda>r. p r \<and> sn_revokedAt r = None) (\<lambda>r. r\<lparr>sn_revokedAt := Some now\<rparr>) (db_sessions db)\<rparr>)"

definition revokeSession :: "ustring \<Rightarrow> int \<Rightarrow> control_db \<Rightarrow> bool \<times> control_db" where
  "revokeSession sessionId now db = (let (n, db') = revoke_where (\<lambda>r. sn_id r = sessionId) now db in (n = 1, db'))"

definition revokeAllSessions :: "ustring \<Rightarrow> ustring option \<Rightarrow> int \<Rightarrow> control_db \<Rightarrow> nat \<times> control_db" where
  "revokeAllSessions userId exceptId now db =
     (case exceptId of
        None \<Rightarrow> revoke_where (\<lambda>r. sn_user r = userId) now db
      | Some kept \<Rightarrow> revoke_where (\<lambda>r. sn_user r = userId \<and> sn_id r \<noteq> kept) now db)"

record session_view =
  sw_sessionId :: ustring
  sw_createdAt :: int
  sw_expiresAt :: int
  sw_lastSeenAt :: int
  sw_ip :: "ustring option"
  sw_userAgent :: "ustring option"
  sw_deviceId :: "ustring option"
  sw_deviceName :: "ustring option"

definition listSessions :: "control_db \<Rightarrow> ustring \<Rightarrow> int \<Rightarrow> session_view list" where
  "listSessions db userId now =
     filter (\<lambda>v. now - sw_lastSeenAt v \<le> SESSION_IDLE_MS)
       (map (\<lambda>r. \<lparr>sw_sessionId = sn_id r, sw_createdAt = sn_createdAt r, sw_expiresAt = sn_expiresAt r, sw_lastSeenAt = sn_lastSeenAt r,
           sw_ip = Option.bind (db_origins db (sn_id r)) fst, sw_userAgent = Option.bind (db_origins db (sn_id r)) snd,
           sw_deviceId = sn_device r,
           sw_deviceName = Option.bind (sn_device r) (\<lambda>d. map_option dv_name (List.find (\<lambda>v. dv_id v = d) (db_devices db)))\<rparr>)
         (live_sessions userId now db))"

definition REVOKED_RETENTION_MS :: int where "REVOKED_RETENTION_MS = 7 * 24 * 60 * 60 * 1000"

definition pruneSessions :: "int \<Rightarrow> control_db \<Rightarrow> nat \<times> control_db" where
  "pruneSessions now db =
     (let old = (\<lambda>r. sn_expiresAt r \<le> now \<or> (case sn_revokedAt r of None \<Rightarrow> False | Some t \<Rightarrow> t \<le> now - REVOKED_RETENTION_MS));
          kept = delete_where old (db_sessions db)
      in (count_where old (db_sessions db),
          db\<lparr>db_sessions := kept, db_origins := (db_origins db) |` set (map sn_id kept)\<rparr>))"

subsection \<open>Devices\<close>

definition MAX_DEVICES_PER_USER :: nat where "MAX_DEVICES_PER_USER = 20"
definition DEVICE_REVOKED_RETENTION_MS :: int where "DEVICE_REVOKED_RETENTION_MS = 30 * 24 * 60 * 60 * 1000"
definition MAX_DEVICE_NAME_CHARS :: nat where "MAX_DEVICE_NAME_CHARS = 128"
definition MAX_DEVICE_PLATFORM_CHARS :: nat where "MAX_DEVICE_PLATFORM_CHARS = 32"
definition MAX_DEVICE_ID_CHARS :: nat where "MAX_DEVICE_ID_CHARS = 64"
definition DEVICE_PUBLIC_KEY_CHARS :: nat where "DEVICE_PUBLIC_KEY_CHARS = 43"

fun clamp_json :: "json option \<Rightarrow> nat \<Rightarrow> ustring option" where
  "clamp_json (Some (JStr t)) n = clamp_text (Some t) n"
| "clamp_json _ n = None"

fun readDevicePublicKey :: "json option \<Rightarrow> ustring option" where
  "readDevicePublicKey (Some (JStr t)) =
     (if length (js_trim t) = DEVICE_PUBLIC_KEY_CHARS \<and> list_all url_safe (js_trim t) then Some (js_trim t) else None)"
| "readDevicePublicKey _ = None"

record device_input =
  di_name :: ustring
  di_platform :: ustring
  di_publicKey :: "ustring option"

definition readDeviceInput :: "json option \<Rightarrow> device_input option" where
  "readDeviceInput v =
     (case v of
        Some (JObj kvs) \<Rightarrow>
          (case (clamp_json (field_of (JObj kvs) (asc ''name'')) MAX_DEVICE_NAME_CHARS,
                 clamp_json (field_of (JObj kvs) (asc ''platform'')) MAX_DEVICE_PLATFORM_CHARS) of
             (Some name, Some platform) \<Rightarrow>
               Some \<lparr>di_name = name, di_platform = platform, di_publicKey = readDevicePublicKey (field_of (JObj kvs) (asc ''publicKey''))\<rparr>
           | _ \<Rightarrow> None)
      | _ \<Rightarrow> None)"

definition readDeviceId :: "json option \<Rightarrow> ustring option" where "readDeviceId v = clamp_json v MAX_DEVICE_ID_CHARS"

definition liveDeviceFor :: "control_db \<Rightarrow> ustring \<Rightarrow> ustring \<Rightarrow> ustring option" where
  "liveDeviceFor db userId deviceId =
     map_option dv_id (List.find (\<lambda>d. dv_id d = deviceId \<and> dv_user d = userId \<and> dv_revokedAt d = None) (db_devices db))"

definition setDeviceKey :: "ustring \<Rightarrow> ustring \<Rightarrow> ustring \<Rightarrow> int \<Rightarrow> control_db \<Rightarrow> control_db" where
  "setDeviceKey userId deviceId publicKey now db = db\<lparr>db_devices :=
     update_where (\<lambda>d. dv_id d = deviceId \<and> dv_user d = userId) (\<lambda>d. d\<lparr>dv_key := Some publicKey, dv_keySetAt := Some now\<rparr>) (db_devices db)\<rparr>"

datatype adopt_failure = Device_limit | Device_insert_failed

definition adoptDevice ::
  "ustring \<Rightarrow> ustring \<Rightarrow> ustring option \<Rightarrow> device_input \<Rightarrow> int \<Rightarrow> control_db \<Rightarrow> (adopt_failure, ustring) result \<times> control_db" where
  "adoptDevice hex userId offeredId offered now db =
     (case Option.bind offeredId (liveDeviceFor db userId) of
        Some adopted \<Rightarrow>
          (let named = db\<lparr>db_devices := update_where (\<lambda>d. dv_id d = adopted)
                 (\<lambda>d. d\<lparr>dv_name := di_name offered, dv_platform := di_platform offered\<rparr>) (db_devices db)\<rparr>
           in (Inr adopted, case di_publicKey offered of None \<Rightarrow> named | Some k \<Rightarrow> setDeviceKey userId adopted k now named))
      | None \<Rightarrow>
          if MAX_DEVICES_PER_USER \<le> count_where (\<lambda>d. dv_user d = userId \<and> dv_revokedAt d = None) (db_devices db) then (Inl Device_limit, db)
          else let newDevice = newId ''dv'' hex in
            if list_ex (\<lambda>d. dv_id d = newDevice) (db_devices db) then (Inl Device_insert_failed, db)
            else (Inr newDevice, db\<lparr>db_devices := db_devices db @
              [\<lparr>dv_id = newDevice, dv_user = userId, dv_name = di_name offered, dv_platform = di_platform offered, dv_createdAt = now,
                dv_revokedAt = None, dv_key = di_publicKey offered, dv_keySetAt = (if di_publicKey offered = None then None else Some now)\<rparr>]\<rparr>))"

definition deviceKeyFor :: "control_db \<Rightarrow> ustring \<Rightarrow> ustring option" where
  "deviceKeyFor db deviceId =
     Option.bind (List.find (\<lambda>d. dv_id d = deviceId \<and> dv_revokedAt d = None) (db_devices db)) dv_key"

definition revokeDevice :: "ustring \<Rightarrow> ustring \<Rightarrow> int \<Rightarrow> control_db \<Rightarrow> nat option \<times> control_db" where
  "revokeDevice userId deviceId now db =
     (let mine = (\<lambda>d. dv_id d = deviceId \<and> dv_user d = userId \<and> dv_revokedAt d = None) in
      if count_where mine (db_devices db) \<noteq> 1 then (None, db)
      else let (n, db') = revoke_where (\<lambda>r. sn_device r = Some deviceId \<and> sn_user r = userId) now
                 (db\<lparr>db_devices := update_where mine (\<lambda>d. d\<lparr>dv_revokedAt := Some now\<rparr>) (db_devices db)\<rparr>)
           in (Some n, db'))"

record device_view =
  dw_id :: ustring
  dw_name :: ustring
  dw_platform :: ustring
  dw_createdAt :: int
  dw_revokedAt :: "int option"
  dw_lastSeenAt :: "int option"
  dw_hasKey :: bool
  dw_keySetAt :: "int option"

definition listDevices :: "control_db \<Rightarrow> ustring \<Rightarrow> int \<Rightarrow> device_view list" where
  "listDevices db userId now =
     map (\<lambda>d. let seen = map sn_lastSeenAt (filter (\<lambda>s. sn_device s = Some (dv_id d)) (db_sessions db)) in
         \<lparr>dw_id = dv_id d, dw_name = dv_name d, dw_platform = dv_platform d, dw_createdAt = dv_createdAt d, dw_revokedAt = dv_revokedAt d,
          dw_lastSeenAt = (if seen = [] then None else Some (Max (set seen))), dw_hasKey = (dv_key d \<noteq> None), dw_keySetAt = dv_keySetAt d\<rparr>)
       (sort_key (\<lambda>d. - dv_createdAt d) (filter (\<lambda>d. dv_user d = userId \<and>
          (case dv_revokedAt d of None \<Rightarrow> True | Some t \<Rightarrow> now - DEVICE_REVOKED_RETENTION_MS < t)) (db_devices db)))"

definition pruneDevices :: "int \<Rightarrow> control_db \<Rightarrow> nat \<times> control_db" where
  "pruneDevices now db =
     (let old = (\<lambda>d. case dv_revokedAt d of None \<Rightarrow> False | Some t \<Rightarrow> t \<le> now - DEVICE_REVOKED_RETENTION_MS)
      in (count_where old (db_devices db),
          db\<lparr>db_devices := delete_where (\<lambda>d. dv_user d \<notin> set (map us_id (db_users db))) (delete_where old (db_devices db))\<rparr>))"

subsection \<open>Addresses and the links mailed to them\<close>

definition VERIFY_TTL_MS :: int where "VERIFY_TTL_MS = 24 * 60 * 60 * 1000"
definition RESET_TTL_MS :: int where "RESET_TTL_MS = 60 * 60 * 1000"
definition INVITE_TTL_MS :: int where "INVITE_TTL_MS = 48 * 60 * 60 * 1000"

datatype token_purpose = Purpose_verify | Purpose_reset

fun purpose_name :: "token_purpose \<Rightarrow> ustring" where
  "purpose_name Purpose_verify = asc ''verify''"
| "purpose_name Purpose_reset = asc ''reset''"

definition emailOf :: "control_db \<Rightarrow> ustring \<Rightarrow> (ustring \<times> ustring \<times> int option) option" where
  "emailOf db userId =
     map_option (\<lambda>e. (em_email e, em_folded e, em_verifiedAt e)) (List.find (\<lambda>e. em_user e = userId) (db_emails db))"

definition verifiedOwnerOf :: "control_db \<Rightarrow> ustring \<Rightarrow> ustring option" where
  "verifiedOwnerOf db emailFolded =
     map_option em_user (List.find (\<lambda>e. em_folded e = emailFolded \<and> em_verifiedAt e \<noteq> None) (db_emails db))"

text \<open>\<open>INSERT \<dots> ON CONFLICT(user_id) DO UPDATE\<close>; an unverified address takes part in no unique index.\<close>

definition setEmail :: "(ustring \<Rightarrow> ustring) \<Rightarrow> ustring \<Rightarrow> ustring \<Rightarrow> int \<Rightarrow> control_db \<Rightarrow> control_db" where
  "setEmail lower userId email now db =
     (let row = \<lparr>em_user = userId, em_email = email, em_folded = foldEmail lower email, em_verifiedAt = None, em_updatedAt = now\<rparr> in
      if list_ex (\<lambda>e. em_user e = userId) (db_emails db)
      then db\<lparr>db_emails := update_where (\<lambda>e. em_user e = userId) (\<lambda>_. row) (db_emails db)\<rparr>
      else db\<lparr>db_emails := db_emails db @ [row]\<rparr>)"

text \<open>Marks the row verified; \<open>None\<close> where somebody else's verified row holds the address.\<close>

definition markVerified :: "ustring \<Rightarrow> ustring \<Rightarrow> int \<Rightarrow> control_db \<Rightarrow> (bool \<times> control_db) option" where
  "markVerified userId emailFolded now db =
     (let mine = (\<lambda>e. em_user e = userId \<and> em_folded e = emailFolded) in
      if list_ex mine (db_emails db) \<and> list_ex (\<lambda>e. \<not> mine e \<and> em_folded e = emailFolded \<and> em_verifiedAt e \<noteq> None) (db_emails db) then None
      else Some (count_where mine (db_emails db) = 1,
        db\<lparr>db_emails := update_where mine (\<lambda>e. e\<lparr>em_verifiedAt := Some now, em_updatedAt := now\<rparr>) (db_emails db)\<rparr>))"

definition burn_links :: "(email_token_row \<Rightarrow> bool) \<Rightarrow> ustring \<Rightarrow> int \<Rightarrow> control_db \<Rightarrow> nat \<times> control_db" where
  "burn_links p usedFrom now db =
     (count_where (\<lambda>t. p t \<and> ut_usedAt t = None) (db_emailTokens db),
      db\<lparr>db_emailTokens := update_where (\<lambda>t. p t \<and> ut_usedAt t = None) (\<lambda>t. t\<lparr>ut_usedAt := Some now, ut_usedFrom := Some usedFrom\<rparr>) (db_emailTokens db)\<rparr>)"

definition mintEmailToken ::
  "(ustring \<Rightarrow> ustring) \<Rightarrow> ustring \<Rightarrow> ustring \<Rightarrow> ustring \<Rightarrow> token_purpose \<Rightarrow> ustring \<Rightarrow> int \<Rightarrow> int \<Rightarrow> control_db
     \<Rightarrow> ((ustring \<times> int) \<times> control_db) option" where
  "mintEmailToken sha secret hex userId purpose emailFolded ttlMs now db =
     (let minted = newEmailToken sha secret; newToken = newId ''ut'' hex;
          burnt = snd (burn_links (\<lambda>t. ut_user t = userId \<and> ut_purpose t = purpose_name purpose) (asc ''superseded'') now db)
      in if list_ex (\<lambda>t. ut_id t = newToken \<or> ut_hash t = ky_hash minted) (db_emailTokens db) then None
         else Some ((ky_key minted, now + ttlMs), burnt\<lparr>db_emailTokens := db_emailTokens burnt @
           [\<lparr>ut_id = newToken, ut_user = userId, ut_purpose = purpose_name purpose, ut_hash = ky_hash minted, ut_folded = emailFolded,
             ut_createdAt = now, ut_expiresAt = now + ttlMs, ut_usedAt = None, ut_usedFrom = None\<rparr>]\<rparr>))"

definition usable_link :: "(ustring \<Rightarrow> ustring) \<Rightarrow> ustring \<Rightarrow> int \<Rightarrow> email_token_row \<Rightarrow> bool" where
  "usable_link sha token now t \<longleftrightarrow> ut_hash t = hashCredential sha token \<and> ut_usedAt t = None \<and> now < ut_expiresAt t"

definition readEmailToken :: "(ustring \<Rightarrow> ustring) \<Rightarrow> control_db \<Rightarrow> ustring \<Rightarrow> int \<Rightarrow> email_token_row option" where
  "readEmailToken sha db token now = List.find (usable_link sha token now) (db_emailTokens db)"

definition claimEmailToken :: "(ustring \<Rightarrow> ustring) \<Rightarrow> ustring \<Rightarrow> ustring \<Rightarrow> int \<Rightarrow> control_db \<Rightarrow> bool \<times> control_db" where
  "claimEmailToken sha token claimant now db =
     (count_where (usable_link sha token now) (db_emailTokens db) = 1,
      db\<lparr>db_emailTokens := update_where (usable_link sha token now) (\<lambda>t. t\<lparr>ut_usedAt := Some now, ut_usedFrom := Some claimant\<rparr>) (db_emailTokens db)\<rparr>)"

datatype token_burn_reason = Burn_superseded | Burn_password_changed | Burn_email_changed | Burn_user_disabled | Burn_user_deleted

fun burn_name :: "token_burn_reason \<Rightarrow> ustring" where
  "burn_name Burn_superseded = asc ''superseded''"
| "burn_name Burn_password_changed = asc ''password_changed''"
| "burn_name Burn_email_changed = asc ''email_changed''"
| "burn_name Burn_user_disabled = asc ''user_disabled''"
| "burn_name Burn_user_deleted = asc ''user_deleted''"

definition burnEmailTokens :: "ustring \<Rightarrow> token_burn_reason \<Rightarrow> int \<Rightarrow> token_purpose option \<Rightarrow> control_db \<Rightarrow> nat \<times> control_db" where
  "burnEmailTokens userId reason now purpose db =
     burn_links (\<lambda>t. ut_user t = userId \<and> (case purpose of None \<Rightarrow> True | Some p \<Rightarrow> ut_purpose t = purpose_name p)) (burn_name reason) now db"

definition deleteEmailState :: "ustring \<Rightarrow> control_db \<Rightarrow> control_db" where
  "deleteEmailState userId db =
     db\<lparr>db_emailTokens := delete_where (\<lambda>t. ut_user t = userId) (db_emailTokens db),
        db_emails := delete_where (\<lambda>e. em_user e = userId) (db_emails db)\<rparr>"

definition pruneEmailTokens :: "int \<Rightarrow> control_db \<Rightarrow> nat \<times> control_db" where
  "pruneEmailTokens now db =
     (let old = (\<lambda>t. ut_expiresAt t < now - VERIFY_TTL_MS)
      in (count_where old (db_emailTokens db), db\<lparr>db_emailTokens := delete_where old (db_emailTokens db)\<rparr>))"

subsection \<open>Sign-ups that wait\<close>

definition REGISTRATION_TTL_MS :: int where "REGISTRATION_TTL_MS = 24 * 60 * 60 * 1000"

datatype registration_burn_reason = Registration_superseded | Registration_name_taken | Registration_email_taken

fun registration_burn_name :: "registration_burn_reason \<Rightarrow> ustring" where
  "registration_burn_name Registration_superseded = asc ''superseded''"
| "registration_burn_name Registration_name_taken = asc ''name_taken''"
| "registration_burn_name Registration_email_taken = asc ''email_taken''"

definition foldName :: "(ustring \<Rightarrow> ustring) \<Rightarrow> ustring \<Rightarrow> ustring" where "foldName lower raw = lower (js_trim raw)"

definition waiting :: "int \<Rightarrow> pending_row \<Rightarrow> bool" where
  "waiting now p \<longleftrightarrow> pn_usedAt p = None \<and> now < pn_expiresAt p"

definition nameTaken :: "(ustring \<Rightarrow> ustring) \<Rightarrow> control_db \<Rightarrow> ustring \<Rightarrow> int \<Rightarrow> bool" where
  "nameTaken lower db name now \<longleftrightarrow>
     list_ex (\<lambda>u. lowered (us_name u) = foldName lower name) (db_users db) \<or>
     list_ex (\<lambda>p. pn_nameFolded p = foldName lower name \<and> waiting now p) (db_pending db)"

definition nameTakenByAnother :: "(ustring \<Rightarrow> ustring) \<Rightarrow> control_db \<Rightarrow> ustring \<Rightarrow> ustring option \<Rightarrow> int \<Rightarrow> bool" where
  "nameTakenByAnother lower db name emailFolded now \<longleftrightarrow>
     list_ex (\<lambda>u. lowered (us_name u) = foldName lower name) (db_users db) \<or>
     list_ex (\<lambda>p. pn_nameFolded p = foldName lower name \<and> waiting now p \<and> Some (pn_emailFolded p) \<noteq> emailFolded) (db_pending db)"

definition pendingForEmail :: "control_db \<Rightarrow> ustring \<Rightarrow> int \<Rightarrow> pending_row option" where
  "pendingForEmail db emailFolded now =
     (case sort_key (\<lambda>p. - pn_createdAt p) (filter (\<lambda>p. pn_emailFolded p = emailFolded \<and> waiting now p) (db_pending db)) of
        [] \<Rightarrow> None | p # _ \<Rightarrow> Some p)"

record registration_input =
  ri_name :: ustring
  ri_email :: ustring
  ri_passwordHash :: ustring

definition mintRegistration ::
  "(ustring \<Rightarrow> ustring) \<Rightarrow> (ustring \<Rightarrow> ustring) \<Rightarrow> ustring \<Rightarrow> ustring \<Rightarrow> registration_input \<Rightarrow> int \<Rightarrow> int \<Rightarrow> control_db
     \<Rightarrow> ((ustring \<times> int) \<times> control_db) option" where
  "mintRegistration lower sha secret hex offered ttlMs now db =
     (let minted = newRegistrationToken sha secret; newRow = newId ''pr'' hex;
          emailFolded = foldEmail lower (ri_email offered); nameFolded = foldName lower (ri_name offered)
      in if list_ex (\<lambda>p. pn_id p = newRow \<or> pn_hash p = ky_hash minted) (db_pending db) then None
         else Some ((ky_key minted, now + ttlMs), db\<lparr>db_pending :=
           update_where (\<lambda>p. pn_emailFolded p = emailFolded \<and> pn_nameFolded p = nameFolded \<and> pn_usedAt p = None)
             (\<lambda>p. p\<lparr>pn_usedAt := Some now, pn_usedFrom := Some (registration_burn_name Registration_superseded)\<rparr>) (db_pending db) @
           [\<lparr>pn_id = newRow, pn_hash = ky_hash minted, pn_name = ri_name offered, pn_nameFolded = nameFolded, pn_email = ri_email offered,
             pn_emailFolded = emailFolded, pn_passwordHash = ri_passwordHash offered, pn_createdAt = now, pn_expiresAt = now + ttlMs,
             pn_usedAt = None, pn_usedFrom = None\<rparr>]\<rparr>))"

definition claimRegistration ::
  "(ustring \<Rightarrow> ustring) \<Rightarrow> ustring \<Rightarrow> ustring \<Rightarrow> int \<Rightarrow> control_db \<Rightarrow> pending_row option \<times> control_db" where
  "claimRegistration sha token claimant now db =
     (let mine = (\<lambda>p. pn_hash p = hashCredential sha token \<and> waiting now p);
          claimed = db\<lparr>db_pending := update_where mine (\<lambda>p. p\<lparr>pn_usedAt := Some now, pn_usedFrom := Some claimant\<rparr>) (db_pending db)\<rparr>
      in if count_where mine (db_pending db) \<noteq> 1 then (None, claimed)
         else (List.find (\<lambda>p. pn_hash p = hashCredential sha token) (db_pending claimed), claimed))"

definition burnRegistration :: "ustring \<Rightarrow> registration_burn_reason \<Rightarrow> int \<Rightarrow> control_db \<Rightarrow> control_db" where
  "burnRegistration rowId reason now db = db\<lparr>db_pending :=
     update_where (\<lambda>p. pn_id p = rowId) (\<lambda>p. p\<lparr>pn_usedAt := Some now, pn_usedFrom := Some (registration_burn_name reason)\<rparr>) (db_pending db)\<rparr>"

definition pruneRegistrations :: "int \<Rightarrow> control_db \<Rightarrow> nat \<times> control_db" where
  "pruneRegistrations now db =
     (let old = (\<lambda>p. pn_expiresAt p < now - REGISTRATION_TTL_MS)
      in (count_where old (db_pending db), db\<lparr>db_pending := delete_where old (db_pending db)\<rparr>))"

subsection \<open>Properties\<close>

lemma in_live_sessions: "r \<in> set (live_sessions u now db) \<longleftrightarrow>
    r \<in> set (db_sessions db) \<and> sn_user r = u \<and> sn_revokedAt r = None \<and> now < sn_expiresAt r"
  by (auto simp: live_sessions_def)

lemma distinct_live_sessions:
  assumes "distinct (map sn_id (db_sessions db))"
  shows "distinct (map sn_id (live_sessions u now db))"
  using assms by (auto simp: live_sessions_def distinct_map inj_on_def)

lemma length_live_sessions:
  "length (live_sessions u now db) = count_where (\<lambda>r. sn_user r = u \<and> sn_revokedAt r = None \<and> now < sn_expiresAt r) (db_sessions db)"
  by (simp add: live_sessions_def count_where_def)

lemma distinct_within: "set xs \<subseteq> set ys \<Longrightarrow> distinct xs \<Longrightarrow> length xs \<le> length ys"
  using card_mono [of "set ys" "set xs"] card_length [of ys] distinct_card [of xs] by simp

text \<open>
  C30. Nobody has more than ten live sessions. Signing in revokes what the new session displaces:
  the sessions beyond the nine newest, so that with the new one at most ten are neither revoked
  nor expired; the new one is, and nobody else's session is touched.
\<close>

theorem sessions_are_bounded:
  assumes "distinct (map sn_id (db_sessions db))"
    and "mintSession sha secret hex u origin d now db = Some (minted, db')"
  shows "length (live_sessions u now db') \<le> MAX_SESSIONS_PER_USER
    \<and> mn_id minted \<in> sn_id ` set (live_sessions u now db')
    \<and> (\<forall>v. v \<noteq> u \<longrightarrow> live_sessions v now db' = live_sessions v now db)"
proof -
  define kept where "kept = take (MAX_SESSIONS_PER_USER - 1) (live_sessions u now db)"
  define displaced where "displaced = map sn_id (drop (MAX_SESSIONS_PER_USER - 1) (live_sessions u now db))"
  define new where "new = \<lparr>sn_id = mn_id minted, sn_user = u, sn_prefix = ky_prefix (newSessionToken sha secret),
    sn_hash = ky_hash (newSessionToken sha secret), sn_createdAt = now, sn_expiresAt = now + SESSION_TTL_MS, sn_lastSeenAt = now,
    sn_revokedAt = None, sn_device = d\<rparr>"
  have rows: "db_sessions db' = update_where (\<lambda>r. sn_id r \<in> set displaced) (\<lambda>r. r\<lparr>sn_revokedAt := Some now\<rparr>) (db_sessions db) @ [new]"
    using assms(2) by (auto simp: mintSession_def Let_def displaced_def new_def split: if_splits)
  have new: "sn_user new = u" "sn_revokedAt new = None" "sn_expiresAt new = now + SESSION_TTL_MS" "sn_id new = mn_id minted"
    by (simp_all add: new_def)
  let ?live = "\<lambda>r. sn_user r = u \<and> sn_revokedAt r = None \<and> now < sn_expiresAt r"
  have ids: "distinct (map sn_id (live_sessions u now db))" by (rule distinct_live_sessions [OF assms(1)])
  have left: "filter ?live (update_where (\<lambda>r. sn_id r \<in> set displaced) (\<lambda>r. r\<lparr>sn_revokedAt := Some now\<rparr>) t)
      = filter (\<lambda>r. ?live r \<and> sn_id r \<notin> set displaced) t" for t
    by (induction t) auto
  have "set (filter (\<lambda>r. ?live r \<and> sn_id r \<notin> set displaced) (db_sessions db)) \<subseteq> set kept"
  proof
    fix r assume r: "r \<in> set (filter (\<lambda>r. ?live r \<and> sn_id r \<notin> set displaced) (db_sessions db))"
    then have "r \<in> set (kept @ drop (MAX_SESSIONS_PER_USER - 1) (live_sessions u now db))"
      by (simp add: kept_def in_live_sessions)
    with r show "r \<in> set kept" by (auto simp: displaced_def)
  qed
  moreover have "distinct (filter (\<lambda>r. ?live r \<and> sn_id r \<notin> set displaced) (db_sessions db))"
    using assms(1) by (simp add: distinct_map)
  ultimately have "length (filter (\<lambda>r. ?live r \<and> sn_id r \<notin> set displaced) (db_sessions db)) \<le> length kept"
    by (rule distinct_within)
  then have "length (live_sessions u now db') \<le> MAX_SESSIONS_PER_USER"
    using new by (simp add: length_live_sessions count_where_def rows left kept_def MAX_SESSIONS_PER_USER_def)
  moreover have "new \<in> set (live_sessions u now db')"
    using new by (simp add: in_live_sessions rows SESSION_TTL_MS_def)
  moreover have "live_sessions v now db' = live_sessions v now db" if v: "v \<noteq> u" for v
  proof -
    have "filter (\<lambda>r. sn_user r = v \<and> sn_revokedAt r = None \<and> now < sn_expiresAt r)
        (update_where (\<lambda>r. sn_id r \<in> set displaced) (\<lambda>r. r\<lparr>sn_revokedAt := Some now\<rparr>) t)
      = filter (\<lambda>r. sn_user r = v \<and> sn_revokedAt r = None \<and> now < sn_expiresAt r) t" if "set t \<subseteq> set (db_sessions db)" for t
      using that
    proof (induction t)
      case (Cons r t)
      have "sn_user r = u" if "sn_id r \<in> set displaced"
      proof -
        from that obtain q where q: "q \<in> set (live_sessions u now db)" "sn_id q = sn_id r"
          by (auto simp: displaced_def dest: in_set_dropD)
        then have "q = r" using same_key [OF assms(1), of q r] Cons.prems by (simp add: in_live_sessions)
        with q show ?thesis by (simp add: in_live_sessions)
      qed
      with v Cons show ?case by auto
    qed simp
    from this [of "db_sessions db"] v new show ?thesis by (simp add: live_sessions_def rows)
  qed
  ultimately show ?thesis using new(4) by (metis imageI)
qed

theorem sessions_are_bounded_witness:
  "\<exists>minted db'. mintSession (\<lambda>s. s) [1] [2] [9] \<lparr>so_ip = None, so_userAgent = None\<rparr> None 0 empty_db = Some (minted, db')
     \<and> length (live_sessions [9] 0 db') \<le> 10"
proof -
  have "mintSession (\<lambda>s. s) [1] [2] [9] \<lparr>so_ip = None, so_userAgent = None\<rparr> None 0 empty_db \<noteq> None"
    by (simp add: mintSession_def empty_db_def Let_def)
  then obtain minted db' where "mintSession (\<lambda>s. s) [1] [2] [9] \<lparr>so_ip = None, so_userAgent = None\<rparr> None 0 empty_db = Some (minted, db')" by auto
  with sessions_are_bounded [of empty_db "\<lambda>s. s" "[1]" "[2]" "[9]"] show ?thesis
    by (auto simp: empty_db_def MAX_SESSIONS_PER_USER_def)
qed

lemma resolved_row:
  assumes "resolveSession sha db presented t = Inr s"
  obtains r where "r \<in> set (db_sessions db)" and "s = \<lparr>rv_id = sn_id r, rv_userId = sn_user r, rv_deviceId = sn_device r\<rparr>"
    and "\<And>d. sn_device r = Some d \<Longrightarrow> \<not> deviceRevoked db d" and "sn_revokedAt r = None"
    and "t < sn_expiresAt r" and "t - sn_lastSeenAt r \<le> SESSION_IDLE_MS" and "credentialMatches sha (js_trim presented) (sn_hash r)"
proof -
  obtain r where found: "List.find (\<lambda>r. credentialMatches sha (js_trim presented) (sn_hash r))
      (filter (\<lambda>r. sn_prefix r = keyPrefix (js_trim presented)) (db_sessions db)) = Some r"
    using assms by (auto simp: resolveSession_def Let_def split: if_splits option.splits)
  show thesis
    using assms found find_in [OF found] by (intro that [of r]) (auto simp: resolveSession_def Let_def split: if_splits)
qed

text \<open>
  What may happen to the sessions afterwards: anybody signs in, sessions are used, ended one by one or
  all of an account's but one (a password change is the latter), devices are retired, rows pruned.
\<close>

datatype session_act =
    Signs_in ustring ustring ustring session_origin "ustring option" int
  | Uses ustring int
  | Signs_out ustring int
  | Signs_out_all ustring "ustring option" int
  | Retires ustring ustring int
  | Prunes_sessions int
  | Prunes_devices int

fun do_session_act :: "(ustring \<Rightarrow> ustring) \<Rightarrow> session_act \<Rightarrow> control_db \<Rightarrow> control_db" where
  "do_session_act sha (Signs_in secret hex u origin d now) db = (case mintSession sha secret hex u origin d now db of None \<Rightarrow> db | Some (_, db') \<Rightarrow> db')"
| "do_session_act sha (Uses i now) db = touchSession i now db"
| "do_session_act sha (Signs_out i now) db = snd (revokeSession i now db)"
| "do_session_act sha (Signs_out_all u kept now) db = snd (revokeAllSessions u kept now db)"
| "do_session_act sha (Retires u d now) db = snd (revokeDevice u d now db)"
| "do_session_act sha (Prunes_sessions now) db = snd (pruneSessions now db)"
| "do_session_act sha (Prunes_devices now) db = snd (pruneDevices now db)"

text \<open>No sign-in draws the identifier anew.\<close>

fun undrawn :: "ustring \<Rightarrow> session_act \<Rightarrow> bool" where
  "undrawn i (Signs_in secret hex u origin d now) \<longleftrightarrow> newId ''s'' hex \<noteq> i"
| "undrawn i _ \<longleftrightarrow> True"

text \<open>The columns of a session no statement writes again.\<close>

definition lasting :: "session_row \<Rightarrow> ustring \<times> ustring \<times> ustring \<times> int \<times> ustring option" where
  "lasting r = (sn_user r, sn_prefix r, sn_hash r, sn_expiresAt r, sn_device r)"

definition session_lasts :: "ustring \<Rightarrow> ustring \<times> ustring \<times> ustring \<times> int \<times> ustring option \<Rightarrow> control_db \<Rightarrow> bool" where
  "session_lasts i columns db \<longleftrightarrow> distinct (map sn_id (db_sessions db)) \<and> (\<forall>r\<in>set (db_sessions db). sn_id r = i \<longrightarrow> lasting r = columns)"

lemma session_lasts_update:
  assumes "session_lasts i columns db" and "\<And>r. sn_id (f r) = sn_id r \<and> lasting (f r) = lasting r"
    and "db_sessions db' = update_where p f (db_sessions db)"
  shows "session_lasts i columns db'"
  unfolding session_lasts_def
proof (intro conjI ballI impI)
  show "distinct (map sn_id (db_sessions db'))" using assms by (simp add: session_lasts_def map_update_where)
  fix r assume r: "r \<in> set (db_sessions db')" "sn_id r = i"
  from r(1) show "lasting r = columns" unfolding assms(3)
    by (rule in_update_whereE) (use assms(1,2) r(2) in \<open>auto simp: session_lasts_def\<close>)
qed

lemma session_lasts_filter:
  "session_lasts i columns db \<Longrightarrow> db_sessions db' = delete_where p (db_sessions db) \<Longrightarrow> session_lasts i columns db'"
  by (simp add: session_lasts_def distinct_delete_where)

lemma mintSession_rows:
  assumes "mintSession sha secret hex u origin d now db = Some (minted, db')"
  obtains displaced new where "db_sessions db' = update_where (\<lambda>r. sn_id r \<in> set displaced) (\<lambda>r. r\<lparr>sn_revokedAt := Some now\<rparr>) (db_sessions db) @ [new]"
    and "sn_id new = newId ''s'' hex" and "mn_id minted = newId ''s'' hex" and "\<forall>r\<in>set (db_sessions db). sn_id r \<noteq> newId ''s'' hex"
    and "sn_lastSeenAt new = now" and "sn_revokedAt new = None" and "lasting new = (u, keyPrefix (mn_token minted), ky_hash (newSessionToken sha secret), now + SESSION_TTL_MS, d)"
    and "mn_token minted = asc ''rs_'' @ secret" and "ky_hash (newSessionToken sha secret) = hashCredential sha (mn_token minted)"
    and "db_devices db' = db_devices db"
proof
  let ?new = "last (db_sessions db')" let ?displaced = "map sn_id (drop (MAX_SESSIONS_PER_USER - 1) (live_sessions u now db))"
  show "db_sessions db' = update_where (\<lambda>r. sn_id r \<in> set ?displaced) (\<lambda>r. r\<lparr>sn_revokedAt := Some now\<rparr>) (db_sessions db) @ [?new]"
    "sn_id ?new = newId ''s'' hex" "mn_id minted = newId ''s'' hex" "\<forall>r\<in>set (db_sessions db). sn_id r \<noteq> newId ''s'' hex"
    "sn_lastSeenAt ?new = now" "sn_revokedAt ?new = None" "lasting ?new = (u, keyPrefix (mn_token minted), ky_hash (newSessionToken sha secret), now + SESSION_TTL_MS, d)"
    "mn_token minted = asc ''rs_'' @ secret" "ky_hash (newSessionToken sha secret) = hashCredential sha (mn_token minted)" "db_devices db' = db_devices db"
    using assms by (auto simp: mintSession_def new_credential_defs lasting_def list_ex_iff Let_def split: if_splits)
qed

lemma session_lasts_act:
  assumes "session_lasts i columns db" and "undrawn i act"
  shows "session_lasts i columns (do_session_act sha act db)"
proof (cases act)
  case (Signs_in secret hex u origin d now)
  show ?thesis
  proof (cases "mintSession sha secret hex u origin d now db")
    case None
    with assms(1) show ?thesis by (simp add: Signs_in)
  next
    case (Some m)
    obtain minted db' where m: "mintSession sha secret hex u origin d now db = Some (minted, db')" using Some by (cases m) auto
    from m obtain displaced new where rows: "db_sessions db' = update_where (\<lambda>r. sn_id r \<in> set displaced) (\<lambda>r. r\<lparr>sn_revokedAt := Some now\<rparr>) (db_sessions db) @ [new]"
      and new: "sn_id new = newId ''s'' hex" "\<forall>r\<in>set (db_sessions db). sn_id r \<noteq> newId ''s'' hex" by (rule mintSession_rows)
    define kept where "kept = db\<lparr>db_sessions := update_where (\<lambda>r. sn_id r \<in> set displaced) (\<lambda>r. r\<lparr>sn_revokedAt := Some now\<rparr>) (db_sessions db)\<rparr>"
    have "session_lasts i columns kept" by (rule session_lasts_update [OF assms(1)]) (simp_all add: kept_def lasting_def)
    moreover have "sn_id new \<notin> set (map sn_id (db_sessions kept))"
    proof -
      have "map sn_id (db_sessions kept) = map sn_id (db_sessions db)" by (simp add: kept_def map_update_where)
      then show ?thesis using new by (metis imageE list.set_map)
    qed
    ultimately have "session_lasts i columns db'" using new assms(2) Signs_in by (auto simp: session_lasts_def rows kept_def)
    then show ?thesis by (simp add: Signs_in m)
  qed
next
  case (Uses j now)
  show ?thesis unfolding Uses do_session_act.simps by (rule session_lasts_update [OF assms(1), where f = "\<lambda>r. r\<lparr>sn_lastSeenAt := now\<rparr>"]) (simp_all add: touchSession_def lasting_def)
next
  case (Signs_out j now)
  show ?thesis unfolding Signs_out do_session_act.simps
    by (rule session_lasts_update [OF assms(1), where f = "\<lambda>r. r\<lparr>sn_revokedAt := Some now\<rparr>"]) (simp_all add: revokeSession_def revoke_where_def lasting_def)
next
  case (Signs_out_all u kept now)
  show ?thesis unfolding Signs_out_all do_session_act.simps
    by (rule session_lasts_update [OF assms(1), where f = "\<lambda>r. r\<lparr>sn_revokedAt := Some now\<rparr>" and
          p = "\<lambda>r. (sn_user r = u \<and> (\<forall>k. kept = Some k \<longrightarrow> sn_id r \<noteq> k)) \<and> sn_revokedAt r = None"])
      (auto simp: revokeAllSessions_def revoke_where_def lasting_def split: option.split)
next
  case (Retires u d now)
  show ?thesis
  proof (cases "count_where (\<lambda>v. dv_id v = d \<and> dv_user v = u \<and> dv_revokedAt v = None) (db_devices db) = 1")
    case True
    show ?thesis unfolding Retires do_session_act.simps
      by (rule session_lasts_update [OF assms(1), where f = "\<lambda>r. r\<lparr>sn_revokedAt := Some now\<rparr>" and
            p = "\<lambda>r. (sn_device r = Some d \<and> sn_user r = u) \<and> sn_revokedAt r = None"])
        (use True in \<open>simp_all add: revokeDevice_def revoke_where_def lasting_def Let_def\<close>)
  next
    case False
    with assms(1) show ?thesis by (simp add: Retires revokeDevice_def Let_def)
  qed
next
  case (Prunes_sessions now)
  show ?thesis unfolding Prunes_sessions do_session_act.simps by (rule session_lasts_filter [OF assms(1)]) (simp add: pruneSessions_def Let_def)
next
  case (Prunes_devices now)
  with assms(1) show ?thesis by (simp add: session_lasts_def pruneDevices_def Let_def)
qed

lemma session_lasts_acts:
  "session_lasts i columns db \<Longrightarrow> list_all (undrawn i) acts \<Longrightarrow> session_lasts i columns (fold (do_session_act sha) acts db)"
  by (induction acts arbitrary: db) (simp_all add: session_lasts_act)

lemma find_filter: "List.find p (filter q t) = List.find (\<lambda>r. q r \<and> p r) t"
  by (induction t) auto

lemma find_same:
  "distinct (map sn_id t) \<Longrightarrow> (\<And>r. r \<in> set t \<Longrightarrow> p r \<longleftrightarrow> sn_id r = i) \<Longrightarrow> List.find p t = List.find (\<lambda>r. sn_id r = i) t"
  by (induction t) auto

text \<open>What presenting the token of a session answers, by its row.\<close>

definition session_standing :: "control_db \<Rightarrow> ustring \<Rightarrow> ustring option \<Rightarrow> int \<Rightarrow> session_row \<Rightarrow> int \<Rightarrow> (session_refusal, resolved_session) result" where
  "session_standing db u d expires r t =
     (if \<exists>v. d = Some v \<and> deviceRevoked db v then Inl Session_device_revoked
      else if sn_revokedAt r \<noteq> None then Inl Session_revoked
      else if expires \<le> t \<or> SESSION_IDLE_MS < t - sn_lastSeenAt r then Inl Session_expired
      else Inr \<lparr>rv_id = sn_id r, rv_userId = u, rv_deviceId = d\<rparr>)"

text \<open>
  C31. A session signs its account in until it ends. Whatever sessions are opened, used, ended and
  pruned and whatever devices are retired after a sign-in, the token it gave resolves to its own
  session, account and device exactly while that session's row is there, not revoked, not expired,
  seen in the last two weeks, and its device not retired; and right after the sign-in its row is
  there, seen and not revoked. No stored hash may collide with the token's and no session's
  identifier be drawn twice.
\<close>

theorem new_sessions_resolve:
  assumes "mintSession sha secret hex u origin d now db = Some (minted, db')" and "list_all url_safe secret"
    and "distinct (map sn_id (db_sessions db))"
    and "list_all (undrawn (mn_id minted)) acts"
    and "later = fold (do_session_act sha) acts db'"
    and "\<forall>r\<in>set (db_sessions later). sn_hash r = sha (mn_token minted) \<longrightarrow> sn_id r = mn_id minted"
  shows "resolveSession sha later (mn_token minted) t =
      (case List.find (\<lambda>r. sn_id r = mn_id minted) (db_sessions later) of
         None \<Rightarrow> Inl Session_unknown
       | Some r \<Rightarrow> session_standing later u d (now + SESSION_TTL_MS) r t)
    \<and> (\<exists>r. List.find (\<lambda>r. sn_id r = mn_id minted) (db_sessions db') = Some r \<and> sn_lastSeenAt r = now \<and> sn_revokedAt r = None)"
proof -
  let ?i = "mn_id minted" let ?token = "mn_token minted"
  from assms(1) obtain displaced new where rows: "db_sessions db' = update_where (\<lambda>r. sn_id r \<in> set displaced) (\<lambda>r. r\<lparr>sn_revokedAt := Some now\<rparr>) (db_sessions db) @ [new]"
    and ids: "sn_id new = ?i" "\<forall>r\<in>set (db_sessions db). sn_id r \<noteq> ?i" and fresh: "sn_lastSeenAt new = now" "sn_revokedAt new = None"
    and new: "lasting new = (u, keyPrefix ?token, ky_hash (newSessionToken sha secret), now + SESSION_TTL_MS, d)"
    and token: "?token = asc ''rs_'' @ secret" and hash: "ky_hash (newSessionToken sha secret) = hashCredential sha ?token"
    by (rule mintSession_rows) auto
  have trim: "js_trim ?token = ?token" "?token \<noteq> []"
    using token minted_trim(5) [OF assms(2)] by (simp_all add: asc_def)
  define columns where "columns = (u, keyPrefix ?token, sha ?token, now + SESSION_TTL_MS, d)"
  have cols: "lasting new = columns" using new hash trim by (simp add: columns_def hashCredential_def)
  define old where "old = update_where (\<lambda>r. sn_id r \<in> set displaced) (\<lambda>r. r\<lparr>sn_revokedAt := Some now\<rparr>) (db_sessions db)"
  have oldids: "map sn_id old = map sn_id (db_sessions db)" by (simp add: old_def map_update_where)
  then have others: "sn_id r \<noteq> ?i" if "r \<in> set old" for r using ids(2) that by (metis imageE image_eqI list.set_map)
  have first: "List.find (\<lambda>r. sn_id r = ?i) (db_sessions db') = Some new"
    using others ids(1) unfolding rows old_def [symmetric] by (subst find_after) auto
  have "?i \<notin> set (map sn_id old)" unfolding oldids using ids(2) by auto
  then have "session_lasts ?i columns db'" using others ids(1) cols assms(3) oldids
    by (auto simp: session_lasts_def rows old_def [symmetric])
  from session_lasts_acts [OF this assms(4)] have lasts: "session_lasts ?i columns later" by (simp add: assms(5))
  have matching: "credentialMatches sha ?token (sn_hash r) \<longleftrightarrow> sn_hash r = sha ?token" for r
    by (auto simp: credentialMatches_def hashCredential_def trim)
  have "sn_prefix r = keyPrefix ?token \<and> credentialMatches sha ?token (sn_hash r) \<longleftrightarrow> sn_id r = ?i" if "r \<in> set (db_sessions later)" for r
    using lasts that assms(6) by (auto simp: session_lasts_def lasting_def columns_def matching)
  then have "List.find (\<lambda>r. credentialMatches sha ?token (sn_hash r)) (filter (\<lambda>r. sn_prefix r = keyPrefix ?token) (db_sessions later)) =
      List.find (\<lambda>r. sn_id r = ?i) (db_sessions later)"
    using find_same [of "db_sessions later" "\<lambda>r. sn_prefix r = keyPrefix ?token \<and> credentialMatches sha ?token (sn_hash r)" ?i] lasts
    by (simp add: session_lasts_def find_filter)
  moreover have "sn_device r = d \<and> sn_expiresAt r = now + SESSION_TTL_MS \<and> sn_user r = u" if "List.find (\<lambda>r. sn_id r = ?i) (db_sessions later) = Some r" for r
    using that lasts find_in [OF that] by (auto simp: session_lasts_def lasting_def columns_def find_Some_iff)
  ultimately have "resolveSession sha later ?token t = (case List.find (\<lambda>r. sn_id r = ?i) (db_sessions later) of
         None \<Rightarrow> Inl Session_unknown
       | Some r \<Rightarrow> session_standing later u d (now + SESSION_TTL_MS) r t)"
    by (auto simp: resolveSession_def session_standing_def trim Let_def split: option.split)
  with first fresh show ?thesis by blast
qed

theorem new_sessions_resolve_witness:
  "\<exists>minted db'. mintSession (\<lambda>s. s) (asc ''a'') [2] [9] \<lparr>so_ip = None, so_userAgent = None\<rparr> None 0 empty_db = Some (minted, db')
     \<and> resolveSession (\<lambda>s. s) db' (mn_token minted) 5 = Inr \<lparr>rv_id = mn_id minted, rv_userId = [9], rv_deviceId = None\<rparr>
     \<and> resolveSession (\<lambda>s. s) (snd (revokeSession (mn_id minted) 6 db')) (mn_token minted) 7 = Inl Session_revoked"
proof -
  let ?mint = "mintSession (\<lambda>s. s) (asc ''a'') [2] [9] \<lparr>so_ip = None, so_userAgent = None\<rparr> None 0 empty_db"
  have "?mint \<noteq> None" by (simp add: mintSession_def empty_db_def Let_def)
  then obtain minted db' where m: "?mint = Some (minted, db')" by auto
  have safe: "list_all url_safe (asc ''a'')" by (simp add: asc_def url_safe_def)
  have keys: "distinct (map sn_id (db_sessions empty_db))" by (simp add: empty_db_def)
  from m obtain displaced new where rows: "db_sessions db' = update_where (\<lambda>r. sn_id r \<in> set displaced) (\<lambda>r. r\<lparr>sn_revokedAt := Some 0\<rparr>) (db_sessions empty_db) @ [new]"
    and new: "sn_id new = newId ''s'' [2]" "mn_id minted = newId ''s'' [2]" "sn_lastSeenAt new = 0" "sn_revokedAt new = None"
    by (rule mintSession_rows) auto
  have one: "db_sessions db' = [new]" by (simp add: rows empty_db_def)
  have "resolveSession (\<lambda>s. s) db' (mn_token minted) 5 = session_standing db' [9] None (0 + SESSION_TTL_MS) new 5"
    using new_sessions_resolve [OF m safe keys, of "[]" db' 5] one new by simp
  moreover define later where "later = snd (revokeSession (mn_id minted) 6 db')"
  have ended: "db_sessions later = [new\<lparr>sn_revokedAt := Some 6\<rparr>]" using new by (simp add: later_def revokeSession_def revoke_where_def one)
  have "later = fold (do_session_act (\<lambda>s. s)) [Signs_out (mn_id minted) 6] db'" by (simp add: later_def)
  from new_sessions_resolve [OF m safe keys _ this, of 7] ended new
  have "resolveSession (\<lambda>s. s) later (mn_token minted) 7 = session_standing later [9] None (0 + SESSION_TTL_MS) (new\<lparr>sn_revokedAt := Some 6\<rparr>) 7" by simp
  moreover have "session_standing db' [9] None (0 + SESSION_TTL_MS) new 5 = Inr \<lparr>rv_id = mn_id minted, rv_userId = [9], rv_deviceId = None\<rparr>"
    using new by (simp add: session_standing_def SESSION_TTL_MS_def SESSION_IDLE_MS_def)
  moreover have "session_standing later [9] None (0 + SESSION_TTL_MS) (new\<lparr>sn_revokedAt := Some 6\<rparr>) 7 = Inl Session_revoked" for later
    by (simp add: session_standing_def)
  ultimately show ?thesis using m unfolding later_def by metis
qed

text \<open>
  C32. A retired device signs nobody in. Once a device is revoked no text presented at any moment
  resolves to a session bound to it, and when its row is pruned later the sessions its owner had
  on it stay refused.
\<close>

theorem retired_devices_sign_nobody_in:
  assumes "distinct (map dv_id (db_devices db))" and "revokeDevice u d now db = (Some n, db')"
  shows "(\<forall>presented t s. resolveSession sha db' presented t = Inr s \<longrightarrow> rv_deviceId s \<noteq> Some d)
    \<and> (\<forall>later presented t s. resolveSession sha (snd (pruneDevices later db')) presented t = Inr s \<and> rv_userId s = u \<longrightarrow> rv_deviceId s \<noteq> Some d)"
proof -
  let ?mine = "\<lambda>v. dv_id v = d \<and> dv_user v = u \<and> dv_revokedAt v = None"
  have counted: "count_where ?mine (db_devices db) = 1"
    and devices: "db_devices db' = update_where ?mine (\<lambda>v. v\<lparr>dv_revokedAt := Some now\<rparr>) (db_devices db)"
    and sessions: "db_sessions db' = update_where (\<lambda>r. (sn_device r = Some d \<and> sn_user r = u) \<and> sn_revokedAt r = None)
        (\<lambda>r. r\<lparr>sn_revokedAt := Some now\<rparr>) (db_sessions db)"
    using assms(2) by (auto simp: revokeDevice_def revoke_where_def Let_def split: if_splits)
  obtain v where v: "v \<in> set (db_devices db)" "?mine v"
  proof -
    have "count_where ?mine (db_devices db) \<noteq> 0" using counted by simp
    then show thesis using that by (auto simp: count_where_zero)
  qed
  have "distinct (map dv_id (db_devices db'))" using assms(1) by (simp add: devices map_update_where)
  moreover have "v\<lparr>dv_revokedAt := Some now\<rparr> \<in> set (db_devices db')" using v by (auto simp: devices in_update_where)
  ultimately have "List.find (\<lambda>x. dv_id x = d) (db_devices db') = Some (v\<lparr>dv_revokedAt := Some now\<rparr>)"
    using find_by_key [of dv_id "db_devices db'" "v\<lparr>dv_revokedAt := Some now\<rparr>"] v by simp
  then have gone: "deviceRevoked db' d" by (simp add: deviceRevoked_def)
  have bound: "sn_revokedAt r \<noteq> None" if "r \<in> set (db_sessions db')" "sn_device r = Some d" "sn_user r = u" for r
    using that unfolding sessions by (elim in_update_whereE) simp_all
  have "rv_deviceId s \<noteq> Some d" if "resolveSession sha db' presented t = Inr s" for presented t s
    by (rule resolved_row [OF that]) (use gone in auto)
  moreover have "rv_deviceId s \<noteq> Some d"
    if "resolveSession sha (snd (pruneDevices later db')) presented t = Inr s" "rv_userId s = u" for later presented t s
    by (rule resolved_row [OF that(1)]) (use that(2) bound in \<open>fastforce simp: pruneDevices_def Let_def\<close>)
  ultimately show ?thesis by blast
qed

definition sample_device :: control_db where
  "sample_device = empty_db\<lparr>db_devices := [\<lparr>dv_id = [3], dv_user = [9], dv_name = [], dv_platform = [], dv_createdAt = 0,
     dv_revokedAt = None, dv_key = None, dv_keySetAt = None\<rparr>]\<rparr>"

theorem retired_devices_sign_nobody_in_witness:
  "\<exists>n db'. revokeDevice [9] [3] 4 sample_device = (Some n, db') \<and>
     (\<forall>presented t s. resolveSession (\<lambda>x. x) db' presented t = Inr s \<longrightarrow> rv_deviceId s \<noteq> Some [3])"
proof -
  have unique: "distinct (map dv_id (db_devices sample_device))" by (simp add: sample_device_def)
  obtain n db' where r: "revokeDevice [9] [3] 4 sample_device = (Some n, db')"
    by (simp add: revokeDevice_def revoke_where_def count_where_def sample_device_def empty_db_def)
  from retired_devices_sign_nobody_in [OF unique r, of "\<lambda>x. x"] r show ?thesis by blast
qed

text \<open>
  C33. A mailed link works once, and only the newest. After a link is claimed it can never be read
  or claimed again, and minting one for the same account and purpose ends every earlier one of
  that purpose: at most the new one is still usable.
\<close>

theorem links_work_once:
  "(\<forall>later claimant. fst (claimEmailToken sha token who now db) \<longrightarrow> now \<le> later \<longrightarrow>
      readEmailToken sha (snd (claimEmailToken sha token who now db)) token later = None
      \<and> \<not> fst (claimEmailToken sha token claimant later (snd (claimEmailToken sha token who now db))))
   \<and> (\<forall>minted db'. mintEmailToken sha secret hex u purpose folded ttl now db = Some (minted, db') \<longrightarrow>
      (\<forall>t\<in>set (db_emailTokens db'). ut_user t = u \<and> ut_purpose t = purpose_name purpose \<and> ut_usedAt t = None \<longrightarrow>
        ut_hash t = hashCredential sha (fst minted)))"
proof (intro conjI allI impI ballI)
  let ?db = "snd (claimEmailToken sha token who now db)"
  fix later claimant assume claimed: "fst (claimEmailToken sha token who now db)" and later: "now \<le> later"
  have none: "\<not> usable_link sha token later t" if t: "t \<in> set (db_emailTokens ?db)" for t
  proof -
    from t obtain q where q: "t = (if usable_link sha token now q then q\<lparr>ut_usedAt := Some now, ut_usedFrom := Some who\<rparr> else q)"
      unfolding claimEmailToken_def snd_conv by (auto simp: in_update_where)
    show ?thesis
    proof (cases "usable_link sha token now q")
      case True
      then show ?thesis using q by (simp add: usable_link_def)
    next
      case False
      with q later show ?thesis by (auto simp: usable_link_def)
    qed
  qed
  then show "readEmailToken sha ?db token later = None" by (auto simp: readEmailToken_def find_None_iff)
  have "count_where (usable_link sha token later) (db_emailTokens ?db) = 0" using none by (simp add: count_where_zero)
  then show "\<not> fst (claimEmailToken sha token claimant later ?db)" by (simp add: claimEmailToken_def)
next
  fix minted db' t
  assume m: "mintEmailToken sha secret hex u purpose folded ttl now db = Some (minted, db')"
    and t: "t \<in> set (db_emailTokens db')" "ut_user t = u \<and> ut_purpose t = purpose_name purpose \<and> ut_usedAt t = None"
  define burnt where "burnt = update_where (\<lambda>t. (ut_user t = u \<and> ut_purpose t = purpose_name purpose) \<and> ut_usedAt t = None)
    (\<lambda>t. t\<lparr>ut_usedAt := Some now, ut_usedFrom := Some (asc ''superseded'')\<rparr>) (db_emailTokens db)"
  have "\<exists>new. db_emailTokens db' = burnt @ [new] \<and> ut_hash new = hashCredential sha (fst minted)"
    using m by (auto simp: mintEmailToken_def burn_links_def burnt_def new_credential_defs Let_def split: if_splits)
  then obtain new where rows: "db_emailTokens db' = burnt @ [new]" and new: "ut_hash new = hashCredential sha (fst minted)" by blast
  have "t \<notin> set burnt"
  proof
    assume "t \<in> set burnt"
    then show False unfolding burnt_def by (rule in_update_whereE) (use t(2) in simp_all)
  qed
  with t(1) rows new show "ut_hash t = hashCredential sha (fst minted)" by auto
qed

definition sample_link :: control_db where
  "sample_link = empty_db\<lparr>db_emailTokens := [\<lparr>ut_id = [2], ut_user = [9], ut_purpose = asc ''reset'', ut_hash = [7], ut_folded = [], ut_createdAt = 0,
     ut_expiresAt = 100, ut_usedAt = None, ut_usedFrom = None\<rparr>]\<rparr>"

theorem links_work_once_witness:
  "readEmailToken (\<lambda>s. s) sample_link [7] 5 \<noteq> None \<and> fst (claimEmailToken (\<lambda>s. s) [7] [] 5 sample_link)
    \<and> readEmailToken (\<lambda>s. s) (snd (claimEmailToken (\<lambda>s. s) [7] [] 5 sample_link)) [7] 6 = None"
proof -
  have claimed: "fst (claimEmailToken (\<lambda>s. s) [7] [] 5 sample_link)" "readEmailToken (\<lambda>s. s) sample_link [7] 5 \<noteq> None"
    by (simp_all add: claimEmailToken_def readEmailToken_def sample_link_def usable_link_def count_where_def hashCredential_def js_trim_def js_space_def)
  from conjunct1 [OF links_work_once] claimed show ?thesis by fastforce
qed

end
