(* ===== verification/MachineLimits.thy ===== *)
theory MachineLimits
  imports Credentials "HOL-Library.Multiset"
begin

text \<open>
  Who owns which machine under which name (\<open>src/packages/control-plane/src/machines.ts\<close>), and
  which of somebody's machines are over their limit (\<open>quota.ts\<close>). \<open>toLowerCase\<close> is an argument;
  the columns of a tuple comparison are compared as pairs, texts by their units.
\<close>

subsection \<open>Names\<close>

definition alnum :: "nat \<Rightarrow> bool" where
  "alnum c \<longleftrightarrow> 48 \<le> c \<and> c \<le> 57 \<or> 65 \<le> c \<and> c \<le> 90 \<or> 97 \<le> c \<and> c \<le> 122"

definition MACHINE_LABEL :: "ustring \<Rightarrow> bool" where
  "MACHINE_LABEL s \<longleftrightarrow> s \<noteq> [] \<and> length s \<le> 64 \<and> alnum (hd s) \<and> list_all (\<lambda>c. alnum c \<or> c \<in> {46, 95, 45}) (tl s)"

definition lower_hex :: "nat \<Rightarrow> bool" where "lower_hex c \<longleftrightarrow> 48 \<le> c \<and> c \<le> 57 \<or> 97 \<le> c \<and> c \<le> 102"

definition MACHINE_LABEL_RESERVED :: "ustring \<Rightarrow> bool" where
  "MACHINE_LABEL_RESERVED s \<longleftrightarrow> take 2 s = asc ''m_'' \<and> (length s = 10 \<or> length s = 18) \<and> list_all lower_hex (drop 2 s)"

definition labelIsWellFormed :: "ustring \<Rightarrow> bool" where
  "labelIsWellFormed label \<longleftrightarrow> MACHINE_LABEL label \<and> \<not> MACHINE_LABEL_RESERVED label"

definition qualifiedName :: "ustring \<Rightarrow> ustring \<Rightarrow> ustring" where
  "qualifiedName label machineId = label @ 45 # (if take 2 machineId = asc ''m_'' then drop 2 machineId else machineId)"

definition ownerOf :: "control_db \<Rightarrow> ustring \<Rightarrow> owner_row option" where
  "ownerOf db machineId = List.find (\<lambda>w. ow_machine w = machineId) (db_owners db)"

definition resolveMachineRef :: "control_db \<Rightarrow> ustring \<Rightarrow> ustring \<Rightarrow> ustring option" where
  "resolveMachineRef db userId ref =
     (case List.find (\<lambda>m. ma_id m = ref) (db_machines db) of
        Some m \<Rightarrow> Some (ma_id m)
      | None \<Rightarrow>
          (case List.find (\<lambda>w. ow_user w = userId \<and> ow_label w = ref) (db_owners db) of
             Some w \<Rightarrow> Some (ow_machine w)
           | None \<Rightarrow> map_option ma_id (List.find (\<lambda>m. ma_name m = ref) (db_machines db))))"

definition labelOrName :: "ustring option \<Rightarrow> ustring \<Rightarrow> ustring" where
  "labelOrName label rowName = (case label of None \<Rightarrow> rowName | Some l \<Rightarrow> l)"

text \<open>The machines granted to a user and not revoked, each with the label it has as theirs.\<close>

definition visible_rows :: "control_db \<Rightarrow> ustring \<Rightarrow> (ustring \<times> ustring) list" where
  "visible_rows db userId =
     [(ma_id m, labelOrName (map_option ow_label (List.find (\<lambda>w. ow_machine w = ma_id m \<and> ow_user w = userId) (db_owners db))) (ma_name m)).
        g \<leftarrow> db_grants db, gr_user g = userId, m \<leftarrow> db_machines db, ma_id m = gr_machine g \<and> ma_revokedAt m = None]"

definition nameVisibleTo :: "(ustring \<Rightarrow> ustring) \<Rightarrow> control_db \<Rightarrow> ustring \<Rightarrow> ustring \<Rightarrow> ustring option \<Rightarrow> bool" where
  "nameVisibleTo lower db userId label exceptMachineId \<longleftrightarrow>
     list_ex (\<lambda>(machineId, shown). exceptMachineId \<noteq> Some machineId \<and> lower shown = lower label) (visible_rows db userId)"

definition nameVisibleToGrantees :: "(ustring \<Rightarrow> ustring) \<Rightarrow> control_db \<Rightarrow> ustring \<Rightarrow> ustring \<Rightarrow> bool" where
  "nameVisibleToGrantees lower db machineId name \<longleftrightarrow>
     list_ex (\<lambda>g. (case ownerOf db machineId of None \<Rightarrow> True | Some w \<Rightarrow> gr_user g \<noteq> ow_user w) \<and>
         nameVisibleTo lower db (gr_user g) name (Some machineId))
       (filter (\<lambda>g. gr_machine g = machineId) (db_grants db))"

subsection \<open>Owning\<close>

datatype create_refusal = Label_taken | Too_many

definition releaseOwner :: "ustring \<Rightarrow> control_db \<Rightarrow> nat \<times> control_db" where
  "releaseOwner machineId db =
     (count_where (\<lambda>w. ow_machine w = machineId) (db_owners db),
      db\<lparr>db_owners := delete_where (\<lambda>w. ow_machine w = machineId) (db_owners db)\<rparr>)"

definition machineCount :: "control_db \<Rightarrow> ustring \<Rightarrow> nat" where
  "machineCount db userId = count_where (\<lambda>w. ow_user w = userId) (db_owners db)"

text \<open>The three rows of a new machine, one transaction: a key of any of the tables refuses all of them.\<close>

definition createOwnedMachine ::
  "ustring \<Rightarrow> ustring \<Rightarrow> ustring \<Rightarrow> ustring list \<Rightarrow> int \<Rightarrow> int \<Rightarrow> control_db \<Rightarrow> (create_refusal, ustring \<times> ustring) result \<times> control_db" where
  "createOwnedMachine hex userId label scopes limit now db =
     (if min limit MAX_MACHINES_PER_USER \<le> int (machineCount db userId) then (Inl Too_many, db)
      else let newMachine = newId ''m'' hex; name = qualifiedName label newMachine in
        if list_ex (\<lambda>m. ma_id m = newMachine \<or> ma_name m = name) (db_machines db)
          \<or> list_ex (\<lambda>w. ow_machine w = newMachine \<or> ow_user w = userId \<and> ow_label w = label) (db_owners db)
          \<or> list_ex (\<lambda>g. gr_user g = userId \<and> gr_machine g = newMachine) (db_grants db)
        then (Inl Label_taken, db)
        else (Inr (newMachine, name), db\<lparr>
          db_machines := db_machines db @ [\<lparr>ma_id = newMachine, ma_name = name, ma_createdAt = now, ma_enrolledAt = None,
            ma_revokedAt = None, ma_enrolledBy = None, ma_key = None, ma_keySetAt = None, ma_daemonVersion = None,
            ma_daemonProtocol = None, ma_daemonAgents = None, ma_daemonSeenAt = None\<rparr>],
          db_owners := db_owners db @ [\<lparr>ow_machine = newMachine, ow_user = userId, ow_label = label, ow_createdAt = now\<rparr>],
          db_grants := db_grants db @ [\<lparr>gr_user = userId, gr_machine = newMachine, gr_scopes = join [32] scopes, gr_createdAt = now\<rparr>]\<rparr>))"

definition relabelMachine :: "ustring \<Rightarrow> ustring \<Rightarrow> ustring \<Rightarrow> control_db \<Rightarrow> create_refusal option \<times> control_db" where
  "relabelMachine machineId userId label db =
     (let mine = (\<lambda>w. ow_machine w = machineId \<and> ow_user w = userId) in
      if list_ex mine (db_owners db) \<and> list_ex (\<lambda>w. \<not> mine w \<and> ow_user w = userId \<and> ow_label w = label) (db_owners db)
      then (Some Label_taken, db)
      else (None, db\<lparr>db_owners := update_where mine (\<lambda>w. w\<lparr>ow_label := label\<rparr>) (db_owners db)\<rparr>))"

subsection \<open>What a daemon says of its build\<close>

definition MAX_DAEMON_VERSION_CHARS :: nat where "MAX_DAEMON_VERSION_CHARS = 64"

definition readDaemonVersionHeader :: "ustring list option \<Rightarrow> ustring option" where
  "readDaemonVersionHeader raw =
     (case raw of
        Some (v # _) \<Rightarrow>
          (let cleaned = filter (\<lambda>c. 0x20 \<le> c \<and> c \<le> 0x7e) (js_trim v) in
           if cleaned = [] then None else Some (take MAX_DAEMON_VERSION_CHARS cleaned))
      | _ \<Rightarrow> None)"

record daemon_build =
  bu_daemonVersion :: "ustring option"
  bu_protocolVersion :: int
  bu_agentClis :: "ustring option"
  bu_at :: int

definition recordDaemonBuild :: "ustring \<Rightarrow> daemon_build \<Rightarrow> control_db \<Rightarrow> control_db" where
  "recordDaemonBuild machineId build db =
     db\<lparr>db_machines := update_where (\<lambda>m. ma_id m = machineId)
       (\<lambda>m. m\<lparr>ma_daemonVersion := bu_daemonVersion build, ma_daemonProtocol := Some (bu_protocolVersion build),
         ma_daemonAgents := bu_agentClis build, ma_daemonSeenAt := Some (bu_at build)\<rparr>) (db_machines db)\<rparr>"

subsection \<open>Limits\<close>

datatype limit_source = Limit_of_user | Limit_default

record effective_limit =
  el_limit :: int
  el_source :: limit_source
  el_instanceDefault :: int

record standing =
  st_ownerId :: ustring
  st_rank :: nat
  st_limit :: int
  st_source :: limit_source
  st_over :: bool
  st_ownerDisabled :: bool

text \<open>The reader is told the instance's default; the environment it may fall back on is an argument.\<close>

definition instanceMachineLimit :: "settings \<Rightarrow> control_db \<Rightarrow> int" where
  "instanceMachineLimit env db =
     readInteger env (db_settings db) Machines_per_user MAX_MACHINES_PER_USER 0 MAX_MACHINES_PER_USER"

definition effectiveLimit :: "settings \<Rightarrow> control_db \<Rightarrow> ustring \<Rightarrow> effective_limit" where
  "effectiveLimit env db userId =
     (case db_limits db userId of
        None \<Rightarrow> \<lparr>el_limit = instanceMachineLimit env db, el_source = Limit_default, el_instanceDefault = instanceMachineLimit env db\<rparr>
      | Some n \<Rightarrow> \<lparr>el_limit = min n MAX_MACHINES_PER_USER, el_source = Limit_of_user, el_instanceDefault = instanceMachineLimit env db\<rparr>)"

definition age :: "owner_row \<Rightarrow> int \<times> ustring" where "age w = (ow_createdAt w, ow_machine w)"

definition rank_of :: "control_db \<Rightarrow> owner_row \<Rightarrow> nat" where
  "rank_of db w = count_where (\<lambda>p. ow_user p = ow_user w \<and> age p < age w) (db_owners db)"

definition machineStanding :: "settings \<Rightarrow> control_db \<Rightarrow> ustring \<Rightarrow> standing option" where
  "machineStanding env db machineId =
     (case ownerOf db machineId of
        None \<Rightarrow> None
      | Some w \<Rightarrow>
          (let limit = (case db_limits db (ow_user w) of None \<Rightarrow> instanceMachineLimit env db | Some n \<Rightarrow> min n MAX_MACHINES_PER_USER)
           in Some \<lparr>st_ownerId = ow_user w, st_rank = rank_of db w, st_limit = limit,
               st_source = (if db_limits db (ow_user w) = None then Limit_default else Limit_of_user),
               st_over = (limit \<le> int (rank_of db w)),
               st_ownerDisabled = (case List.find (\<lambda>u. us_id u = ow_user w) (db_users db) of
                  None \<Rightarrow> False | Some u \<Rightarrow> us_disabledAt u \<noteq> None)\<rparr>))"

definition ownerDisabledMachineIds :: "control_db \<Rightarrow> ustring set" where
  "ownerDisabledMachineIds db =
     set [ow_machine w. w \<leftarrow> db_owners db, u \<leftarrow> db_users db, us_id u = ow_user w \<and> us_disabledAt u \<noteq> None]"

definition overLimitMachines :: "control_db \<Rightarrow> ustring \<Rightarrow> int \<Rightarrow> (ustring \<times> ustring) list" where
  "overLimitMachines db userId limit =
     map (\<lambda>w. (ow_machine w, ow_label w))
       (drop (nat (max 0 limit)) (sort_key age (filter (\<lambda>w. ow_user w = userId) (db_owners db))))"

definition overLimitMachineIds :: "settings \<Rightarrow> control_db \<Rightarrow> ustring set" where
  "overLimitMachineIds env db =
     set [ow_machine w. w \<leftarrow> db_owners db,
       min (case db_limits db (ow_user w) of None \<Rightarrow> instanceMachineLimit env db | Some n \<Rightarrow> n) MAX_MACHINES_PER_USER \<le> int (rank_of db w)]"

definition writeMachineLimit :: "ustring \<Rightarrow> int \<Rightarrow> control_db \<Rightarrow> control_db" where
  "writeMachineLimit userId maxMachines db = db\<lparr>db_limits := (db_limits db)(userId \<mapsto> maxMachines)\<rparr>"

definition clearMachineLimit :: "ustring \<Rightarrow> control_db \<Rightarrow> bool \<times> control_db" where
  "clearMachineLimit userId db = (db_limits db userId \<noteq> None, db\<lparr>db_limits := (db_limits db)(userId := None)\<rparr>)"

subsection \<open>Ranks\<close>

lemma age_machine: "age p = age q \<Longrightarrow> ow_machine p = ow_machine q"
  by (simp add: age_def)

lemma in_drop_iff: "p \<in> set (drop n xs) \<longleftrightarrow> (\<exists>j. n + j < length xs \<and> p = xs ! (n + j))"
  by (auto simp: in_set_conv_nth less_diff_conv add.commute)

lemma rank_in_sorted:
  assumes "sorted (map k xs)" and "distinct (map k xs)" and "i < length xs"
  shows "length (filter (\<lambda>p. k p < k (xs ! i)) xs) = i"
proof -
  have split: "xs = take i xs @ drop i xs" by simp
  have "\<forall>p\<in>set (take i xs). k p < k (xs ! i)"
  proof
    fix p assume "p \<in> set (take i xs)"
    then obtain j where j: "j < i" "p = xs ! j" using assms(3) by (auto simp: in_set_conv_nth)
    with assms have "k p \<le> k (xs ! i)" using sorted_nth_mono [of "map k xs" j i] by simp
    moreover have "k p \<noteq> k (xs ! i)" using assms(2,3) j by (auto simp: distinct_conv_nth)
    ultimately show "k p < k (xs ! i)" by simp
  qed
  then have "filter (\<lambda>p. k p < k (xs ! i)) (take i xs) = take i xs" by simp
  moreover have "\<forall>p\<in>set (drop i xs). \<not> k p < k (xs ! i)"
  proof
    fix p assume "p \<in> set (drop i xs)"
    then obtain j where j: "i + j < length xs" "p = xs ! (i + j)" by (auto simp: in_drop_iff)
    with assms show "\<not> k p < k (xs ! i)" using sorted_nth_mono [of "map k xs" i "i + j"] by auto
  qed
  then have "filter (\<lambda>p. k p < k (xs ! i)) (drop i xs) = []" by (simp add: filter_empty_conv)
  ultimately have "filter (\<lambda>p. k p < k (xs ! i)) (take i xs @ drop i xs) = take i xs" by (simp only: filter_append) simp
  then show ?thesis using split assms(3) by simp
qed

text \<open>Somebody's machines in the order of their age; a machine's rank is its place in it.\<close>

definition by_age :: "control_db \<Rightarrow> ustring \<Rightarrow> owner_row list" where
  "by_age db u = sort_key age (filter (\<lambda>w. ow_user w = u) (db_owners db))"

lemma set_by_age [simp]: "set (by_age db u) = {w \<in> set (db_owners db). ow_user w = u}"
  by (auto simp: by_age_def)

lemma length_by_age [simp]: "length (by_age db u) = machineCount db u"
  by (simp add: by_age_def machineCount_def count_where_def)

lemma distinct_ages: "distinct (map ow_machine t) \<Longrightarrow> distinct (map age t)"
  by (auto simp: distinct_map inj_on_def age_def)

lemma by_age_ages:
  assumes "distinct (map ow_machine (db_owners db))"
  shows "sorted (map age (by_age db u))" and "distinct (map age (by_age db u))"
proof -
  show "sorted (map age (by_age db u))" by (simp add: by_age_def)
  have "distinct (map ow_machine (filter (\<lambda>w. ow_user w = u) (db_owners db)))" using assms by (simp add: distinct_map_filter)
  from distinct_ages [OF this] show "distinct (map age (by_age db u))"
    by (simp add: by_age_def distinct_map)
qed

lemma rank_is_place:
  assumes "distinct (map ow_machine (db_owners db))" and "i < machineCount db u"
  shows "rank_of db (by_age db u ! i) = i"
proof -
  have mine: "by_age db u ! i \<in> set (by_age db u)" using assms(2) nth_mem [of i "by_age db u"] by simp
  have "mset (filter (\<lambda>p. age p < age (by_age db u ! i)) (by_age db u))
      = mset (filter (\<lambda>p. ow_user p = u \<and> age p < age (by_age db u ! i)) (db_owners db))"
    by (simp add: by_age_def mset_filter filter_filter_mset conj_commute)
  from mset_eq_length [OF this]
  have "length (filter (\<lambda>p. age p < age (by_age db u ! i)) (by_age db u)) = rank_of db (by_age db u ! i)"
    using mine by (simp add: rank_of_def count_where_def)
  with rank_in_sorted [OF by_age_ages [OF assms(1)], of i u] assms(2) show ?thesis by simp
qed

lemma place_of_owner:
  assumes "distinct (map ow_machine (db_owners db))" and "w \<in> set (db_owners db)"
  shows "rank_of db w < machineCount db (ow_user w) \<and> by_age db (ow_user w) ! rank_of db w = w"
proof -
  have "w \<in> set (by_age db (ow_user w))" using assms(2) by simp
  then obtain i where "i < machineCount db (ow_user w)" "w = by_age db (ow_user w) ! i"
    unfolding in_set_conv_nth by auto
  with rank_is_place [OF assms(1)] show ?thesis by metis
qed

lemma in_later_half:
  assumes "distinct (map ow_machine (db_owners db))"
  shows "w \<in> set (drop n (by_age db u)) \<longleftrightarrow> w \<in> set (db_owners db) \<and> ow_user w = u \<and> n \<le> rank_of db w"
proof
  assume "w \<in> set (drop n (by_age db u))"
  then obtain i where i: "n + i < machineCount db u" "w = by_age db u ! (n + i)" by (auto simp: in_drop_iff)
  with rank_is_place [OF assms i(1)] nth_mem [of "n + i" "by_age db u"]
  show "w \<in> set (db_owners db) \<and> ow_user w = u \<and> n \<le> rank_of db w" by simp
next
  assume w: "w \<in> set (db_owners db) \<and> ow_user w = u \<and> n \<le> rank_of db w"
  with place_of_owner [OF assms, of w] have "rank_of db w < machineCount db u" "by_age db u ! rank_of db w = w" by auto
  with w show "w \<in> set (drop n (by_age db u))"
    by (auto simp: in_drop_iff intro!: exI [of _ "rank_of db w - n"])
qed

text \<open>The limit of an owner, however it is asked for.\<close>

definition limit_of :: "settings \<Rightarrow> control_db \<Rightarrow> ustring \<Rightarrow> int" where
  "limit_of env db u = el_limit (effectiveLimit env db u)"

lemma instance_limit_bounds: "0 \<le> instanceMachineLimit env db \<and> instanceMachineLimit env db \<le> MAX_MACHINES_PER_USER"
  by (auto simp: instanceMachineLimit_def readInteger_def MAX_MACHINES_PER_USER_def split: option.split)

lemma limit_of_row: "limit_of env db u = (case db_limits db u of None \<Rightarrow> instanceMachineLimit env db | Some n \<Rightarrow> min n MAX_MACHINES_PER_USER)"
  by (simp add: limit_of_def effectiveLimit_def split: option.split)

lemma limit_of_capped: "limit_of env db u \<le> MAX_MACHINES_PER_USER"
  using instance_limit_bounds by (simp add: limit_of_row split: option.split)

lemma standing_of:
  "machineStanding env db m = Some s \<longleftrightarrow> (\<exists>w. ownerOf db m = Some w \<and> st_ownerId s = ow_user w \<and> st_rank s = rank_of db w
     \<and> st_limit s = limit_of env db (ow_user w) \<and> st_over s = (limit_of env db (ow_user w) \<le> int (rank_of db w))
     \<and> st_source s = (if db_limits db (ow_user w) = None then Limit_default else Limit_of_user)
     \<and> st_ownerDisabled s = (case List.find (\<lambda>u. us_id u = ow_user w) (db_users db) of None \<Rightarrow> False | Some u \<Rightarrow> us_disabledAt u \<noteq> None))"
  by (cases s) (auto simp: machineStanding_def limit_of_row Let_def split: option.split)

lemma ownerOf_row:
  assumes "distinct (map ow_machine (db_owners db))"
  shows "ownerOf db m = Some w \<longleftrightarrow> w \<in> set (db_owners db) \<and> ow_machine w = m"
  using find_by_key [OF assms] unfolding ownerOf_def by (auto dest: find_in)

text \<open>A machine is over when its row is; the row decides everything else of its standing.\<close>

lemma machineStanding_row:
  "machineStanding env db m = map_option (\<lambda>w. \<lparr>st_ownerId = ow_user w, st_rank = rank_of db w, st_limit = limit_of env db (ow_user w),
     st_source = (if db_limits db (ow_user w) = None then Limit_default else Limit_of_user),
     st_over = (limit_of env db (ow_user w) \<le> int (rank_of db w)),
     st_ownerDisabled = (case List.find (\<lambda>u. us_id u = ow_user w) (db_users db) of None \<Rightarrow> False | Some u \<Rightarrow> us_disabledAt u \<noteq> None)\<rparr>) (ownerOf db m)"
  by (simp add: machineStanding_def limit_of_row Let_def split: option.split)

lemma standing_row:
  assumes "distinct (map ow_machine (db_owners db))"
  shows "(\<exists>s. machineStanding env db m = Some s \<and> P (st_ownerId s) (st_over s)) \<longleftrightarrow>
    (\<exists>w\<in>set (db_owners db). ow_machine w = m \<and> P (ow_user w) (limit_of env db (ow_user w) \<le> int (rank_of db w)))"
  using ownerOf_row [OF assms, of m] by (cases "ownerOf db m") (auto simp: machineStanding_row, metis+)

subsection \<open>Properties\<close>

lemma count_below: "length (filter (\<lambda>i. i < n) [0..<m]) = min n m"
  by (induction m) auto

lemma over_fleet:
  assumes "distinct (map ow_machine (db_owners db))"
  shows "m \<in> overLimitMachineIds env db \<longleftrightarrow> (\<exists>s. machineStanding env db m = Some s \<and> st_over s)"
proof -
  have lim: "min (case db_limits db v of None \<Rightarrow> instanceMachineLimit env db | Some n \<Rightarrow> n) MAX_MACHINES_PER_USER = limit_of env db v" for v
    using instance_limit_bounds by (simp add: limit_of_row split: option.split)
  show ?thesis unfolding standing_row [OF assms, of env m "\<lambda>_ x. x"] by (auto simp: overLimitMachineIds_def lim)
qed

text \<open>
  C28. Over the limit is one notion. The three places that decide it, the standing of one machine
  that tokens and the relay ask for, the query over the whole fleet that the administrator's
  list uses, and the tail of one account's machines, name the same machines.
\<close>

theorem over_the_limit_is_one_notion:
  assumes "distinct (map ow_machine (db_owners db))"
  shows "((\<exists>s. machineStanding env db m = Some s \<and> st_over s) \<longleftrightarrow> m \<in> overLimitMachineIds env db)
    \<and> ((\<exists>s. machineStanding env db m = Some s \<and> st_over s \<and> st_ownerId s = u)
        \<longleftrightarrow> m \<in> fst ` set (overLimitMachines db u (el_limit (effectiveLimit env db u))))"
proof
  show "(\<exists>s. machineStanding env db m = Some s \<and> st_over s) \<longleftrightarrow> m \<in> overLimitMachineIds env db"
    using over_fleet [OF assms] by simp
  have "m \<in> fst ` set (overLimitMachines db u l) \<longleftrightarrow>
      (\<exists>w\<in>set (db_owners db). ow_machine w = m \<and> ow_user w = u \<and> l \<le> int (rank_of db w))" for l
    unfolding overLimitMachines_def by_age_def [symmetric]
    by (auto simp: in_later_half [OF assms] image_iff nat_le_iff) 
  then show "(\<exists>s. machineStanding env db m = Some s \<and> st_over s \<and> st_ownerId s = u)
        \<longleftrightarrow> m \<in> fst ` set (overLimitMachines db u (el_limit (effectiveLimit env db u)))"
    unfolding standing_row [OF assms, of env m "\<lambda>v x. x \<and> v = u"] by (auto simp: limit_of_def)
qed

text \<open>Two machines of one account that may own one.\<close>

definition sample_owned :: control_db where
  "sample_owned = empty_db\<lparr>
     db_owners := [\<lparr>ow_machine = [1], ow_user = [9], ow_label = [7], ow_createdAt = 5\<rparr>,
                   \<lparr>ow_machine = [2], ow_user = [9], ow_label = [8], ow_createdAt = 6\<rparr>],
     db_limits := [[9] \<mapsto> 1]\<rparr>"

theorem over_the_limit_is_one_notion_witness:
  "[2] \<in> overLimitMachineIds Map.empty sample_owned \<and> [1] \<notin> overLimitMachineIds Map.empty sample_owned"
proof -
  have unique: "distinct (map ow_machine (db_owners sample_owned))" by (simp add: sample_owned_def)
  have "\<exists>s. machineStanding Map.empty sample_owned [2] = Some s \<and> st_over s"
    by (simp add: machineStanding_def ownerOf_def sample_owned_def rank_of_def count_where_def age_def MAX_MACHINES_PER_USER_def)
  moreover have "\<not> (\<exists>s. machineStanding Map.empty sample_owned [1] = Some s \<and> st_over s)"
    by (simp add: machineStanding_def ownerOf_def sample_owned_def rank_of_def count_where_def age_def MAX_MACHINES_PER_USER_def)
  ultimately show ?thesis
    using over_the_limit_is_one_notion [OF unique, of Map.empty "[2]" "[9]"] over_the_limit_is_one_notion [OF unique, of Map.empty "[1]" "[9]"]
    by blast
qed

text \<open>
  C29. The oldest machines keep working. Of the machines an account owns exactly as many are within
  the limit as the limit allows, or all of them where they are fewer, and every one of these is
  older than every one that is switched off.
\<close>

theorem oldest_machines_keep_working:
  assumes "distinct (map ow_machine (db_owners db))"
  shows "length (filter (\<lambda>w. ow_user w = u \<and> ow_machine w \<notin> overLimitMachineIds env db) (db_owners db))
      = min (nat (el_limit (effectiveLimit env db u))) (machineCount db u)
    \<and> (\<forall>p q. p \<in> set (db_owners db) \<and> q \<in> set (db_owners db) \<and> ow_user p = u \<and> ow_user q = u
        \<and> ow_machine p \<notin> overLimitMachineIds env db \<and> ow_machine q \<in> overLimitMachineIds env db \<longrightarrow> age p < age q)"
proof
  have off: "ow_machine w \<in> overLimitMachineIds env db \<longleftrightarrow> limit_of env db (ow_user w) \<le> int (rank_of db w)"
    if "w \<in> set (db_owners db)" for w
    unfolding over_fleet [OF assms] standing_row [OF assms, of env "ow_machine w" "\<lambda>_ x. x"]
    using that by (metis same_key [OF assms])
  let ?n = "nat (limit_of env db u)"
  show "length (filter (\<lambda>w. ow_user w = u \<and> ow_machine w \<notin> overLimitMachineIds env db) (db_owners db))
      = min (nat (el_limit (effectiveLimit env db u))) (machineCount db u)"
  proof -
    have "filter (\<lambda>w. ow_user w = u \<and> ow_machine w \<notin> overLimitMachineIds env db) (db_owners db)
        = filter (\<lambda>w. ow_user w = u \<and> rank_of db w < ?n) (db_owners db)"
      using off by (intro filter_cong) (auto simp: zless_nat_eq_int_zless not_le)
    also have "length \<dots> = length (filter (\<lambda>w. rank_of db w < ?n) (by_age db u))"
    proof -
      have "mset (filter (\<lambda>w. rank_of db w < ?n) (by_age db u)) = mset (filter (\<lambda>w. ow_user w = u \<and> rank_of db w < ?n) (db_owners db))"
        by (simp add: by_age_def filter_filter_mset conj_commute)
      from mset_eq_length [OF this] show ?thesis by simp
    qed
    also have "\<dots> = length (filter (\<lambda>i. i < ?n) [0..<machineCount db u])"
    proof -
      have "map (rank_of db) (by_age db u) = [0..<machineCount db u]"
        using rank_is_place [OF assms] by (intro nth_equalityI) simp_all
      then have "length (filter (\<lambda>i. i < ?n) (map (rank_of db) (by_age db u))) = length (filter (\<lambda>i. i < ?n) [0..<machineCount db u])" by simp
      then show ?thesis by (simp add: filter_map comp_def)
    qed
    also have "\<dots> = min ?n (machineCount db u)" by (rule count_below)
    finally show ?thesis by (simp add: limit_of_def)
  qed
  show "\<forall>p q. p \<in> set (db_owners db) \<and> q \<in> set (db_owners db) \<and> ow_user p = u \<and> ow_user q = u
        \<and> ow_machine p \<notin> overLimitMachineIds env db \<and> ow_machine q \<in> overLimitMachineIds env db \<longrightarrow> age p < age q"
  proof (intro allI impI, elim conjE)
    fix p q assume p: "p \<in> set (db_owners db)" "ow_user p = u" "ow_machine p \<notin> overLimitMachineIds env db"
      and q: "q \<in> set (db_owners db)" "ow_user q = u" "ow_machine q \<in> overLimitMachineIds env db"
    then have less: "rank_of db p < rank_of db q" using off by fastforce
    show "age p < age q"
    proof (rule ccontr)
      assume "\<not> age p < age q"
      then have "set (filter (\<lambda>r. ow_user r = u \<and> age r < age q) (db_owners db)) \<subseteq> set (filter (\<lambda>r. ow_user r = u \<and> age r < age p) (db_owners db))"
        by auto
      moreover have "rank_of db r = card (set (filter (\<lambda>s. ow_user s = ow_user r \<and> age s < age r) (db_owners db)))" for r
        using assms distinct_card [OF distinct_filter, of "db_owners db"] by (simp add: rank_of_def count_where_def distinct_map)
      ultimately have "rank_of db q \<le> rank_of db p" using p(2) q(2) by (simp add: card_mono)
      with less show False by simp
    qed
  qed
qed

theorem oldest_machines_keep_working_witness:
  "length (filter (\<lambda>w. ow_user w = [9] \<and> ow_machine w \<notin> overLimitMachineIds Map.empty sample_owned) (db_owners sample_owned)) = 1"
proof -
  have unique: "distinct (map ow_machine (db_owners sample_owned))" by (simp add: sample_owned_def)
  show ?thesis
    using oldest_machines_keep_working [OF unique, of "[9]" Map.empty]
    by (simp add: effectiveLimit_def machineCount_def count_where_def sample_owned_def MAX_MACHINES_PER_USER_def)
qed

text \<open>
  Adding switches nothing off. A machine added under the account's effective limit leaves every
  machine of that account, the new one included, within the limit, and the standing of every
  machine of another account as it was.
\<close>

theorem adding_switches_nothing_off:
  assumes "distinct (map ow_machine (db_owners db))"
    and "createOwnedMachine hex u label scopes (el_limit (effectiveLimit env db u)) now db = (Inr created, db')"
  shows "(\<forall>s m. machineStanding env db' m = Some s \<and> st_ownerId s = u \<longrightarrow> \<not> st_over s)
    \<and> (\<exists>s. machineStanding env db' (fst created) = Some s \<and> st_ownerId s = u)
    \<and> (\<forall>w\<in>set (db_owners db). ow_user w \<noteq> u \<longrightarrow> machineStanding env db' (ow_machine w) = machineStanding env db (ow_machine w))"
proof -
  define new where "new = \<lparr>ow_machine = fst created, ow_user = u, ow_label = label, ow_createdAt = now\<rparr>"
  have room: "int (machineCount db u) < limit_of env db u"
    and owners: "db_owners db' = db_owners db @ [new]" and fresh: "fst created \<notin> ow_machine ` set (db_owners db)"
    and same: "db_limits db' = db_limits db" "db_settings db' = db_settings db" "db_users db' = db_users db"
    using assms(2) by (auto simp: createOwnedMachine_def limit_of_def new_def Let_def list_ex_iff split: if_splits)
  have unique: "distinct (map ow_machine (db_owners db'))" using assms(1) fresh owners by (simp add: new_def)
  have limit: "limit_of env db' v = limit_of env db v" for v
    using same by (simp add: limit_of_row instanceMachineLimit_def split: option.split)
  have "machineCount db' u = Suc (machineCount db u)" using owners by (simp add: machineCount_def count_where_def new_def)
  have below: "\<not> limit_of env db' u \<le> int (rank_of db' w)" if "w \<in> set (db_owners db')" "ow_user w = u" for w
    using place_of_owner [OF unique that(1)] that(2) room \<open>machineCount db' u = Suc (machineCount db u)\<close> limit [of u] by simp
  have "\<not> st_over s" if s: "machineStanding env db' m = Some s" "st_ownerId s = u" for s m
  proof
    assume "st_over s"
    with s have "\<exists>s. machineStanding env db' m = Some s \<and> (st_ownerId s = u \<and> st_over s)" by blast
    then obtain w where "w \<in> set (db_owners db')" "ow_user w = u" "limit_of env db' u \<le> int (rank_of db' w)"
      using standing_row [OF unique, of env m "\<lambda>v x. v = u \<and> x"] by auto
    with below show False by blast
  qed
  moreover have "\<exists>s. machineStanding env db' (fst created) = Some s \<and> st_ownerId s = u"
    using standing_row [OF unique, of env "fst created" "\<lambda>v x. v = u"] owners by (simp add: new_def)
  moreover have "machineStanding env db' (ow_machine w) = machineStanding env db (ow_machine w)"
    if w: "w \<in> set (db_owners db)" "ow_user w \<noteq> u" for w
  proof -
    have "ownerOf db' (ow_machine w) = Some w" "ownerOf db (ow_machine w) = Some w"
      using ownerOf_row [OF unique] ownerOf_row [OF assms(1)] w owners by auto
    moreover have "rank_of db' w = rank_of db w" using w(2) owners by (simp add: rank_of_def count_where_def new_def)
    ultimately show ?thesis using same limit by (simp add: machineStanding_row)
  qed
  ultimately show ?thesis by blast
qed

text \<open>
  Giving a machine up only switches others on. When an owner's row is released, no machine that
  was within its limit goes over it, and every other machine keeps its owner.
\<close>

theorem releasing_only_switches_on:
  assumes "distinct (map ow_machine (db_owners db))"
  shows "overLimitMachineIds env (snd (releaseOwner released db)) \<subseteq> overLimitMachineIds env db - {released}
    \<and> (\<forall>m. m \<noteq> released \<longrightarrow> ownerOf (snd (releaseOwner released db)) m = ownerOf db m)"
proof -
  let ?db = "snd (releaseOwner released db)"
  have owners: "db_owners ?db = filter (\<lambda>w. ow_machine w \<noteq> released) (db_owners db)"
    and same: "db_limits ?db = db_limits db" "db_settings ?db = db_settings db"
    by (simp_all add: releaseOwner_def delete_where_def)
  have unique: "distinct (map ow_machine (db_owners ?db))" using assms owners by (simp add: distinct_map_filter)
  have limit: "limit_of env ?db v = limit_of env db v" for v
    using same by (simp add: limit_of_row instanceMachineLimit_def split: option.split)
  have rank: "rank_of ?db w \<le> rank_of db w" for w
  proof -
    have "filter P (filter Q xs) = filter Q (filter P xs)" for P Q and xs :: "owner_row list" by (simp add: conj_commute)
    then show ?thesis unfolding rank_of_def count_where_def owners by (metis length_filter_le)
  qed
  have "m \<in> overLimitMachineIds env ?db \<Longrightarrow> m \<in> overLimitMachineIds env db \<and> m \<noteq> released" for m
    using standing_row [OF unique, of env m "\<lambda>_ x. x"] standing_row [OF assms, of env m "\<lambda>_ x. x"] rank owners limit
    unfolding over_fleet [OF assms] over_fleet [OF unique] by (fastforce intro: order_trans)
  moreover have "ownerOf ?db m = ownerOf db m" if "m \<noteq> released" for m
    unfolding ownerOf_def owners by (rule find_filtered) (use that in blast)
  ultimately show ?thesis by blast
qed

theorem releasing_only_switches_on_witness:
  "overLimitMachineIds Map.empty (snd (releaseOwner [1] sample_owned)) \<subseteq> {[2]} - {[1]}"
proof -
  have unique: "distinct (map ow_machine (db_owners sample_owned))" by (simp add: sample_owned_def)
  have "m = [2]" if "m \<in> overLimitMachineIds Map.empty sample_owned" for m
    using that by (auto simp: overLimitMachineIds_def sample_owned_def rank_of_def count_where_def age_def MAX_MACHINES_PER_USER_def)
  with releasing_only_switches_on [OF unique, of Map.empty "[1]"] show ?thesis by blast
qed

theorem adding_switches_nothing_off_witness:
  "\<exists>db'. createOwnedMachine (asc ''0a'') [8] [77] [] (el_limit (effectiveLimit Map.empty sample_owned [8])) 7 sample_owned
      = (Inr (asc ''m_0a'', 77 # asc ''-0a''), db') \<and> (\<forall>s m. machineStanding Map.empty db' m = Some s \<and> st_ownerId s = [8] \<longrightarrow> \<not> st_over s)"
proof -
  have unique: "distinct (map ow_machine (db_owners sample_owned))" by (simp add: sample_owned_def)
  have "\<exists>db'. createOwnedMachine (asc ''0a'') [8] [77] [] (el_limit (effectiveLimit Map.empty sample_owned [8])) 7 sample_owned
      = (Inr (asc ''m_0a'', 77 # asc ''-0a''), db')"
    by (simp add: createOwnedMachine_def effectiveLimit_def instanceMachineLimit_def readInteger_def readString_def readSetting_def
        js_trim_def sample_owned_def empty_db_def machineCount_def count_where_def MAX_MACHINES_PER_USER_def newId_def qualifiedName_def asc_def Let_def)
  then show ?thesis using adding_switches_nothing_off [OF unique] by blast
qed

subsection \<open>References\<close>

lemma newId_reserved:
  assumes "length hex = 16" and "list_all lower_hex hex"
  shows "MACHINE_LABEL_RESERVED (newId ''m'' hex)"
  using assms by (simp add: MACHINE_LABEL_RESERVED_def newId_def asc_def)

text \<open>
  A label names its owner's machine and an id names its machine. While every machine's id has
  the shape that no label may have and no account uses a label twice, what an owner calls a
  machine resolves to that machine for them whatever other machines are named, and the id of a
  machine resolves to it for everybody.
\<close>

theorem labels_and_ids_resolve:
  assumes "\<forall>m\<in>set (db_machines db). MACHINE_LABEL_RESERVED (ma_id m)"
    and "\<forall>w\<in>set (db_owners db). labelIsWellFormed (ow_label w)"
    and "distinct (map (\<lambda>w. (ow_user w, ow_label w)) (db_owners db))"
  shows "(\<forall>w\<in>set (db_owners db). resolveMachineRef db (ow_user w) (ow_label w) = Some (ow_machine w))
    \<and> (\<forall>m\<in>set (db_machines db). \<forall>u. resolveMachineRef db u (ma_id m) = Some (ma_id m))"
proof -
  have "resolveMachineRef db (ow_user w) (ow_label w) = Some (ow_machine w)" if w: "w \<in> set (db_owners db)" for w
  proof -
    have "List.find (\<lambda>m. ma_id m = ow_label w) (db_machines db) = None"
      using assms(1,2) w by (auto simp: find_None_iff labelIsWellFormed_def)
    moreover have "List.find (\<lambda>x. ow_user x = ow_user w \<and> ow_label x = ow_label w) (db_owners db) = Some w"
      using find_by_key [OF assms(3) w] by simp
    ultimately show ?thesis by (simp add: resolveMachineRef_def)
  qed
  moreover have "resolveMachineRef db u (ma_id m) = Some (ma_id m)" if "m \<in> set (db_machines db)" for m u
    using that by (auto simp: resolveMachineRef_def find_None_iff split: option.split dest: find_in)
  ultimately show ?thesis by blast
qed

end
