(* ===== verification/RelayProtocol.thy ===== *)
theory RelayProtocol
  imports Credentials
begin

text \<open>
  What a daemon and a relay agree on before a tunnel carries anything
  (\<open>src/src/relay/protocol.ts\<close>): the protocol version, the daemon's list of agents as a header,
  the machine's key, the delay before dialling again. \<open>random\<close> is an argument.
\<close>

definition RELAY_PROTOCOL_VERSION :: int where "RELAY_PROTOCOL_VERSION = 2"
definition RELAY_PROTOCOL_MIN_VERSION :: int where "RELAY_PROTOCOL_MIN_VERSION = 2"

definition negotiateProtocolVersion :: "rat \<Rightarrow> rat option" where
  "negotiateProtocolVersion offered =
     (if \<not> is_integer offered then None
      else if offered < of_int RELAY_PROTOCOL_MIN_VERSION then None
      else Some (min offered (of_int RELAY_PROTOCOL_VERSION)))"

subsection \<open>The agents of a daemon\<close>

definition MAX_AGENT_CLIS_CHARS :: nat where "MAX_AGENT_CLIS_CHARS = 512"

definition lower_letter :: "nat \<Rightarrow> bool" where "lower_letter c \<longleftrightarrow> 97 \<le> c \<and> c \<le> 122"
definition digit_char :: "nat \<Rightarrow> bool" where "digit_char c \<longleftrightarrow> 48 \<le> c \<and> c \<le> 57"

definition AGENT_CLI_ID_RE :: "ustring \<Rightarrow> bool" where
  "AGENT_CLI_ID_RE s \<longleftrightarrow> s \<noteq> [] \<and> length s \<le> 32 \<and> lower_letter (hd s) \<and>
     list_all (\<lambda>c. lower_letter c \<or> digit_char c \<or> c = 95 \<or> c = 45) (tl s)"

definition AGENT_CLI_VERSION_RE :: "ustring \<Rightarrow> bool" where
  "AGENT_CLI_VERSION_RE s \<longleftrightarrow> s \<noteq> [] \<and> length s \<le> 64 \<and>
     list_all (\<lambda>c. lower_letter c \<or> digit_char c \<or> 65 \<le> c \<and> c \<le> 90 \<or> c \<in> {46, 95, 43, 45}) s"

text \<open>An object with the ids as its members in the order they were set; \<open>None\<close> is \<open>null\<close>.\<close>

type_synonym agent_clis = "(ustring \<times> ustring option) list"

definition formatAgentClis :: "agent_clis \<Rightarrow> ustring" where
  "formatAgentClis clis =
     join [59] (map (\<lambda>(name, version). name @ 61 # (case version of None \<Rightarrow> [45] | Some v \<Rightarrow> v)) clis)"

fun clis_loop :: "ustring list \<Rightarrow> agent_clis \<Rightarrow> agent_clis option" where
  "clis_loop [] clis = Some clis"
| "clis_loop (entry # rest) clis =
     (let name = takeWhile (\<lambda>c. c \<noteq> 61) entry; version = drop (length name + 1) entry in
      if 61 \<notin> set entry then None
      else if \<not> AGENT_CLI_ID_RE name \<or> \<not> AGENT_CLI_VERSION_RE version then None
      else if name \<in> fst ` set clis then None
      else clis_loop rest (clis @ [(name, if version = [45] then None else Some version)]))"

definition parseAgentClis :: "ustring \<Rightarrow> agent_clis option" where
  "parseAgentClis s =
     (if s = [] \<or> MAX_AGENT_CLIS_CHARS < length s then None else clis_loop (split_on 59 s) [])"

subsection \<open>The key of a machine and the dialling delay\<close>

definition MAX_MACHINE_KEY_CHARS :: nat where "MAX_MACHINE_KEY_CHARS = 43"

fun parseMachineKey :: "json option \<Rightarrow> ustring option" where
  "parseMachineKey (Some (JStr t)) =
     (let v = js_trim t in
      if length v \<noteq> MAX_MACHINE_KEY_CHARS then None else if \<not> list_all url_safe v then None else Some v)"
| "parseMachineKey _ = None"

definition RECONNECT_MIN_MS :: rat where "RECONNECT_MIN_MS = 1000"
definition RECONNECT_MAX_MS :: rat where "RECONNECT_MAX_MS = 30000"

definition reconnectDelayMs :: "nat \<Rightarrow> rat \<Rightarrow> int" where
  "reconnectDelayMs n random = \<lfloor>random * min (RECONNECT_MIN_MS * 2 ^ (n - 1)) RECONNECT_MAX_MS + 1 / 2\<rfloor>"

subsection \<open>Properties\<close>

definition cli_entry :: "ustring \<times> ustring option \<Rightarrow> ustring" where
  "cli_entry p = fst p @ 61 # (case snd p of None \<Rightarrow> [45] | Some v \<Rightarrow> v)"

lemma formatAgentClis_entries: "formatAgentClis clis = join [59] (map cli_entry clis)"
  by (auto simp: formatAgentClis_def cli_entry_def intro!: arg_cong [of _ _ "join [59]"] map_cong)

text \<open>An entry the loop accepts is the very text its pair is formatted as.\<close>

lemma cut_entry:
  assumes "61 \<in> set entry"
  shows "entry = takeWhile (\<lambda>c. c \<noteq> 61) entry @ 61 # drop (length (takeWhile (\<lambda>c. c \<noteq> 61) entry) + 1) entry"
  using assms by (induction entry) auto

lemma clis_loop_entries:
  assumes "clis_loop entries clis = Some out"
  shows "\<exists>more. out = clis @ more \<and> map cli_entry more = entries
    \<and> (distinct (map fst clis) \<longrightarrow> distinct (map fst out))"
  using assms
proof (induction entries arbitrary: clis)
  case (Cons entry rest)
  define name where "name = takeWhile (\<lambda>c. c \<noteq> 61) entry"
  define version where "version = drop (length name + 1) entry"
  from Cons.prems have parts: "61 \<in> set entry" "name \<notin> fst ` set clis"
    and rest: "clis_loop rest (clis @ [(name, if version = [45] then None else Some version)]) = Some out"
    by (auto simp: Let_def name_def version_def split: if_splits)
  from Cons.IH [OF rest] obtain more where more: "out = (clis @ [(name, if version = [45] then None else Some version)]) @ more"
    "map cli_entry more = rest" "distinct (map fst clis) \<longrightarrow> distinct (map fst out)"
    using parts(2) by auto
  have "cli_entry (name, if version = [45] then None else Some version) = entry"
    using cut_entry [OF parts(1), folded name_def, folded version_def] by (cases "version = [45]") (simp_all add: cli_entry_def)
  with more show ?case by (intro exI [of _ "(name, if version = [45] then None else Some version) # more"]) simp
qed simp

text \<open>
  What is stored of a daemon's agents is what it said. A text the parser accepts is exactly the
  text its result is formatted as again, with every agent named once; so reading and rewriting
  the header changes nothing, whatever the version says, the dash included.
\<close>

theorem agent_header_is_exact:
  assumes "parseAgentClis s = Some clis"
  shows "formatAgentClis clis = s \<and> distinct (map fst clis)"
proof -
  have loop: "clis_loop (split_on 59 s) [] = Some clis" using assms by (simp add: parseAgentClis_def split: if_splits)
  from clis_loop_entries [OF this] have "map cli_entry clis = split_on 59 s" "distinct (map fst clis)" by auto
  then show ?thesis by (simp add: formatAgentClis_entries join_split_on)
qed

theorem agent_header_is_exact_witness: "formatAgentClis [(asc ''a'', None)] = asc ''a=-''"
proof -
  have "parseAgentClis (asc ''a=-'') = Some [(asc ''a'', None)]"
    by (simp add: parseAgentClis_def asc_def MAX_AGENT_CLIS_CHARS_def AGENT_CLI_ID_RE_def AGENT_CLI_VERSION_RE_def lower_letter_def digit_char_def)
  then show ?thesis using agent_header_is_exact by blast
qed

end
