(* ===== verification/ControlApi.thy ===== *)
theory ControlApi
  imports Accounts MachineLimits RelayProtocol Throttle Auth
begin

text \<open>
  Ground of the control plane's HTTP handlers (\<open>src/packages/control-plane/src/app.ts\<close>): the state
  they share, who calls, how they refuse. A handler is a method that may throw: a refusal is a
  status and a code, \<open>Threw\<close> an exception that left the handler and is answered 500. A handler's
  work after its body is read has no \<open>await\<close> in it, so it is one step; who calls was established
  before the body was read, so nothing here assumes the caller still exists.
\<close>

record control_app =
  ap_db :: control_db
  ap_logins :: login_throttle
  ap_addresses :: login_throttle
  ap_mails :: login_throttle
  ap_resetMails :: login_throttle
  ap_writes :: login_throttle

datatype refusal = Refused nat string | Threw

type_synonym 'a handler = "(control_app, refusal, 'a) throwing"

text \<open>What the platform does for the handlers, and what an instance is configured with.\<close>

record 'k control_platform =
  cp_lower :: "ustring \<Rightarrow> ustring"
  cp_sha :: "ustring \<Rightarrow> ustring"
  cp_digest :: "bytes \<Rightarrow> bytes"
  cp_private :: "ustring \<Rightarrow> 'k option"
  cp_json :: "ustring \<Rightarrow> json option"
  cp_sign :: "'k \<Rightarrow> bytes \<Rightarrow> bytes"
  cp_digits :: "rat \<Rightarrow> ustring"
  cp_env :: settings
  cp_issuer :: ustring
  cp_ttlSeconds :: int

text \<open>The random text one request may draw.\<close>

record entropy =
  en_machine :: ustring
  en_codeId :: ustring
  en_code :: ustring
  en_tunnelId :: ustring
  en_tunnel :: ustring
  en_tokenId :: ustring
  en_pair :: key_pair

record caller =
  ca_userId :: ustring
  ca_isAdmin :: bool
  ca_sessionId :: "ustring option"
  ca_deviceId :: "ustring option"

subsection \<open>Steps of a handler\<close>

definition check :: "bool \<Rightarrow> nat \<Rightarrow> string \<Rightarrow> unit handler" where
  "check ok status code = (if ok then done_with () else throw (Refused status code))"

definition found :: "'a option \<Rightarrow> nat \<Rightarrow> string \<Rightarrow> 'a handler" where
  "found v status code = (case v of None \<Rightarrow> throw (Refused status code) | Some x \<Rightarrow> done_with x)"

definition query :: "(control_db \<Rightarrow> 'a) \<Rightarrow> 'a handler" where
  "query f s = (Inr (f (ap_db s)), s)"

definition change :: "(control_db \<Rightarrow> 'a \<times> control_db) \<Rightarrow> 'a handler" where
  "change f s = (let (x, db) = f (ap_db s) in (Inr x, s\<lparr>ap_db := db\<rparr>))"

definition attempt :: "(control_db \<Rightarrow> ('a \<times> control_db) option) \<Rightarrow> 'a handler" where
  "attempt f s = (case f (ap_db s) of None \<Rightarrow> (Inl Threw, s) | Some (x, db) \<Rightarrow> (Inr x, s\<lparr>ap_db := db\<rparr>))"

definition requireAdmin :: "caller \<Rightarrow> unit handler" where
  "requireAdmin caller = check (ca_isAdmin caller) 403 ''forbidden''"

definition spendWrite :: "'k control_platform \<Rightarrow> caller \<Rightarrow> string \<Rightarrow> int \<Rightarrow> unit handler" where
  "spendWrite cp caller what now s =
     (let key = writeKey (cp_lower cp) (ca_userId caller) (asc what);
          (decision, t) = throttle_check (cp_lower cp) key (of_int now) (ap_writes s)
      in if \<not> td_allowed decision then (Inl (Refused 429 ''too_many_attempts''), s\<lparr>ap_writes := t\<rparr>)
         else (Inr (), s\<lparr>ap_writes := throttle_fail (cp_lower cp) key (of_int now) t\<rparr>))"

text \<open>A guess is counted against the address it comes from before it is judged.\<close>

definition spendGuess :: "'k control_platform \<Rightarrow> ustring \<Rightarrow> int \<Rightarrow> unit handler" where
  "spendGuess cp key now s =
     (let (decision, t) = throttle_check (cp_lower cp) key (of_int now) (ap_addresses s)
      in if \<not> td_allowed decision then (Inl (Refused 429 ''too_many_attempts''), s\<lparr>ap_addresses := t\<rparr>)
         else (Inr (), s\<lparr>ap_addresses := throttle_fail (cp_lower cp) key (of_int now) t\<rparr>))"

subsection \<open>Bodies\<close>

text \<open>\<open>readJsonObject\<close> answers the parsed body when it is an object.\<close>

definition body_field :: "json option \<Rightarrow> string \<Rightarrow> json option" where
  "body_field body name = (case body of None \<Rightarrow> None | Some b \<Rightarrow> field_of b (asc name))"

fun text_field :: "json option \<Rightarrow> ustring option" where
  "text_field (Some (JStr s)) = (if s = [] then None else Some s)"
| "text_field _ = None"

fun readLabel :: "json option \<Rightarrow> ustring option" where
  "readLabel (Some (JStr s)) = (if labelIsWellFormed (js_trim s) then Some (js_trim s) else None)"
| "readLabel _ = None"

definition parseScopes :: "ustring \<Rightarrow> scope list" where
  "parseScopes v = List.map_filter scope_of (words_of v)"

fun scopes_loop :: "json list \<Rightarrow> scope list \<Rightarrow> scope list option" where
  "scopes_loop [] out = Some out"
| "scopes_loop (JStr s # rest) out =
     (case scope_of s of
        None \<Rightarrow> None
      | Some p \<Rightarrow> scopes_loop rest (if p \<in> set out then out else out @ [p]))"
| "scopes_loop (_ # rest) out = None"

fun readScopes :: "json option \<Rightarrow> scope list option" where
  "readScopes (Some (JArr [])) = None"
| "readScopes (Some (JArr xs)) = scopes_loop xs []"
| "readScopes _ = None"

definition ALL_SCOPE_NAMES :: "ustring list" where "ALL_SCOPE_NAMES = map scope_name ALL_SCOPES"

definition ENROLLMENT_CODE_TTL_MS :: int where "ENROLLMENT_CODE_TTL_MS = 60 * 60 * 1000"

definition ensure_key :: "'k control_platform \<Rightarrow> entropy \<Rightarrow> int \<Rightarrow> ustring handler" where
  "ensure_key cp en now = attempt (ensureSigningKey (cp_private cp) (cp_json cp) (cp_digest cp) (en_pair en) now)"

end
