(* ===== verification/MachineRoutes.thy ===== *)
theory MachineRoutes
  imports ControlApi
begin

text \<open>
  The handlers of \<open>src/packages/control-plane/src/app.ts\<close> that change who may reach which machine:
  adding, naming, sharing, adopting and revoking machines, enrolling them, minting capabilities,
  suspending and deleting accounts. Each is the whole handler after its body is parsed; what it
  answers besides its refusals is the data of the answer. What is proved is that no handler ever
  breaks the relations between the tables, for which the database has no foreign keys.
\<close>

subsection \<open>One's own machines\<close>

definition ownedMachine :: "caller \<Rightarrow> ustring \<Rightarrow> owner_row handler" where
  "ownedMachine caller machineId =
     and_then (query (\<lambda>db. ownerOf db machineId)) (\<lambda>owner.
       found (case owner of None \<Rightarrow> None | Some w \<Rightarrow> if ow_user w = ca_userId caller then Some w else None) 404 ''machine_not_found'')"

record machine_created =
  mk_id :: ustring
  mk_name :: ustring
  mk_code :: ustring
  mk_codeExpiresAt :: int

definition create_for :: "'k control_platform \<Rightarrow> entropy \<Rightarrow> ustring \<Rightarrow> ustring \<Rightarrow> int \<Rightarrow> int \<Rightarrow> (ustring \<times> ustring) handler" where
  "create_for cp en userId label limit now =
     and_then (change (createOwnedMachine (en_machine en) userId label ALL_SCOPE_NAMES limit now)) (\<lambda>created.
       case created of
         Inl Too_many \<Rightarrow> throw (Refused 409 ''machine_limit'')
       | Inl Label_taken \<Rightarrow> throw (Refused 409 ''machine_exists'')
       | Inr made \<Rightarrow> done_with made)"

definition mint_code :: "'k control_platform \<Rightarrow> entropy \<Rightarrow> ustring \<Rightarrow> ustring \<Rightarrow> int \<Rightarrow> (ustring \<times> int) handler" where
  "mint_code cp en machineId createdBy now =
     attempt (mintEnrollmentCode (cp_sha cp) (en_code en) (en_codeId en) machineId createdBy ENROLLMENT_CODE_TTL_MS now)"

definition postMachine :: "'k control_platform \<Rightarrow> entropy \<Rightarrow> caller \<Rightarrow> json option \<Rightarrow> int \<Rightarrow> machine_created handler" where
  "postMachine cp en caller body now =
     and_then (spendWrite cp caller ''machine'' now) (\<lambda>_.
     and_then (check (body \<noteq> None) 400 ''bad_request'') (\<lambda>_.
     and_then (found (readLabel (body_field body ''name'')) 400 ''bad_request'') (\<lambda>label.
     and_then (ensure_key cp en now) (\<lambda>_.
     and_then (query (\<lambda>db. nameVisibleTo (cp_lower cp) db (ca_userId caller) label None)) (\<lambda>seen.
     and_then (check (\<not> seen) 409 ''machine_exists'') (\<lambda>_.
     and_then (query (\<lambda>db. effectiveLimit (cp_env cp) db (ca_userId caller))) (\<lambda>quota.
     and_then (create_for cp en (ca_userId caller) label (el_limit quota) now) (\<lambda>made.
     and_then (mint_code cp en (fst made) (ca_userId caller) now) (\<lambda>enrollment.
     done_with \<lparr>mk_id = fst made, mk_name = label, mk_code = fst enrollment, mk_codeExpiresAt = snd enrollment\<rparr>)))))))))"

definition patchMachine :: "'k control_platform \<Rightarrow> caller \<Rightarrow> ustring \<Rightarrow> json option \<Rightarrow> int \<Rightarrow> (ustring \<times> ustring) handler" where
  "patchMachine cp caller machineId body now =
     and_then (spendWrite cp caller ''machine_rename'' now) (\<lambda>_.
     and_then (ownedMachine caller machineId) (\<lambda>owned.
     and_then (check (body \<noteq> None) 400 ''bad_request'') (\<lambda>_.
     and_then (found (readLabel (body_field body ''name'')) 400 ''bad_request'') (\<lambda>label.
     and_then (query (\<lambda>db. nameVisibleTo (cp_lower cp) db (ca_userId caller) label (Some (ow_machine owned)))) (\<lambda>seen.
     and_then (check (\<not> seen) 409 ''machine_exists'') (\<lambda>_.
     and_then (change (relabelMachine (ow_machine owned) (ow_user owned) label)) (\<lambda>failed.
     and_then (check (failed = None) 409 ''machine_exists'') (\<lambda>_.
     done_with (ow_machine owned, label)))))))))"

text \<open>A row of the machine's own table, whatever state it is in.\<close>

definition machine_row_of :: "control_db \<Rightarrow> ustring \<Rightarrow> machine_row option" where
  "machine_row_of db machineId = List.find (\<lambda>m. ma_id m = machineId) (db_machines db)"

definition live_row :: "ustring \<Rightarrow> machine_row handler" where
  "live_row machineId =
     and_then (query (\<lambda>db. machine_row_of db machineId)) (\<lambda>row.
     and_then (found row 404 ''machine_not_found'') (\<lambda>m.
     and_then (check (ma_revokedAt m = None) 403 ''machine_revoked'') (\<lambda>_. done_with m)))"

definition postEnrollment :: "'k control_platform \<Rightarrow> entropy \<Rightarrow> caller \<Rightarrow> ustring \<Rightarrow> int \<Rightarrow> (ustring \<times> int) handler" where
  "postEnrollment cp en caller machineId now =
     and_then (spendWrite cp caller ''enroll'' now) (\<lambda>_.
     and_then (ownedMachine caller machineId) (\<lambda>owned.
     and_then (live_row (ow_machine owned)) (\<lambda>_.
     and_then (query (\<lambda>db. machineStanding (cp_env cp) db (ow_machine owned))) (\<lambda>place.
     and_then (check (case place of None \<Rightarrow> True | Some s \<Rightarrow> \<not> st_over s) 403 ''machine_over_limit'') (\<lambda>_.
     and_then (ensure_key cp en now) (\<lambda>_.
     mint_code cp en (ow_machine owned) (ca_userId caller) now))))))"

text \<open>One transaction: marked, its codes burnt, its owner's row released.\<close>

definition revoke_machine :: "ustring \<Rightarrow> int \<Rightarrow> control_db \<Rightarrow> (nat \<times> nat) \<times> control_db" where
  "revoke_machine machineId now db =
     (let live = (\<lambda>m. ma_id m = machineId \<and> ma_revokedAt m = None);
          changed = count_where live (db_machines db);
          marked = db\<lparr>db_machines := update_where live (\<lambda>m. m\<lparr>ma_revokedAt := Some now\<rparr>) (db_machines db)\<rparr>
      in if changed = 1
         then let (burned, db') = burnMachineCodes machineId now marked in ((changed, burned), snd (releaseOwner machineId db'))
         else ((changed, 0), marked))"

definition postRevoke :: "'k control_platform \<Rightarrow> caller \<Rightarrow> ustring \<Rightarrow> int \<Rightarrow> nat handler" where
  "postRevoke cp caller machineId now =
     and_then (spendWrite cp caller ''machine_revoke'' now) (\<lambda>_.
     and_then (ownedMachine caller machineId) (\<lambda>owned.
     and_then (change (revoke_machine (ow_machine owned) now)) (\<lambda>outcome.
     and_then (check (fst outcome = 1) 404 ''machine_not_found'') (\<lambda>_.
     done_with (snd outcome)))))"

subsection \<open>Sharing\<close>

text \<open>\<open>INSERT INTO grants \<dots> ON CONFLICT(user_id, machine_id) DO UPDATE SET scopes\<close>.\<close>

definition upsert_grant :: "ustring \<Rightarrow> ustring \<Rightarrow> ustring \<Rightarrow> int \<Rightarrow> control_db \<Rightarrow> control_db" where
  "upsert_grant userId machineId scopes now db =
     (let here = (\<lambda>g. gr_user g = userId \<and> gr_machine g = machineId) in
      if list_ex here (db_grants db) then db\<lparr>db_grants := update_where here (\<lambda>g. g\<lparr>gr_scopes := scopes\<rparr>) (db_grants db)\<rparr>
      else db\<lparr>db_grants := db_grants db @ [\<lparr>gr_user = userId, gr_machine = machineId, gr_scopes = scopes, gr_createdAt = now\<rparr>]\<rparr>)"

definition drop_grant :: "ustring \<Rightarrow> ustring \<Rightarrow> control_db \<Rightarrow> nat \<times> control_db" where
  "drop_grant userId machineId db =
     (let here = (\<lambda>g. gr_user g = userId \<and> gr_machine g = machineId)
      in (count_where here (db_grants db), db\<lparr>db_grants := delete_where here (db_grants db)\<rparr>))"

definition user_row_of :: "control_db \<Rightarrow> ustring \<Rightarrow> user_row option" where
  "user_row_of db userId = List.find (\<lambda>u. us_id u = userId) (db_users db)"

definition putGrant :: "'k control_platform \<Rightarrow> caller \<Rightarrow> ustring \<Rightarrow> json option \<Rightarrow> int \<Rightarrow> (ustring \<times> ustring \<times> scope list) handler" where
  "putGrant cp caller machineId body now =
     and_then (spendWrite cp caller ''machine_share'' now) (\<lambda>_.
     and_then (check (body \<noteq> None) 400 ''bad_request'') (\<lambda>_.
     and_then (found (text_field (body_field body ''userId'')) 400 ''bad_request'') (\<lambda>userId.
     and_then (found (readScopes (body_field body ''scopes'')) 400 ''bad_request'') (\<lambda>scopes.
     and_then (ownedMachine caller machineId) (\<lambda>owned.
     and_then (check (userId \<noteq> ow_user owned) 409 ''grant_is_owner'') (\<lambda>_.
     and_then (query (\<lambda>db. user_row_of db userId)) (\<lambda>row.
     and_then (found row 404 ''user_not_found'') (\<lambda>target.
     and_then (check (us_disabledAt target = None) 409 ''user_disabled'') (\<lambda>_.
     and_then (change (\<lambda>db. ((), upsert_grant userId (ow_machine owned) (join [32] (map scope_name scopes)) now db))) (\<lambda>_.
     done_with (userId, ow_machine owned, scopes)))))))))))"

definition deleteGrant :: "'k control_platform \<Rightarrow> caller \<Rightarrow> ustring \<Rightarrow> ustring option \<Rightarrow> int \<Rightarrow> unit handler" where
  "deleteGrant cp caller machineId asked now =
     and_then (spendWrite cp caller ''machine_unshare'' now) (\<lambda>_.
     and_then (ownedMachine caller machineId) (\<lambda>owned.
     and_then (found (text_field (map_option JStr asked)) 400 ''bad_request'') (\<lambda>userId.
     and_then (check (userId \<noteq> ow_user owned) 409 ''grant_is_owner'') (\<lambda>_.
     and_then (change (drop_grant userId (ow_machine owned))) (\<lambda>changed.
     check (changed = 1) 404 ''grant_not_found'')))))"

definition leaveGrant :: "'k control_platform \<Rightarrow> caller \<Rightarrow> ustring \<Rightarrow> int \<Rightarrow> unit handler" where
  "leaveGrant cp caller machineId now =
     and_then (spendWrite cp caller ''grant_leave'' now) (\<lambda>_.
     and_then (query (\<lambda>db. ownerOf db machineId)) (\<lambda>owner.
     and_then (check (case owner of None \<Rightarrow> True | Some w \<Rightarrow> ow_user w \<noteq> ca_userId caller) 409 ''grant_is_owner'') (\<lambda>_.
     and_then (change (drop_grant (ca_userId caller) machineId)) (\<lambda>changed.
     check (changed = 1) 404 ''grant_not_found''))))"

subsection \<open>Enrolling\<close>

text \<open>Every usable code with this hash is marked used; a hash names at most one.\<close>

definition claim_code :: "(ustring \<Rightarrow> ustring) \<Rightarrow> ustring \<Rightarrow> ustring \<Rightarrow> int \<Rightarrow> control_db \<Rightarrow> nat \<times> control_db" where
  "claim_code sha code claimant now db =
     (let fits = (\<lambda>c. ec_hash c = hashCredential sha code \<and> ec_usedAt c = None \<and> now < ec_expiresAt c)
      in (count_where fits (db_codes db),
          db\<lparr>db_codes := update_where fits (\<lambda>c. c\<lparr>ec_usedAt := Some now, ec_usedFrom := Some claimant\<rparr>) (db_codes db)\<rparr>))"

record enrollment =
  er_machineId :: ustring
  er_keys :: "(ustring \<times> json) list"
  er_tunnelKey :: ustring

definition postEnroll :: "'k control_platform \<Rightarrow> entropy \<Rightarrow> ustring \<Rightarrow> json option \<Rightarrow> int \<Rightarrow> enrollment handler" where
  "postEnroll cp en address body now =
     and_then (check (body \<noteq> None) 400 ''bad_request'') (\<lambda>_.
     and_then (found (text_field (body_field body ''code'')) 400 ''bad_request'') (\<lambda>code.
     and_then (spendGuess cp (enrollKey (cp_lower cp) address) now) (\<lambda>_.
     and_then (change (claim_code (cp_sha cp) code address now)) (\<lambda>claimed.
     and_then (check (claimed = 1) 409 ''code_unusable'') (\<lambda>_.
     and_then (query (\<lambda>db. List.find (\<lambda>c. ec_hash c = hashCredential (cp_sha cp) code) (db_codes db))) (\<lambda>row.
     and_then (query (\<lambda>db. machine_row_of db (case row of None \<Rightarrow> [] | Some c \<Rightarrow> ec_machine c))) (\<lambda>held.
     and_then (found held 409 ''machine_missing'') (\<lambda>m.
     and_then (check (ma_revokedAt m = None) 403 ''machine_revoked'') (\<lambda>_.
     and_then (change (\<lambda>db. ((), db\<lparr>db_machines := update_where (\<lambda>r. ma_id r = ma_id m)
         (\<lambda>r. r\<lparr>ma_enrolledAt := Some now, ma_enrolledBy := text_field (map_option (\<lambda>c. JStr (ec_createdBy c)) row)\<rparr>) (db_machines db)\<rparr>))) (\<lambda>_.
     and_then (attempt (\<lambda>db. map_option (\<lambda>ks. (ks, db)) (activePublicKeys (cp_json cp) db))) (\<lambda>keys.
     and_then (check (keys \<noteq> []) 503 ''no_signing_key'') (\<lambda>_.
     and_then (attempt (issueTunnelKey (cp_sha cp) (en_tunnel en) (en_tunnelId en) (ma_id m) now)) (\<lambda>tunnelKey.
     and_then (change (\<lambda>db. ((), case parseMachineKey (body_field body ''machineKey'') of None \<Rightarrow> db | Some k \<Rightarrow> setMachineKey (ma_id m) k now db))) (\<lambda>_.
     done_with \<lparr>er_machineId = ma_id m, er_keys = keys, er_tunnelKey = tunnelKey\<rparr>))))))))))))))"

subsection \<open>Capabilities\<close>

record issued_token =
  it_token :: ustring
  it_expiresAt :: rat
  it_scopes :: "scope list"
  it_machineId :: ustring
  it_key :: "ustring option"

text \<open>The claims of a capability; a confirmation and a device where the session has a device.\<close>

definition token_claims_for :: "'k control_platform \<Rightarrow> entropy \<Rightarrow> caller \<Rightarrow> ustring \<Rightarrow> scope list \<Rightarrow> ustring option \<Rightarrow> int \<Rightarrow> token_claims" where
  "token_claims_for cp en caller machineId scopes deviceKey now =
     \<lparr>cl_iss = cp_issuer cp, cl_sub = ca_userId caller, cl_aud = machineId, cl_jti = newId ''t'' (en_tokenId en),
      cl_iat = of_int (now div 1000), cl_nbf = of_int (now div 1000), cl_exp = of_int (now div 1000 + cp_ttlSeconds cp),
      cl_scp = map scope_name scopes,
      cl_cnf = map_option (\<lambda>k. jwkThumbprint (cp_digest cp) (b64uEncode (buffer_from_b64u k))) deviceKey,
      cl_dev = ca_deviceId caller\<rparr>"

definition postToken :: "'k control_platform \<Rightarrow> entropy \<Rightarrow> caller \<Rightarrow> json option \<Rightarrow> int \<Rightarrow> issued_token handler" where
  "postToken cp en caller body now =
     and_then (spendWrite cp caller ''token'' now) (\<lambda>_.
     and_then (check (body \<noteq> None) 400 ''bad_request'') (\<lambda>_.
     and_then (found (text_field (body_field body ''machine'')) 400 ''bad_request'') (\<lambda>ref.
     and_then (query (\<lambda>db. Option.bind (resolveMachineRef db (ca_userId caller) ref) (machine_row_of db))) (\<lambda>row.
     and_then (found row 404 ''machine_not_found'') (\<lambda>m.
     and_then (query (\<lambda>db. List.find (\<lambda>g. gr_user g = ca_userId caller \<and> gr_machine g = ma_id m) (db_grants db))) (\<lambda>given.
     and_then (found given 404 ''machine_not_found'') (\<lambda>grant.
     and_then (check (ma_revokedAt m = None) 403 ''machine_revoked'') (\<lambda>_.
     and_then (check (ma_enrolledAt m \<noteq> None) 409 ''machine_not_enrolled'') (\<lambda>_.
     and_then (query (\<lambda>db. machineStanding (cp_env cp) db (ma_id m))) (\<lambda>place.
     and_then (check (case place of None \<Rightarrow> True | Some s \<Rightarrow> \<not> st_ownerDisabled s) 403 ''owner_disabled'') (\<lambda>_.
     and_then (check (case place of None \<Rightarrow> True | Some s \<Rightarrow> \<not> st_over s) 403 ''machine_over_limit'') (\<lambda>_.
     and_then (attempt (\<lambda>db. map_option (\<lambda>ks. (ks, db)) (activeSigningKeys (cp_private cp) (cp_json cp) db))) (\<lambda>keys.
     and_then (found (case keys of [] \<Rightarrow> None | k # _ \<Rightarrow> Some k) 503 ''no_signing_key'') (\<lambda>signing.
     and_then (check (parseScopes (gr_scopes grant) \<noteq> []) 403 ''no_scopes'') (\<lambda>_.
     and_then (query (\<lambda>db. Option.bind (ca_deviceId caller) (deviceKeyFor db))) (\<lambda>deviceKey.
     and_then (check (ca_deviceId caller = None \<or> deviceKey \<noteq> None) 409 ''device_key_required'') (\<lambda>_.
     and_then (query (\<lambda>db. machineKeyFor db (ma_id m))) (\<lambda>machineKey.
     let claims = token_claims_for cp en caller (ma_id m) (parseScopes (gr_scopes grant)) deviceKey now in
     done_with \<lparr>it_token = signToken (cp_digits cp) (cp_sign cp) claims (sg_kid signing) (sg_private signing),
       it_expiresAt = cl_exp claims * 1000, it_scopes = parseScopes (gr_scopes grant),
       it_machineId = ma_id m, it_key = machineKey\<rparr>))))))))))))))))))"

subsection \<open>The administrator\<close>

definition long_name :: "json option \<Rightarrow> ustring option" where
  "long_name v = (case v of Some (JStr s) \<Rightarrow> if js_trim s = [] \<or> 200 < length s then None else Some s | _ \<Rightarrow> None)"

definition adminPostMachine :: "'k control_platform \<Rightarrow> entropy \<Rightarrow> caller \<Rightarrow> json option \<Rightarrow> int \<Rightarrow> (ustring \<times> ustring) handler" where
  "adminPostMachine cp en caller body now =
     and_then (requireAdmin caller) (\<lambda>_.
     and_then (check (body \<noteq> None) 400 ''bad_request'') (\<lambda>_.
     and_then (found (long_name (body_field body ''name'')) 400 ''bad_request'') (\<lambda>name.
     and_then (found (text_field (body_field body ''ownerId'')) 400 ''bad_request'') (\<lambda>ownerId.
     and_then (query (\<lambda>db. user_row_of db ownerId)) (\<lambda>row.
     and_then (check (row \<noteq> None) 404 ''user_not_found'') (\<lambda>_.
     and_then (found (readLabel (Some (JStr name))) 400 ''bad_request'') (\<lambda>label.
     and_then (query (\<lambda>db. nameVisibleTo (cp_lower cp) db ownerId label None)) (\<lambda>seen.
     and_then (check (\<not> seen) 409 ''machine_exists'') (\<lambda>_.
     and_then (query (\<lambda>db. effectiveLimit (cp_env cp) db ownerId)) (\<lambda>quota.
     create_for cp en ownerId label (el_limit quota) now))))))))))"

definition adminPatchMachine :: "'k control_platform \<Rightarrow> caller \<Rightarrow> ustring \<Rightarrow> json option \<Rightarrow> (ustring \<times> ustring) handler" where
  "adminPatchMachine cp caller ref body =
     and_then (requireAdmin caller) (\<lambda>_.
     and_then (check (body \<noteq> None) 400 ''bad_request'') (\<lambda>_.
     and_then (query (\<lambda>db. List.find (\<lambda>m. ma_id m = ref \<or> ma_name m = ref) (db_machines db))) (\<lambda>row.
     and_then (found row 404 ''machine_not_found'') (\<lambda>m.
     and_then (check (ma_revokedAt m = None) 403 ''machine_revoked'') (\<lambda>_.
     and_then (case body_field body ''name'' of
         None \<Rightarrow> done_with (ma_name m)
       | Some raw \<Rightarrow>
           and_then (found (long_name (Some raw)) 400 ''bad_request'') (\<lambda>s.
           and_then (query (\<lambda>db. list_ex (\<lambda>r. ma_name r = js_trim s \<and> ma_id r \<noteq> ma_id m) (db_machines db))) (\<lambda>clash.
           and_then (check (\<not> clash) 409 ''machine_exists'') (\<lambda>_.
           and_then (query (\<lambda>db. nameVisibleToGrantees (cp_lower cp) db (ma_id m) (js_trim s))) (\<lambda>seen.
           and_then (check (\<not> seen) 409 ''machine_exists'') (\<lambda>_. done_with (js_trim s))))))) (\<lambda>name.
     and_then (change (\<lambda>db. ((), db\<lparr>db_machines := update_where (\<lambda>r. ma_id r = ma_id m) (\<lambda>r. r\<lparr>ma_name := name\<rparr>) (db_machines db)\<rparr>))) (\<lambda>_.
     done_with (ma_id m, name))))))))"

definition grantees_of :: "control_db \<Rightarrow> ustring \<Rightarrow> ustring list" where
  "grantees_of db machineId = map gr_user (filter (\<lambda>g. gr_machine g = machineId) (db_grants db))"

definition adminEnroll :: "'k control_platform \<Rightarrow> entropy \<Rightarrow> caller \<Rightarrow> ustring \<Rightarrow> int \<Rightarrow> (ustring \<times> int) handler" where
  "adminEnroll cp en caller machineId now =
     and_then (requireAdmin caller) (\<lambda>_.
     and_then (live_row machineId) (\<lambda>m.
     and_then (query (\<lambda>db. ma_enrolledAt m \<noteq> None \<and> (ownerOf db machineId \<noteq> None \<or> grantees_of db machineId \<noteq> []))) (\<lambda>depended.
     and_then (check (\<not> depended) 409 ''machine_enrolled'') (\<lambda>_.
     and_then (query (\<lambda>db. List.find (\<lambda>c. ec_machine c = machineId \<and> ec_usedAt c = None \<and> now < ec_expiresAt c) (db_codes db))) (\<lambda>outstanding.
     and_then (check (case outstanding of None \<Rightarrow> True | Some c \<Rightarrow> ec_createdBy c = ca_userId caller) 409 ''code_outstanding'') (\<lambda>_.
     and_then (ensure_key cp en now) (\<lambda>_.
     mint_code cp en machineId (ca_userId caller) now)))))))"

definition adminClearKey :: "caller \<Rightarrow> ustring \<Rightarrow> ustring option handler" where
  "adminClearKey caller machineId =
     and_then (requireAdmin caller) (\<lambda>_.
     and_then (live_row machineId) (\<lambda>_.
     and_then (query (\<lambda>db. machineKeyFor db machineId)) (\<lambda>previous.
     and_then (change (\<lambda>db. ((), db\<lparr>db_machines :=
         update_where (\<lambda>m. ma_id m = machineId) (\<lambda>m. m\<lparr>ma_key := None, ma_keySetAt := None\<rparr>) (db_machines db)\<rparr>))) (\<lambda>_.
     done_with previous))))"

definition adminRevoke :: "caller \<Rightarrow> ustring \<Rightarrow> int \<Rightarrow> nat handler" where
  "adminRevoke caller machineId now =
     and_then (requireAdmin caller) (\<lambda>_.
     and_then (change (revoke_machine machineId now)) (\<lambda>outcome.
     and_then (check (fst outcome = 1) 404 ''machine_not_found'') (\<lambda>_. done_with (snd outcome))))"

text \<open>The transaction of an adoption: an owner who stays keeps the row's age, a new one starts afresh.\<close>

definition adopt_machine :: "ustring \<Rightarrow> ustring \<Rightarrow> ustring \<Rightarrow> int \<Rightarrow> control_db \<Rightarrow> nat \<times> control_db" where
  "adopt_machine machineId userId label now db =
     (let previous = ownerOf db machineId;
          stays = (case previous of None \<Rightarrow> False | Some w \<Rightarrow> ow_user w = userId);
          acquiredAt = (if stays then ow_createdAt (the previous) else now);
          released = snd (releaseOwner machineId db);
          owned = released\<lparr>db_owners := db_owners released @
            [\<lparr>ow_machine = machineId, ow_user = userId, ow_label = label, ow_createdAt = acquiredAt\<rparr>]\<rparr>;
          granted = upsert_grant userId machineId (join [32] ALL_SCOPE_NAMES) now owned
      in if stays then (0, granted) else burnMachineCodes machineId now granted)"

definition adminPutOwner :: "'k control_platform \<Rightarrow> caller \<Rightarrow> ustring \<Rightarrow> json option \<Rightarrow> int \<Rightarrow> nat handler" where
  "adminPutOwner cp caller machineId body now =
     and_then (requireAdmin caller) (\<lambda>_.
     and_then (check (body \<noteq> None) 400 ''bad_request'') (\<lambda>_.
     and_then (found (text_field (body_field body ''userId'')) 400 ''bad_request'') (\<lambda>userId.
     and_then (found (readLabel (body_field body ''label'')) 400 ''bad_request'') (\<lambda>label.
     and_then (live_row machineId) (\<lambda>_.
     and_then (query (\<lambda>db. user_row_of db userId)) (\<lambda>row.
     and_then (check (row \<noteq> None) 404 ''user_not_found'') (\<lambda>_.
     and_then (query (\<lambda>db. ownerOf db machineId)) (\<lambda>existing.
     and_then (check (case existing of None \<Rightarrow> True | Some w \<Rightarrow> ow_user w = userId) 403 ''machine_owned'') (\<lambda>_.
     and_then (query (\<lambda>db. grantees_of db machineId)) (\<lambda>grantees.
     and_then (check (\<not> (existing = None \<and> grantees \<noteq> [] \<and> userId \<notin> set grantees)) 403 ''machine_granted'') (\<lambda>_.
     and_then (query (\<lambda>db. count_where (\<lambda>w. ow_user w = userId \<and> ow_machine w \<noteq> machineId) (db_owners db))) (\<lambda>owned.
     and_then (query (\<lambda>db. min (el_limit (effectiveLimit (cp_env cp) db userId)) MAX_MACHINES_PER_USER)) (\<lambda>ceiling.
     and_then (check (int owned < ceiling) 409 ''machine_limit'') (\<lambda>_.
     and_then (query (\<lambda>db. nameVisibleTo (cp_lower cp) db userId label (Some machineId))) (\<lambda>seen.
     and_then (check (\<not> seen) 409 ''machine_exists'') (\<lambda>_.
     and_then (query (\<lambda>db. list_ex (\<lambda>w. ow_user w = userId \<and> ow_label w = label \<and> ow_machine w \<noteq> machineId) (db_owners db))) (\<lambda>clash.
     and_then (check (\<not> clash) 409 ''machine_exists'') (\<lambda>_.
     change (adopt_machine machineId userId label now)))))))))))))))))))"

definition putMachineLimit :: "caller \<Rightarrow> ustring \<Rightarrow> json option \<Rightarrow> unit handler" where
  "putMachineLimit caller userId body =
     and_then (requireAdmin caller) (\<lambda>_.
     and_then (check (body \<noteq> None) 400 ''bad_request'') (\<lambda>_.
     and_then (found (case body_field body ''maxMachines'' of Some (JNum (Some n) _) \<Rightarrow> if is_integer n then Some \<lfloor>n\<rfloor> else None | _ \<Rightarrow> None)
         400 ''bad_request'') (\<lambda>wanted.
     and_then (check (0 \<le> wanted) 400 ''bad_request'') (\<lambda>_.
     and_then (check (wanted \<le> MAX_MACHINES_PER_USER) 400 ''bad_request'') (\<lambda>_.
     and_then (query (\<lambda>db. user_row_of db userId)) (\<lambda>row.
     and_then (check (row \<noteq> None) 404 ''user_not_found'') (\<lambda>_.
     change (\<lambda>db. ((), writeMachineLimit userId wanted db)))))))))"

definition deleteMachineLimit :: "caller \<Rightarrow> ustring \<Rightarrow> bool handler" where
  "deleteMachineLimit caller userId =
     and_then (requireAdmin caller) (\<lambda>_.
     and_then (query (\<lambda>db. user_row_of db userId)) (\<lambda>row.
     and_then (check (row \<noteq> None) 404 ''user_not_found'') (\<lambda>_. change (clearMachineLimit userId))))"

subsection \<open>A hosting provider\<close>

text \<open>The account by its id, or by its name bar case when no id fits.\<close>

definition provisioned_user :: "'k control_platform \<Rightarrow> ustring \<Rightarrow> user_row handler" where
  "provisioned_user cp wanted =
     and_then (query (\<lambda>db. user_row_of db wanted)) (\<lambda>byId.
     and_then (query (\<lambda>db. case byId of Some _ \<Rightarrow> [] | None \<Rightarrow> filter (\<lambda>u. lowered (us_name u) = cp_lower cp wanted) (db_users db))) (\<lambda>byName.
     and_then (check (length byName \<le> 1) 409 ''user_ambiguous'') (\<lambda>_.
     found (case byId of Some u \<Rightarrow> Some u | None \<Rightarrow> (case byName of [] \<Rightarrow> None | u # _ \<Rightarrow> Some u)) 404 ''user_not_found'')))"

definition postProvision :: "'k control_platform \<Rightarrow> entropy \<Rightarrow> ustring \<Rightarrow> json option \<Rightarrow> int \<Rightarrow> (machine_created \<times> int option) handler" where
  "postProvision cp en address body now =
     and_then (spendGuess cp (provisionKey (cp_lower cp) address) now) (\<lambda>_.
     and_then (check (body \<noteq> None) 400 ''bad_request'') (\<lambda>_.
     and_then (found (text_field (body_field body ''key'')) 400 ''bad_request'') (\<lambda>presented.
     and_then (query (\<lambda>db. resolveProvisioningKey (cp_sha cp) db presented)) (\<lambda>resolved.
     and_then (found resolved 401 ''invalid_provisioning_key'') (\<lambda>keyId.
     and_then (found (case body_field body ''user'' of Some (JStr s) \<Rightarrow> if js_trim s = [] then None else Some (js_trim s) | _ \<Rightarrow> None) 400 ''bad_request'') (\<lambda>wanted.
     and_then (found (readLabel (body_field body ''machine'')) 400 ''bad_request'') (\<lambda>label.
     and_then (provisioned_user cp wanted) (\<lambda>user.
     and_then (check (us_disabledAt user = None) 403 ''user_disabled'') (\<lambda>_.
     and_then (ensure_key cp en now) (\<lambda>_.
     and_then (query (\<lambda>db. nameVisibleTo (cp_lower cp) db (us_id user) label None)) (\<lambda>seen.
     and_then (check (\<not> seen) 409 ''machine_exists'') (\<lambda>_.
     and_then (query (\<lambda>db. el_limit (effectiveLimit (cp_env cp) db (us_id user)))) (\<lambda>before.
     and_then (query (\<lambda>db. int (machineCount db (us_id user)))) (\<lambda>owned.
     and_then (check (owned \<le> before) 409 ''machine_limit'') (\<lambda>_.
     let raisedTo = (if before \<le> owned then Some (min (owned + 1) MAX_MACHINES_PER_USER) else None) in
     and_then (create_for cp en (us_id user) label (case raisedTo of None \<Rightarrow> before | Some n \<Rightarrow> n) now) (\<lambda>made.
     and_then (change (\<lambda>db. ((), case raisedTo of None \<Rightarrow> db | Some n \<Rightarrow> writeMachineLimit (us_id user) n db))) (\<lambda>_.
     and_then (mint_code cp en (fst made) keyId now) (\<lambda>enrollment.
     done_with (\<lparr>mk_id = fst made, mk_name = label, mk_code = fst enrollment, mk_codeExpiresAt = snd enrollment\<rparr>, raisedTo)))))))))))))))))))"

subsection \<open>Accounts suspended and removed\<close>

definition disable_user :: "ustring \<Rightarrow> int \<Rightarrow> control_db \<Rightarrow> (nat \<times> nat \<times> nat) \<times> control_db" where
  "disable_user userId now db =
     (let marked = db\<lparr>db_users := update_where (\<lambda>u. us_id u = userId \<and> us_disabledAt u = None) (\<lambda>u. u\<lparr>us_disabledAt := Some now\<rparr>) (db_users db)\<rparr>;
          (sessions, db1) = revokeAllSessions userId None now marked;
          (own, db2) = burnUserCodes userId User_disabled now db1;
          (granted, db3) = burnGranteeCodes userId User_disabled now db2;
          (links, db4) = burnEmailTokens userId Burn_user_disabled now None db3
      in ((sessions, own + granted, links), db4))"

definition postDisable :: "caller \<Rightarrow> ustring \<Rightarrow> int \<Rightarrow> (nat \<times> nat \<times> nat) handler" where
  "postDisable caller userId now =
     and_then (requireAdmin caller) (\<lambda>_.
     and_then (check (userId \<noteq> ca_userId caller) 409 ''cannot_disable_self'') (\<lambda>_.
     and_then (query (\<lambda>db. user_row_of db userId)) (\<lambda>row.
     and_then (found row 404 ''user_not_found'') (\<lambda>target.
     and_then (check (us_disabledAt target = None) 404 ''user_not_found'') (\<lambda>_.
     and_then (query (\<lambda>db. count_where (\<lambda>u. us_id u = userId \<and> us_disabledAt u = None) (db_users db))) (\<lambda>changed.
     and_then (check (changed = 1) 404 ''user_not_found'') (\<lambda>_.
     change (disable_user userId now))))))))"

definition postEnable :: "caller \<Rightarrow> ustring \<Rightarrow> unit handler" where
  "postEnable caller userId =
     and_then (requireAdmin caller) (\<lambda>_.
     and_then (change (\<lambda>db. let off = (\<lambda>u. us_id u = userId \<and> us_disabledAt u \<noteq> None)
         in (count_where off (db_users db), db\<lparr>db_users := update_where off (\<lambda>u. u\<lparr>us_disabledAt := None\<rparr>) (db_users db)\<rparr>))) (\<lambda>changed.
     check (changed = 1) 404 ''user_not_found''))"

text \<open>A machine is marked revoked and its codes burnt; how many machines and codes that took.\<close>

definition retire_machine :: "int \<Rightarrow> ustring \<Rightarrow> (nat \<times> nat) \<times> control_db \<Rightarrow> (nat \<times> nat) \<times> control_db" where
  "retire_machine now machineId acc =
     (let ((machines, codes), db) = acc;
          live = (\<lambda>m. ma_id m = machineId \<and> ma_revokedAt m = None);
          marked = db\<lparr>db_machines := update_where live (\<lambda>m. m\<lparr>ma_revokedAt := Some now\<rparr>) (db_machines db)\<rparr>
      in if count_where live (db_machines db) = 1
         then let (burned, db') = burnMachineCodes machineId now marked in ((machines + 1, codes + burned), db')
         else ((machines, codes), marked))"

definition may_strand :: "control_db \<Rightarrow> ustring \<Rightarrow> ustring list" where
  "may_strand db userId =
     [gr_machine g. g \<leftarrow> db_grants db, gr_user g = userId, m \<leftarrow> db_machines db,
        ma_id m = gr_machine g \<and> ma_revokedAt m = None \<and> \<not> list_ex (\<lambda>w. ow_machine w = gr_machine g) (db_owners db)]"

definition retire_stranded :: "int \<Rightarrow> ustring \<Rightarrow> (nat \<times> nat) \<times> control_db \<Rightarrow> (nat \<times> nat) \<times> control_db" where
  "retire_stranded now machineId acc =
     (if list_ex (\<lambda>g. gr_machine g = machineId) (db_grants (snd acc)) then acc else retire_machine now machineId acc)"

definition delete_user :: "ustring \<Rightarrow> int \<Rightarrow> control_db \<Rightarrow> (nat \<times> nat) \<times> control_db" where
  "delete_user userId now db =
     (let db1 = db\<lparr>db_origins := (db_origins db) |` (- (sn_id ` {r \<in> set (db_sessions db). sn_user r = userId})),
            db_sessions := delete_where (\<lambda>r. sn_user r = userId) (db_sessions db),
            db_passwords := (db_passwords db)(userId := None),
            db_apiKeys := delete_where (\<lambda>k. ak_user k = userId) (db_apiKeys db)\<rparr>;
          (burned, db2) = burnGranteeCodes userId User_deleted now db1;
          stranded = may_strand db2 userId;
          db3 = db2\<lparr>db_grants := delete_where (\<lambda>g. gr_user g = userId) (db_grants db2)\<rparr>;
          ((machines, codes), db4) = fold (retire_stranded now) stranded ((0, burned), db3);
          db5 = deleteEmailState userId db4;
          db6 = db5\<lparr>db_obligations := (db_obligations db5)(userId := None), db_limits := (db_limits db5)(userId := None),
            db_devices := delete_where (\<lambda>d. dv_user d = userId) (db_devices db5)\<rparr>;
          (own, db7) = burnUserCodes userId User_deleted now db6;
          owned = map ow_machine (filter (\<lambda>w. ow_user w = userId) (db_owners db7));
          (counts, db8) = fold (retire_machine now) owned ((machines, codes + own), db7)
      in (counts, db8\<lparr>db_owners := delete_where (\<lambda>w. ow_user w = userId) (db_owners db8),
            db_users := delete_where (\<lambda>u. us_id u = userId) (db_users db8)\<rparr>))"

definition adminDeleteUser :: "caller \<Rightarrow> ustring \<Rightarrow> int \<Rightarrow> (nat \<times> nat) handler" where
  "adminDeleteUser caller userId now =
     and_then (requireAdmin caller) (\<lambda>_.
     and_then (check (userId \<noteq> ca_userId caller) 409 ''cannot_delete_self'') (\<lambda>_.
     and_then (query (\<lambda>db. user_row_of db userId)) (\<lambda>row.
     and_then (check (row \<noteq> None) 404 ''user_not_found'') (\<lambda>_.
     change (delete_user userId now)))))"

subsection \<open>Keys of the instance\<close>

definition adminMintKey :: "'k control_platform \<Rightarrow> entropy \<Rightarrow> caller \<Rightarrow> int \<Rightarrow> ustring handler" where
  "adminMintKey cp en caller now =
     and_then (requireAdmin caller) (\<lambda>_. attempt (mintSigningKey (cp_digest cp) (en_pair en) now))"

definition adminRetireKey :: "caller \<Rightarrow> ustring \<Rightarrow> int \<Rightarrow> unit handler" where
  "adminRetireKey caller kid now =
     and_then (requireAdmin caller) (\<lambda>_.
     and_then (change (retireSigningKey kid now)) (\<lambda>outcome.
     case outcome of Key_retired \<Rightarrow> done_with () | Key_not_found \<Rightarrow> throw (Refused 404 ''key_not_found'')
       | Key_last_active \<Rightarrow> throw (Refused 409 ''last_active'')))"

definition adminMintProvisioning :: "'k control_platform \<Rightarrow> entropy \<Rightarrow> caller \<Rightarrow> int \<Rightarrow> ustring handler" where
  "adminMintProvisioning cp en caller now =
     and_then (requireAdmin caller) (\<lambda>_.
     attempt (mintProvisioningKey (cp_sha cp) (en_code en) (en_codeId en) (Some (ca_userId caller)) now))"

end
