(* ===== verification/MachineSafety.thy ===== *)
theory MachineSafety
  imports MachineRoutes
begin

text \<open>
  What the handlers of MachineRoutes keep true of the tables together. The file is a small
  calculus of weakest preconditions for handlers, the relations between the tables
  (\<open>db_ok\<close>) and what one request may turn a database into (\<open>evolves\<close>), one lemma for each
  statement of SQL, one for each handler, and the runs of requests.
\<close>

subsection \<open>What holds after a handler\<close>

definition wp :: "'a handler \<Rightarrow> ('a \<Rightarrow> control_app \<Rightarrow> bool) \<Rightarrow> (control_app \<Rightarrow> bool) \<Rightarrow> control_app \<Rightarrow> bool" where
  "wp m Q E s = (case m s of (Inl e, t) \<Rightarrow> E t | (Inr x, t) \<Rightarrow> Q x t)"

lemma wp_and_then [simp]: "wp (and_then m f) Q E s = wp m (\<lambda>x t. wp (f x) Q E t) E s"
  by (simp add: wp_def and_then_def split: prod.split sum.split)

lemma wp_done [simp]: "wp (done_with x) Q E s = Q x s"
  by (simp add: wp_def done_with_def)

lemma wp_throw [simp]: "wp (throw e) Q E s = E s"
  by (simp add: wp_def throw_def)

lemma wp_check [simp]: "wp (check ok status code) Q E s = (if ok then Q () s else E s)"
  by (simp add: check_def)

lemma wp_found [simp]: "wp (found v status code) Q E s = (case v of None \<Rightarrow> E s | Some x \<Rightarrow> Q x s)"
  by (simp add: found_def split: option.split)

lemma wp_query [simp]: "wp (query f) Q E s = Q (f (ap_db s)) s"
  by (simp add: wp_def query_def)

lemma wp_change [simp]: "wp (change f) Q E s = Q (fst (f (ap_db s))) (s\<lparr>ap_db := snd (f (ap_db s))\<rparr>)"
  by (simp add: wp_def change_def split: prod.split)

lemma wp_attempt [simp]:
  "wp (attempt f) Q E s = (case f (ap_db s) of None \<Rightarrow> E s | Some (x, db) \<Rightarrow> Q x (s\<lparr>ap_db := db\<rparr>))"
  by (simp add: wp_def attempt_def split: option.split)

lemma wp_requireAdmin [simp]: "wp (requireAdmin caller) Q E s = (if ca_isAdmin caller then Q () s else E s)"
  by (simp add: requireAdmin_def)

lemma wp_spendWrite [simp]:
  "wp (spendWrite cp caller what now) Q E s =
     (let key = writeKey (cp_lower cp) (ca_userId caller) (asc what);
          d = throttle_check (cp_lower cp) key (of_int now) (ap_writes s)
      in if td_allowed (fst d) then Q () (s\<lparr>ap_writes := throttle_fail (cp_lower cp) key (of_int now) (snd d)\<rparr>)
         else E (s\<lparr>ap_writes := snd d\<rparr>))"
  by (simp add: wp_def spendWrite_def Let_def split: prod.split)

lemma wp_spendGuess [simp]:
  "wp (spendGuess cp key now) Q E s =
     (let d = throttle_check (cp_lower cp) key (of_int now) (ap_addresses s)
      in if td_allowed (fst d) then Q () (s\<lparr>ap_addresses := throttle_fail (cp_lower cp) key (of_int now) (snd d)\<rparr>)
         else E (s\<lparr>ap_addresses := snd d\<rparr>))"
  by (simp add: wp_def spendGuess_def Let_def split: prod.split)

text \<open>What holds either way holds of the state left behind.\<close>

lemma wp_always: "wp m (\<lambda>_. P) P s \<longleftrightarrow> P (snd (m s))"
  by (simp add: wp_def split: prod.split sum.split)

lemma wp_result: "m s = (Inr x, t) \<Longrightarrow> wp m Q E s \<Longrightarrow> Q x t"
  by (simp add: wp_def)

subsection \<open>Relations between the tables\<close>

definition marks :: "control_db \<Rightarrow> (ustring \<times> bool) list" where
  "marks db = map (\<lambda>m. (ma_id m, ma_revokedAt m \<noteq> None)) (db_machines db)"

definition is_live :: "control_db \<Rightarrow> ustring \<Rightarrow> bool" where "is_live db m \<longleftrightarrow> (m, False) \<in> set (marks db)"
definition is_revoked :: "control_db \<Rightarrow> ustring \<Rightarrow> bool" where "is_revoked db m \<longleftrightarrow> (m, True) \<in> set (marks db)"

definition full_scopes :: ustring where "full_scopes = join [32] ALL_SCOPE_NAMES"

definition owner_grant :: "owner_row \<Rightarrow> grant_row \<Rightarrow> bool" where
  "owner_grant w g \<longleftrightarrow> gr_user g = ow_user w \<and> gr_machine g = ow_machine w"

definition rows_ok :: "control_db \<Rightarrow> bool" where
  "rows_ok db \<longleftrightarrow> distinct (map ma_id (db_machines db)) \<and> distinct (map ow_machine (db_owners db))
    \<and> distinct (map (\<lambda>w. (ow_user w, ow_label w)) (db_owners db))
    \<and> distinct (map (\<lambda>g. (gr_user g, gr_machine g)) (db_grants db)) \<and> distinct (map ec_hash (db_codes db))
    \<and> list_all MACHINE_LABEL_RESERVED (map ma_id (db_machines db)) \<and> (\<forall>w\<in>set (db_owners db). labelIsWellFormed (ow_label w))"

definition links_ok :: "control_db \<Rightarrow> bool" where
  "links_ok db \<longleftrightarrow> (\<forall>w\<in>set (db_owners db). is_live db (ow_machine w))
    \<and> (\<forall>w\<in>set (db_owners db). \<exists>g\<in>set (db_grants db). owner_grant w g)
    \<and> (\<forall>w\<in>set (db_owners db). \<forall>g\<in>set (db_grants db). owner_grant w g \<longrightarrow> gr_scopes g = full_scopes)
    \<and> (\<forall>g\<in>set (db_grants db). gr_machine g \<in> fst ` set (marks db))
    \<and> (\<forall>c\<in>set (db_codes db). ec_usedAt c = None \<longrightarrow> is_live db (ec_machine c))
    \<and> (\<forall>c\<in>set (db_codes db). \<forall>d\<in>set (db_codes db). ec_usedAt c = None \<and> ec_usedAt d = None \<and> ec_machine c = ec_machine d \<longrightarrow> c = d)"

definition db_ok :: "control_db \<Rightarrow> bool" where "db_ok db \<longleftrightarrow> rows_ok db \<and> links_ok db"

text \<open>What time does to a database: owners stay until their machine is revoked, revoked machines and spent codes stay so.\<close>

definition owners_stay :: "control_db \<Rightarrow> control_db \<Rightarrow> bool" where
  "owners_stay db db' \<longleftrightarrow> (\<forall>w\<in>set (db_owners db).
     (\<exists>v\<in>set (db_owners db'). ow_machine v = ow_machine w \<and> ow_user v = ow_user w) \<or> is_revoked db' (ow_machine w))"

definition marks_stay :: "control_db \<Rightarrow> control_db \<Rightarrow> bool" where
  "marks_stay db db' \<longleftrightarrow> (\<forall>m. is_revoked db m \<longrightarrow> is_revoked db' m)"

definition spent_stay :: "control_db \<Rightarrow> control_db \<Rightarrow> bool" where
  "spent_stay db db' \<longleftrightarrow> (\<forall>c\<in>set (db_codes db). ec_usedAt c \<noteq> None \<longrightarrow> (\<exists>d\<in>set (db_codes db'). ec_hash d = ec_hash c \<and> ec_usedAt d \<noteq> None))"

definition evolves :: "control_db \<Rightarrow> control_db \<Rightarrow> bool" where
  "evolves db db' \<longleftrightarrow> owners_stay db db' \<and> marks_stay db db' \<and> spent_stay db db'"

lemmas stay_defs = owners_stay_def marks_stay_def spent_stay_def

definition good :: "control_db \<Rightarrow> control_db \<Rightarrow> bool" where "good db db' \<longleftrightarrow> db_ok db' \<and> evolves db db'"

lemma evolves_refl [simp]: "evolves db db"
  by (auto simp: evolves_def stay_defs)

lemma evolves_trans:
  assumes ab: "evolves a b" and bc: "evolves b c"
  shows "evolves a c"
proof -
  have "(\<exists>v\<in>set (db_owners c). ow_machine v = ow_machine w \<and> ow_user v = ow_user w) \<or> is_revoked c (ow_machine w)"
    if "w \<in> set (db_owners a)" for w
  proof -
    from ab that consider v where "v \<in> set (db_owners b)" "ow_machine v = ow_machine w" "ow_user v = ow_user w" | "is_revoked b (ow_machine w)"
      by (auto simp: evolves_def owners_stay_def)
    then show ?thesis
    proof cases
      case 1
      from bc have "owners_stay b c" by (simp add: evolves_def)
      from this [unfolded owners_stay_def, THEN bspec, OF 1(1)] 1(2,3) show ?thesis by simp
    next
      case 2
      with bc show ?thesis by (simp add: evolves_def marks_stay_def)
    qed
  qed
  moreover have "marks_stay a c" using ab bc by (simp add: evolves_def marks_stay_def)
  moreover have "spent_stay a c" unfolding spent_stay_def
  proof (intro ballI impI)
    fix x assume x: "x \<in> set (db_codes a)" "ec_usedAt x \<noteq> None"
    with ab obtain y where "y \<in> set (db_codes b)" "ec_hash y = ec_hash x" "ec_usedAt y \<noteq> None" unfolding evolves_def spent_stay_def by blast
    with bc show "\<exists>z\<in>set (db_codes c). ec_hash z = ec_hash x \<and> ec_usedAt z \<noteq> None" unfolding evolves_def spent_stay_def by fastforce
  qed
  ultimately show ?thesis by (simp add: evolves_def owners_stay_def)
qed

lemma good_refl: "db_ok db \<Longrightarrow> good db db"
  by (simp add: good_def)

lemma good_trans: "good a b \<Longrightarrow> good b c \<Longrightarrow> good a c"
  by (auto simp: good_def intro: evolves_trans)

lemma good_ok: "good a b \<Longrightarrow> db_ok b"
  by (simp add: good_def)

lemma fst_marks: "map fst (marks db) = map ma_id (db_machines db)"
  by (simp add: marks_def comp_def)

text \<open>A statement that leaves owners, grants, codes and every machine's id and mark alone breaks nothing.\<close>

lemma good_frame:
  assumes "db_ok db" and "db_owners db' = db_owners db" and "db_grants db' = db_grants db" and "db_codes db' = db_codes db"
    and "marks db' = marks db"
  shows "good db db'"
proof -
  have "map ma_id (db_machines db') = map ma_id (db_machines db)" using assms(5) by (simp add: fst_marks [symmetric])
  then have "rows_ok db'" using assms unfolding db_ok_def rows_ok_def by simp
  moreover have "links_ok db'" using assms unfolding db_ok_def links_ok_def is_live_def by simp
  moreover have "evolves db db'" using assms by (auto simp: evolves_def stay_defs is_revoked_def)
  ultimately show ?thesis by (simp add: good_def db_ok_def)
qed

subsection \<open>One lemma for each statement\<close>

lemma in_marks: "(m, b) \<in> set (marks db) \<longleftrightarrow> (\<exists>r\<in>set (db_machines db). ma_id r = m \<and> b = (ma_revokedAt r \<noteq> None))"
  by (auto simp: marks_def)

lemma id_in_marks: "m \<in> fst ` set (marks db) \<longleftrightarrow> m \<in> ma_id ` set (db_machines db)"
  by (force simp: marks_def)

lemma live_not_revoked: "db_ok db \<Longrightarrow> is_live db m \<Longrightarrow> \<not> is_revoked db m"
  by (auto simp: db_ok_def rows_ok_def is_live_def is_revoked_def in_marks distinct_map inj_on_def)

lemma row_is_live: "machine_row_of db m = Some r \<Longrightarrow> ma_revokedAt r = None \<Longrightarrow> is_live db m"
  by (auto simp: machine_row_of_def is_live_def in_marks dest: find_in)

lemma ensureSigningKey_frame:
  "ensureSigningKey private_of parse digest pair now db = Some (k, db') \<Longrightarrow> \<exists>ks. db' = db\<lparr>db_signingKeys := ks\<rparr>"
  by (auto simp: ensureSigningKey_def mintSigningKey_def Let_def split: option.splits list.splits if_splits) (metis control_db.surjective control_db.update_convs(14))+

lemma good_fields:
  assumes "db_ok db"
  shows "good db (db\<lparr>db_signingKeys := ks\<rparr>)" "good db (db\<lparr>db_tunnelKeys := ts\<rparr>)" "good db (db\<lparr>db_limits := l\<rparr>)"
    "good db (db\<lparr>db_users := us\<rparr>)" "good db (db\<lparr>db_provisioning := ps\<rparr>)" "good db (db\<lparr>db_sessions := ss\<rparr>)"
    "good db (db\<lparr>db_emailTokens := es\<rparr>)"
  by (rule good_frame [OF assms]; simp add: marks_def)+

lemma good_machines:
  assumes "db_ok db" and "\<And>r. ma_id (f r) = ma_id r \<and> ma_revokedAt (f r) = ma_revokedAt r"
  shows "good db (db\<lparr>db_machines := update_where p f (db_machines db)\<rparr>)"
proof (rule good_frame [OF assms(1)])
  show "marks (db\<lparr>db_machines := update_where p f (db_machines db)\<rparr>) = marks db"
    unfolding marks_def control_db.select_convs control_db.update_convs by (simp, rule map_update_where, simp add: assms(2))
qed simp_all

text \<open>Codes: some unused ones become used.\<close>

lemma good_spend:
  assumes "db_ok db" and "\<And>r. ec_hash (f r) = ec_hash r \<and> ec_machine (f r) = ec_machine r \<and> ec_usedAt (f r) \<noteq> None"
  shows "good db (db\<lparr>db_codes := update_where p f (db_codes db)\<rparr>)"
proof -
  let ?db = "db\<lparr>db_codes := update_where p f (db_codes db)\<rparr>"
  have unused: "c \<in> set (db_codes db)" if "c \<in> set (db_codes ?db)" "ec_usedAt c = None" for c
  proof -
    have "c \<in> set (update_where p f (db_codes db))" using that(1) by simp
    then show ?thesis by (rule in_update_whereE) (use that(2) assms(2) in auto)
  qed
  have "rows_ok ?db" using assms(1) map_update_where [of ec_hash f p "db_codes db"] assms(2) by (simp add: db_ok_def rows_ok_def)
  moreover have "links_ok ?db"
  proof -
    have "marks ?db = marks db" by (simp add: marks_def)
    then show ?thesis using assms(1) unused unfolding db_ok_def links_ok_def is_live_def by simp
  qed
  moreover have "evolves db ?db"
  proof -
    have "spent_stay db ?db" unfolding spent_stay_def
    proof (intro ballI impI)
      fix c assume "c \<in> set (db_codes db)" "ec_usedAt c \<noteq> None"
      then show "\<exists>d\<in>set (db_codes ?db). ec_hash d = ec_hash c \<and> ec_usedAt d \<noteq> None"
        using assms(2) [of c] by (intro bexI [of _ "if p c then f c else c"]) (auto simp: in_update_where)
    qed
    then show ?thesis by (auto simp: evolves_def owners_stay_def marks_stay_def is_revoked_def marks_def)
  qed
  ultimately show ?thesis by (simp add: good_def db_ok_def)
qed

lemma good_burn: "db_ok db \<Longrightarrow> good db (snd (burn_codes p who now db))"
  by (simp add: burn_codes_def good_spend)

lemma good_claim: "db_ok db \<Longrightarrow> good db (snd (claim_code sha code who now db))"
  by (simp add: claim_code_def good_spend Let_def)

lemma burn_codes_frame:
  "db_owners (snd (burn_codes p who now db)) = db_owners db" "db_grants (snd (burn_codes p who now db)) = db_grants db"
  "db_machines (snd (burn_codes p who now db)) = db_machines db" "db_users (snd (burn_codes p who now db)) = db_users db"
  by (simp_all add: burn_codes_def)

lemma burnt: "c \<in> set (db_codes (snd (burn_codes p who now db))) \<Longrightarrow> ec_usedAt c = None \<Longrightarrow> \<not> p c \<and> c \<in> set (db_codes db)"
  unfolding burn_codes_def snd_conv control_db.select_convs control_db.update_convs
  by (simp, erule in_update_whereE) auto

lemma db_okD:
  assumes "db_ok db"
  shows "distinct (map ma_id (db_machines db))" "distinct (map ow_machine (db_owners db))"
    "distinct (map (\<lambda>w. (ow_user w, ow_label w)) (db_owners db))"
    "distinct (map (\<lambda>g. (gr_user g, gr_machine g)) (db_grants db))" "distinct (map ec_hash (db_codes db))"
    "\<And>w. w \<in> set (db_owners db) \<Longrightarrow> is_live db (ow_machine w)"
    "\<And>g. g \<in> set (db_grants db) \<Longrightarrow> gr_machine g \<in> ma_id ` set (db_machines db)"
    "\<And>c. c \<in> set (db_codes db) \<Longrightarrow> ec_usedAt c = None \<Longrightarrow> is_live db (ec_machine c)"
    "\<And>c d. c \<in> set (db_codes db) \<Longrightarrow> d \<in> set (db_codes db) \<Longrightarrow> ec_usedAt c = None \<Longrightarrow> ec_usedAt d = None \<Longrightarrow> ec_machine c = ec_machine d \<Longrightarrow> c = d"
  using assms unfolding db_ok_def rows_ok_def links_ok_def id_in_marks by blast+

lemma live_id: "is_live db m \<Longrightarrow> m \<in> ma_id ` set (db_machines db)"
  by (auto simp: is_live_def in_marks)

text \<open>Adding a machine.\<close>

lemma create_refused: "createOwnedMachine hex u label scopes limit now db = (Inl e, db') \<Longrightarrow> db' = db"
  by (auto simp: createOwnedMachine_def Let_def split: if_splits)

lemma good_create:
  assumes ok: "db_ok db" and made: "createOwnedMachine hex u label ALL_SCOPE_NAMES limit now db = (Inr made, db')"
    and label: "labelIsWellFormed label" and hex: "MACHINE_LABEL_RESERVED (newId ''m'' hex)"
  shows "good db db' \<and> is_live db' (fst made)"
proof -
  define m where "m = newId ''m'' hex"
  have fresh: "m \<notin> ma_id ` set (db_machines db)" "m \<notin> ow_machine ` set (db_owners db)" "(u, label) \<notin> (\<lambda>w. (ow_user w, ow_label w)) ` set (db_owners db)"
    "(u, m) \<notin> (\<lambda>g. (gr_user g, gr_machine g)) ` set (db_grants db)" and fst_made: "fst made = m"
    using made by (auto simp: createOwnedMachine_def Let_def m_def list_ex_iff split: if_splits)
  have "\<exists>row. db_machines db' = db_machines db @ [row] \<and> ma_id row = m \<and> ma_revokedAt row = None"
    using made by (auto simp: createOwnedMachine_def Let_def m_def split: if_splits)
  then obtain row where machines: "db_machines db' = db_machines db @ [row]" "ma_id row = m" "ma_revokedAt row = None" by blast
  have owners: "db_owners db' = db_owners db @ [\<lparr>ow_machine = m, ow_user = u, ow_label = label, ow_createdAt = now\<rparr>]"
    and grants: "db_grants db' = db_grants db @ [\<lparr>gr_user = u, gr_machine = m, gr_scopes = full_scopes, gr_createdAt = now\<rparr>]"
    and codes: "db_codes db' = db_codes db"
    using made by (auto simp: createOwnedMachine_def Let_def m_def full_scopes_def split: if_splits)
  have marks: "marks db' = marks db @ [(m, False)]" using machines by (simp add: marks_def)
  have foreign: "gr_machine g \<noteq> m" if "g \<in> set (db_grants db)" for g using db_okD(7) [OF ok that] fresh(1) by auto
  have "rows_ok db'" using ok machines owners grants codes fresh label hex by (simp add: db_ok_def rows_ok_def m_def)
  moreover have "links_ok db'"
    using ok fresh foreign unfolding db_ok_def links_ok_def is_live_def owners grants codes marks
    by (auto simp: owner_grant_def)
  moreover have "evolves db db'" using owners marks codes by (auto simp: evolves_def stay_defs is_revoked_def)
  moreover have "is_live db' m" using marks by (simp add: is_live_def)
  ultimately show ?thesis using fst_made by (simp add: good_def db_ok_def)
qed

text \<open>Minting a code for a live machine: the only unused one of that machine afterwards.\<close>

lemma good_mint:
  assumes ok: "db_ok db" and made: "mintEnrollmentCode sha secret hex m creator ttl now db = Some (c, db')" and live: "is_live db m"
  shows "good db db'"
proof -
  define burning where "burning = snd (burn_codes (\<lambda>r. ec_machine r = m) (asc ''superseded'') now db)"
  have g: "good db burning" unfolding burning_def by (rule good_burn [OF ok])
  define new where "new = \<lparr>ec_id = newId ''ec'' hex, ec_hash = ky_hash (newEnrollmentCode sha secret), ec_machine = m,
    ec_createdBy = creator, ec_createdAt = now, ec_expiresAt = now + ttl, ec_usedAt = None, ec_usedFrom = None\<rparr>"
  have new: "ec_machine new = m" "ec_usedAt new = None" by (simp_all add: new_def)
  have eq: "db' = burning\<lparr>db_codes := db_codes burning @ [new]\<rparr>" and fresh: "ec_hash new \<notin> ec_hash ` set (db_codes db)"
    using made by (auto simp: mintEnrollmentCode_def burning_def new_def Let_def list_ex_iff split: if_splits)
  have hashes: "ec_hash ` set (db_codes burning) = ec_hash ` set (db_codes db)"
  proof -
    have "map ec_hash (db_codes burning) = map ec_hash (db_codes db)"
      unfolding burning_def burn_codes_def by (simp add: map_update_where)
    then show ?thesis by (metis list.set_map)
  qed
  have none: "ec_machine d \<noteq> m" if "d \<in> set (db_codes burning)" "ec_usedAt d = None" for d
    using burnt [OF that [unfolded burning_def]] by simp
  have ok': "db_ok burning" using g by (simp add: good_def)
  have marks: "marks db' = marks burning" "marks burning = marks db" by (simp_all add: eq marks_def burning_def burn_codes_frame)
  have "rows_ok db'" using ok' fresh by (simp add: db_ok_def rows_ok_def eq hashes)
  moreover have "links_ok db'"
  proof -
    have codes: "set (db_codes db') = insert new (set (db_codes burning))" by (simp add: eq)
    have one: "c = d" if "c \<in> set (db_codes db')" "d \<in> set (db_codes db')" "ec_usedAt c = None \<and> ec_usedAt d = None \<and> ec_machine c = ec_machine d" for c d
      using that none [of c] none [of d] new(1) db_okD(9) [OF ok'] unfolding codes by auto
    have live': "is_live db' m" using live by (simp add: is_live_def marks)
    have codes_live: "is_live db' (ec_machine c)" if "c \<in> set (db_codes db')" "ec_usedAt c = None" for c
      using that live' new(1) db_okD(8) [OF ok'] unfolding codes is_live_def marks(1) by auto
    show ?thesis using ok' one codes_live unfolding db_ok_def links_ok_def is_live_def marks(1) by (simp add: eq)
  qed
  moreover have "evolves burning db'" by (auto simp: eq evolves_def stay_defs is_revoked_def marks_def)
  ultimately show ?thesis using g by (auto simp: good_def db_ok_def intro: evolves_trans)
qed

text \<open>A new label.\<close>

lemma distinct_update:
  assumes "distinct (map k t)" and "\<And>r. p r \<Longrightarrow> k (f r) = n" and "\<forall>r\<in>set t. \<not> p r \<longrightarrow> k r \<noteq> n"
    and "\<And>q r. q \<in> set t \<Longrightarrow> r \<in> set t \<Longrightarrow> p q \<Longrightarrow> p r \<Longrightarrow> q = r"
  shows "distinct (map k (update_where p f t))"
  using assms(1,3,4)
proof (induction t)
  case (Cons r t)
  show ?case
  proof (cases "p r")
    case True
    have others: "\<forall>q\<in>set t. \<not> p q"
    proof
      fix q assume q: "q \<in> set t"
      show "\<not> p q"
      proof
        assume "p q"
        then have "q = r" using Cons.prems(3) [of q r] q True by simp
        then show False using q Cons.prems(1) by auto
      qed
    qed
    then have "update_where p f t = t" by (simp add: update_where_def map_idI)
    moreover have "n \<notin> k ` set t" using Cons.prems(2) others by auto
    ultimately show ?thesis using True Cons.prems(1) assms(2) by simp
  next
    case False
    have "k r \<notin> k ` set (update_where p f t)"
    proof
      assume "k r \<in> k ` set (update_where p f t)"
      then obtain q where q: "q \<in> set (update_where p f t)" "k r = k q" by blast
      from q(1) show False
        by (rule in_update_whereE) (use q(2) False Cons.prems(1,2) assms(2) in auto)
    qed
    moreover have "distinct (map k (update_where p f t))" by (rule Cons.IH) (use Cons.prems in auto)
    ultimately show ?thesis using False by simp
  qed
qed simp

lemma good_relabel:
  assumes ok: "db_ok db" and label: "labelIsWellFormed label"
  shows "good db (snd (relabelMachine m u label db))"
proof (cases "fst (relabelMachine m u label db) = None")
  case False
  then have "snd (relabelMachine m u label db) = db" by (auto simp: relabelMachine_def Let_def split: if_splits)
  then show ?thesis using ok by (simp add: good_refl)
next
  case True
  define mine :: "owner_row \<Rightarrow> bool" where "mine = (\<lambda>w. ow_machine w = m \<and> ow_user w = u)"
  define altered where "altered = update_where mine (\<lambda>w. w\<lparr>ow_label := label\<rparr>) (db_owners db)"
  have eq: "snd (relabelMachine m u label db) = db\<lparr>db_owners := altered\<rparr>"
    and free: "(\<forall>w\<in>set (db_owners db). \<not> mine w) \<or> (\<forall>w\<in>set (db_owners db). \<not> mine w \<longrightarrow> (ow_user w, ow_label w) \<noteq> (u, label))"
    using True by (auto simp: relabelMachine_def altered_def mine_def Let_def list_ex_iff split: if_splits)
  have same: "map ow_machine altered = map ow_machine (db_owners db)" "map ow_user altered = map ow_user (db_owners db)"
    by (simp_all add: altered_def map_update_where)
  have machines: "distinct (map ow_machine (db_owners db))" by (rule db_okD(2) [OF ok])
  have keys: "distinct (map (\<lambda>w. (ow_user w, ow_label w)) altered)"
  proof (cases "\<forall>w\<in>set (db_owners db). \<not> mine w")
    case True
    then have "altered = db_owners db" by (simp add: altered_def update_where_def map_idI)
    then show ?thesis using db_okD(3) [OF ok] by simp
  next
    case False
    then have "\<forall>w\<in>set (db_owners db). \<not> mine w \<longrightarrow> (ow_user w, ow_label w) \<noteq> (u, label)" using free by blast
    moreover have "q = r" if "q \<in> set (db_owners db)" "r \<in> set (db_owners db)" "mine q" "mine r" for q r
      using same_key [OF machines that(1,2)] that(3,4) by (simp add: mine_def)
    ultimately show ?thesis unfolding altered_def
      using db_okD(3) [OF ok] by (intro distinct_update [of _ _ _ _ "(u, label)"]) (auto simp: mine_def)
  qed
  have row: "\<exists>v\<in>set (db_owners db). ow_machine v = ow_machine w \<and> ow_user v = ow_user w \<and> (ow_label w = label \<or> ow_label w = ow_label v)"
    if "w \<in> set altered" for w
    using that unfolding altered_def by (rule in_update_whereE) auto
  have kept: "\<exists>v\<in>set altered. ow_machine v = ow_machine w \<and> ow_user v = ow_user w" if "w \<in> set (db_owners db)" for w
    using that by (intro bexI [of _ "if mine w then w\<lparr>ow_label := label\<rparr> else w"]) (auto simp: altered_def in_update_where)
  have "rows_ok (db\<lparr>db_owners := altered\<rparr>)"
    using ok label keys machines same(1) row unfolding db_ok_def rows_ok_def by (simp, metis)
  moreover have "links_ok (db\<lparr>db_owners := altered\<rparr>)"
  proof -
    have marks: "marks (db\<lparr>db_owners := altered\<rparr>) = marks db" by (simp add: marks_def)
    show ?thesis using ok row unfolding db_ok_def links_ok_def is_live_def marks by (simp add: owner_grant_def, metis)
  qed
  moreover have "evolves db (db\<lparr>db_owners := altered\<rparr>)" using kept by (auto simp: evolves_def stay_defs is_revoked_def marks_def)
  ultimately show ?thesis by (simp add: eq good_def db_ok_def)
qed

text \<open>Fewer owners: still well formed, though the owners dropped no longer stay.\<close>

lemma fewer_owners_ok: "db_ok db \<Longrightarrow> db_ok (db\<lparr>db_owners := delete_where p (db_owners db)\<rparr>)"
  unfolding db_ok_def rows_ok_def links_ok_def is_live_def marks_def by (simp add: distinct_delete_where delete_where_def distinct_map_filter) blast

lemma evolves_by_owners:
  assumes "\<And>w. w \<in> set (db_owners db) \<Longrightarrow> p w \<Longrightarrow> is_revoked db' (ow_machine w)"
    and "evolves (db\<lparr>db_owners := delete_where p (db_owners db)\<rparr>) db'"
  shows "evolves db db'"
proof -
  from assms(2) have stays: "owners_stay (db\<lparr>db_owners := delete_where p (db_owners db)\<rparr>) db'"
    and "marks_stay (db\<lparr>db_owners := delete_where p (db_owners db)\<rparr>) db'" "spent_stay (db\<lparr>db_owners := delete_where p (db_owners db)\<rparr>) db'"
    by (simp_all add: evolves_def)
  moreover have "owners_stay db db'" unfolding owners_stay_def
  proof
    fix w assume w: "w \<in> set (db_owners db)"
    show "(\<exists>v\<in>set (db_owners db'). ow_machine v = ow_machine w \<and> ow_user v = ow_user w) \<or> is_revoked db' (ow_machine w)"
      using w assms(1) [of w] stays unfolding owners_stay_def by (cases "p w") auto
  qed
  ultimately show ?thesis by (simp add: evolves_def marks_stay_def spent_stay_def is_revoked_def marks_def)
qed

text \<open>A machine marked as revoked.\<close>

definition marked :: "ustring \<Rightarrow> int \<Rightarrow> control_db \<Rightarrow> control_db" where
  "marked m now db = db\<lparr>db_machines := update_where (\<lambda>r. ma_id r = m \<and> ma_revokedAt r = None) (\<lambda>r. r\<lparr>ma_revokedAt := Some now\<rparr>) (db_machines db)\<rparr>"

lemma marked_frame [simp]:
  "db_owners (marked m now db) = db_owners db" "db_grants (marked m now db) = db_grants db" "db_codes (marked m now db) = db_codes db"
  "db_users (marked m now db) = db_users db"
  by (simp_all add: marked_def)

lemma marks_marked: "marks (marked m now db) = map (\<lambda>(i, b). (i, b \<or> i = m)) (marks db)"
  by (auto simp: marks_def marked_def update_where_def)

lemma live_marked [simp]: "is_live (marked m now db) i \<longleftrightarrow> is_live db i \<and> i \<noteq> m"
  by (force simp: is_live_def marks_marked)

lemma revoked_marked [simp]: "is_revoked (marked m now db) i \<longleftrightarrow> is_revoked db i \<or> i = m \<and> m \<in> ma_id ` set (db_machines db)"
  unfolding id_in_marks [symmetric] by (force simp: is_revoked_def marks_marked)

lemma ids_marked: "map ma_id (db_machines (marked m now db)) = map ma_id (db_machines db)"
  by (simp add: marked_def map_update_where)

text \<open>Codes burnt leave the machines alone.\<close>

lemma is_live_burnt [simp]: "is_live (snd (burn_codes p who now db)) = is_live db"
  by (rule ext) (simp add: is_live_def marks_def burn_codes_frame)

lemma is_revoked_burnt [simp]: "is_revoked (snd (burn_codes p who now db)) = is_revoked db"
  by (rule ext) (simp add: is_revoked_def marks_def burn_codes_frame)

text \<open>A machine without an owner, marked and its codes burnt.\<close>

lemma good_retired:
  assumes ok: "db_ok db" and free: "\<forall>w\<in>set (db_owners db). ow_machine w \<noteq> m"
  shows "good db (snd (burnMachineCodes m now (marked m now db)))" (is "good db ?b")
proof -
  let ?burnt = "snd (burnMachineCodes m now db)"
  have b: "good db ?burnt" unfolding burnMachineCodes_def by (rule good_burn [OF ok])
  then have ok': "db_ok ?burnt" by (simp add: good_def)
  have eq: "?b = marked m now ?burnt" by (simp add: burnMachineCodes_def burn_codes_def marked_def)
  have owners: "db_owners ?burnt = db_owners db" by (simp add: burnMachineCodes_def burn_codes_frame)
  have unused: "ec_machine c \<noteq> m" if "c \<in> set (db_codes ?burnt)" "ec_usedAt c = None" for c
    using burnt [OF that [unfolded burnMachineCodes_def]] by simp
  have "rows_ok ?b" using ok' by (simp add: db_ok_def rows_ok_def eq ids_marked)
  moreover have "links_ok ?b"
    using ok' free unused unfolding db_ok_def links_ok_def list.set_map [symmetric] fst_marks eq ids_marked marked_frame live_marked owners
    by blast
  moreover have "evolves ?burnt ?b" by (auto simp: eq evolves_def stay_defs)
  ultimately show ?thesis using b by (auto simp: good_def db_ok_def intro: evolves_trans)
qed

lemma count_by_key: "distinct (map k t) \<Longrightarrow> (\<And>r. p r \<Longrightarrow> k r = n) \<Longrightarrow> count_where p t \<le> 1"
proof (induction t)
  case (Cons r t)
  show ?case
  proof (cases "p r")
    case True
    then have "\<forall>q\<in>set t. \<not> p q" using Cons.prems by (metis distinct.simps(2) image_eqI list.set_map list.simps(9))
    then have "count_where p t = 0" by (simp add: count_where_zero)
    then show ?thesis using True by (simp add: count_where_def)
  qed (use Cons in \<open>simp add: count_where_def\<close>)
qed (simp add: count_where_def)

lemma good_revoke: "db_ok db \<Longrightarrow> good db (snd (revoke_machine m now db))"
proof (cases "count_where (\<lambda>r. ma_id r = m \<and> ma_revokedAt r = None) (db_machines db) = 1")
  case True
  assume ok: "db_ok db"
  let ?p = "\<lambda>w. ow_machine w = m"
  let ?rel = "db\<lparr>db_owners := delete_where ?p (db_owners db)\<rparr>"
  have eq: "snd (revoke_machine m now db) = snd (burnMachineCodes m now (marked m now ?rel))" (is "_ = ?r")
    using True by (simp add: revoke_machine_def releaseOwner_def burnMachineCodes_def burn_codes_def marked_def Let_def)
  have g: "good ?rel ?r" by (rule good_retired [OF fewer_owners_ok [OF ok]]) simp
  have "\<exists>r\<in>set (db_machines db). ma_id r = m"
  proof (rule ccontr)
    assume "\<not> ?thesis"
    then have "count_where (\<lambda>r. ma_id r = m \<and> ma_revokedAt r = None) (db_machines db) = 0" by (auto simp: count_where_zero)
    then show False using True by simp
  qed
  then have "is_revoked ?r m" by (auto simp: burnMachineCodes_def)
  then have "evolves db ?r" using g by (intro evolves_by_owners [of db ?p]) (auto simp: good_def)
  then show ?thesis using g by (simp add: good_def eq)
next
  case False
  assume ok: "db_ok db"
  have "count_where (\<lambda>r. ma_id r = m \<and> ma_revokedAt r = None) (db_machines db) = 0"
    using False count_by_key [OF db_okD(1) [OF ok], of "\<lambda>r. ma_id r = m \<and> ma_revokedAt r = None" m] by linarith
  then have "marked m now db = db"
    by (simp add: marked_def count_where_zero update_where_def map_idI)
  then have "snd (revoke_machine m now db) = db" using False by (simp add: revoke_machine_def marked_def Let_def)
  then show ?thesis using good_refl [OF ok] by simp
qed

text \<open>Other grants.\<close>

lemma good_grants:
  assumes ok: "db_ok db" and "distinct (map (\<lambda>g. (gr_user g, gr_machine g)) gs)" and "\<forall>g\<in>set gs. gr_machine g \<in> ma_id ` set (db_machines db)"
    and "\<forall>w\<in>set (db_owners db). \<exists>g\<in>set gs. owner_grant w g" and "\<forall>w\<in>set (db_owners db). \<forall>g\<in>set gs. owner_grant w g \<longrightarrow> gr_scopes g = full_scopes"
  shows "good db (db\<lparr>db_grants := gs\<rparr>)"
proof -
  have marks: "marks (db\<lparr>db_grants := gs\<rparr>) = marks db" by (simp add: marks_def)
  have "rows_ok (db\<lparr>db_grants := gs\<rparr>)" using assms by (simp add: db_ok_def rows_ok_def)
  moreover have "links_ok (db\<lparr>db_grants := gs\<rparr>)"
    using assms unfolding db_ok_def links_ok_def is_live_def marks id_in_marks by simp
  moreover have "evolves db (db\<lparr>db_grants := gs\<rparr>)" by (auto simp: evolves_def stay_defs is_revoked_def marks)
  ultimately show ?thesis by (simp add: good_def db_ok_def)
qed

lemma owner_has_grant: "db_ok db \<Longrightarrow> w \<in> set (db_owners db) \<Longrightarrow> \<exists>g\<in>set (db_grants db). owner_grant w g"
  by (simp add: db_ok_def links_ok_def)

lemma owner_has_all: "db_ok db \<Longrightarrow> w \<in> set (db_owners db) \<Longrightarrow> g \<in> set (db_grants db) \<Longrightarrow> owner_grant w g \<Longrightarrow> gr_scopes g = full_scopes"
  by (simp add: db_ok_def links_ok_def)

lemma good_upsert:
  assumes ok: "db_ok db" and m: "m \<in> ma_id ` set (db_machines db)"
    and s: "s = full_scopes \<or> (\<forall>w\<in>set (db_owners db). ow_machine w = m \<longrightarrow> ow_user w \<noteq> u)"
  shows "good db (upsert_grant u m s now db)"
proof (cases "list_ex (\<lambda>g. gr_user g = u \<and> gr_machine g = m) (db_grants db)")
  case False
  define new where "new = \<lparr>gr_user = u, gr_machine = m, gr_scopes = s, gr_createdAt = now\<rparr>"
  have new: "gr_user new = u" "gr_machine new = m" "gr_scopes new = s" by (simp_all add: new_def)
  have eq: "upsert_grant u m s now db = db\<lparr>db_grants := db_grants db @ [new]\<rparr>" using False by (simp add: upsert_grant_def new_def)
  show ?thesis unfolding eq
  proof (rule good_grants [OF ok])
    show "distinct (map (\<lambda>g. (gr_user g, gr_machine g)) (db_grants db @ [new]))" using False db_okD(4) [OF ok] by (auto simp: new list_ex_iff)
    show "\<forall>w\<in>set (db_owners db). \<exists>g\<in>set (db_grants db @ [new]). owner_grant w g" using owner_has_grant [OF ok] by auto
    show "\<forall>w\<in>set (db_owners db). \<forall>g\<in>set (db_grants db @ [new]). owner_grant w g \<longrightarrow> gr_scopes g = full_scopes"
      using owner_has_all [OF ok] s by (auto simp: new owner_grant_def)
  qed (use m db_okD(7) [OF ok] in \<open>auto simp: new\<close>)
next
  case True
  define here :: "grant_row \<Rightarrow> bool" where "here = (\<lambda>g. gr_user g = u \<and> gr_machine g = m)"
  define gs where "gs = update_where here (\<lambda>g. g\<lparr>gr_scopes := s\<rparr>) (db_grants db)"
  have eq: "upsert_grant u m s now db = db\<lparr>db_grants := gs\<rparr>" using True by (simp add: upsert_grant_def here_def gs_def)
  have keys: "map (\<lambda>g. (gr_user g, gr_machine g)) gs = map (\<lambda>g. (gr_user g, gr_machine g)) (db_grants db)"
    unfolding gs_def by (rule map_update_where) simp
  have from_old: "\<exists>q\<in>set (db_grants db). gr_user q = gr_user g \<and> gr_machine q = gr_machine g \<and>
      (gr_scopes g = gr_scopes q \<or> gr_user g = u \<and> gr_machine g = m \<and> gr_scopes g = s)" if "g \<in> set gs" for g
    using that unfolding gs_def by (rule in_update_whereE) (auto simp: here_def)
  have kept: "\<exists>q\<in>set gs. gr_user q = gr_user g \<and> gr_machine q = gr_machine g" if "g \<in> set (db_grants db)" for g
    using that by (intro bexI [of _ "if here g then g\<lparr>gr_scopes := s\<rparr> else g"]) (auto simp: gs_def in_update_where)
  show ?thesis unfolding eq
  proof (rule good_grants [OF ok])
    show "distinct (map (\<lambda>g. (gr_user g, gr_machine g)) gs)" using db_okD(4) [OF ok] by (simp only: keys)
    show "\<forall>g\<in>set gs. gr_machine g \<in> ma_id ` set (db_machines db)" using from_old db_okD(7) [OF ok] by metis
    show "\<forall>w\<in>set (db_owners db). \<exists>g\<in>set gs. owner_grant w g" using owner_has_grant [OF ok] kept unfolding owner_grant_def by metis
    show "\<forall>w\<in>set (db_owners db). \<forall>g\<in>set gs. owner_grant w g \<longrightarrow> gr_scopes g = full_scopes"
    proof (intro ballI impI)
      fix w g assume w: "w \<in> set (db_owners db)" "g \<in> set gs" "owner_grant w g"
      from from_old [OF w(2)] obtain q where q: "q \<in> set (db_grants db)" "gr_user q = gr_user g" "gr_machine q = gr_machine g"
        "gr_scopes g = gr_scopes q \<or> gr_user g = u \<and> gr_machine g = m \<and> gr_scopes g = s" by blast
      have "owner_grant w q" using w(3) q(2,3) by (simp add: owner_grant_def)
      from owner_has_all [OF ok w(1) q(1) this] q(4) s w(1,3) show "gr_scopes g = full_scopes" by (auto simp: owner_grant_def)
    qed
  qed
qed

lemma good_drop:
  assumes ok: "db_ok db" and "\<forall>w\<in>set (db_owners db). ow_machine w = m \<longrightarrow> ow_user w \<noteq> u"
  shows "good db (snd (drop_grant u m db))"
proof -
  define gs where "gs = delete_where (\<lambda>g. gr_user g = u \<and> gr_machine g = m) (db_grants db)"
  have "good db (db\<lparr>db_grants := gs\<rparr>)"
  proof (rule good_grants [OF ok])
    show "distinct (map (\<lambda>g. (gr_user g, gr_machine g)) gs)" unfolding gs_def by (rule distinct_delete_where [OF db_okD(4) [OF ok]])
    show "\<forall>g\<in>set gs. gr_machine g \<in> ma_id ` set (db_machines db)" using db_okD(7) [OF ok] by (simp add: gs_def)
    show "\<forall>w\<in>set (db_owners db). \<exists>g\<in>set gs. owner_grant w g"
      using owner_has_grant [OF ok] assms(2) by (fastforce simp: gs_def owner_grant_def)
    show "\<forall>w\<in>set (db_owners db). \<forall>g\<in>set gs. owner_grant w g \<longrightarrow> gr_scopes g = full_scopes" using owner_has_all [OF ok] by (auto simp: gs_def)
  qed
  then show ?thesis by (simp add: drop_grant_def gs_def Let_def)
qed

text \<open>An adoption: the grant, the owner's row, and the codes of a machine that changed hands.\<close>

lemma good_reown:
  assumes ok: "db_ok db" and mine: "\<forall>w\<in>set (db_owners db). ow_machine w = m \<longrightarrow> ow_user w = u"
    and free: "\<forall>w\<in>set (db_owners db). ow_user w = u \<and> ow_label w = label \<longrightarrow> ow_machine w = m" and label: "labelIsWellFormed label"
    and live: "is_live db m" and granted: "\<exists>g\<in>set (db_grants db). gr_user g = u \<and> gr_machine g = m"
    and full: "\<forall>g\<in>set (db_grants db). gr_user g = u \<and> gr_machine g = m \<longrightarrow> gr_scopes g = full_scopes"
  shows "good db (db\<lparr>db_owners := delete_where (\<lambda>w. ow_machine w = m) (db_owners db) @
      [\<lparr>ow_machine = m, ow_user = u, ow_label = label, ow_createdAt = t\<rparr>]\<rparr>)"
proof -
  define new where "new = \<lparr>ow_machine = m, ow_user = u, ow_label = label, ow_createdAt = t\<rparr>"
  have new: "ow_machine new = m" "ow_user new = u" "ow_label new = label" by (simp_all add: new_def)
  define rest where "rest = delete_where (\<lambda>w. ow_machine w = m) (db_owners db)"
  let ?db = "db\<lparr>db_owners := rest @ [new]\<rparr>"
  have rest: "w \<in> set rest \<longleftrightarrow> w \<in> set (db_owners db) \<and> ow_machine w \<noteq> m" for w by (simp add: rest_def)
  have marks: "marks ?db = marks db" by (simp add: marks_def)
  have "distinct (map ow_machine rest)" "distinct (map (\<lambda>w. (ow_user w, ow_label w)) rest)"
    unfolding rest_def by (rule distinct_delete_where [OF db_okD(2) [OF ok]], rule distinct_delete_where [OF db_okD(3) [OF ok]])
  then have "rows_ok ?db" using ok free label by (auto simp: db_ok_def rows_ok_def rest new)
  moreover have "links_ok ?db"
  proof -
    have "is_live db (ow_machine w)" "\<exists>g\<in>set (db_grants db). owner_grant w g"
      "\<forall>g\<in>set (db_grants db). owner_grant w g \<longrightarrow> gr_scopes g = full_scopes" if "w \<in> set (rest @ [new])" for w
      using that ok live granted full db_okD(6) [OF ok, of w] owner_has_grant [OF ok, of w] owner_has_all [OF ok, of w]
      by (auto simp: rest new owner_grant_def)
    then show ?thesis using ok unfolding db_ok_def links_ok_def is_live_def marks by simp
  qed
  moreover have "evolves db ?db"
  proof -
    have "\<exists>v\<in>set (rest @ [new]). ow_machine v = ow_machine w \<and> ow_user v = ow_user w" if "w \<in> set (db_owners db)" for w
      using that mine by (cases "ow_machine w = m") (auto simp: rest new)
    then show ?thesis by (simp add: evolves_def stay_defs is_revoked_def marks) auto
  qed
  ultimately show ?thesis by (simp add: good_def db_ok_def rest_def new_def)
qed

lemma upsert_grant_frame [simp]:
  "db_owners (upsert_grant u m s now db) = db_owners db" "db_machines (upsert_grant u m s now db) = db_machines db"
  by (simp_all add: upsert_grant_def Let_def)

lemma upsert_after_owners: "upsert_grant u m s now (db\<lparr>db_owners := ws\<rparr>) = (upsert_grant u m s now db)\<lparr>db_owners := ws\<rparr>"
  by (simp add: upsert_grant_def Let_def)

lemma granted_by_upsert: "\<exists>g\<in>set (db_grants (upsert_grant u m s now db)). gr_user g = u \<and> gr_machine g = m"
proof (cases "list_ex (\<lambda>g. gr_user g = u \<and> gr_machine g = m) (db_grants db)")
  case True
  then obtain g where "g \<in> set (db_grants db)" "gr_user g = u" "gr_machine g = m" by (auto simp: list_ex_iff)
  then show ?thesis using True by (intro bexI [of _ "g\<lparr>gr_scopes := s\<rparr>"]) (auto simp: upsert_grant_def in_update_where intro!: bexI [of _ g])
qed (simp add: upsert_grant_def)

lemma scopes_by_upsert: "g \<in> set (db_grants (upsert_grant u m s now db)) \<Longrightarrow> gr_user g = u \<and> gr_machine g = m \<longrightarrow> gr_scopes g = s"
proof (cases "list_ex (\<lambda>g. gr_user g = u \<and> gr_machine g = m) (db_grants db)")
  case True
  assume "g \<in> set (db_grants (upsert_grant u m s now db))"
  then have "g \<in> set (update_where (\<lambda>g. gr_user g = u \<and> gr_machine g = m) (\<lambda>g. g\<lparr>gr_scopes := s\<rparr>) (db_grants db))"
    using True by (simp add: upsert_grant_def)
  then show ?thesis by (rule in_update_whereE) auto
next
  case False
  assume "g \<in> set (db_grants (upsert_grant u m s now db))"
  then have "g \<in> set (db_grants db) \<or> gr_scopes g = s" using False by (auto simp: upsert_grant_def)
  then show ?thesis using False by (auto simp: list_ex_iff)
qed

lemma good_adopt:
  assumes ok: "db_ok db" and mine: "\<forall>w\<in>set (db_owners db). ow_machine w = m \<longrightarrow> ow_user w = u"
    and free: "\<forall>w\<in>set (db_owners db). ow_user w = u \<and> ow_label w = label \<longrightarrow> ow_machine w = m" and label: "labelIsWellFormed label"
    and live: "is_live db m"
  shows "good db (snd (adopt_machine m u label now db))"
proof -
  let ?up = "upsert_grant u m full_scopes now db"
  have g: "good db ?up" by (rule good_upsert [OF ok live_id [OF live]]) simp
  have live': "is_live ?up m" using live by (simp add: is_live_def marks_def)
  define stays where "stays \<longleftrightarrow> (case ownerOf db m of None \<Rightarrow> False | Some w \<Rightarrow> ow_user w = u)"
  define t where "t = (if stays then ow_createdAt (the (ownerOf db m)) else now)"
  let ?g = "?up\<lparr>db_owners := delete_where (\<lambda>w. ow_machine w = m) (db_owners ?up) @
      [\<lparr>ow_machine = m, ow_user = u, ow_label = label, ow_createdAt = t\<rparr>]\<rparr>"
  have "good ?up ?g"
    by (rule good_reown [OF good_ok [OF g]]) (use mine free label live' granted_by_upsert scopes_by_upsert in auto)
  from good_trans [OF g this] have gg: "good db ?g" .
  have "good ?g (snd (burnMachineCodes m now ?g))" unfolding burnMachineCodes_def by (rule good_burn [OF good_ok [OF gg]])
  moreover have "snd (adopt_machine m u label now db) = (if stays then ?g else snd (burnMachineCodes m now ?g))"
    by (simp add: adopt_machine_def Let_def stays_def [symmetric] releaseOwner_def upsert_after_owners full_scopes_def)
      (simp add: t_def)
  ultimately show ?thesis using gg by (simp add: good_trans)
qed

subsection \<open>An account removed\<close>

text \<open>What \<open>retire_machine\<close> does to the database.\<close>

definition retired_db :: "int \<Rightarrow> ustring \<Rightarrow> control_db \<Rightarrow> control_db" where
  "retired_db now m db =
     (if count_where (\<lambda>r. ma_id r = m \<and> ma_revokedAt r = None) (db_machines db) = 1
      then snd (burnMachineCodes m now (marked m now db)) else marked m now db)"

lemma retire_machine_db: "snd (retire_machine now m acc) = retired_db now m (snd acc)"
  by (simp add: retire_machine_def retired_db_def marked_def Let_def split: prod.split)

lemma retired_frame [simp]:
  "db_owners (retired_db now m db) = db_owners db" "db_grants (retired_db now m db) = db_grants db"
  "map ma_id (db_machines (retired_db now m db)) = map ma_id (db_machines db)"
  by (simp_all add: retired_db_def burnMachineCodes_def burn_codes_frame ids_marked)

lemma retired_after_owners: "retired_db now m (db\<lparr>db_owners := ws\<rparr>) = (retired_db now m db)\<lparr>db_owners := ws\<rparr>"
  by (simp add: retired_db_def burnMachineCodes_def burn_codes_def marked_def)

lemma revoked_retired: "is_revoked (retired_db now m db) i \<longleftrightarrow> is_revoked db i \<or> i = m \<and> m \<in> set (map ma_id (db_machines db))"
  by (simp add: retired_db_def burnMachineCodes_def)

lemma good_retire:
  assumes ok: "db_ok db" and free: "\<forall>w\<in>set (db_owners db). ow_machine w \<noteq> m"
  shows "good db (retired_db now m db)"
proof (cases "count_where (\<lambda>r. ma_id r = m \<and> ma_revokedAt r = None) (db_machines db) = 1")
  case True
  then show ?thesis using good_retired [OF assms] by (simp add: retired_db_def)
next
  case False
  then have "count_where (\<lambda>r. ma_id r = m \<and> ma_revokedAt r = None) (db_machines db) = 0"
    using count_by_key [OF db_okD(1) [OF ok], of "\<lambda>r. ma_id r = m \<and> ma_revokedAt r = None" m] by linarith
  then have "marked m now db = db" by (simp add: marked_def count_where_zero update_where_def map_idI)
  then show ?thesis using False good_refl [OF ok] by (simp add: retired_db_def)
qed

lemma fold_retire:
  "snd (fold (retire_machine now) ms acc) = fold (retired_db now) ms (snd acc)"
  by (induction ms arbitrary: acc) (simp_all add: retire_machine_db)

lemma fold_stranded:
  "snd (fold (retire_stranded now) ms acc) =
     fold (retired_db now) (filter (\<lambda>m. \<not> list_ex (\<lambda>g. gr_machine g = m) (db_grants (snd acc))) ms) (snd acc)"
proof (induction ms arbitrary: acc)
  case (Cons m ms)
  have "retire_stranded now m acc = (if list_ex (\<lambda>g. gr_machine g = m) (db_grants (snd acc)) then acc else retire_machine now m acc)"
    by (simp add: retire_stranded_def)
  then show ?case by (simp add: Cons.IH retire_machine_db)
qed simp

lemma fold_retired_frame:
  "db_owners (fold (retired_db now) ms db) = db_owners db" "db_grants (fold (retired_db now) ms db) = db_grants db"
  "map ma_id (db_machines (fold (retired_db now) ms db)) = map ma_id (db_machines db)"
  by (induction ms arbitrary: db) (simp_all del: list.map_comp)

lemma fold_retired_after_owners: "fold (retired_db now) ms (db\<lparr>db_owners := ws\<rparr>) = (fold (retired_db now) ms db)\<lparr>db_owners := ws\<rparr>"
  by (induction ms arbitrary: db) (simp_all add: retired_after_owners)

lemma revoked_fold_retired:
  "is_revoked (fold (retired_db now) ms db) i \<longleftrightarrow> is_revoked db i \<or> i \<in> set ms \<and> i \<in> set (map ma_id (db_machines db))"
proof (induction ms arbitrary: db)
  case (Cons m ms)
  show ?case unfolding fold_simps comp_apply Cons.IH revoked_retired retired_frame(3) by auto
qed simp

lemma good_fold_retired:
  "db_ok db \<Longrightarrow> \<forall>m\<in>set ms. \<forall>w\<in>set (db_owners db). ow_machine w \<noteq> m \<Longrightarrow> good db (fold (retired_db now) ms db)"
proof (induction ms arbitrary: db)
  case (Cons m ms)
  have g: "good db (retired_db now m db)" by (rule good_retire) (use Cons.prems in auto)
  have "good (retired_db now m db) (fold (retired_db now) ms (retired_db now m db))"
    by (rule Cons.IH) (use Cons.prems good_ok [OF g] in auto)
  with g show ?case by (simp add: good_trans)
qed (simp add: good_refl)

text \<open>The account's own rows are looked past: they go last.\<close>

definition past :: "ustring \<Rightarrow> control_db \<Rightarrow> control_db" where
  "past u db = db\<lparr>db_owners := delete_where (\<lambda>w. ow_user w = u) (db_owners db)\<rparr>"

lemma past_fold: "past u (fold (retired_db now) ms db) = fold (retired_db now) ms (past u db)"
  by (simp add: past_def fold_retired_after_owners fold_retired_frame)

lemma past_burn: "past u (snd (burn_codes p who now db)) = snd (burn_codes p who now (past u db))"
  by (simp add: past_def burn_codes_def)

lemma in_past: "w \<in> set (db_owners (past u db)) \<longleftrightarrow> w \<in> set (db_owners db) \<and> ow_user w \<noteq> u"
  by (simp add: past_def)

lemma past_ok: "db_ok db \<Longrightarrow> db_ok (past u db)"
  by (simp add: past_def fewer_owners_ok)

lemma good_past_frame:
  assumes "db_ok (past u db)" and "db_owners db' = db_owners db" and "db_grants db' = db_grants db" and "db_codes db' = db_codes db"
    and "db_machines db' = db_machines db"
  shows "good (past u db) (past u db')"
  by (rule good_frame [OF assms(1)]) (use assms in \<open>simp_all add: past_def marks_def\<close>)

lemma good_past_burn: "db_ok (past u db) \<Longrightarrow> good (past u db) (past u (snd (burn_codes p who now db)))"
  by (simp add: past_burn good_burn)

lemma good_past_drop:
  assumes ok: "db_ok (past u db)"
  shows "good (past u db) (past u (db\<lparr>db_grants := delete_where (\<lambda>g. gr_user g = u) (db_grants db)\<rparr>))"
proof -
  define gs where "gs = delete_where (\<lambda>g. gr_user g = u) (db_grants db)"
  have eq: "past u (db\<lparr>db_grants := gs\<rparr>) = (past u db)\<lparr>db_grants := gs\<rparr>" by (simp add: past_def)
  have grants: "db_grants (past u db) = db_grants db" "db_machines (past u db) = db_machines db" by (simp_all add: past_def)
  have "good (past u db) ((past u db)\<lparr>db_grants := gs\<rparr>)"
  proof (rule good_grants [OF ok])
    show "distinct (map (\<lambda>g. (gr_user g, gr_machine g)) gs)"
      unfolding gs_def by (rule distinct_delete_where) (use db_okD(4) [OF ok] in \<open>simp add: grants\<close>)
    show "\<forall>g\<in>set gs. gr_machine g \<in> ma_id ` set (db_machines (past u db))" using db_okD(7) [OF ok] by (simp add: gs_def grants)
    show "\<forall>w\<in>set (db_owners (past u db)). \<exists>g\<in>set gs. owner_grant w g"
    proof
      fix w assume w: "w \<in> set (db_owners (past u db))"
      from owner_has_grant [OF ok this] obtain g where "g \<in> set (db_grants db)" "owner_grant w g" by (auto simp: grants)
      with w show "\<exists>g\<in>set gs. owner_grant w g" by (auto simp: gs_def in_past owner_grant_def)
    qed
    show "\<forall>w\<in>set (db_owners (past u db)). \<forall>g\<in>set gs. owner_grant w g \<longrightarrow> gr_scopes g = full_scopes"
      using owner_has_all [OF ok] by (auto simp: gs_def grants)
  qed
  then show ?thesis using eq by (simp add: gs_def)
qed

lemma stranded_unowned: "m \<in> set (may_strand db u) \<Longrightarrow> w \<in> set (db_owners db) \<Longrightarrow> ow_machine w \<noteq> m"
  by (auto simp: may_strand_def list_ex_iff)

lemma good_delete_user:
  assumes ok: "db_ok db"
  shows "good db (snd (delete_user u now db))"
proof -
  let ?mine = "\<lambda>w. ow_user w = u"
  define db1 where "db1 = db\<lparr>db_origins := (db_origins db) |` (- (sn_id ` {r \<in> set (db_sessions db). sn_user r = u})),
            db_sessions := delete_where (\<lambda>r. sn_user r = u) (db_sessions db),
            db_passwords := (db_passwords db)(u := None),
            db_apiKeys := delete_where (\<lambda>k. ak_user k = u) (db_apiKeys db)\<rparr>"
  define db2 where "db2 = snd (burnGranteeCodes u User_deleted now db1)"
  define db3 where "db3 = db2\<lparr>db_grants := delete_where (\<lambda>g. gr_user g = u) (db_grants db2)\<rparr>"
  define lost where "lost = filter (\<lambda>m. \<not> list_ex (\<lambda>g. gr_machine g = m) (db_grants db3)) (may_strand db2 u)"
  define db4 where "db4 = fold (retired_db now) lost db3"
  define db5 where "db5 = deleteEmailState u db4"
  define db6 where "db6 = db5\<lparr>db_obligations := (db_obligations db5)(u := None), db_limits := (db_limits db5)(u := None),
            db_devices := delete_where (\<lambda>d. dv_user d = u) (db_devices db5)\<rparr>"
  define db7 where "db7 = snd (burnUserCodes u User_deleted now db6)"
  define owned where "owned = map ow_machine (filter ?mine (db_owners db7))"
  define db8 where "db8 = fold (retired_db now) owned db7"
  have eq: "snd (delete_user u now db) = (past u db8)\<lparr>db_users := delete_where (\<lambda>x. us_id x = u) (db_users db8)\<rparr>" (is "_ = ?final")
    unfolding delete_user_def Let_def db8_def owned_def db7_def db6_def db5_def db4_def lost_def db3_def db2_def db1_def
    by (simp add: fold_retire fold_stranded past_def case_prod_unfold)
  note step = good_trans
  have g1: "good (past u db) (past u db1)" by (rule good_past_frame [OF past_ok [OF ok]]) (simp_all add: db1_def)
  have g2: "good (past u db1) (past u db2)" unfolding db2_def burnGranteeCodes_def by (rule good_past_burn [OF good_ok [OF g1]])
  have g3: "good (past u db2) (past u db3)" unfolding db3_def by (rule good_past_drop [OF good_ok [OF g2]])
  have owners3: "db_owners db3 = db_owners db2" by (simp add: db3_def)
  have g4: "good (past u db3) (past u db4)"
    unfolding db4_def past_fold by (rule good_fold_retired [OF good_ok [OF g3]]) (auto simp: lost_def in_past owners3 dest: stranded_unowned)
  have g6: "good (past u db4) (past u db6)" by (rule good_past_frame [OF good_ok [OF g4]]) (simp_all add: db6_def db5_def deleteEmailState_def)
  have g7: "good (past u db6) (past u db7)" unfolding db7_def burnUserCodes_def by (rule good_past_burn [OF good_ok [OF g6]])
  have owners: "db_owners db7 = db_owners db"
    by (simp add: db7_def db6_def db5_def db4_def db3_def db2_def db1_def burnUserCodes_def burnGranteeCodes_def deleteEmailState_def burn_codes_frame fold_retired_frame)
  have "db_machines db7 = db_machines db4" by (simp add: db7_def db6_def db5_def burnUserCodes_def deleteEmailState_def burn_codes_frame)
  moreover have "db_machines db3 = db_machines db" by (simp add: db3_def db2_def db1_def burnGranteeCodes_def burn_codes_frame)
  moreover have "map ma_id (db_machines db4) = map ma_id (db_machines db3)" unfolding db4_def by (rule fold_retired_frame(3))
  ultimately have ids: "map ma_id (db_machines db7) = map ma_id (db_machines db)" by metis
  have "\<forall>m\<in>set owned. \<forall>w\<in>set (db_owners (past u db7)). ow_machine w \<noteq> m"
  proof (intro ballI notI)
    fix m w assume "m \<in> set owned" and w: "w \<in> set (db_owners (past u db7))" "ow_machine w = m"
    then obtain v where v: "v \<in> set (db_owners db)" "ow_user v = u" "ow_machine v = m" by (auto simp: owned_def owners)
    from w have "w \<in> set (db_owners db)" "ow_user w \<noteq> u" by (simp_all add: in_past owners)
    with same_key [OF db_okD(2) [OF ok] this(1) v(1)] v w(2) show False by simp
  qed
  then have g8: "good (past u db7) (past u db8)" unfolding db8_def past_fold by (rule good_fold_retired [OF good_ok [OF g7]])
  have g: "good (past u db) (past u db8)" by (rule step [OF step [OF step [OF step [OF step [OF step [OF g1 g2] g3] g4] g6] g7] g8])
  have g9: "good (past u db8) ?final" by (rule good_fields(4) [OF good_ok [OF g]])
  have "evolves db ?final"
  proof (rule evolves_by_owners [of db ?mine])
    show "evolves (db\<lparr>db_owners := delete_where ?mine (db_owners db)\<rparr>) ?final"
      using step [OF g g9] by (simp add: good_def past_def)
    fix w assume w: "w \<in> set (db_owners db)" "ow_user w = u"
    then have "ow_machine w \<in> set owned" by (simp add: owned_def owners)
    moreover have "ow_machine w \<in> set (map ma_id (db_machines db7))"
      using live_id [OF db_okD(6) [OF ok w(1)]] by (simp only: ids list.set_map)
    ultimately have "is_revoked db8 (ow_machine w)" by (simp only: db8_def revoked_fold_retired) simp
    then show "is_revoked ?final (ow_machine w)" by (simp add: is_revoked_def marks_def past_def)
  qed
  moreover have "db_ok ?final" by (rule good_ok [OF g9])
  ultimately show ?thesis by (simp add: good_def eq)
qed

end
