(* ===== verification/MachineRuns.thy ===== *)
theory MachineRuns
  imports MachineSafety
begin

text \<open>
  Every handler of MachineRoutes, from any database whose tables are well formed, leaves one that
  is, and takes nothing back of what \<open>evolves\<close> promises; then the runs of requests.
\<close>

definition safe :: "'a handler \<Rightarrow> bool" where
  "safe h \<longleftrightarrow> (\<forall>s. db_ok (ap_db s) \<longrightarrow> wp h (\<lambda>_ t. good (ap_db s) (ap_db t)) (\<lambda>t. good (ap_db s) (ap_db t)) s)"

lemma safeD: "safe h \<Longrightarrow> db_ok (ap_db s) \<Longrightarrow> good (ap_db s) (ap_db (snd (h s)))"
  by (simp add: safe_def wp_always)

lemma safeI: "(\<And>s. db_ok (ap_db s) \<Longrightarrow> wp h (\<lambda>_ t. good (ap_db s) (ap_db t)) (\<lambda>t. good (ap_db s) (ap_db t)) s) \<Longrightarrow> safe h"
  by (simp add: safe_def)

text \<open>A later handler takes over from a good state.\<close>

lemma wp_safe:
  assumes "safe h" and "good db (ap_db s)" and "\<And>x t. good db (ap_db t) \<Longrightarrow> Q x t" and "\<And>t. good db (ap_db t) \<Longrightarrow> E t"
  shows "wp h Q E s"
proof -
  have g: "good db (ap_db (snd (h s)))" by (rule good_trans [OF assms(2) safeD [OF assms(1) good_ok [OF assms(2)]]])
  obtain r t where "h s = (r, t)" by fastforce
  then show ?thesis using g assms(3,4) by (cases r) (simp_all add: wp_def)
qed

lemma safe_then: "safe h \<Longrightarrow> (\<And>x. safe (f x)) \<Longrightarrow> safe (and_then h f)"
  by (rule safeI, unfold wp_and_then, rule wp_safe, assumption, erule good_refl, rule wp_safe, assumption+)

lemma safe_basic:
  "safe (done_with x)" "safe (throw e)" "safe (check ok status code)" "safe (found v status code)" "safe (query f)" "safe (requireAdmin caller)"
  "safe (spendWrite cp caller what now)" "safe (spendGuess cp key now)"
  by (auto simp: safe_def good_refl Let_def split: option.split)

lemma safe_change: "(\<And>db. db_ok db \<Longrightarrow> good db (snd (f db))) \<Longrightarrow> safe (change f)"
  by (simp add: safe_def)

lemma safe_attempt: "(\<And>db x db'. db_ok db \<Longrightarrow> f db = Some (x, db') \<Longrightarrow> good db db') \<Longrightarrow> safe (attempt f)"
  by (auto simp: safe_def good_refl split: option.split)

lemma safe_ensure_key: "safe (ensure_key cp en now)"
  unfolding ensure_key_def by (rule safe_attempt) (auto dest!: ensureSigningKey_frame simp: good_fields)

lemmas safe_steps = safe_basic safe_then safe_ensure_key

subsection \<open>One's own machines\<close>

lemma readLabel_fits: "readLabel v = Some l \<Longrightarrow> labelIsWellFormed l"
  by (cases v rule: readLabel.cases) (auto split: if_splits)

lemma safe_ownedMachine: "safe (ownedMachine caller m)"
  by (simp add: ownedMachine_def safe_steps)

lemma wp_ownedMachine [simp]:
  "wp (ownedMachine caller m) Q E s =
     (case ownerOf (ap_db s) m of None \<Rightarrow> E s | Some w \<Rightarrow> if ow_user w = ca_userId caller then Q w s else E s)"
  by (simp add: ownedMachine_def split: option.split)

lemma safe_live_row: "safe (live_row m)"
  by (simp add: live_row_def safe_steps)

lemma wp_live_row [simp]:
  "wp (live_row m) Q E s = (case machine_row_of (ap_db s) m of None \<Rightarrow> E s | Some r \<Rightarrow> if ma_revokedAt r = None then Q r s else E s)"
  by (simp add: live_row_def split: option.split)

lemma wp_create_for:
  assumes "good db (ap_db s)" and "labelIsWellFormed label" and "MACHINE_LABEL_RESERVED (newId ''m'' (en_machine en))"
    and "\<And>made t. good db (ap_db t) \<Longrightarrow> is_live (ap_db t) (fst made) \<Longrightarrow> Q made t" and "E s"
  shows "wp (create_for cp en u label limit now) Q E s"
proof (cases "createOwnedMachine (en_machine en) u label ALL_SCOPE_NAMES limit now (ap_db s)")
  case (Pair r db')
  show ?thesis
  proof (cases r)
    case (Inl e)
    with Pair have "db' = ap_db s" by (auto dest: create_refused)
    then show ?thesis using Pair Inl assms(5) by (cases e) (simp_all add: create_for_def)
  next
    case (Inr made)
    with Pair have "good (ap_db s) db' \<and> is_live db' (fst made)"
      using good_create [OF good_ok [OF assms(1)] _ assms(2,3)] by blast
    then show ?thesis using Pair Inr assms(1,4) by (simp add: create_for_def good_trans)
  qed
qed

lemma wp_mint_code:
  assumes "good db (ap_db s)" and "is_live (ap_db s) m" and "\<And>c t. good db (ap_db t) \<Longrightarrow> Q c t" and "E s"
  shows "wp (mint_code cp en m creator now) Q E s"
proof (cases "mintEnrollmentCode (cp_sha cp) (en_code en) (en_codeId en) m creator ENROLLMENT_CODE_TTL_MS now (ap_db s)")
  case (Some p)
  obtain c db' where p: "p = (c, db')" by (cases p)
  have "good (ap_db s) db'" by (rule good_mint [OF good_ok [OF assms(1)] _ assms(2)]) (use Some p in auto)
  then show ?thesis using assms(1,3) Some p by (simp add: mint_code_def good_trans)
qed (simp add: mint_code_def assms(4))

text \<open>Handlers that are safe where something more holds of the tables.\<close>

definition safe_when :: "(control_db \<Rightarrow> bool) \<Rightarrow> 'a handler \<Rightarrow> bool" where
  "safe_when P h \<longleftrightarrow> (\<forall>s. db_ok (ap_db s) \<longrightarrow> P (ap_db s) \<longrightarrow> wp h (\<lambda>_ t. good (ap_db s) (ap_db t)) (\<lambda>t. good (ap_db s) (ap_db t)) s)"

lemma safe_whenI:
  "(\<And>s. db_ok (ap_db s) \<Longrightarrow> P (ap_db s) \<Longrightarrow> wp h (\<lambda>_ t. good (ap_db s) (ap_db t)) (\<lambda>t. good (ap_db s) (ap_db t)) s) \<Longrightarrow> safe_when P h"
  by (simp add: safe_when_def)

lemma safe_by_when: "safe_when (\<lambda>_. True) h \<Longrightarrow> safe h"
  by (simp add: safe_when_def safe_def)

lemma when_safe: "safe h \<Longrightarrow> safe_when P h"
  by (simp add: safe_when_def safe_def)

lemma safe_whenD:
  assumes "safe_when P h" and "good db (ap_db s)" and "P (ap_db s)"
  shows "wp h (\<lambda>_ t. good db (ap_db t)) (\<lambda>t. good db (ap_db t)) s"
proof -
  have "good (ap_db s) (ap_db (snd (h s)))" using assms(1,3) good_ok [OF assms(2)] by (simp add: safe_when_def wp_always)
  then show ?thesis using good_trans [OF assms(2)] by (simp add: wp_always)
qed

lemma when_query: "(\<And>x. safe_when (\<lambda>db. P db \<and> g db = x) (f x)) \<Longrightarrow> safe_when P (and_then (query g) f)"
  by (simp add: safe_when_def)

lemma when_check: "(ok \<Longrightarrow> safe_when P (f ())) \<Longrightarrow> safe_when P (and_then (check ok status code) f)"
  by (simp add: safe_when_def good_refl)

lemma when_found: "(\<And>x. v = Some x \<Longrightarrow> safe_when P (f x)) \<Longrightarrow> safe_when P (and_then (found v status code) f)"
  by (simp add: safe_when_def good_refl split: option.split)

lemma when_admin: "safe_when P (f ()) \<Longrightarrow> safe_when P (and_then (requireAdmin caller) f)"
  by (simp add: safe_when_def good_refl)

lemma safe_when_same:
  assumes "safe_when P h" and "db_ok (ap_db s)" and "P (ap_db s)" and "ap_db t = ap_db s"
  shows "wp h (\<lambda>_ t. good (ap_db s) (ap_db t)) (\<lambda>t. good (ap_db s) (ap_db t)) t"
  by (rule safe_whenD [OF assms(1)]) (simp_all add: assms good_refl)

lemma when_write: "safe_when P (f ()) \<Longrightarrow> safe_when P (and_then (spendWrite cp caller what now) f)"
  by (rule safe_whenI, frule (2) safe_when_same) (simp_all add: Let_def good_refl safe_when_same)

lemma when_guess: "safe_when P (f ()) \<Longrightarrow> safe_when P (and_then (spendGuess cp key now) f)"
  by (rule safe_whenI, frule (2) safe_when_same) (simp_all add: Let_def good_refl safe_when_same)

lemma when_owned:
  "(\<And>w. safe_when (\<lambda>db. P db \<and> ownerOf db m = Some w \<and> ow_user w = ca_userId caller) (f w)) \<Longrightarrow> safe_when P (and_then (ownedMachine caller m) f)"
  by (simp add: safe_when_def good_refl split: option.split)

lemma when_live_row: "(\<And>r. safe_when (\<lambda>db. P db \<and> is_live db m) (f r)) \<Longrightarrow> safe_when P (and_then (live_row m) f)"
  by (simp add: safe_when_def good_refl row_is_live split: option.split)

text \<open>A change that is good where it is made; what still holds after it.\<close>

lemma when_change_last: "(\<And>db. db_ok db \<Longrightarrow> P db \<Longrightarrow> good db (snd (g db))) \<Longrightarrow> safe_when P (change g)"
  by (simp add: safe_when_def)

lemma when_change_to:
  assumes "\<And>db. db_ok db \<Longrightarrow> P db \<Longrightarrow> good db (snd (g db))" and "\<And>db. P db \<Longrightarrow> R (snd (g db))" and "\<And>x. safe_when R (f x)"
  shows "safe_when P (and_then (change g) f)"
  by (rule safe_whenI, unfold wp_and_then wp_change) (rule safe_whenD [OF assms(3)], simp_all add: assms(1,2))

lemma when_change: "(\<And>x. safe (f x)) \<Longrightarrow> (\<And>db. db_ok db \<Longrightarrow> P db \<Longrightarrow> good db (snd (g db))) \<Longrightarrow> safe_when P (and_then (change g) f)"
  by (rule when_change_to [where R = "\<lambda>_. True"]) (simp_all add: when_safe)

lemma when_attempt:
  assumes "\<And>db x db'. db_ok db \<Longrightarrow> P db \<Longrightarrow> g db = Some (x, db') \<Longrightarrow> good db db' \<and> R db'" and "\<And>x. safe_when R (f x)"
  shows "safe_when P (and_then (attempt g) f)"
proof (rule safe_whenI, unfold wp_and_then)
  fix s :: control_app assume ok: "db_ok (ap_db s)" and p: "P (ap_db s)"
  show "wp (attempt g) (\<lambda>x. wp (f x) (\<lambda>_ t. good (ap_db s) (ap_db t)) (\<lambda>t. good (ap_db s) (ap_db t))) (\<lambda>t. good (ap_db s) (ap_db t)) s"
  proof (cases "g (ap_db s)")
    case (Some y)
    obtain x db' where y: "y = (x, db')" by (cases y)
    from assms(1) [OF ok p Some [unfolded y]] have "good (ap_db s) db'" "R db'" by simp_all
    then have "wp (f x) (\<lambda>_ t. good (ap_db s) (ap_db t)) (\<lambda>t. good (ap_db s) (ap_db t)) (s\<lparr>ap_db := db'\<rparr>)"
      by (intro safe_whenD [OF assms(2)]) simp_all
    then show ?thesis by (simp add: Some y)
  qed (simp add: good_refl [OF ok])
qed

lemma when_try:
  "(\<And>x. safe (f x)) \<Longrightarrow> (\<And>db x db'. db_ok db \<Longrightarrow> g db = Some (x, db') \<Longrightarrow> good db db') \<Longrightarrow> safe_when P (and_then (attempt g) f)"
  by (rule when_attempt [where R = "\<lambda>_. True"]) (simp_all add: when_safe)

lemma when_ensure_key:
  assumes "\<And>k. safe_when (\<lambda>db. is_live db m) (f k)" and "\<And>db. P db \<Longrightarrow> is_live db m"
  shows "safe_when P (and_then (ensure_key cp en now) f)"
  unfolding ensure_key_def
proof (rule when_attempt [OF _ assms(1)], intro conjI)
  fix db x db' assume ok: "db_ok db" "P db"
    and made: "ensureSigningKey (cp_private cp) (cp_json cp) (cp_digest cp) (en_pair en) now db = Some (x, db')"
  from ensureSigningKey_frame [OF made] obtain ks where ks: "db' = db\<lparr>db_signingKeys := ks\<rparr>" by blast
  show "good db db'" unfolding ks by (rule good_fields(1) [OF ok(1)])
  show "is_live db' m" using assms(2) [OF ok(2)] by (simp add: ks is_live_def marks_def)
qed

lemma when_mint:
  assumes "\<And>db. P db \<Longrightarrow> is_live db m" and "\<And>c. safe (f c)"
  shows "safe_when P (and_then (mint_code cp en m creator now) f)"
  unfolding mint_code_def
  by (rule when_attempt [OF _ when_safe [OF assms(2)], where R = "\<lambda>_. True"]) (auto dest: assms(1) intro: good_mint)

lemma when_mint_last: "(\<And>db. P db \<Longrightarrow> is_live db m) \<Longrightarrow> safe_when P (mint_code cp en m creator now)"
  by (auto simp: safe_when_def mint_code_def good_refl split: option.split intro: good_mint)

lemma when_create:
  assumes "labelIsWellFormed label" and "MACHINE_LABEL_RESERVED (newId ''m'' (en_machine en))"
    and "\<And>made. safe_when (\<lambda>db. is_live db (fst made)) (f made)"
  shows "safe_when P (and_then (create_for cp en u label limit now) f)"
proof (rule safe_whenI, unfold wp_and_then)
  fix s :: control_app assume ok: "db_ok (ap_db s)"
  show "wp (create_for cp en u label limit now) (\<lambda>x. wp (f x) (\<lambda>_ t. good (ap_db s) (ap_db t)) (\<lambda>t. good (ap_db s) (ap_db t)))
      (\<lambda>t. good (ap_db s) (ap_db t)) s"
  proof (rule wp_create_for [where db = "ap_db s"])
    fix made :: "ustring \<times> ustring" and t :: control_app assume "good (ap_db s) (ap_db t)" "is_live (ap_db t) (fst made)"
    then show "wp (f made) (\<lambda>_ t. good (ap_db s) (ap_db t)) (\<lambda>t. good (ap_db s) (ap_db t)) t" by (rule safe_whenD [OF assms(3)])
  qed (simp_all add: assms ok good_refl)
qed

lemma when_create_last:
  assumes "labelIsWellFormed label" and "MACHINE_LABEL_RESERVED (newId ''m'' (en_machine en))"
  shows "safe_when P (create_for cp en u label limit now)"
  by (rule safe_whenI, rule wp_create_for [OF good_refl assms]) (simp_all add: good_refl)

lemma when_done: "safe_when P (done_with x)" "safe_when P (check ok status code)" "safe_when P (throw e)" "safe_when P (found v status code)"
  by (auto intro: when_safe safe_basic)

lemmas when_rules = when_done when_write when_guess when_admin when_check when_found when_owned when_live_row when_query

lemma when_plain_key: "(\<And>k. safe (f k)) \<Longrightarrow> safe_when P (and_then (ensure_key cp en now) f)"
  by (intro when_safe safe_then safe_ensure_key)

lemma safe_postMachine:
  assumes "MACHINE_LABEL_RESERVED (newId ''m'' (en_machine en))"
  shows "safe (postMachine cp en caller body now)"
  unfolding postMachine_def
  by (rule safe_by_when when_plain_key when_create [OF readLabel_fits assms] when_mint when_rules; assumption?)+

lemma safe_patchMachine: "safe (patchMachine cp caller m body now)"
  unfolding patchMachine_def
  by (rule safe_by_when when_change good_relabel readLabel_fits when_rules; assumption?)+

lemma safe_postEnrollment: "safe (postEnrollment cp en caller m now)"
  unfolding postEnrollment_def
  by (rule safe_by_when when_ensure_key when_mint_last when_rules; assumption?)+ simp

lemma safe_postRevoke: "safe (postRevoke cp caller m now)"
  unfolding postRevoke_def
  by (rule safe_by_when when_change good_revoke when_rules; assumption?)+

lemma owner_row: "ownerOf db m = Some w \<Longrightarrow> w \<in> set (db_owners db) \<and> ow_machine w = m"
  by (auto simp: ownerOf_def dest: find_in)

lemma only_owner: "db_ok db \<Longrightarrow> ownerOf db m = Some w \<Longrightarrow> v \<in> set (db_owners db) \<Longrightarrow> ow_machine v = m \<Longrightarrow> v = w"
  using same_key [OF db_okD(2), of db v w] owner_row [of db m w] by simp

lemma owned_is_live: "db_ok db \<Longrightarrow> ownerOf db m = Some w \<Longrightarrow> is_live db m"
  using db_okD(6) [of db w] by (auto dest: owner_row)

lemma good_share: "db_ok db \<Longrightarrow> ownerOf db m = Some w \<Longrightarrow> u \<noteq> ow_user w \<Longrightarrow> good db (upsert_grant u (ow_machine w) s now db)"
  using owner_row [of db m w] by (intro good_upsert) (auto dest: only_owner intro: live_id owned_is_live)

lemma good_unshare: "db_ok db \<Longrightarrow> ownerOf db m = Some w \<Longrightarrow> u \<noteq> ow_user w \<Longrightarrow> good db (snd (drop_grant u (ow_machine w) db))"
  using owner_row [of db m w] by (intro good_drop) (auto dest: only_owner)

lemma good_leave:
  "db_ok db \<Longrightarrow> (case ownerOf db m of None \<Rightarrow> True | Some w \<Rightarrow> ow_user w \<noteq> u) \<Longrightarrow> good db (snd (drop_grant u m db))"
  by (rule good_drop) (auto simp: ownerOf_def find_None_iff split: option.splits dest: only_owner [unfolded ownerOf_def])

lemma safe_putGrant: "safe (putGrant cp caller m body now)"
  unfolding putGrant_def
  by (rule safe_by_when when_change when_rules; assumption?)+ (auto intro: good_share)

lemma safe_deleteGrant: "safe (deleteGrant cp caller m asked now)"
  unfolding deleteGrant_def
  by (rule safe_by_when when_change when_rules; assumption?)+ (auto intro: good_unshare)

lemma safe_leaveGrant: "safe (leaveGrant cp caller m now)"
  unfolding leaveGrant_def
  by (rule safe_by_when when_change when_rules; assumption?)+ (simp add: good_leave)

subsection \<open>Enrolling and capabilities\<close>

lemma safe_postEnroll: "safe (postEnroll cp en address body now)"
proof -
  have tunnel: "good db db'" if "db_ok db" "issueTunnelKey (cp_sha cp) secret hex m now db = Some (x, db')" for db x db' secret hex m
  proof -
    from that(2) obtain ts where "db' = db\<lparr>db_tunnelKeys := ts\<rparr>" by (auto simp: issueTunnelKey_def Let_def split: if_splits)
    then show ?thesis using good_fields(2) [OF that(1)] by simp
  qed
  have key: "good db (case v of None \<Rightarrow> db | Some k \<Rightarrow> setMachineKey m k now db)" if "db_ok db" for db v m
    by (auto simp: setMachineKey_def good_refl [OF that] intro!: good_machines [OF that] split: option.split)
  show ?thesis unfolding postEnroll_def
    by (rule safe_by_when when_change when_try when_rules; assumption?)+
      (auto simp: good_refl intro: tunnel key good_machines good_claim)
qed

lemma safe_postToken: "safe (postToken cp en caller body now)"
  unfolding postToken_def Let_def
  by (rule safe_by_when when_try when_rules; assumption?)+ (auto simp: good_refl)

subsection \<open>The administrator and a hosting provider\<close>

lemma safe_adminPostMachine:
  assumes "MACHINE_LABEL_RESERVED (newId ''m'' (en_machine en))"
  shows "safe (adminPostMachine cp en caller body now)"
  unfolding adminPostMachine_def
  by (rule safe_by_when when_create_last [OF readLabel_fits assms] when_rules; assumption?)+

lemma safe_renaming: "safe (case v of None \<Rightarrow> done_with d | Some raw \<Rightarrow>
    and_then (found (f raw) a b) (\<lambda>s. and_then (query (g s)) (\<lambda>x. and_then (check (\<not> x) c e) (\<lambda>_.
    and_then (query (h s)) (\<lambda>y. and_then (check (\<not> y) c e) (\<lambda>_. done_with (k s)))))))"
  by (cases v; simp only: option.case; (rule safe_by_when when_rules)+)

lemma when_safe_then: "safe h \<Longrightarrow> (\<And>x. safe (f x)) \<Longrightarrow> safe_when P (and_then h f)"
  by (intro when_safe safe_then)

lemma safe_adminPatchMachine: "safe (adminPatchMachine cp caller ref body)"
  unfolding adminPatchMachine_def
  by (rule safe_by_when when_change when_safe_then [OF safe_renaming] when_rules; assumption?)+ (auto intro: good_machines)

lemma safe_adminEnroll: "safe (adminEnroll cp en caller m now)"
  unfolding adminEnroll_def
  by (rule safe_by_when when_ensure_key when_mint_last when_rules; assumption?)+ simp

lemma safe_adminClearKey: "safe (adminClearKey caller m)"
  unfolding adminClearKey_def
  by (rule safe_by_when when_change when_rules; assumption?)+ (auto intro: good_machines)

lemma safe_adminRevoke: "safe (adminRevoke caller m now)"
  unfolding adminRevoke_def
  by (rule safe_by_when when_change when_rules; assumption?)+ (auto intro: good_revoke)

lemma good_adopted:
  assumes ok: "db_ok db" and label: "readLabel v = Some label" and live: "is_live db m"
    and owner: "case ownerOf db m of None \<Rightarrow> True | Some w \<Rightarrow> ow_user w = u"
    and clash: "\<not> list_ex (\<lambda>w. ow_user w = u \<and> ow_label w = label \<and> ow_machine w \<noteq> m) (db_owners db)"
  shows "good db (snd (adopt_machine m u label now db))"
proof (rule good_adopt [OF ok _ _ readLabel_fits [OF label] live])
  show "\<forall>w\<in>set (db_owners db). ow_machine w = m \<longrightarrow> ow_user w = u"
    using owner by (auto simp: ownerOf_def find_None_iff split: option.splits dest: only_owner [OF ok, unfolded ownerOf_def])
  show "\<forall>w\<in>set (db_owners db). ow_user w = u \<and> ow_label w = label \<longrightarrow> ow_machine w = m" using clash by (auto simp: list_ex_iff)
qed

lemma safe_adminPutOwner: "safe (adminPutOwner cp caller m body now)"
  unfolding adminPutOwner_def
  by (rule safe_by_when when_change_last when_rules; assumption?)+ (auto intro: good_adopted)

lemma safe_putMachineLimit: "safe (putMachineLimit caller u body)"
  unfolding putMachineLimit_def
  by (rule safe_by_when when_change_last when_rules; assumption?)+ (simp add: writeMachineLimit_def good_fields)

lemma safe_deleteMachineLimit: "safe (deleteMachineLimit caller u)"
  unfolding deleteMachineLimit_def
  by (rule safe_by_when when_change_last when_rules; assumption?)+ (simp add: clearMachineLimit_def good_fields)

lemma safe_provisioned_user: "safe (provisioned_user cp wanted)"
  unfolding provisioned_user_def
  by (rule safe_by_when when_rules; assumption?)+

lemma safe_postProvision:
  assumes "MACHINE_LABEL_RESERVED (newId ''m'' (en_machine en))"
  shows "safe (postProvision cp en address body now)"
proof -
  have limit: "is_live db m \<Longrightarrow> is_live (case v of None \<Rightarrow> db | Some n \<Rightarrow> writeMachineLimit u n db) m"
    "db_ok db \<Longrightarrow> good db (case v of None \<Rightarrow> db | Some n \<Rightarrow> writeMachineLimit u n db)" for db m v u
    by (auto simp: writeMachineLimit_def is_live_def marks_def good_refl good_fields split: option.split)
  have raise: "safe_when (\<lambda>db. is_live db m) (and_then (change (\<lambda>db. ((), case v of None \<Rightarrow> db | Some n \<Rightarrow> writeMachineLimit u n db))) f)"
    if "\<And>x. safe_when (\<lambda>db. is_live db m) (f x)" for m v u and f :: "unit \<Rightarrow> 'x handler"
    by (rule when_change_to [where R = "\<lambda>db. is_live db m"]) (simp_all add: limit that)
  show ?thesis unfolding postProvision_def Let_def
    by (rule safe_by_when when_safe_then [OF safe_provisioned_user] when_plain_key when_create [OF readLabel_fits assms] raise when_mint when_rules; assumption?)+
qed

subsection \<open>Accounts\<close>

lemma good_disable: "db_ok db \<Longrightarrow> good db (snd (disable_user u now db))"
proof -
  assume ok: "db_ok db"
  define db1 where "db1 = snd (revokeAllSessions u None now
    (db\<lparr>db_users := update_where (\<lambda>x. us_id x = u \<and> us_disabledAt x = None) (\<lambda>x. x\<lparr>us_disabledAt := Some now\<rparr>) (db_users db)\<rparr>))"
  define db2 where "db2 = snd (burnUserCodes u User_disabled now db1)"
  define db3 where "db3 = snd (burnGranteeCodes u User_disabled now db2)"
  have g1: "good db db1" by (rule good_frame [OF ok]) (simp_all add: db1_def revokeAllSessions_def revoke_where_def Let_def marks_def)
  have g2: "good db1 db2" unfolding db2_def burnUserCodes_def by (rule good_burn [OF good_ok [OF g1]])
  have g3: "good db2 db3" unfolding db3_def burnGranteeCodes_def by (rule good_burn [OF good_ok [OF g2]])
  have g4: "good db3 (snd (burnEmailTokens u Burn_user_disabled now None db3))"
    by (rule good_frame [OF good_ok [OF g3]]) (simp_all add: burnEmailTokens_def burn_links_def marks_def)
  have eq: "snd (disable_user u now db) = snd (burnEmailTokens u Burn_user_disabled now None db3)"
    by (simp add: disable_user_def db1_def db2_def db3_def case_prod_unfold Let_def)
  show ?thesis unfolding eq by (rule good_trans [OF good_trans [OF good_trans [OF g1 g2] g3] g4])
qed

lemma safe_postDisable: "safe (postDisable caller u now)"
  unfolding postDisable_def
  by (rule safe_by_when when_change_last good_disable when_rules; assumption?)+

lemma safe_postEnable: "safe (postEnable caller u)"
  unfolding postEnable_def
  by (rule safe_by_when when_change when_rules; assumption?)+ (simp add: Let_def good_fields)

lemma safe_adminDeleteUser: "safe (adminDeleteUser caller u now)"
  unfolding adminDeleteUser_def
  by (rule safe_by_when when_change_last good_delete_user when_rules; assumption?)+

subsection \<open>Keys of the instance\<close>

lemma when_attempt_last:
  "(\<And>db x db'. db_ok db \<Longrightarrow> g db = Some (x, db') \<Longrightarrow> good db db') \<Longrightarrow> safe_when P (attempt g)"
  by (intro when_safe safe_attempt)

lemma safe_adminMintKey: "safe (adminMintKey cp en caller now)"
  unfolding adminMintKey_def
  by (rule safe_by_when when_rules when_attempt_last)+ (auto simp: mintSigningKey_def Let_def good_fields split: if_splits)

lemma safe_adminMintProvisioning: "safe (adminMintProvisioning cp en caller now)"
  unfolding adminMintProvisioning_def
  by (rule safe_by_when when_rules when_attempt_last)+ (auto simp: mintProvisioningKey_def Let_def good_fields split: if_splits)

lemma safe_adminRetireKey: "safe (adminRetireKey caller kid now)"
proof -
  have answer: "safe (case x of Key_retired \<Rightarrow> done_with () | Key_not_found \<Rightarrow> throw (Refused 404 ''key_not_found'')
       | Key_last_active \<Rightarrow> throw (Refused 409 ''last_active''))" for x
    by (cases x) (simp_all add: safe_basic)
  show ?thesis unfolding adminRetireKey_def
    by (rule safe_by_when answer when_rules when_change)+ (auto simp: retireSigningKey_def Let_def good_fields good_refl)
qed

subsection \<open>Runs\<close>

datatype request =
    Create_machine caller "json option"
  | Rename_machine caller ustring "json option"
  | New_code caller ustring
  | Revoke_own caller ustring
  | Share caller ustring "json option"
  | Unshare caller ustring "ustring option"
  | Leave caller ustring
  | Enroll ustring "json option"
  | Ask_token caller "json option"
  | Provision ustring "json option"
  | Admin_create caller "json option"
  | Admin_rename caller ustring "json option"
  | Admin_code caller ustring
  | Admin_clear_key caller ustring
  | Admin_revoke caller ustring
  | Admin_owner caller ustring "json option"
  | Admin_limit caller ustring "json option"
  | Admin_no_limit caller ustring
  | Disable caller ustring
  | Enable caller ustring
  | Delete_user caller ustring
  | Mint_key caller
  | Retire_key caller ustring
  | Mint_provisioning caller

text \<open>The state a request leaves; what it answered or refused is not looked at here.\<close>

fun serve :: "'k control_platform \<Rightarrow> entropy \<Rightarrow> int \<Rightarrow> request \<Rightarrow> control_app \<Rightarrow> control_app" where
  "serve cp en now (Create_machine c b) s = snd (postMachine cp en c b now s)"
| "serve cp en now (Rename_machine c m b) s = snd (patchMachine cp c m b now s)"
| "serve cp en now (New_code c m) s = snd (postEnrollment cp en c m now s)"
| "serve cp en now (Revoke_own c m) s = snd (postRevoke cp c m now s)"
| "serve cp en now (Share c m b) s = snd (putGrant cp c m b now s)"
| "serve cp en now (Unshare c m u) s = snd (deleteGrant cp c m u now s)"
| "serve cp en now (Leave c m) s = snd (leaveGrant cp c m now s)"
| "serve cp en now (Enroll a b) s = snd (postEnroll cp en a b now s)"
| "serve cp en now (Ask_token c b) s = snd (postToken cp en c b now s)"
| "serve cp en now (Provision a b) s = snd (postProvision cp en a b now s)"
| "serve cp en now (Admin_create c b) s = snd (adminPostMachine cp en c b now s)"
| "serve cp en now (Admin_rename c m b) s = snd (adminPatchMachine cp c m b s)"
| "serve cp en now (Admin_code c m) s = snd (adminEnroll cp en c m now s)"
| "serve cp en now (Admin_clear_key c m) s = snd (adminClearKey c m s)"
| "serve cp en now (Admin_revoke c m) s = snd (adminRevoke c m now s)"
| "serve cp en now (Admin_owner c m b) s = snd (adminPutOwner cp c m b now s)"
| "serve cp en now (Admin_limit c u b) s = snd (putMachineLimit c u b s)"
| "serve cp en now (Admin_no_limit c u) s = snd (deleteMachineLimit c u s)"
| "serve cp en now (Disable c u) s = snd (postDisable c u now s)"
| "serve cp en now (Enable c u) s = snd (postEnable c u s)"
| "serve cp en now (Delete_user c u) s = snd (adminDeleteUser c u now s)"
| "serve cp en now (Mint_key c) s = snd (adminMintKey cp en c now s)"
| "serve cp en now (Retire_key c kid) s = snd (adminRetireKey c kid now s)"
| "serve cp en now (Mint_provisioning c) s = snd (adminMintProvisioning cp en c now s)"

lemma good_serve:
  assumes "db_ok (ap_db s)" and "MACHINE_LABEL_RESERVED (newId ''m'' (en_machine en))"
  shows "good (ap_db s) (ap_db (serve cp en now r s))"
  by (cases r; simp only: serve.simps; rule safeD [OF _ assms(1)];
    rule safe_postMachine safe_patchMachine safe_postEnrollment safe_postRevoke safe_putGrant safe_deleteGrant safe_leaveGrant safe_postEnroll
      safe_postToken safe_postProvision safe_adminPostMachine safe_adminPatchMachine safe_adminEnroll safe_adminClearKey safe_adminRevoke
      safe_adminPutOwner safe_putMachineLimit safe_deleteMachineLimit safe_postDisable safe_postEnable safe_adminDeleteUser
      safe_adminMintKey safe_adminRetireKey safe_adminMintProvisioning; (rule assms(2))?)

text \<open>
  Requests in any order, from callers who may have gone since; between them, whatever leaves the
  owners, the grants, the codes and the machines' marks alone: sign-ins, mailed links, settings,
  what daemons announce. The pruning of old codes is not among it.
\<close>

definition untouched :: "control_db \<Rightarrow> control_db \<Rightarrow> bool" where
  "untouched db db' \<longleftrightarrow> db_owners db' = db_owners db \<and> db_grants db' = db_grants db \<and> db_codes db' = db_codes db \<and> marks db' = marks db"

inductive runs_to :: "'k control_platform \<Rightarrow> control_app \<Rightarrow> control_app \<Rightarrow> bool" for cp s where
  start: "runs_to cp s s"
| request: "runs_to cp s t \<Longrightarrow> MACHINE_LABEL_RESERVED (newId ''m'' (en_machine en)) \<Longrightarrow> runs_to cp s (serve cp en now r t)"
| elsewhere: "runs_to cp s t \<Longrightarrow> untouched (ap_db t) (ap_db u) \<Longrightarrow> runs_to cp s u"

lemma runs_good: "runs_to cp s t \<Longrightarrow> db_ok (ap_db s) \<Longrightarrow> good (ap_db s) (ap_db t)"
proof (induction rule: runs_to.induct)
  case (elsewhere t u)
  then have "good (ap_db t) (ap_db u)" by (intro good_frame) (auto simp: untouched_def good_def)
  with elsewhere show ?case by (blast intro: good_trans)
qed (blast intro: good_refl good_trans good_serve good_ok)+

end
