(* ===== verification/MachinePromises.thy ===== *)
theory MachinePromises
  imports MachineRuns
begin

text \<open>
  What the runs of requests of MachineRuns promise the people who use a control plane: their
  machines stay theirs, what was revoked stays revoked, a code enrolls once, nobody but an owner
  shares, and a capability is issued to nobody without all its conditions.
\<close>

subsection \<open>What is revoked, what is spent\<close>

lemma revoked_row:
  assumes "db_ok db" and "is_revoked db m"
  shows "\<exists>r. machine_row_of db m = Some r \<and> ma_revokedAt r \<noteq> None"
proof -
  from assms(2) obtain r where r: "r \<in> set (db_machines db)" "ma_id r = m" "ma_revokedAt r \<noteq> None" by (auto simp: is_revoked_def in_marks)
  have "machine_row_of db m = Some r" using find_by_key [OF db_okD(1) [OF assms(1)] r(1)] r(2) by (simp add: machine_row_of_def)
  with r(3) show ?thesis by blast
qed

lemma summary_of_row: "machineById db m = map_option (\<lambda>r. \<lparr>ms_id = ma_id r, ms_name = ma_name r, ms_enrolled = ma_enrolledAt r \<noteq> None, ms_revoked = ma_revokedAt r \<noteq> None\<rparr>) (machine_row_of db m)"
  by (simp add: machineById_def machine_row_of_def)

text \<open>What a capability that was issued says of the tables.\<close>

definition token_conditions :: "'k control_platform \<Rightarrow> caller \<Rightarrow> control_db \<Rightarrow> ustring \<Rightarrow> machine_row \<Rightarrow> grant_row \<Rightarrow> bool" where
  "token_conditions cp caller db m row g \<longleftrightarrow>
     machine_row_of db m = Some row \<and> ma_revokedAt row = None \<and> ma_enrolledAt row \<noteq> None
     \<and> List.find (\<lambda>g. gr_user g = ca_userId caller \<and> gr_machine g = m) (db_grants db) = Some g \<and> parseScopes (gr_scopes g) \<noteq> []
     \<and> (case machineStanding (cp_env cp) db m of None \<Rightarrow> True | Some st \<Rightarrow> \<not> st_over st \<and> \<not> st_ownerDisabled st)"

lemma row_id: "machine_row_of db m = Some row \<Longrightarrow> ma_id row = m"
  by (auto simp: machine_row_of_def dest: find_in)

lemma referred_row: "Option.bind r (machine_row_of db) = Some row \<Longrightarrow> machine_row_of db (ma_id row) = Some row"
  by (cases r) (auto dest: row_id)

lemma postToken_answer:
  assumes "postToken cp en caller body now s = (Inr tok, t)"
  shows "ap_db t = ap_db s \<and> (\<exists>row g k ks. token_conditions cp caller (ap_db s) (it_machineId tok) row g
      \<and> activeSigningKeys (cp_private cp) (cp_json cp) (ap_db s) = Some (k # ks)
      \<and> (let dk = Option.bind (ca_deviceId caller) (deviceKeyFor (ap_db s)) in (ca_deviceId caller = None \<or> dk \<noteq> None)
        \<and> it_scopes tok = parseScopes (gr_scopes g) \<and> it_expiresAt tok = of_int (now div 1000 + cp_ttlSeconds cp) * 1000
        \<and> it_token tok = signToken (cp_digits cp) (cp_sign cp) (token_claims_for cp en caller (it_machineId tok) (it_scopes tok) dk now) (sg_kid k) (sg_private k)))"
    (is "?Q tok t")
proof -
  have "wp (postToken cp en caller body now) (\<lambda>tok t. ?Q tok t) (\<lambda>_. True) s"
    unfolding postToken_def
    by (simp add: Let_def token_conditions_def token_claims_for_def split: option.split list.split) (auto dest: referred_row)
  then show ?thesis by (simp only: wp_def assms prod.case sum.case)
qed

text \<open>What a handler answers is answered by a usable row of the table of codes.\<close>

definition spent_code :: "control_db \<Rightarrow> ustring \<Rightarrow> bool" where
  "spent_code db h \<longleftrightarrow> (\<exists>c\<in>set (db_codes db). ec_hash c = h \<and> ec_usedAt c \<noteq> None)"

definition usable_code :: "control_db \<Rightarrow> ustring \<Rightarrow> bool" where
  "usable_code db h \<longleftrightarrow> (\<exists>c\<in>set (db_codes db). ec_hash c = h \<and> ec_usedAt c = None)"

lemma not_both: "db_ok db \<Longrightarrow> spent_code db h \<Longrightarrow> \<not> usable_code db h"
  using same_key [OF db_okD(5)] unfolding spent_code_def usable_code_def by metis

lemma claimed_one:
  assumes "fst (claim_code sha code who now db) = 1"
  shows "usable_code db (hashCredential sha code)" and "spent_code (snd (claim_code sha code who now db)) (hashCredential sha code)"
proof -
  define fits :: "code_row \<Rightarrow> bool" where "fits = (\<lambda>c. ec_hash c = hashCredential sha code \<and> ec_usedAt c = None \<and> now < ec_expiresAt c)"
  have "count_where fits (db_codes db) \<noteq> 0" using assms by (simp add: claim_code_def Let_def fits_def)
  then obtain c where c: "c \<in> set (db_codes db)" "fits c" by (auto simp: count_where_zero)
  then show "usable_code db (hashCredential sha code)" by (auto simp: usable_code_def fits_def)
  have "c\<lparr>ec_usedAt := Some now, ec_usedFrom := Some who\<rparr> \<in> set (db_codes (snd (claim_code sha code who now db)))"
    using c by (auto simp: claim_code_def Let_def in_update_where fits_def intro!: bexI [of _ c])
  then show "spent_code (snd (claim_code sha code who now db)) (hashCredential sha code)"
    using c(2) unfolding spent_code_def by (intro bexI) (auto simp: fits_def)
qed

lemma claimed_spent: "fst (claim_code sha code who now db) = Suc 0 \<Longrightarrow> usable_code db (hashCredential sha code) \<and>
    spent_code (snd (claim_code sha code who now db)) (hashCredential sha code)"
  using claimed_one [of sha code who now db] by simp

lemma spent_frame [simp]:
  "spent_code (db\<lparr>db_machines := ms\<rparr>) h = spent_code db h" "spent_code (setMachineKey m k now db) h = spent_code db h"
  by (simp_all add: spent_code_def setMachineKey_def)

lemma issued_spent: "issueTunnelKey sha secret hex m now db = Some (k, db') \<Longrightarrow> spent_code db' h = spent_code db h"
  by (auto simp: issueTunnelKey_def Let_def spent_code_def split: if_splits)

lemma postEnroll_claims:
  assumes "fst (postEnroll cp en address body now s) = Inr e"
  shows "\<exists>code. text_field (body_field body ''code'') = Some code \<and> usable_code (ap_db s) (hashCredential (cp_sha cp) code)
    \<and> spent_code (ap_db (snd (postEnroll cp en address body now s))) (hashCredential (cp_sha cp) code)"
proof -
  let ?Q = "\<lambda>t. \<exists>code. text_field (body_field body ''code'') = Some code \<and> usable_code (ap_db s) (hashCredential (cp_sha cp) code)
    \<and> spent_code (ap_db t) (hashCredential (cp_sha cp) code)"
  have "wp (postEnroll cp en address body now) (\<lambda>_. ?Q) (\<lambda>_. True) s"
    unfolding postEnroll_def
    by (simp add: Let_def split: option.split) (auto dest: claimed_spent simp: issued_spent)
  with assms show ?thesis by (cases "postEnroll cp en address body now s") (simp add: wp_def)
qed

text \<open>The scopes of a body, each once in the order they are first named.\<close>

definition first_named :: "ustring list \<Rightarrow> ustring list" where
  "first_named names = rev (remdups (rev names))"

lemma scopes_loop_names:
  "scopes_loop xs out = Some scopes \<Longrightarrow> \<exists>names. xs = map JStr names \<and>
     map scope_name scopes = foldl (\<lambda>acc n. if n \<in> set acc then acc else acc @ [n]) (map scope_name out) names"
proof (induction xs out rule: scopes_loop.induct)
  case (2 s rest out)
  then obtain p where p: "scope_of s = Some p" by (auto split: option.splits)
  then have s: "s = scope_name p" by (simp add: scope_of_name)
  have "p \<in> set out \<longleftrightarrow> s \<in> set (map scope_name out)" unfolding s by (metis (no_types, lifting) imageE image_eqI list.set_map option.inject scope_of_scope_name)
  moreover obtain names where "rest = map JStr names"
    "map scope_name scopes = foldl (\<lambda>acc n. if n \<in> set acc then acc else acc @ [n]) (map scope_name (if p \<in> set out then out else out @ [p])) names"
    using 2 p by auto
  ultimately show ?case using s by (intro exI [of _ "s # names"]) simp
qed auto

lemma first_named_snoc: "first_named (names @ [n]) = (if n \<in> set (first_named names) then first_named names else first_named names @ [n])"
  by (simp add: first_named_def)

lemma foldl_first_named: "foldl (\<lambda>acc n. if n \<in> set acc then acc else acc @ [n]) [] names = first_named names"
proof (induction names rule: rev_induct)
  case (snoc n names)
  then show ?case by (simp add: first_named_snoc)
qed (simp add: first_named_def)

lemma readScopes_names:
  "readScopes v = Some scopes \<Longrightarrow> \<exists>names. v = Some (JArr (map JStr names)) \<and> names \<noteq> [] \<and> map scope_name scopes = first_named names"
proof (cases v rule: readScopes.cases)
  case (2 x xs)
  assume "readScopes v = Some scopes"
  with 2 have "scopes_loop (x # xs) [] = Some scopes" by simp
  from scopes_loop_names [OF this] obtain names where n: "x # xs = map JStr names" "map scope_name scopes = first_named names"
    unfolding list.map(1) foldl_first_named by (elim exE conjE) (rule that)
  from n(1) have "names \<noteq> []" by auto
  with n 2 show ?thesis by metis
qed auto

lemma text_field_some: "text_field v = Some s \<Longrightarrow> v = Some (JStr s)"
  by (cases v rule: text_field.cases) (auto split: if_splits)

lemma putGrant_answer:
  assumes "putGrant cp caller m body now s = (Inr (u, m', scopes), t)"
  shows "m' = m \<and> (\<exists>w. ownerOf (ap_db s) m = Some w \<and> ow_user w = ca_userId caller \<and> u \<noteq> ow_user w)
    \<and> ap_db t = upsert_grant u m (join [32] (map scope_name scopes)) now (ap_db s)
    \<and> text_field (body_field body ''userId'') = Some u \<and> readScopes (body_field body ''scopes'') = Some scopes"
proof -
  have "wp (putGrant cp caller m body now) (\<lambda>(u, m', scopes) t. m' = m \<and> (\<exists>w. ownerOf (ap_db s) m = Some w \<and> ow_user w = ca_userId caller \<and> u \<noteq> ow_user w)
    \<and> ap_db t = upsert_grant u m (join [32] (map scope_name scopes)) now (ap_db s)
    \<and> text_field (body_field body ''userId'') = Some u \<and> readScopes (body_field body ''scopes'') = Some scopes) (\<lambda>_. True) s"
    unfolding putGrant_def by (simp add: Let_def split: option.split) (auto dest: owner_row)
  then show ?thesis by (simp only: wp_def assms prod.case sum.case)
qed

text \<open>Reading a grant after one was given.\<close>

lemma find_updated:
  assumes "\<And>r. p (f r) = p r" and "\<And>r. p r \<Longrightarrow> q r"
  shows "List.find p (update_where q f t) = map_option f (List.find p t)"
  using assms by (induction t) auto

lemma find_beside:
  assumes "\<And>r. q r \<Longrightarrow> \<not> p r \<and> \<not> p (f r)"
  shows "List.find p (update_where q f t) = List.find p t"
  using assms by (induction t) auto

lemma grantFor_upsert: "grantFor (upsert_grant u m s now db) u m = Some (words_of s)"
proof (cases "list_ex (\<lambda>g. gr_user g = u \<and> gr_machine g = m) (db_grants db)")
  case True
  then obtain g where "List.find (\<lambda>g. gr_user g = u \<and> gr_machine g = m) (db_grants db) = Some g"
    by (cases "List.find (\<lambda>g. gr_user g = u \<and> gr_machine g = m) (db_grants db)") (auto simp: find_None_iff list_ex_iff)
  then show ?thesis using True by (simp add: grantFor_def upsert_grant_def find_updated)
next
  case False
  then have "\<forall>g\<in>set (db_grants db). \<not> (gr_user g = u \<and> gr_machine g = m)" by (simp add: list_ex_iff)
  from find_after [OF this] False show ?thesis by (simp add: grantFor_def upsert_grant_def)
qed

lemma grantFor_upsert_other: "(v, n) \<noteq> (u, m) \<Longrightarrow> grantFor (upsert_grant u m s now db) v n = grantFor db v n"
proof (cases "list_ex (\<lambda>g. gr_user g = u \<and> gr_machine g = m) (db_grants db)")
  case True
  assume "(v, n) \<noteq> (u, m)"
  then have "List.find (\<lambda>g. gr_user g = v \<and> gr_machine g = n) (update_where (\<lambda>g. gr_user g = u \<and> gr_machine g = m) (\<lambda>g. g\<lparr>gr_scopes := s\<rparr>) (db_grants db))
      = List.find (\<lambda>g. gr_user g = v \<and> gr_machine g = n) (db_grants db)"
    by (intro find_beside) auto
  then show ?thesis using True by (simp add: grantFor_def upsert_grant_def)
next
  case False
  assume "(v, n) \<noteq> (u, m)"
  moreover have "List.find p (t @ [x]) = (case List.find p t of None \<Rightarrow> if p x then Some x else None | Some y \<Rightarrow> Some y)" for p and t :: "grant_row list" and x
    by (induction t) auto
  ultimately show ?thesis using False by (auto simp: grantFor_def upsert_grant_def split: option.split)
qed

lemma words_of_scopes: "words_of (join [32] (map scope_name scopes)) = map scope_name scopes"
proof (rule words_of_join)
  show "\<forall>w\<in>set (map scope_name scopes). w \<noteq> [] \<and> (\<forall>c\<in>set w. \<not> js_space c)"
  proof
    fix w assume "w \<in> set (map scope_name scopes)"
    then obtain x where "w = scope_name x" by auto
    then show "w \<noteq> [] \<and> (\<forall>c\<in>set w. \<not> js_space c)" by (cases x) (simp_all add: js_space_def asc_def)
  qed
qed

subsection \<open>A small instance\<close>

definition sample_machine :: "ustring \<Rightarrow> int option \<Rightarrow> machine_row" where
  "sample_machine m revoked = \<lparr>ma_id = m, ma_name = m, ma_createdAt = 1, ma_enrolledAt = Some 2, ma_revokedAt = revoked, ma_enrolledBy = None,
     ma_key = None, ma_keySetAt = None, ma_daemonVersion = None, ma_daemonProtocol = None, ma_daemonAgents = None, ma_daemonSeenAt = None\<rparr>"

text \<open>Ada owns one machine under a label; another of hers was revoked.\<close>

definition sample_tables :: control_db where
  "sample_tables = empty_db\<lparr>
     db_users := [\<lparr>us_id = asc ''u_1'', us_name = asc ''ada'', us_isAdmin = False, us_createdAt = 0, us_disabledAt = None, us_passwordChangedAt = None\<rparr>,
       \<lparr>us_id = asc ''u_2'', us_name = asc ''bob'', us_isAdmin = False, us_createdAt = 0, us_disabledAt = None, us_passwordChangedAt = None\<rparr>],
     db_machines := [sample_machine (asc ''m_00000001'') None, sample_machine (asc ''m_00000002'') (Some 3)],
     db_owners := [\<lparr>ow_machine = asc ''m_00000001'', ow_user = asc ''u_1'', ow_label = asc ''desk'', ow_createdAt = 1\<rparr>],
     db_grants := [\<lparr>gr_user = asc ''u_1'', gr_machine = asc ''m_00000001'', gr_scopes = full_scopes, gr_createdAt = 1\<rparr>]\<rparr>"

definition sample_app :: control_app where
  "sample_app = \<lparr>ap_db = sample_tables, ap_logins = new_throttle DEFAULT_THROTTLE, ap_addresses = new_throttle ADDRESS_THROTTLE,
     ap_mails = new_throttle DEFAULT_THROTTLE, ap_resetMails = new_throttle DEFAULT_THROTTLE, ap_writes = new_throttle WRITE_THROTTLE\<rparr>"

definition sample_platform :: "unit control_platform" where
  "sample_platform = \<lparr>cp_lower = (\<lambda>s. s), cp_sha = (\<lambda>s. s), cp_digest = (\<lambda>b. b), cp_private = (\<lambda>_. Some ()), cp_json = (\<lambda>_. Some (JObj [])),
     cp_sign = (\<lambda>_ _. []), cp_digits = (\<lambda>_. [48]), cp_env = Map.empty, cp_issuer = asc ''cp'', cp_ttlSeconds = 900\<rparr>"

definition sample_entropy :: entropy where
  "sample_entropy = \<lparr>en_machine = asc ''0a1b2c3d'', en_codeId = asc ''1'', en_code = asc ''c'', en_tunnelId = asc ''2'', en_tunnel = asc ''t'', en_tokenId = asc ''3'',
     en_pair = \<lparr>kp_pem = [], kp_x = []\<rparr>\<rparr>"

definition ada :: caller where "ada = \<lparr>ca_userId = asc ''u_1'', ca_isAdmin = False, ca_sessionId = None, ca_deviceId = None\<rparr>"

lemma sample_ok: "db_ok (ap_db sample_app)"
  by (simp add: db_ok_def rows_ok_def links_ok_def is_live_def marks_def sample_app_def sample_tables_def sample_machine_def empty_db_def asc_def
      MACHINE_LABEL_RESERVED_def labelIsWellFormed_def MACHINE_LABEL_def alnum_def lower_hex_def owner_grant_def)

lemma sample_id: "MACHINE_LABEL_RESERVED (newId ''m'' (en_machine sample_entropy))"
  by (simp add: MACHINE_LABEL_RESERVED_def newId_def sample_entropy_def asc_def lower_hex_def)

lemma sample_run: "runs_to sample_platform sample_app (serve sample_platform sample_entropy 5 r sample_app)"
  by (rule runs_to.request [OF runs_to.start sample_id])

subsection \<open>Promises\<close>

text \<open>
  C6. The tables stay well formed. From tables in which no key repeats, every label is a label,
  every owner's row names a live machine and has exactly the grant of all scopes, every grant names
  a machine, and every unused code names a live machine and is its only one, every run of the
  requests of the control plane, from any callers and in any order, ends in such tables again,
  though the database has no foreign keys.
\<close>

theorem tables_stay_well_formed:
  assumes "runs_to cp s t" and "db_ok (ap_db s)"
  shows "db_ok (ap_db t)"
  using runs_good [OF assms] by (rule good_ok)

theorem tables_stay_well_formed_witness:
  "db_ok (ap_db (serve sample_platform sample_entropy 5 (Create_machine ada (Some (JObj [(asc ''name'', JStr (asc ''lab''))]))) sample_app))"
  by (rule tables_stay_well_formed [OF sample_run sample_ok])

text \<open>
  C7. A machine is never taken from its owner. Whatever requests are served, in whatever order and
  from whomever, the one who owns a machine owns it afterwards, or it has been revoked: no share,
  no adoption, no rename and no other account's deletion moves it to somebody else.
\<close>

theorem owners_stay_until_revoked:
  assumes "runs_to cp s t" and "db_ok (ap_db s)" and "ownerOf (ap_db s) m = Some w"
  shows "(\<exists>v. ownerOf (ap_db t) m = Some v \<and> ow_user v = ow_user w) \<or> (\<exists>r. machineById (ap_db t) m = Some r \<and> ms_revoked r)"
proof -
  have g: "good (ap_db s) (ap_db t)" by (rule runs_good [OF assms(1,2)])
  have w: "w \<in> set (db_owners (ap_db s))" "ow_machine w = m" using owner_row [OF assms(3)] by auto
  from g have "owners_stay (ap_db s) (ap_db t)" by (simp add: good_def evolves_def)
  from this [unfolded owners_stay_def, THEN bspec, OF w(1)] w(2)
  consider v where "v \<in> set (db_owners (ap_db t))" "ow_machine v = m" "ow_user v = ow_user w" | "is_revoked (ap_db t) m" by auto
  then show ?thesis
  proof cases
    case 1
    with ownerOf_row [OF db_okD(2) [OF good_ok [OF g]], of m v] show ?thesis by auto
  next
    case 2
    from revoked_row [OF good_ok [OF g] this] obtain r where "machine_row_of (ap_db t) m = Some r" "ma_revokedAt r \<noteq> None" by blast
    then show ?thesis by (simp add: summary_of_row)
  qed
qed

theorem owners_stay_until_revoked_witness:
  "let t = serve sample_platform sample_entropy 5 (Revoke_own ada (asc ''m_00000001'')) sample_app in
     (\<exists>v. ownerOf (ap_db t) (asc ''m_00000001'') = Some v \<and> ow_user v = asc ''u_1'')
     \<or> (\<exists>r. machineById (ap_db t) (asc ''m_00000001'') = Some r \<and> ms_revoked r)"
proof -
  have owner: "ownerOf (ap_db sample_app) (asc ''m_00000001'') = Some \<lparr>ow_machine = asc ''m_00000001'', ow_user = asc ''u_1'', ow_label = asc ''desk'', ow_createdAt = 1\<rparr>"
    by (simp add: ownerOf_def sample_app_def sample_tables_def)
  show ?thesis
    using owners_stay_until_revoked [OF sample_run sample_ok owner, of "Revoke_own ada (asc ''m_00000001'')"] by (simp add: Let_def)
qed

text \<open>
  C8. A revoked machine is out for good. Once a machine is marked revoked, no request that follows
  brings it back, and no request for a capability for it is ever answered with one again, whoever
  asks and whatever was granted in between.
\<close>

theorem revoked_machines_get_no_capability:
  assumes "runs_to cp s t" and "db_ok (ap_db s)" and "machineById (ap_db s) m = Some r" and "ms_revoked r"
  shows "(\<exists>r'. machineById (ap_db t) m = Some r' \<and> ms_revoked r')
    \<and> \<not> (\<exists>(cp' :: 'k control_platform) tok en caller body now. fst (postToken cp' en caller body now t) = Inr tok \<and> it_machineId tok = m)"
proof -
  have g: "good (ap_db s) (ap_db t)" by (rule runs_good [OF assms(1,2)])
  from assms(3,4) have "is_revoked (ap_db s) m" by (auto simp: summary_of_row machine_row_of_def is_revoked_def in_marks dest!: find_in)
  with g have "is_revoked (ap_db t) m" by (auto simp: good_def evolves_def marks_stay_def)
  from revoked_row [OF good_ok [OF g] this] obtain row where row: "machine_row_of (ap_db t) m = Some row" "ma_revokedAt row \<noteq> None" by blast
  moreover have "\<not> (\<exists>(cp' :: 'k control_platform) tok en caller body now. fst (postToken cp' en caller body now t) = Inr tok \<and> it_machineId tok = m)"
  proof
    assume "\<exists>(cp' :: 'k control_platform) tok en caller body now. fst (postToken cp' en caller body now t) = Inr tok \<and> it_machineId tok = m"
    then obtain cp' :: "'k control_platform" and tok en caller body now where tok: "fst (postToken cp' en caller body now t) = Inr tok" "it_machineId tok = m" by blast
    then have "postToken cp' en caller body now t = (Inr tok, snd (postToken cp' en caller body now t))" by (metis prod.collapse)
    from postToken_answer [OF this] tok(2) row show False by (auto simp: token_conditions_def)
  qed
  ultimately show ?thesis by (simp add: summary_of_row)
qed

theorem revoked_machines_get_no_capability_witness:
  "let t = serve sample_platform sample_entropy 5 (Share ada (asc ''m_00000002'') (Some (JObj []))) sample_app in
     (\<exists>r'. machineById (ap_db t) (asc ''m_00000002'') = Some r' \<and> ms_revoked r')
     \<and> \<not> (\<exists>(cp' :: unit control_platform) tok en caller body now. fst (postToken cp' en caller body now t) = Inr tok \<and> it_machineId tok = asc ''m_00000002'')"
proof -
  have row: "machineById (ap_db sample_app) (asc ''m_00000002'') = Some \<lparr>ms_id = asc ''m_00000002'', ms_name = asc ''m_00000002'', ms_enrolled = True, ms_revoked = True\<rparr>"
    by (simp add: machineById_def sample_app_def sample_tables_def sample_machine_def asc_def)
  show ?thesis unfolding Let_def by (rule revoked_machines_get_no_capability [OF sample_run sample_ok row]) simp
qed

text \<open>
  C9. A code enrolls one machine, once. Of two requests to enroll that present the same code, with
  any requests between them, at most one is answered with keys.
\<close>

theorem codes_enroll_once:
  assumes "runs_to cp (snd (postEnroll cp en a (Some body) now s)) t" and "db_ok (ap_db s)" and "field_of body' (asc ''code'') = field_of body (asc ''code'')"
  shows "\<not> ((\<exists>e. fst (postEnroll cp en a (Some body) now s) = Inr e) \<and> (\<exists>e. fst (postEnroll cp en' a' (Some body') now' t) = Inr e))"
proof
  assume both: "(\<exists>e. fst (postEnroll cp en a (Some body) now s) = Inr e) \<and> (\<exists>e. fst (postEnroll cp en' a' (Some body') now' t) = Inr e)"
  have same: "body_field (Some body') ''code'' = body_field (Some body) ''code''" using assms(3) by (simp add: body_field_def)
  have ok: "db_ok (ap_db (snd (postEnroll cp en a (Some body) now s)))" by (rule good_ok [OF safeD [OF safe_postEnroll assms(2)]])
  have g: "good (ap_db (snd (postEnroll cp en a (Some body) now s))) (ap_db t)" by (rule runs_good [OF assms(1) ok])
  from both postEnroll_claims obtain code where code: "text_field (body_field (Some body) ''code'') = Some code"
    "spent_code (ap_db (snd (postEnroll cp en a (Some body) now s))) (hashCredential (cp_sha cp) code)" by blast
  with g have "spent_code (ap_db t) (hashCredential (cp_sha cp) code)" unfolding spent_code_def good_def evolves_def spent_stay_def by metis
  moreover from both have "\<exists>e. fst (postEnroll cp en' a' (Some body') now' t) = Inr e" by blast
  then have "usable_code (ap_db t) (hashCredential (cp_sha cp) code)"
    using postEnroll_claims [of cp en' a' "Some body'" now' t] code(1) same by auto
  ultimately show False using not_both [OF good_ok [OF g]] by blast
qed

theorem codes_enroll_once_witness:
  "\<not> ((\<exists>e. fst (postEnroll sample_platform sample_entropy [] (Some (JObj [(asc ''code'', JStr (asc ''c''))])) 5 sample_app) = Inr e)
     \<and> (\<exists>e. fst (postEnroll sample_platform sample_entropy [] (Some (JObj [(asc ''code'', JStr (asc ''c''))])) 6
         (snd (postEnroll sample_platform sample_entropy [] (Some (JObj [(asc ''code'', JStr (asc ''c''))])) 5 sample_app))) = Inr e))"
  by (rule codes_enroll_once [OF runs_to.start sample_ok refl])

text \<open>
  C27. Only its owner shares a machine, and a share is exactly what was asked. When a share is
  answered with success, the caller owns the machine and the account the body names is another one;
  that account's grant of that machine reads back as the scopes the body lists, each once, no other
  grant reads differently, and nobody's ownership, machine or code changed.
\<close>

theorem sharing_is_the_owners_and_exact:
  assumes "putGrant cp caller m body now s = (Inr (u, m', scopes), t)"
  shows "\<exists>names. body_field body ''userId'' = Some (JStr u) \<and> body_field body ''scopes'' = Some (JArr (map JStr names)) \<and> names \<noteq> []
    \<and> map scope_name scopes = first_named names
    \<and> m' = m \<and> (\<exists>w. ownerOf (ap_db s) m = Some w \<and> ow_user w = ca_userId caller \<and> u \<noteq> ow_user w)
    \<and> (\<forall>v n. grantFor (ap_db t) v n = (if (v, n) = (u, m) then Some (first_named names) else grantFor (ap_db s) v n))
    \<and> db_owners (ap_db t) = db_owners (ap_db s) \<and> db_machines (ap_db t) = db_machines (ap_db s) \<and> db_codes (ap_db t) = db_codes (ap_db s)"
proof -
  note answer = putGrant_answer [OF assms]
  have eq: "ap_db t = upsert_grant u m (join [32] (map scope_name scopes)) now (ap_db s)" using answer by simp
  obtain names where names: "body_field body ''scopes'' = Some (JArr (map JStr names))" "names \<noteq> []" "map scope_name scopes = first_named names"
    using readScopes_names [of "body_field body ''scopes''" scopes] answer by auto
  have user: "body_field body ''userId'' = Some (JStr u)" using text_field_some answer by blast
  have "grantFor (ap_db t) v n = (if (v, n) = (u, m) then Some (first_named names) else grantFor (ap_db s) v n)" for v n
    using grantFor_upsert [of u m] grantFor_upsert_other [of v n u m] words_of_scopes [of scopes] by (auto simp: eq names(3))
  moreover have "db_codes (ap_db t) = db_codes (ap_db s)" by (simp add: eq upsert_grant_def Let_def)
  moreover have "db_owners (ap_db t) = db_owners (ap_db s)" "db_machines (ap_db t) = db_machines (ap_db s)" by (simp_all add: eq)
  ultimately show ?thesis using answer names user by (intro exI [of _ names]) simp
qed

lemma fresh_allows: "td_allowed (fst (throttle_check lower key now (new_throttle options)))"
  by (simp add: throttle_check_def maybePrune_def new_throttle_def dropSettled_def PRUNE_EVERY_def decide_def ALLOWED_def Let_def)

lemma sample_reads:
  "body_field (Some (JObj [(asc ''userId'', JStr (asc ''u_2'')), (asc ''scopes'', JArr [JStr (asc ''session:read'')])])) ''userId'' = Some (JStr (asc ''u_2''))"
  "body_field (Some (JObj [(asc ''userId'', JStr (asc ''u_2'')), (asc ''scopes'', JArr [JStr (asc ''session:read'')])])) ''scopes'' = Some (JArr [JStr (asc ''session:read'')])"
  "asc ''u_2'' \<noteq> []" "scope_of (asc ''session:read'') = Some Session_read"
  "ownerOf sample_tables (asc ''m_00000001'') = Some \<lparr>ow_machine = asc ''m_00000001'', ow_user = asc ''u_1'', ow_label = asc ''desk'', ow_createdAt = 1\<rparr>"
  "user_row_of sample_tables (asc ''u_2'') = Some \<lparr>us_id = asc ''u_2'', us_name = asc ''bob'', us_isAdmin = False, us_createdAt = 0, us_disabledAt = None, us_passwordChangedAt = None\<rparr>"
  "ca_userId ada = asc ''u_1''" "(asc ''u_2'' = asc ''u_1'') = False" "ap_db sample_app = sample_tables" "ap_writes sample_app = new_throttle WRITE_THROTTLE"
  by (simp_all add: body_field_def asc_def scope_of_def ALL_SCOPES_def ownerOf_def sample_tables_def user_row_of_def ada_def sample_app_def)

lemma wp_answer: "wp h (\<lambda>x _. x = v) (\<lambda>_. False) s \<Longrightarrow> h s = (Inr v, snd (h s))"
  by (auto simp: wp_def split: prod.splits sum.splits)

theorem sharing_is_the_owners_and_exact_witness:
  "grantFor (ap_db (snd (putGrant sample_platform ada (asc ''m_00000001'')
      (Some (JObj [(asc ''userId'', JStr (asc ''u_2'')), (asc ''scopes'', JArr [JStr (asc ''session:read'')])])) 5 sample_app)))
      (asc ''u_2'') (asc ''m_00000001'') = Some [asc ''session:read'']"
proof -
  let ?h = "putGrant sample_platform ada (asc ''m_00000001'')
      (Some (JObj [(asc ''userId'', JStr (asc ''u_2'')), (asc ''scopes'', JArr [JStr (asc ''session:read'')])])) 5 sample_app"
  have "wp (putGrant sample_platform ada (asc ''m_00000001'')
      (Some (JObj [(asc ''userId'', JStr (asc ''u_2'')), (asc ''scopes'', JArr [JStr (asc ''session:read'')])])) 5)
      (\<lambda>x _. x = (asc ''u_2'', asc ''m_00000001'', [Session_read])) (\<lambda>_. False) sample_app"
    unfolding putGrant_def
    by (simp add: Let_def fresh_allows sample_reads)
  from wp_answer [OF this] have "?h = (Inr (asc ''u_2'', asc ''m_00000001'', [Session_read]), snd ?h)" .
  from sharing_is_the_owners_and_exact [OF this] obtain names where
    "body_field (Some (JObj [(asc ''userId'', JStr (asc ''u_2'')), (asc ''scopes'', JArr [JStr (asc ''session:read'')])])) ''scopes'' = Some (JArr (map JStr names))"
    "grantFor (ap_db (snd ?h)) (asc ''u_2'') (asc ''m_00000001'') = Some (first_named names)" by auto
  moreover from this(1) have "names = [asc ''session:read'']" unfolding sample_reads by (cases names) auto
  ultimately show ?thesis by (simp add: first_named_def)
qed

end
