(* ===== verification/RelayAccess.thy ===== *)
theory RelayAccess
  imports MachinePromises
begin

text \<open>
  The relay's gate (\<open>src/packages/control-plane/src/relay/authorize.ts\<close>): whether a capability is
  let through to the machine it names, judged by the tables as they are now, and the public keys it
  keeps for a second. The clock is an argument twice, as in the code: \<open>wall\<close> ages the keys,
  \<open>now\<close> judges the claims. \<open>JSON.parse\<close>, the key constructor and the signature primitive are arguments.
\<close>

subsection \<open>The gate\<close>

definition KEY_REFRESH_MS :: int where "KEY_REFRESH_MS = 1000"

record 'k relay_keys =
  rk_cache :: "ustring \<rightharpoonup> 'k"
  rk_refreshedAt :: int

definition new_relay_keys :: "'k relay_keys" where
  "new_relay_keys = \<lparr>rk_cache = Map.empty, rk_refreshedAt = 0\<rparr>"

definition published_keys :: "(ustring \<Rightarrow> json option) \<Rightarrow> (ustring \<Rightarrow> 'k option) \<Rightarrow> control_db \<Rightarrow> ustring \<rightharpoonup> 'k" where
  "published_keys json createPublicKey db =
     foldl (\<lambda>m r. case Option.bind (json (sk_publicJwk r)) (jwkToPublicKey createPublicKey) of None \<Rightarrow> m | Some k \<Rightarrow> m(sk_kid r \<mapsto> k))
       Map.empty (filter (\<lambda>r. sk_retiredAt r = None) (db_signingKeys db))"

definition keyFor ::
  "(ustring \<Rightarrow> json option) \<Rightarrow> (ustring \<Rightarrow> 'k option) \<Rightarrow> control_db \<Rightarrow> int \<Rightarrow> ustring \<Rightarrow> 'k relay_keys \<Rightarrow> 'k option \<times> 'k relay_keys" where
  "keyFor json createPublicKey db wall kid ks =
     (let ks = (if KEY_REFRESH_MS \<le> wall - rk_refreshedAt ks
          then \<lparr>rk_cache = published_keys json createPublicKey db, rk_refreshedAt = wall\<rparr> else ks)
      in (rk_cache ks kid, ks))"

record relay_pass =
  rp_subject :: ustring
  rp_machineId :: ustring
  rp_scopes :: "ustring list"
  rp_expiresAt :: rat
  rp_tokenId :: ustring

datatype relay_refusal = Relay_refused nat string

text \<open>What is asked of the tables once the claims are known to be genuine and in time.\<close>

definition admit :: "settings \<Rightarrow> control_db \<Rightarrow> token_claims \<Rightarrow> (relay_refusal, relay_pass) result" where
  "admit env db claims =
     (case machineById db (cl_aud claims) of
        None \<Rightarrow> Inl (Relay_refused 404 ''machine_not_found'')
      | Some machine \<Rightarrow>
          if ms_revoked machine then Inl (Relay_refused 404 ''machine_not_found'')
          else if activeUser db (cl_sub claims) = None then Inl (Relay_refused 403 ''user_disabled'')
          else (case grantFor db (cl_sub claims) (cl_aud claims) of
              None \<Rightarrow> Inl (Relay_refused 404 ''machine_not_found'')
            | Some scopes \<Rightarrow>
                if scopes = [] then Inl (Relay_refused 403 ''no_scopes'')
                else (let pass = \<lparr>rp_subject = cl_sub claims, rp_machineId = cl_aud claims, rp_scopes = scopes,
                          rp_expiresAt = cl_exp claims * 1000, rp_tokenId = cl_jti claims\<rparr>
                  in case machineStanding env db (cl_aud claims) of
                       None \<Rightarrow> Inr pass
                     | Some st \<Rightarrow>
                         if st_ownerDisabled st then Inl (Relay_refused 403 ''owner_disabled'')
                         else if st_over st then Inl (Relay_refused 403 ''machine_over_limit'')
                         else Inr pass)))"

definition authorize ::
  "(bytes \<Rightarrow> json option) \<Rightarrow> ('k \<Rightarrow> bytes \<Rightarrow> bytes \<Rightarrow> bool option) \<Rightarrow> (ustring \<Rightarrow> json option) \<Rightarrow> (ustring \<Rightarrow> 'k option) \<Rightarrow> settings \<Rightarrow> ustring
    \<Rightarrow> control_db \<Rightarrow> int \<Rightarrow> rat \<Rightarrow> ustring option \<Rightarrow> 'k relay_keys \<Rightarrow> (relay_refusal, relay_pass) result \<times> 'k relay_keys" where
  "authorize parse ed25519 json createPublicKey env issuer db wall now token ks =
     (case token of
        None \<Rightarrow> (Inl (Relay_refused 401 ''missing_token''), ks)
      | Some t \<Rightarrow>
          if t = [] then (Inl (Relay_refused 401 ''missing_token''), ks)
          else (case decodeToken parse t of
              Inl Malformed_token \<Rightarrow> (Inl (Relay_refused 401 ''malformed_token''), ks)
            | Inl Bad_header \<Rightarrow> (Inl (Relay_refused 401 ''bad_header''), ks)
            | Inl Bad_alg \<Rightarrow> (Inl (Relay_refused 401 ''bad_alg''), ks)
            | Inr decoded \<Rightarrow>
                (let (found, ks) = keyFor json createPublicKey db wall (th_kid (dt_header decoded)) ks in
                 (case found of
                    None \<Rightarrow> Inl (Relay_refused 401 ''unknown_key'')
                  | Some key \<Rightarrow>
                      if \<not> verifySignature ed25519 decoded key then Inl (Relay_refused 401 ''bad_signature'')
                      else (case parseClaims parse (dt_payload decoded) of
                          None \<Rightarrow> Inl (Relay_refused 401 ''malformed_token'')
                        | Some claims \<Rightarrow>
                            if cl_iss claims \<noteq> issuer then Inl (Relay_refused 401 ''wrong_issuer'')
                            else if now < cl_nbf claims * 1000 - AUTH_LEEWAY_MS then Inl (Relay_refused 401 ''token_not_yet_valid'')
                            else if cl_exp claims * 1000 + AUTH_LEEWAY_MS < now then Inl (Relay_refused 401 ''token_expired'')
                            else admit env db claims),
                  ks))))"

subsection \<open>Lemmas\<close>

lemma admit_iff:
  "admit env db claims = Inr p \<longleftrightarrow>
     (\<exists>machine scopes. machineById db (cl_aud claims) = Some machine \<and> \<not> ms_revoked machine \<and> activeUser db (cl_sub claims) \<noteq> None
       \<and> grantFor db (cl_sub claims) (cl_aud claims) = Some scopes \<and> scopes \<noteq> []
       \<and> (case machineStanding env db (cl_aud claims) of None \<Rightarrow> True | Some st \<Rightarrow> \<not> st_ownerDisabled st \<and> \<not> st_over st)
       \<and> p = \<lparr>rp_subject = cl_sub claims, rp_machineId = cl_aud claims, rp_scopes = scopes,
            rp_expiresAt = cl_exp claims * 1000, rp_tokenId = cl_jti claims\<rparr>)"
  by (auto simp: admit_def Let_def split: option.splits if_splits)

lemma authorize_genuine:
  assumes "decodeToken parse t = Inr d" and "fst (keyFor json create db wall (th_kid (dt_header d)) ks) = Some key"
    and "verifySignature ed25519 d key" and "parseClaims parse (dt_payload d) = Some claims" and "cl_iss claims = issuer"
    and "cl_nbf claims * 1000 - AUTH_LEEWAY_MS \<le> now" and "now \<le> cl_exp claims * 1000 + AUTH_LEEWAY_MS"
  shows "fst (authorize parse ed25519 json create env issuer db wall now (Some t) ks) = admit env db claims"
  using assms decoded_nonempty [OF assms(1)] by (simp add: authorize_def case_prod_unfold Let_def)

text \<open>The keys published are those of the active rows.\<close>

lemma published_step:
  "foldl (\<lambda>m r. case f r of None \<Rightarrow> m | Some k \<Rightarrow> m(kid r \<mapsto> k)) m0 rows i =
     (if i \<in> kid ` set (filter (\<lambda>r. f r \<noteq> None) rows) then foldl (\<lambda>m r. case f r of None \<Rightarrow> m | Some k \<Rightarrow> m(kid r \<mapsto> k)) Map.empty rows i else m0 i)"
proof (induction rows arbitrary: m0 rule: rev_induct)
  case (snoc r rows)
  show ?case using snoc.IH [of m0] by (cases "f r") auto
qed simp

lemma published_unknown: "\<forall>r\<in>set (db_signingKeys db). sk_retiredAt r = None \<longrightarrow> sk_kid r \<noteq> kid \<Longrightarrow> published_keys json create db kid = None"
  unfolding published_keys_def by (subst published_step) auto

lemma published_kept:
  assumes "distinct (map kid rows)" and "r \<in> set rows" and "f r = Some k"
  shows "foldl (\<lambda>m r. case f r of None \<Rightarrow> m | Some k \<Rightarrow> m(kid r \<mapsto> k)) Map.empty rows (kid r) = Some k"
  using assms(1,2)
proof (induction rows rule: rev_induct)
  case (snoc q rows)
  show ?case
  proof (cases "r = q")
    case False
    then have "r \<in> set rows" using snoc.prems by simp
    moreover from this have "kid r \<in> kid ` set rows" by simp
    then have "kid r \<noteq> kid q" using snoc.prems(1) by auto
    ultimately show ?thesis using snoc by (cases "f q") auto
  next
    case True
    then show ?thesis using assms(3) by simp
  qed
qed simp

lemma published_row:
  assumes "distinct (map sk_kid (db_signingKeys db))" and "r \<in> set (db_signingKeys db)" and "sk_retiredAt r = None"
    and "Option.bind (json (sk_publicJwk r)) (jwkToPublicKey create) = Some k"
  shows "published_keys json create db (sk_kid r) = Some k"
  unfolding published_keys_def by (rule published_kept) (use assms in \<open>simp_all add: distinct_map_filter\<close>)

text \<open>A run of lookups, each at its own time and against the tables of that time.\<close>

fun lookups ::
  "(ustring \<Rightarrow> json option) \<Rightarrow> (ustring \<Rightarrow> 'k option) \<Rightarrow> (int \<times> control_db \<times> ustring) list \<Rightarrow> 'k relay_keys \<Rightarrow> 'k option list" where
  "lookups json create [] ks = []"
| "lookups json create ((wall, db, kid) # rest) ks =
     (let (found, ks) = keyFor json create db wall kid ks in found # lookups json create rest ks)"

lemma lookups_retired:
  assumes "sorted (map fst (asks :: (int \<times> control_db \<times> ustring) list))" and "\<forall>(wall, db, k)\<in>set asks. rk_refreshedAt ks \<le> wall"
    and "retired \<le> rk_refreshedAt ks \<longrightarrow> rk_cache ks kid = None"
    and "\<forall>(wall, db, k)\<in>set asks. retired \<le> wall \<longrightarrow> (\<forall>r\<in>set (db_signingKeys db). sk_retiredAt r = None \<longrightarrow> sk_kid r \<noteq> kid)"
    and "i < length asks" and "asks ! i = (wall, db, kid)" and "retired + KEY_REFRESH_MS \<le> wall"
  shows "lookups json create asks ks ! i = None"
  using assms
proof (induction asks arbitrary: ks i)
  case (Cons ask asks)
  obtain w d k where ask: "ask = (w, d, k)" by (cases ask)
  define ks' where "ks' = snd (keyFor json create d w k ks)"
  have cases: "ks' = (if KEY_REFRESH_MS \<le> w - rk_refreshedAt ks then \<lparr>rk_cache = published_keys json create d, rk_refreshedAt = w\<rparr> else ks)"
    by (simp add: ks'_def keyFor_def Let_def)
  have gone: "published_keys json create d kid = None" if "retired \<le> w"
    by (rule published_unknown) (use that Cons.prems(4) ask in auto)
  show ?case
  proof (cases i)
    case 0
    with Cons.prems(6) ask have now: "w = wall" "d = db" "k = kid" by auto
    have "rk_cache ks' kid = None"
    proof (cases "KEY_REFRESH_MS \<le> w - rk_refreshedAt ks")
      case True
      then show ?thesis using cases gone now Cons.prems(7) by (simp add: KEY_REFRESH_MS_def)
    next
      case False
      then have "retired \<le> rk_refreshedAt ks" using now Cons.prems(7) by simp
      then show ?thesis using False cases Cons.prems(3) by simp
    qed
    then show ?thesis using 0 now ask by (simp add: ks'_def keyFor_def Let_def)
  next
    case (Suc j)
    have "lookups json create asks ks' ! j = None"
    proof (rule Cons.IH)
      show "sorted (map fst asks)" using Cons.prems(1) by simp
      have "w \<le> fst x" if "x \<in> set asks" for x using Cons.prems(1) that ask by auto
      then show "\<forall>(wall, db, k)\<in>set asks. rk_refreshedAt ks' \<le> wall" using cases Cons.prems(2) by (auto split: if_splits)
      show "retired \<le> rk_refreshedAt ks' \<longrightarrow> rk_cache ks' kid = None" using cases gone Cons.prems(3) by auto
    qed (use Cons.prems Suc in auto)
    then show ?thesis using Suc ask by (simp add: ks'_def case_prod_unfold Let_def)
  qed
qed simp

subsection \<open>Properties\<close>

text \<open>
  C10. The relay admits exactly those who may. It lets a capability through when, and only when, its
  signature verifies under a published key, it was issued by this control plane, the clock is within
  a minute of its window, the machine it names is not revoked, its holder is a user who is not
  disabled and holds a grant with a scope, and the owner, if there is one, is not disabled and not
  over the limit with this machine; and it says no more than the claims and the grant do.
\<close>

theorem relay_admits_exactly:
  "fst (authorize parse ed25519 json create env issuer db wall now token ks) = Inr p \<longleftrightarrow>
    (\<exists>t d key claims machine scopes. token = Some t \<and> decodeToken parse t = Inr d
      \<and> fst (keyFor json create db wall (th_kid (dt_header d)) ks) = Some key \<and> verifySignature ed25519 d key
      \<and> parseClaims parse (dt_payload d) = Some claims \<and> cl_iss claims = issuer
      \<and> cl_nbf claims * 1000 - AUTH_LEEWAY_MS \<le> now \<and> now \<le> cl_exp claims * 1000 + AUTH_LEEWAY_MS
      \<and> machineById db (cl_aud claims) = Some machine \<and> \<not> ms_revoked machine \<and> activeUser db (cl_sub claims) \<noteq> None
      \<and> grantFor db (cl_sub claims) (cl_aud claims) = Some scopes \<and> scopes \<noteq> []
      \<and> (case machineStanding env db (cl_aud claims) of None \<Rightarrow> True | Some st \<Rightarrow> \<not> st_ownerDisabled st \<and> \<not> st_over st)
      \<and> p = \<lparr>rp_subject = cl_sub claims, rp_machineId = cl_aud claims, rp_scopes = scopes,
           rp_expiresAt = cl_exp claims * 1000, rp_tokenId = cl_jti claims\<rparr>)" (is "?l \<longleftrightarrow> ?r")
proof
  assume ?r
  then obtain t d key claims where run: "token = Some t" "decodeToken parse t = Inr d"
    "fst (keyFor json create db wall (th_kid (dt_header d)) ks) = Some key" "verifySignature ed25519 d key"
    "parseClaims parse (dt_payload d) = Some claims" "cl_iss claims = issuer"
    "cl_nbf claims * 1000 - AUTH_LEEWAY_MS \<le> now" "now \<le> cl_exp claims * 1000 + AUTH_LEEWAY_MS" "admit env db claims = Inr p"
    unfolding admit_iff by blast
  from authorize_genuine [OF run(2-8), of env] run(1,9) show ?l by simp
next
  assume l: ?l
  then obtain t where t: "token = Some t" "t \<noteq> []" by (auto simp: authorize_def split: option.splits if_splits)
  show ?r
  proof (cases "decodeToken parse t")
    case (Inl e)
    with l t show ?thesis by (cases e) (simp_all add: authorize_def)
  next
    case (Inr d)
    with l t obtain key claims where "fst (keyFor json create db wall (th_kid (dt_header d)) ks) = Some key" "verifySignature ed25519 d key"
      "parseClaims parse (dt_payload d) = Some claims" "cl_iss claims = issuer"
      "\<not> now < cl_nbf claims * 1000 - AUTH_LEEWAY_MS" "\<not> cl_exp claims * 1000 + AUTH_LEEWAY_MS < now" "admit env db claims = Inr p"
      by (auto simp: authorize_def case_prod_unfold Let_def split: option.splits if_splits)
    with t Inr show ?thesis unfolding admit_iff by (auto simp: not_less)
  qed
qed

text \<open>
  C12. A retired key stops working within a second, as long as the wall clock does not go back.
  Through any run of lookups at moments that never go back, from keys read before the first of them
  and before the key was retired, a key that is in no active row from some moment on is found by no
  lookup a second or more after that moment, whatever was cached before. (After a step back of the
  clock the cache is not read anew until the clock has caught up.)
\<close>

theorem retired_keys_stop_within_a_second:
  assumes "sorted (map fst (asks :: (int \<times> control_db \<times> ustring) list))" and "\<forall>wall\<in>set (map fst asks). rk_refreshedAt ks \<le> wall"
    and "rk_refreshedAt ks < retired"
    and "\<forall>(wall, db, k)\<in>set asks. retired \<le> wall \<longrightarrow> (\<forall>r\<in>set (db_signingKeys db). sk_retiredAt r = None \<longrightarrow> sk_kid r \<noteq> kid)"
    and "i < length asks" and "asks ! i = (wall, db, kid)" and "retired + KEY_REFRESH_MS \<le> wall"
  shows "lookups json create asks ks ! i = None"
  by (rule lookups_retired [OF assms(1) _ _ assms(4-7)]) (use assms(2,3) in auto)

theorem retired_keys_stop_within_a_second_witness:
  "lookups (\<lambda>_. None) (\<lambda>_. Some ()) [(5500, empty_db, [1]), (6400, empty_db, [1])] \<lparr>rk_cache = [[1] \<mapsto> ()], rk_refreshedAt = 5000\<rparr> ! 1 = None"
  by (rule retired_keys_stop_within_a_second [where retired = 5400 and kid = "[1]" and wall = 6400 and db = empty_db])
    (auto simp: empty_db_def KEY_REFRESH_MS_def)

text \<open>
  C11. A machine one has no grant for looks like no machine to whoever is not disabled. Between two
  sets of tables with the same users, grants and keys, but any machines, owners and limits at all, an
  account that is there and not disabled and has no grant for the machine a capability names is
  answered the same, so the relay's answers do not tell it which machines exist, who owns them or
  whether they are over a limit. (An account that is disabled is told whether the machine exists, as
  the machine is looked up before the account.)
\<close>

theorem ungranted_machines_look_like_none:
  assumes "claimed parse t = Some claims" and "activeUser db (cl_sub claims) \<noteq> None" and "grantFor db (cl_sub claims) (cl_aud claims) = None"
    and "db_users db' = db_users db" and "db_grants db' = db_grants db" and "db_signingKeys db' = db_signingKeys db"
  shows "authorize parse ed25519 json create env issuer db' wall now (Some t) ks = authorize parse ed25519 json create env issuer db wall now (Some t) ks"
proof -
  obtain d where d: "decodeToken parse t = Inr d" "parseClaims parse (dt_payload d) = Some claims"
    using assms(1) by (auto simp: claimed_def split: sum.splits)
  have keys: "keyFor json create db' wall kid ks = keyFor json create db wall kid ks" for kid
    by (simp add: keyFor_def published_keys_def assms(6))
  have "activeUser db' (cl_sub claims) \<noteq> None" "grantFor db' (cl_sub claims) (cl_aud claims) = None"
    using assms(2-5) by (simp_all add: activeUser_def grantFor_def)
  then have "admit env db' claims = admit env db claims"
    using assms(2,3) by (auto simp: admit_def split: option.split)
  with d keys show ?thesis
    by (cases "fst (keyFor json create db wall (th_kid (dt_header d)) ks)") (simp_all add: authorize_def case_prod_unfold Let_def)
qed

theorem ungranted_machines_look_like_none_witness:
  "authorize sample_texts sample_check (\<lambda>_. None) (\<lambda>_. Some ()) Map.empty (asc ''cp'')
      (empty_db\<lparr>db_users := [\<lparr>us_id = asc ''u1'', us_name = asc ''ada'', us_isAdmin = False, us_createdAt = 0, us_disabledAt = None, us_passwordChangedAt = None\<rparr>],
        db_machines := [sample_machine (asc ''m1'') None]\<rparr>) 100000 100000 (Some sample_capability) \<lparr>rk_cache = [asc ''k1'' \<mapsto> ()], rk_refreshedAt = 99999\<rparr>
   = authorize sample_texts sample_check (\<lambda>_. None) (\<lambda>_. Some ()) Map.empty (asc ''cp'')
      (empty_db\<lparr>db_users := [\<lparr>us_id = asc ''u1'', us_name = asc ''ada'', us_isAdmin = False, us_createdAt = 0, us_disabledAt = None, us_passwordChangedAt = None\<rparr>]\<rparr>)
      100000 100000 (Some sample_capability) \<lparr>rk_cache = [asc ''k1'' \<mapsto> ()], rk_refreshedAt = 99999\<rparr>"
  by (rule ungranted_machines_look_like_none [OF sample_claimed])
    (simp_all add: activeUser_def grantFor_def empty_db_def sample_claims_def asc_def)

text \<open>The signing key of an answer is an active row's.\<close>

lemma signing_row:
  assumes "activeSigningKeys private json db = Some (k # ks)"
  shows "\<exists>r\<in>set (db_signingKeys db). sk_retiredAt r = None \<and> sg_kid k = sk_kid r \<and> private (sk_privatePem r) = Some (sg_private k)"
proof -
  obtain r rest where rows: "active_rows db = r # rest" using assms by (cases "active_rows db") (auto simp: activeSigningKeys_def)
  then have "parse_signing_key private json r = Some k"
    using assms by (auto simp: activeSigningKeys_def split: option.splits)
  then have "sg_kid k = sk_kid r \<and> private (sk_privatePem r) = Some (sg_private k)"
    by (auto simp: parse_signing_key_def split: option.splits)
  moreover have "r \<in> set (active_rows db)" by (simp add: rows)
  ultimately show ?thesis by (auto simp: active_rows_def)
qed

lemma enough_time:
  assumes "of_int now \<le> (later :: rat)" and "later \<le> of_int now + of_int ttl * 1000"
  shows "of_int (now div 1000) * 1000 - AUTH_LEEWAY_MS \<le> later" and "later \<le> of_int (now div 1000 + ttl) * 1000 + AUTH_LEEWAY_MS"
proof -
  have "now div 1000 * 1000 \<le> now" "now \<le> now div 1000 * 1000 + 999" by presburger+
  then have "of_int (now div 1000 * 1000) \<le> (of_int now :: rat)" "(of_int now :: rat) \<le> of_int (now div 1000 * 1000 + 999)"
    by (simp_all only: of_int_le_iff)
  with assms show "of_int (now div 1000) * 1000 - AUTH_LEEWAY_MS \<le> later" "later \<le> of_int (now div 1000 + ttl) * 1000 + AUTH_LEEWAY_MS"
    by (simp_all add: AUTH_LEEWAY_MS_def algebra_simps)
qed

lemma granted_scopes:
  assumes "List.find (\<lambda>g. gr_user g = u \<and> gr_machine g = m) (db_grants db) = Some g" and "parseScopes (gr_scopes g) \<noteq> []"
  shows "grantFor db u m = Some (words_of (gr_scopes g))" and "words_of (gr_scopes g) \<noteq> []"
proof -
  show "grantFor db u m = Some (words_of (gr_scopes g))" using assms(1) by (simp add: grantFor_def)
  show "words_of (gr_scopes g) \<noteq> []" using assms(2) by (auto simp: parseScopes_def List.map_filter_def)
qed

text \<open>
  C2. What the control plane issues, the relay lets through. A capability answered to an account that
  is not disabled is admitted by the relay, against the same tables and with keys it reads afresh,
  for the whole of its lifetime, as that account's, for that machine, with exactly the scopes the
  answer named and until the moment it named: the conditions of the two are one.
\<close>

theorem issued_capabilities_pass_the_relay:
  assumes answer: "postToken cp en caller body now s = (Inr tok, t)" and active: "activeUser (ap_db s) (ca_userId caller) \<noteq> None"
    and named: "cp_issuer cp \<noteq> []" "ca_userId caller \<noteq> []" "it_machineId tok \<noteq> []" "ca_deviceId caller \<noteq> Some []" "\<forall>b. cp_digest cp b \<noteq> []"
    and keys: "distinct (map sk_kid (db_signingKeys (ap_db s)))"
      "\<forall>r\<in>set (db_signingKeys (ap_db s)). sk_kid r \<noteq> [] \<and> parse (utf8_encode (stringify (header_json (sk_kid r)))) = Some (header_json (sk_kid r))
        \<and> (\<forall>sk. cp_private cp (sk_privatePem r) = Some sk \<longrightarrow> (\<exists>pk. Option.bind (cp_json cp (sk_publicJwk r)) (jwkToPublicKey create) = Some pk
              \<and> (\<forall>m. cp_sign cp sk m \<noteq> [] \<and> ed25519 pk m (cp_sign cp sk m) = Some True)))"
    and parses: "claims = token_claims_for cp en caller (it_machineId tok) (it_scopes tok) (Option.bind (ca_deviceId caller) (deviceKeyFor (ap_db s))) now"
      "parse (utf8_encode (stringify (claims_json (cp_digits cp) claims))) = Some (claims_json (cp_digits cp) claims)"
    and time: "of_int now \<le> later" "later \<le> of_int now + of_int (cp_ttlSeconds cp) * 1000"
    and fresh: "KEY_REFRESH_MS \<le> wall - rk_refreshedAt ks"
  shows "\<exists>p. fst (authorize parse ed25519 (cp_json cp) create (cp_env cp) (cp_issuer cp) (ap_db s) wall later (Some (it_token tok)) ks) = Inr p
    \<and> rp_subject p = ca_userId caller \<and> rp_machineId p = it_machineId tok
    \<and> List.map_filter scope_of (rp_scopes p) = it_scopes tok \<and> rp_expiresAt p = it_expiresAt tok"
proof -
  from postToken_answer [OF answer] obtain row g k rest where cond: "token_conditions cp caller (ap_db s) (it_machineId tok) row g"
    and signing: "activeSigningKeys (cp_private cp) (cp_json cp) (ap_db s) = Some (k # rest)"
    and tok: "it_scopes tok = parseScopes (gr_scopes g)" "it_expiresAt tok = of_int (now div 1000 + cp_ttlSeconds cp) * 1000"
      "it_token tok = signToken (cp_digits cp) (cp_sign cp) claims (sg_kid k) (sg_private k)"
    by (auto simp: Let_def parses(1))
  from signing_row [OF signing] obtain r where r: "r \<in> set (db_signingKeys (ap_db s))" "sk_retiredAt r = None" "sg_kid k = sk_kid r"
    "cp_private cp (sk_privatePem r) = Some (sg_private k)" by blast
  with keys(2) obtain pk where pk: "Option.bind (cp_json cp (sk_publicJwk r)) (jwkToPublicKey create) = Some pk"
    "\<And>m. cp_sign cp (sg_private k) m \<noteq> []" "\<And>m. ed25519 pk m (cp_sign cp (sg_private k) m) = Some True" by blast
  have kid: "sg_kid k \<noteq> []" "parse (utf8_encode (stringify (header_json (sg_kid k)))) = Some (header_json (sg_kid k))" using keys(2) r by auto
  have cl: "cl_iss claims = cp_issuer cp" "cl_sub claims = ca_userId caller" "cl_aud claims = it_machineId tok" "cl_nbf claims = of_int (now div 1000)"
    "cl_exp claims = of_int (now div 1000 + cp_ttlSeconds cp)"
    by (simp_all add: parses(1) token_claims_for_def)
  have "claims_ok claims" using named by (auto simp: claims_ok_def parses(1) token_claims_for_def newId_def jwkThumbprint_def)
  from signToken_decode [where secret = "sg_private k" and sign = "cp_sign cp", OF this kid(1) pk(2) kid(2) parses(2)]
  obtain d where d: "decodeToken parse (it_token tok) = Inr d" "th_kid (dt_header d) = sg_kid k"
    "dt_signature d = cp_sign cp (sg_private k) (dt_signingInput d)" "parseClaims parse (dt_payload d) = Some claims" by (auto simp: tok(3))
  have found: "fst (keyFor (cp_json cp) create (ap_db s) wall (th_kid (dt_header d)) ks) = Some pk"
    using published_row [of "ap_db s" r "cp_json cp" create pk, OF keys(1) r(1,2) pk(1)] fresh by (simp add: keyFor_def d(2) r(3))
  have "verifySignature ed25519 d pk" using pk(3) by (simp add: verifySignature_def d(3))
  from authorize_genuine [OF d(1) found this d(4) cl(1)] enough_time [OF time]
  have "fst (authorize parse ed25519 (cp_json cp) create (cp_env cp) (cp_issuer cp) (ap_db s) wall later (Some (it_token tok)) ks)
      = admit (cp_env cp) (ap_db s) claims" by (simp add: cl)
  moreover have "admit (cp_env cp) (ap_db s) claims = Inr \<lparr>rp_subject = ca_userId caller, rp_machineId = it_machineId tok,
      rp_scopes = words_of (gr_scopes g), rp_expiresAt = it_expiresAt tok, rp_tokenId = cl_jti claims\<rparr>"
    using cond active granted_scopes [of "ca_userId caller" "it_machineId tok" "ap_db s" g]
    by (auto simp: admit_iff token_conditions_def summary_of_row cl tok(2) split: option.splits)
  ultimately show ?thesis by (auto simp: tok(1) parseScopes_def)
qed

text \<open>The instance again, with a key and a capability asked for by the machine's label.\<close>

definition sample_key_row :: signing_key_row where
  "sample_key_row = \<lparr>sk_kid = asc ''k1'', sk_privatePem = [], sk_publicJwk = [], sk_createdAt = 0, sk_retiredAt = None\<rparr>"

definition keyed_tables :: control_db where "keyed_tables = sample_tables\<lparr>db_signingKeys := [sample_key_row]\<rparr>"

definition keyed_app :: control_app where "keyed_app = sample_app\<lparr>ap_db := keyed_tables\<rparr>"

definition keyed_platform :: "unit control_platform" where
  "keyed_platform = sample_platform\<lparr>cp_json := (\<lambda>_. Some (JObj [(asc ''kty'', JStr (asc ''OKP'')), (asc ''crv'', JStr (asc ''Ed25519'')), (asc ''x'', JStr [1])])),
     cp_sign := (\<lambda>_ _. [7]), cp_digest := (\<lambda>_. [1])\<rparr>"

definition keyed_claims :: token_claims where
  "keyed_claims = token_claims_for keyed_platform sample_entropy ada (asc ''m_00000001'') ALL_SCOPES None 5000"

definition keyed_token :: issued_token where
  "keyed_token = \<lparr>it_token = signToken (\<lambda>_. [48]) (\<lambda>_ _. [7]) keyed_claims (asc ''k1'') (), it_expiresAt = 905 * 1000, it_scopes = ALL_SCOPES,
     it_machineId = asc ''m_00000001'', it_key = None\<rparr>"

definition keyed_parse :: "bytes \<Rightarrow> json option" where
  "keyed_parse = known_texts (header_json (asc ''k1'')) (claims_json (\<lambda>_. [48]) keyed_claims)"

lemma scopes_known: "List.map_filter scope_of (map scope_name xs) = xs"
  by (induction xs) (simp_all add: List.map_filter_simps)

lemma all_scopes_read: "parseScopes full_scopes = ALL_SCOPES"
  by (simp only: parseScopes_def full_scopes_def ALL_SCOPE_NAMES_def words_of_scopes scopes_known)

lemma keyed_reads:
  "body_field (Some (JObj [(asc ''machine'', JStr (asc ''desk''))])) ''machine'' = Some (JStr (asc ''desk''))" "asc ''desk'' \<noteq> []"
  "resolveMachineRef keyed_tables (asc ''u_1'') (asc ''desk'') = Some (asc ''m_00000001'')"
  "machine_row_of keyed_tables (asc ''m_00000001'') = Some (sample_machine (asc ''m_00000001'') None)"
  "List.find (\<lambda>g. gr_user g = asc ''u_1'' \<and> gr_machine g = asc ''m_00000001'') (db_grants keyed_tables) =
     Some \<lparr>gr_user = asc ''u_1'', gr_machine = asc ''m_00000001'', gr_scopes = full_scopes, gr_createdAt = 1\<rparr>"
  "ap_db keyed_app = keyed_tables" "ap_writes keyed_app = new_throttle WRITE_THROTTLE" "ca_userId ada = asc ''u_1''" "ca_deviceId ada = None"
  by (simp_all add: body_field_def asc_def resolveMachineRef_def machine_row_of_def keyed_tables_def sample_tables_def empty_db_def sample_machine_def
      keyed_app_def sample_app_def ada_def)

lemma keyed_standing:
  "\<exists>st. machineStanding Map.empty keyed_tables (asc ''m_00000001'') = Some st \<and> \<not> st_over st \<and> \<not> st_ownerDisabled st"
  by (simp add: machineStanding_def ownerOf_def keyed_tables_def sample_tables_def empty_db_def rank_of_def count_where_def age_def
      instanceMachineLimit_def readInteger_def readString_def readSetting_def js_trim_def MAX_MACHINES_PER_USER_def Let_def asc_def)

lemma keyed_signing: "activeSigningKeys (\<lambda>_. Some ()) json keyed_tables =
    those [case json [] of None \<Rightarrow> None | Some j \<Rightarrow> Some \<lparr>sg_kid = asc ''k1'', sg_private = (), sg_jwk = j\<rparr>]"
  by (simp add: activeSigningKeys_def active_rows_def keyed_tables_def sample_key_row_def parse_signing_key_def split: option.split)

lemma keyed_answer: "\<exists>t. postToken keyed_platform sample_entropy ada (Some (JObj [(asc ''machine'', JStr (asc ''desk''))])) 5000 keyed_app = (Inr keyed_token, t)"
proof -
  obtain st where st: "machineStanding Map.empty keyed_tables (asc ''m_00000001'') = Some st" "\<not> st_over st" "\<not> st_ownerDisabled st"
    using keyed_standing by blast
  have row: "ma_id (sample_machine (asc ''m_00000001'') None) = asc ''m_00000001''" "ma_revokedAt (sample_machine (asc ''m_00000001'') None) = None"
    "ma_enrolledAt (sample_machine (asc ''m_00000001'') None) = Some 2" by (simp_all add: sample_machine_def)
  have cp: "cp_env keyed_platform = Map.empty" "cp_private keyed_platform = (\<lambda>_. Some ())" "cp_digits keyed_platform = (\<lambda>_. [48])"
    "cp_sign keyed_platform = (\<lambda>_ _. [7])" "cp_ttlSeconds keyed_platform = 900"
    "cp_json keyed_platform = (\<lambda>_. Some (JObj [(asc ''kty'', JStr (asc ''OKP'')), (asc ''crv'', JStr (asc ''Ed25519'')), (asc ''x'', JStr [1])]))"
    by (simp_all add: keyed_platform_def sample_platform_def)
  have key: "machineKeyFor keyed_tables (asc ''m_00000001'') = None"
    using keyed_reads(4) by (simp add: machineKeyFor_def machine_row_of_def sample_machine_def)
  have "wp (postToken keyed_platform sample_entropy ada (Some (JObj [(asc ''machine'', JStr (asc ''desk''))])) 5000) (\<lambda>x _. x = keyed_token) (\<lambda>_. False) keyed_app"
    unfolding postToken_def
    by (simp add: Let_def fresh_allows keyed_reads st row cp key keyed_signing all_scopes_read keyed_token_def keyed_claims_def)
      (simp add: ALL_SCOPES_def token_claims_for_def cp)
  from wp_answer [OF this] show ?thesis by blast
qed

theorem issued_capabilities_pass_the_relay_witness:
  "\<exists>p. fst (authorize keyed_parse sample_check (cp_json keyed_platform) (\<lambda>_. Some ()) Map.empty (asc ''cp'') keyed_tables 905000 905000
      (Some (it_token keyed_token)) new_relay_keys) = Inr p \<and> rp_machineId p = asc ''m_00000001'' \<and> List.map_filter scope_of (rp_scopes p) = ALL_SCOPES"
proof -
  obtain t where answer: "postToken keyed_platform sample_entropy ada (Some (JObj [(asc ''machine'', JStr (asc ''desk''))])) 5000 keyed_app = (Inr keyed_token, t)"
    using keyed_answer by blast
  have "take 3 (utf8_encode (stringify (header_json (asc ''k1'')))) \<noteq> take 3 (utf8_encode (stringify (claims_json (\<lambda>_. [48]) keyed_claims)))"
    by (simp add: header_json_def claims_json_def asc_def json_quote_def escape_unit_def utf8_point_def
        high_surrogate_def low_surrogate_def scalar_of_def)
  then have differ: "utf8_encode (stringify (header_json (asc ''k1''))) \<noteq> utf8_encode (stringify (claims_json (\<lambda>_. [48]) keyed_claims))" by metis
  have texts: "keyed_parse (utf8_encode (stringify (header_json (asc ''k1'')))) = Some (header_json (asc ''k1''))"
    "keyed_parse (utf8_encode (stringify (claims_json (\<lambda>_. [48]) keyed_claims))) = Some (claims_json (\<lambda>_. [48]) keyed_claims)"
    using differ by (auto simp: keyed_parse_def known_texts_def)
  have fields: "cp_issuer keyed_platform = asc ''cp''" "cp_env keyed_platform = Map.empty" "cp_digits keyed_platform = (\<lambda>_. [48])"
    "cp_ttlSeconds keyed_platform = 900" "cp_sign keyed_platform = (\<lambda>_ _. [7])" "cp_digest keyed_platform = (\<lambda>_. [1])"
    by (simp_all add: keyed_platform_def sample_platform_def)
  have "\<exists>p. fst (authorize keyed_parse sample_check (cp_json keyed_platform) (\<lambda>_. Some ()) (cp_env keyed_platform) (cp_issuer keyed_platform) (ap_db keyed_app)
      905000 905000 (Some (it_token keyed_token)) new_relay_keys) = Inr p \<and> rp_subject p = ca_userId ada \<and> rp_machineId p = it_machineId keyed_token
      \<and> List.map_filter scope_of (rp_scopes p) = it_scopes keyed_token \<and> rp_expiresAt p = it_expiresAt keyed_token"
  proof (rule issued_capabilities_pass_the_relay [OF answer, where claims = keyed_claims])
    show "activeUser (ap_db keyed_app) (ca_userId ada) \<noteq> None"
      by (simp add: keyed_reads activeUser_def keyed_tables_def sample_tables_def)
    show "\<forall>r\<in>set (db_signingKeys (ap_db keyed_app)). sk_kid r \<noteq> [] \<and> keyed_parse (utf8_encode (stringify (header_json (sk_kid r)))) = Some (header_json (sk_kid r))
        \<and> (\<forall>sk. cp_private keyed_platform (sk_privatePem r) = Some sk \<longrightarrow> (\<exists>pk. Option.bind (cp_json keyed_platform (sk_publicJwk r)) (jwkToPublicKey (\<lambda>_. Some ())) = Some pk
              \<and> (\<forall>m. cp_sign keyed_platform sk m \<noteq> [] \<and> Some (cp_sign keyed_platform sk m = [7]) = Some True)))"
      using texts(1) by (simp add: keyed_reads keyed_tables_def sample_key_row_def fields jwkToPublicKey_def nonempty_text_def keyed_platform_def asc_def)
    show "keyed_claims = token_claims_for keyed_platform sample_entropy ada (it_machineId keyed_token) (it_scopes keyed_token)
        (Option.bind (ca_deviceId ada) (deviceKeyFor (ap_db keyed_app))) 5000"
      by (simp add: keyed_claims_def keyed_token_def ada_def)
    show "keyed_parse (utf8_encode (stringify (claims_json (cp_digits keyed_platform) keyed_claims))) = Some (claims_json (cp_digits keyed_platform) keyed_claims)"
      using texts(2) by (simp add: fields)
  qed (simp_all add: fields keyed_reads keyed_tables_def keyed_token_def new_relay_keys_def KEY_REFRESH_MS_def ada_def asc_def)
  then show ?thesis by (auto simp: fields keyed_reads keyed_token_def)
qed

end
