(* ===== verification/PasswordSlots.thy ===== *)
theory PasswordSlots
  imports Token
begin

text \<open>
  Password hashing of a control plane (\<open>src/packages/control-plane/src/password.ts\<close>): how many
  hashes run at once, in two lanes, the text a hash is stored as, and the check of a password. The
  key derivation, Unicode normalisation, \<open>toLowerCase\<close>, the digits of a number and \<open>Number()\<close>
  are arguments; a caller of the queue is a number.
\<close>

subsection \<open>Slots\<close>

datatype hash_lane = Public_lane | Authenticated_lane

definition MAX_CONCURRENT :: nat where "MAX_CONCURRENT = 4"
definition MAX_CONCURRENT_PUBLIC :: nat where "MAX_CONCURRENT_PUBLIC = 2"
definition MAX_QUEUED :: nat where "MAX_QUEUED = 32"
definition MAX_QUEUED_PUBLIC :: nat where "MAX_QUEUED_PUBLIC = 16"

record hash_slots =
  hs_active :: nat
  hs_activePublic :: nat
  hs_waitingPublic :: "nat list"
  hs_waitingAuthenticated :: "nat list"

definition no_slots_taken :: hash_slots where
  "no_slots_taken = \<lparr>hs_active = 0, hs_activePublic = 0, hs_waitingPublic = [], hs_waitingAuthenticated = []\<rparr>"

fun queueOf :: "hash_lane \<Rightarrow> hash_slots \<Rightarrow> nat list" where
  "queueOf Public_lane s = hs_waitingPublic s"
| "queueOf Authenticated_lane s = hs_waitingAuthenticated s"

fun with_queue :: "hash_lane \<Rightarrow> nat list \<Rightarrow> hash_slots \<Rightarrow> hash_slots" where
  "with_queue Public_lane q s = s\<lparr>hs_waitingPublic := q\<rparr>"
| "with_queue Authenticated_lane q s = s\<lparr>hs_waitingAuthenticated := q\<rparr>"

definition hasRoom :: "hash_lane \<Rightarrow> hash_slots \<Rightarrow> bool" where
  "hasRoom lane s \<longleftrightarrow> hs_active s < MAX_CONCURRENT \<and> (lane = Authenticated_lane \<or> hs_activePublic s < MAX_CONCURRENT_PUBLIC)"

definition take_slot :: "hash_lane \<Rightarrow> hash_slots \<Rightarrow> hash_slots" where
  "take_slot lane s = s\<lparr>hs_active := hs_active s + 1, hs_activePublic := hs_activePublic s + (if lane = Public_lane then 1 else 0)\<rparr>"

datatype acquired = Entered | Waits | Busy

definition acquire :: "hash_lane \<Rightarrow> nat \<Rightarrow> hash_slots \<Rightarrow> acquired \<times> hash_slots" where
  "acquire lane who s =
     (if hasRoom lane s then (Entered, take_slot lane s)
      else if (case lane of Public_lane \<Rightarrow> MAX_QUEUED_PUBLIC | Authenticated_lane \<Rightarrow> MAX_QUEUED) \<le> length (queueOf lane s) then (Busy, s)
      else (Waits, with_queue lane (queueOf lane s @ [who]) s))"

definition wake :: "hash_lane \<Rightarrow> hash_slots \<Rightarrow> nat option \<times> hash_slots" where
  "wake lane s =
     (if \<not> hasRoom lane s then (None, s)
      else case queueOf lane s of [] \<Rightarrow> (None, s) | w # rest \<Rightarrow> (Some w, take_slot lane (with_queue lane rest s)))"

definition release_slot :: "hash_lane \<Rightarrow> hash_slots \<Rightarrow> (nat \<times> hash_lane) option \<times> hash_slots" where
  "release_slot lane s =
     (let s = s\<lparr>hs_active := hs_active s - 1, hs_activePublic := hs_activePublic s - (if lane = Public_lane then 1 else 0)\<rparr> in
      case wake Authenticated_lane s of
        (Some w, s) \<Rightarrow> (Some (w, Authenticated_lane), s)
      | (None, s) \<Rightarrow> (case wake Public_lane s of (Some w, s) \<Rightarrow> (Some (w, Public_lane), s) | (None, s) \<Rightarrow> (None, s)))"

text \<open>\<open>withSlot\<close> by all its callers: one arrives, or one whose hash ran lets go and may wake another.\<close>

inductive hashing :: "hash_slots \<Rightarrow> (nat \<times> hash_lane) list \<Rightarrow> bool" where
  quiet: "hashing no_slots_taken []"
| entered: "hashing s running \<Longrightarrow> acquire lane who s = (Entered, t) \<Longrightarrow> hashing t ((who, lane) # running)"
| queued: "hashing s running \<Longrightarrow> acquire lane who s = (Waits, t) \<Longrightarrow> hashing t running"
| finished: "hashing s running \<Longrightarrow> (who, lane) \<in> set running \<Longrightarrow> release_slot lane s = (woken, t)
    \<Longrightarrow> hashing t ((case woken of None \<Rightarrow> [] | Some w \<Rightarrow> [w]) @ remove1 (who, lane) running)"

subsection \<open>The stored text\<close>

record scrypt_params =
  sp_N :: int
  sp_r :: int
  sp_p :: int

definition CURRENT_PARAMS :: scrypt_params where "CURRENT_PARAMS = \<lparr>sp_N = 32768, sp_r = 8, sp_p = 1\<rparr>"
definition DK_LENGTH :: nat where "DK_LENGTH = 32"
definition MAX_MEM :: int where "MAX_MEM = 128 * 1024 * 1024"
definition PASSWORD_MIN_LENGTH :: nat where "PASSWORD_MIN_LENGTH = 12"
definition PASSWORD_MAX_LENGTH :: nat where "PASSWORD_MAX_LENGTH = 256"

definition encode_hash :: "(int \<Rightarrow> ustring) \<Rightarrow> scrypt_params \<Rightarrow> bytes \<Rightarrow> bytes \<Rightarrow> ustring" where
  "encode_hash digits params salt dk =
     join [36] [asc ''scrypt'', digits (sp_N params), digits (sp_r params), digits (sp_p params), b64uEncode salt, b64uEncode dk]"

record decoded_hash =
  dh_params :: scrypt_params
  dh_salt :: bytes
  dh_dk :: bytes

definition whole :: "rat option \<Rightarrow> int option" where
  "whole n = (case n of Some r \<Rightarrow> if is_integer r then Some \<lfloor>r\<rfloor> else None | None \<Rightarrow> None)"

definition decode_hash :: "(ustring \<Rightarrow> rat option) \<Rightarrow> ustring \<Rightarrow> decoded_hash option" where
  "decode_hash number stored =
     (case split_on 36 stored of
        [tag, tN, tr, tp, tsalt, tdk] \<Rightarrow>
          if tag \<noteq> asc ''scrypt'' then None
          else (case (whole (number tN), whole (number tr), whole (number tp)) of
              (Some N, Some r, Some p) \<Rightarrow>
                if N < 2 \<or> r < 1 \<or> p < 1 then None
                else if MAX_MEM < 128 * N * r then None
                else if buffer_from_b64u tsalt = [] \<or> buffer_from_b64u tdk = [] then None
                else Some \<lparr>dh_params = \<lparr>sp_N = N, sp_r = r, sp_p = p\<rparr>, dh_salt = buffer_from_b64u tsalt, dh_dk = buffer_from_b64u tdk\<rparr>
            | _ \<Rightarrow> None)
      | _ \<Rightarrow> None)"

subsection \<open>Passwords\<close>

datatype password_problem = Not_text | Too_short | Too_long | Same_as_name

definition checkPasswordPolicy ::
  "(ustring \<Rightarrow> ustring) \<Rightarrow> (ustring \<Rightarrow> ustring) \<Rightarrow> json option \<Rightarrow> ustring \<Rightarrow> password_problem option" where
  "checkPasswordPolicy nfkc lower raw userName =
     (case raw of
        Some (JStr s) \<Rightarrow>
          (let password = nfkc s in
           if length password < PASSWORD_MIN_LENGTH then Some Too_short
           else if PASSWORD_MAX_LENGTH < length password then Some Too_long
           else if lower password = lower (js_trim userName) then Some Same_as_name
           else None)
      | _ \<Rightarrow> Some Not_text)"

type_synonym kdf = "scrypt_params \<Rightarrow> ustring \<Rightarrow> bytes \<Rightarrow> nat \<Rightarrow> bytes"

definition hashPassword :: "kdf \<Rightarrow> (ustring \<Rightarrow> ustring) \<Rightarrow> (int \<Rightarrow> ustring) \<Rightarrow> bytes \<Rightarrow> ustring \<Rightarrow> ustring" where
  "hashPassword kdf nfkc digits salt plain =
     encode_hash digits CURRENT_PARAMS salt (kdf CURRENT_PARAMS (nfkc plain) salt DK_LENGTH)"

record verify_outcome =
  vo_ok :: bool
  vo_needsRehash :: bool

definition verifyPassword :: "kdf \<Rightarrow> (ustring \<Rightarrow> ustring) \<Rightarrow> (ustring \<Rightarrow> rat option) \<Rightarrow> ustring \<Rightarrow> ustring \<Rightarrow> verify_outcome" where
  "verifyPassword kdf nfkc number plain stored =
     (case decode_hash number stored of
        None \<Rightarrow> \<lparr>vo_ok = False, vo_needsRehash = False\<rparr>
      | Some d \<Rightarrow>
          (let dk = kdf (dh_params d) (nfkc plain) (dh_salt d) (length (dh_dk d))
           in \<lparr>vo_ok = (length dk = length (dh_dk d) \<and> dk = dh_dk d),
               vo_needsRehash = (sp_N (dh_params d) \<noteq> sp_N CURRENT_PARAMS \<or> sp_r (dh_params d) \<noteq> sp_r CURRENT_PARAMS
                 \<or> sp_p (dh_params d) \<noteq> sp_p CURRENT_PARAMS)\<rparr>))"

subsection \<open>Lemmas\<close>

definition public_count :: "(nat \<times> hash_lane) list \<Rightarrow> nat" where
  "public_count running = length (filter (\<lambda>(w, l). l = Public_lane) running)"

text \<open>What the counters say of those running, and that nobody waits beside an idle slot.\<close>

definition slots_ok :: "hash_slots \<Rightarrow> (nat \<times> hash_lane) list \<Rightarrow> bool" where
  "slots_ok s running \<longleftrightarrow> hs_active s = length running \<and> hs_activePublic s = public_count running
     \<and> hs_active s \<le> MAX_CONCURRENT \<and> hs_activePublic s \<le> MAX_CONCURRENT_PUBLIC
     \<and> length (hs_waitingPublic s) \<le> MAX_QUEUED_PUBLIC \<and> length (hs_waitingAuthenticated s) \<le> MAX_QUEUED
     \<and> (\<forall>lane. queueOf lane s \<noteq> [] \<longrightarrow> \<not> hasRoom lane s)"

lemmas slot_limits = MAX_CONCURRENT_def MAX_CONCURRENT_PUBLIC_def MAX_QUEUED_def MAX_QUEUED_PUBLIC_def

lemma every_lane: "(\<forall>lane. P lane) \<longleftrightarrow> P Public_lane \<and> P Authenticated_lane"
  by (metis hash_lane.exhaust)

lemma public_count_simps [simp]:
  "public_count [] = 0" "public_count ((w, Public_lane) # r) = Suc (public_count r)" "public_count ((w, Authenticated_lane) # r) = public_count r"
  by (simp_all add: public_count_def)

lemma public_count_le: "public_count r \<le> length r"
  by (simp add: public_count_def)

lemma public_count_remove:
  "(w, lane) \<in> set r \<Longrightarrow> public_count (remove1 (w, lane) r) = public_count r - (if lane = Public_lane then 1 else 0)
     \<and> (lane = Public_lane \<longrightarrow> 0 < public_count r)"
  by (induction r) (auto simp: public_count_def)

lemma hashing_ok: "hashing s running \<Longrightarrow> slots_ok s running"
proof (induction rule: hashing.induct)
  case quiet
  show ?case by (simp add: slots_ok_def no_slots_taken_def every_lane slot_limits)
next
  case (entered s running lane who t)
  then show ?case by (cases lane) (auto simp: slots_ok_def acquire_def take_slot_def hasRoom_def every_lane split: if_splits)
next
  case (queued s running lane who t)
  then show ?case by (cases lane) (auto simp: slots_ok_def acquire_def hasRoom_def every_lane slot_limits split: if_splits)
next
  case (finished s running who lane woken t)
  then have pos: "0 < length running" "length (remove1 (who, lane) running) = length running - 1" by (auto simp: length_remove1)
  note counts = public_count_remove [OF finished(2)] public_count_le [of running]
  show ?case
    using finished(3,4) pos counts
    by (cases lane; cases "hs_waitingAuthenticated s"; cases "hs_waitingPublic s")
      (auto simp: slots_ok_def release_slot_def wake_def take_slot_def hasRoom_def every_lane slot_limits Let_def split: if_splits)
qed

subsection \<open>Properties\<close>

text \<open>
  C38. Hashing is bounded, nobody waits beside a slot they may have, and the remedy stays within
  reach. However callers arrive and finish, at most four hashes run, at most two of them for callers
  who have not signed in; at most sixteen of these and thirty-two signed in wait; somebody signed in
  waits only while all four slots are taken, somebody not signed in only while all four are or two are
  taken by their like; and as long as fewer than two of those running are signed in, whoever is
  signed in gets a slot at once, whatever storms the front door.
\<close>

theorem hashing_is_bounded:
  assumes "hashing s running"
  shows "length running \<le> 4 \<and> public_count running \<le> 2
    \<and> length (hs_waitingPublic s) \<le> 16 \<and> length (hs_waitingAuthenticated s) \<le> 32
    \<and> (hs_waitingAuthenticated s \<noteq> [] \<longrightarrow> length running = 4)
    \<and> (hs_waitingPublic s \<noteq> [] \<longrightarrow> length running = 4 \<or> public_count running = 2)
    \<and> (length running < public_count running + 2 \<longrightarrow> fst (acquire Authenticated_lane who s) = Entered)"
  using hashing_ok [OF assms] by (auto simp: slots_ok_def slot_limits acquire_def hasRoom_def every_lane)

text \<open>
  A slot that is let go is never left idle and goes to the first in line: to the signed-in caller
  who waits longest, and when none waits, to the caller at the front door who waits longest, unless
  two of theirs still run.
\<close>

theorem freed_slots_go_to_the_first:
  assumes "hashing s running" and "(who, lane) \<in> set running"
  shows "fst (release_slot lane s) =
    (case hs_waitingAuthenticated s of
       w # _ \<Rightarrow> Some (w, Authenticated_lane)
     | [] \<Rightarrow> (case hs_waitingPublic s of
           [] \<Rightarrow> None
         | w # _ \<Rightarrow> if public_count (remove1 (who, lane) running) < 2 then Some (w, Public_lane) else None))"
proof -
  have "slots_ok s running" by (rule hashing_ok [OF assms(1)])
  moreover have "0 < length running" using assms(2) by auto
  ultimately show ?thesis using public_count_remove [OF assms(2)]
    by (cases lane; cases "hs_waitingAuthenticated s"; cases "hs_waitingPublic s")
      (auto simp: slots_ok_def release_slot_def wake_def hasRoom_def every_lane slot_limits Let_def split: if_splits)
qed

lemma sample_hashing:
  "\<exists>s. hashing s [(2, Public_lane), (1, Public_lane)] \<and> hs_waitingPublic s = [3]"
proof -
  have "hashing \<lparr>hs_active = 1, hs_activePublic = 1, hs_waitingPublic = [], hs_waitingAuthenticated = []\<rparr> [(1, Public_lane)]"
    by (rule hashing.entered [OF hashing.quiet]) (simp add: acquire_def hasRoom_def take_slot_def no_slots_taken_def slot_limits)
  then have "hashing \<lparr>hs_active = 2, hs_activePublic = 2, hs_waitingPublic = [], hs_waitingAuthenticated = []\<rparr> [(2, Public_lane), (1, Public_lane)]"
    by (rule hashing.entered) (simp add: acquire_def hasRoom_def take_slot_def slot_limits)
  then have "hashing \<lparr>hs_active = 2, hs_activePublic = 2, hs_waitingPublic = [3], hs_waitingAuthenticated = []\<rparr> [(2, Public_lane), (1, Public_lane)]"
    by (rule hashing.queued [where lane = Public_lane and who = 3]) (simp add: acquire_def hasRoom_def slot_limits)
  then show ?thesis by (intro exI conjI, assumption) simp
qed

theorem hashing_is_bounded_witness:
  "\<exists>s. hashing s [(2, Public_lane), (1, Public_lane)] \<and> fst (acquire Authenticated_lane 7 s) = Entered"
proof -
  obtain s where s: "hashing s [(2, Public_lane), (1, Public_lane)]" using sample_hashing by blast
  from hashing_is_bounded [OF s, of 7] s show ?thesis by auto
qed

theorem freed_slots_go_to_the_first_witness:
  "\<exists>s. hashing s [(2, Public_lane), (1, Public_lane)] \<and> fst (release_slot Public_lane s) = Some (3, Public_lane)"
proof -
  obtain s where s: "hashing s [(2, Public_lane), (1, Public_lane)]" "hs_waitingPublic s = [3]" using sample_hashing by blast
  have "slots_ok s [(2, Public_lane), (1, Public_lane)]" by (rule hashing_ok [OF s(1)])
  then have "hs_waitingAuthenticated s = []" by (auto simp: slots_ok_def every_lane hasRoom_def slot_limits)
  with freed_slots_go_to_the_first [OF s(1), of 1 Public_lane] s show ?thesis by auto
qed

text \<open>
  C39. A password verifies against what was stored of it. The stored text of a password reads back as
  its salt, its key and the present parameters, so that a later attempt, in any spelling, is accepted
  exactly when it derives the same key, and is not asked to be stored anew.
\<close>

theorem passwords_verify:
  assumes "salt \<noteq> []" and "\<forall>q s n. length (kdf q s salt n) = n" and "\<forall>n\<in>{32768, 8, 1}. number (digits n) = Some (of_int n) \<and> 36 \<notin> set (digits n)"
  shows "verifyPassword kdf nfkc number attempt (hashPassword kdf nfkc digits salt plain) =
    \<lparr>vo_ok = (kdf CURRENT_PARAMS (nfkc attempt) salt DK_LENGTH = kdf CURRENT_PARAMS (nfkc plain) salt DK_LENGTH), vo_needsRehash = False\<rparr>"
proof -
  define dk where "dk = kdf CURRENT_PARAMS (nfkc plain) salt DK_LENGTH"
  have len: "length dk = DK_LENGTH" using assms(2) by (simp add: dk_def)
  then have dk: "dk \<noteq> []" by (auto simp: DK_LENGTH_def)
  have b64: "36 \<notin> set (b64uEncode bs)" for bs
    by (auto simp: b64uEncode_def b64_char_def)
  have tag: "36 \<notin> set (asc ''scrypt'')" by (simp add: asc_def)
  have digits: "36 \<notin> set (digits 32768)" "36 \<notin> set (digits 8)" "36 \<notin> set (digits 1)"
    "number (digits 32768) = Some 32768" "number (digits 8) = Some 8" "number (digits 1) = Some 1" using assms(3) by simp_all
  have "decode_hash number (hashPassword kdf nfkc digits salt plain) =
      Some \<lparr>dh_params = CURRENT_PARAMS, dh_salt = salt, dh_dk = dk\<rparr>"
    using assms(1) dk
    by (simp add: decode_hash_def hashPassword_def encode_hash_def CURRENT_PARAMS_def dk_def [unfolded CURRENT_PARAMS_def, symmetric]
        split_on_plain split_on_none tag digits b64 whole_def is_integer_def MAX_MEM_def)
  then show ?thesis using len assms(2) by (simp add: verifyPassword_def Let_def dk_def [symmetric])
qed

theorem passwords_verify_witness:
  "verifyPassword (\<lambda>q s salt n. replicate n (of_nat (length s))) (\<lambda>s. s) (\<lambda>s. Some (of_nat (length s))) [1, 1]
      (hashPassword (\<lambda>q s salt n. replicate n (of_nat (length s))) (\<lambda>s. s) (\<lambda>n. replicate (nat n) 49) [5] [2])
    = \<lparr>vo_ok = False, vo_needsRehash = False\<rparr>"
proof -
  have "replicate DK_LENGTH (of_nat (length [1, 1 :: nat]) :: 8 word) \<noteq> replicate DK_LENGTH (of_nat (length [2 :: nat]))"
    by (simp add: DK_LENGTH_def numeral_eq_Suc)
  then show ?thesis
    by (subst passwords_verify) (simp_all add: DK_LENGTH_def)
qed

end
