(* ===== verification/RelayPresence.thy ===== *)
theory RelayPresence
  imports ControlDb
begin

text \<open>
  What a relay writes of itself for the other processes to read
  (\<open>src/packages/control-plane/src/relay/presence.ts\<close>): which machines it holds tunnels of, when a
  machine was last seen, and which process holds a relay's name; and the map from relays to the
  addresses browsers reach them at (\<open>routing.ts\<close>). A statement that fails leaves the tables as they
  were before it; of \<open>up\<close> the first statement may succeed without the second.
\<close>

subsection \<open>Tables\<close>

record tunnel_row =
  tl_machine :: ustring
  tl_relay :: ustring
  tl_connectedAt :: int
  tl_lastSeenAt :: int
  tl_requestsProxied :: nat
  tl_activeStreams :: nat

record instance_row =
  ri_nonce :: ustring
  ri_claimedAt :: int
  ri_lastSeenAt :: int

record presence_db =
  pd_tunnels :: "tunnel_row list"
  pd_lastSeen :: "ustring \<rightharpoonup> int"
  pd_instances :: "ustring \<rightharpoonup> instance_row"

definition PRESENCE_FLUSH_INTERVAL_MS :: int where "PRESENCE_FLUSH_INTERVAL_MS = 5000"
definition PRESENCE_STALE_MS :: int where "PRESENCE_STALE_MS = 20000"
definition RELAY_CLAIM_STALE_MS :: int where "RELAY_CLAIM_STALE_MS = 20000"
definition DEFAULT_RELAY_ID :: ustring where "DEFAULT_RELAY_ID = asc ''relay''"

record tunnel_stats =
  tt_machineId :: ustring
  tt_relayId :: ustring
  tt_since :: int
  tt_activeStreams :: nat
  tt_requestsProxied :: nat

subsection \<open>The writer\<close>

text \<open>\<open>INSERT \<dots> ON CONFLICT(machine_id) DO UPDATE \<dots> WHERE\<close> the row there may be replaced.\<close>

definition upsert_tunnel :: "(tunnel_row \<Rightarrow> bool) \<Rightarrow> tunnel_row \<Rightarrow> presence_db \<Rightarrow> presence_db" where
  "upsert_tunnel replaceable row db =
     (if list_ex (\<lambda>r. tl_machine r = tl_machine row) (pd_tunnels db)
      then db\<lparr>pd_tunnels := update_where (\<lambda>r. tl_machine r = tl_machine row \<and> replaceable r) (\<lambda>_. row) (pd_tunnels db)\<rparr>
      else db\<lparr>pd_tunnels := pd_tunnels db @ [row]\<rparr>)"

definition see_machine :: "ustring \<Rightarrow> int \<Rightarrow> presence_db \<Rightarrow> presence_db" where
  "see_machine machineId seen db =
     db\<lparr>pd_lastSeen := (pd_lastSeen db)(machineId \<mapsto> (case pd_lastSeen db machineId of None \<Rightarrow> seen | Some t \<Rightarrow> max t seen))\<rparr>"

definition presence_up :: "ustring \<Rightarrow> ustring \<Rightarrow> int \<Rightarrow> int \<Rightarrow> nat \<Rightarrow> presence_db \<Rightarrow> presence_db" where
  "presence_up relayId machineId connectedAt now statements db =
     (let first = upsert_tunnel (\<lambda>_. True) \<lparr>tl_machine = machineId, tl_relay = relayId, tl_connectedAt = connectedAt, tl_lastSeenAt = now,
              tl_requestsProxied = 0, tl_activeStreams = 0\<rparr> db
      in if statements = 0 then db else if statements = 1 then first else see_machine machineId now first)"

definition presence_down :: "ustring \<Rightarrow> ustring \<Rightarrow> presence_db \<Rightarrow> presence_db" where
  "presence_down relayId machineId db =
     db\<lparr>pd_tunnels := delete_where (\<lambda>r. tl_machine r = machineId \<and> tl_relay r = relayId) (pd_tunnels db)\<rparr>"

definition refresh_tunnel :: "ustring \<Rightarrow> int \<Rightarrow> tunnel_stats \<Rightarrow> presence_db \<Rightarrow> presence_db" where
  "refresh_tunnel relayId now st db =
     see_machine (tt_machineId st) now
       (upsert_tunnel (\<lambda>r. tl_relay r = relayId \<or> tl_connectedAt r \<le> tt_since st)
         \<lparr>tl_machine = tt_machineId st, tl_relay = relayId, tl_connectedAt = tt_since st, tl_lastSeenAt = now,
           tl_requestsProxied = tt_requestsProxied st, tl_activeStreams = tt_activeStreams st\<rparr> db)"

definition beat :: "ustring \<Rightarrow> ustring \<Rightarrow> int \<Rightarrow> presence_db \<Rightarrow> presence_db" where
  "beat relayId nonce now db =
     db\<lparr>pd_instances := (case pd_instances db relayId of
        Some r \<Rightarrow> if ri_nonce r = nonce then (pd_instances db)(relayId \<mapsto> r\<lparr>ri_lastSeenAt := now\<rparr>) else pd_instances db
      | None \<Rightarrow> pd_instances db)\<rparr>"

text \<open>One transaction: every live tunnel refreshed, this relay's stale rows swept, its claim kept alive.\<close>

definition presence_flush :: "ustring \<Rightarrow> ustring \<Rightarrow> tunnel_stats list \<Rightarrow> int \<Rightarrow> presence_db \<Rightarrow> presence_db" where
  "presence_flush relayId nonce live now db =
     (let refreshed = fold (refresh_tunnel relayId now) live db;
          swept = refreshed\<lparr>pd_tunnels := delete_where (\<lambda>r. tl_relay r = relayId \<and> tl_lastSeenAt r < now) (pd_tunnels refreshed)\<rparr>
      in beat relayId nonce now swept)"

definition presence_clear :: "ustring \<Rightarrow> presence_db \<Rightarrow> presence_db" where
  "presence_clear relayId db = db\<lparr>pd_tunnels := delete_where (\<lambda>r. tl_relay r = relayId) (pd_tunnels db)\<rparr>"

subsection \<open>The reader\<close>

definition fresh_row :: "int \<Rightarrow> presence_db \<Rightarrow> ustring \<Rightarrow> tunnel_row option" where
  "fresh_row now db machineId = List.find (\<lambda>r. tl_machine r = machineId \<and> now - PRESENCE_STALE_MS \<le> tl_lastSeenAt r) (pd_tunnels db)"

definition view_isOnline :: "int \<Rightarrow> presence_db \<Rightarrow> ustring \<Rightarrow> bool" where
  "view_isOnline now db machineId \<longleftrightarrow> fresh_row now db machineId \<noteq> None"

definition view_relayFor :: "int \<Rightarrow> presence_db \<Rightarrow> ustring \<Rightarrow> ustring option" where
  "view_relayFor now db machineId = map_option tl_relay (fresh_row now db machineId)"

definition view_stats :: "int \<Rightarrow> presence_db \<Rightarrow> tunnel_stats list" where
  "view_stats now db =
     map (\<lambda>r. \<lparr>tt_machineId = tl_machine r, tt_relayId = tl_relay r, tt_since = tl_connectedAt r, tt_activeStreams = tl_activeStreams r,
         tt_requestsProxied = tl_requestsProxied r\<rparr>)
       (sort_key tl_connectedAt (filter (\<lambda>r. now - PRESENCE_STALE_MS \<le> tl_lastSeenAt r) (pd_tunnels db)))"

subsection \<open>Claims\<close>

datatype relay_claim = Claim_ok | Claim_held ustring int

definition claimRelayId :: "ustring \<Rightarrow> ustring \<Rightarrow> int \<Rightarrow> presence_db \<Rightarrow> relay_claim \<times> presence_db" where
  "claimRelayId relayId nonce now db =
     (case pd_instances db relayId of
        Some r \<Rightarrow>
          if ri_nonce r \<noteq> nonce \<and> now - ri_lastSeenAt r < RELAY_CLAIM_STALE_MS then (Claim_held (ri_nonce r) (now - ri_lastSeenAt r), db)
          else (Claim_ok, db\<lparr>pd_instances := (pd_instances db)(relayId \<mapsto> \<lparr>ri_nonce = nonce, ri_claimedAt = now, ri_lastSeenAt = now\<rparr>)\<rparr>)
      | None \<Rightarrow> (Claim_ok, db\<lparr>pd_instances := (pd_instances db)(relayId \<mapsto> \<lparr>ri_nonce = nonce, ri_claimedAt = now, ri_lastSeenAt = now\<rparr>)\<rparr>))"

definition releaseRelayId :: "ustring \<Rightarrow> ustring \<Rightarrow> presence_db \<Rightarrow> presence_db" where
  "releaseRelayId relayId nonce db =
     db\<lparr>pd_instances := (case pd_instances db relayId of
        Some r \<Rightarrow> if ri_nonce r = nonce then (pd_instances db)(relayId := None) else pd_instances db
      | None \<Rightarrow> pd_instances db)\<rparr>"

subsection \<open>Addresses of relays\<close>

text \<open>\<open>scheme\<close> is the protocol of a URL that parses.\<close>

definition isBrowserReachable :: "(ustring \<Rightarrow> ustring option) \<Rightarrow> ustring \<Rightarrow> bool" where
  "isBrowserReachable scheme url \<longleftrightarrow> scheme url = Some (asc ''http:'') \<or> scheme url = Some (asc ''https:'')"

datatype relay_urls = No_urls | Invalid_urls | Relay_urls "(ustring \<times> ustring) list"

fun relay_entries :: "(ustring \<Rightarrow> ustring option) \<Rightarrow> ustring list \<Rightarrow> (ustring \<times> ustring) list \<Rightarrow> relay_urls" where
  "relay_entries scheme [] out = (if out = [] then Invalid_urls else Relay_urls out)"
| "relay_entries scheme (entry # rest) out =
     (let pair = js_trim entry; key = takeWhile (\<lambda>c. c \<noteq> 61) pair in
      if pair = [] then relay_entries scheme rest out
      else if 61 \<notin> set pair \<or> key = [] then Invalid_urls
      else (let relay = js_trim key; url = js_trim (drop (length key + 1) pair) in
        if relay = [] \<or> url = [] then Invalid_urls
        else if relay \<in> fst ` set out then Invalid_urls
        else if \<not> isBrowserReachable scheme url then Invalid_urls
        else relay_entries scheme rest (out @ [(relay, url)])))"

definition parseRelayUrls :: "(ustring \<Rightarrow> ustring option) \<Rightarrow> ustring option \<Rightarrow> relay_urls" where
  "parseRelayUrls scheme raw =
     (let t = js_trim (case raw of None \<Rightarrow> [] | Some s \<Rightarrow> s) in
      if t = [] then No_urls else relay_entries scheme (split_on 44 t) [])"

subsection \<open>A machine's row\<close>

definition tunnel_of :: "presence_db \<Rightarrow> ustring \<Rightarrow> tunnel_row option" where
  "tunnel_of db m = List.find (\<lambda>r. tl_machine r = m) (pd_tunnels db)"

definition keyed :: "presence_db \<Rightarrow> bool" where "keyed db \<longleftrightarrow> distinct (map tl_machine (pd_tunnels db))"

lemma find_append: "List.find p (xs @ ys) = (case List.find p xs of None \<Rightarrow> List.find p ys | Some x \<Rightarrow> Some x)"
  by (induction xs) auto

lemma tunnel_of_upsert:
  "tunnel_of (upsert_tunnel p row db) m =
     (if m = tl_machine row then (case tunnel_of db m of None \<Rightarrow> Some row | Some r \<Rightarrow> Some (if p r then row else r)) else tunnel_of db m)"
proof (cases "list_ex (\<lambda>r. tl_machine r = tl_machine row) (pd_tunnels db)")
  case True
  have "List.find (\<lambda>r. tl_machine r = m) (update_where (\<lambda>r. tl_machine r = tl_machine row \<and> p r) (\<lambda>_. row) t) =
     (if m = tl_machine row then map_option (\<lambda>r. if p r then row else r) (List.find (\<lambda>r. tl_machine r = m) t) else List.find (\<lambda>r. tl_machine r = m) t)" for t
    by (induction t) auto
  then show ?thesis using True
    by (auto simp: tunnel_of_def upsert_tunnel_def list_ex_iff find_None_iff split: option.split)
next
  case False
  then have "m = tl_machine row \<Longrightarrow> tunnel_of db m = None" by (auto simp: tunnel_of_def find_None_iff list_ex_iff)
  then show ?thesis using False by (auto simp: upsert_tunnel_def tunnel_of_def find_append split: option.split)
qed

lemma keyed_upsert: "keyed db \<Longrightarrow> keyed (upsert_tunnel p row db)"
proof (cases "list_ex (\<lambda>r. tl_machine r = tl_machine row) (pd_tunnels db)")
  case True
  have "map tl_machine (update_where (\<lambda>r. tl_machine r = tl_machine row \<and> p r) (\<lambda>_. row) t) = map tl_machine t" for t
    by (induction t) auto
  then show "keyed db \<Longrightarrow> ?thesis" using True by (simp add: keyed_def upsert_tunnel_def)
qed (auto simp: keyed_def upsert_tunnel_def list_ex_iff)

lemma find_delete:
  assumes "distinct (map k t)"
  shows "List.find (\<lambda>r. k r = n) (delete_where p t) = (case List.find (\<lambda>r. k r = n) t of None \<Rightarrow> None | Some r \<Rightarrow> if p r then None else Some r)"
  using assms
proof (induction t)
  case (Cons r t)
  then have "k r = n \<Longrightarrow> List.find (\<lambda>r. k r = n) t = None" by (auto simp: find_None_iff) (metis image_eqI)
  with Cons show ?case by (auto simp: delete_where_def split: option.split)
qed (simp add: delete_where_def)

lemma keyed_delete: "keyed db \<Longrightarrow> keyed (db\<lparr>pd_tunnels := delete_where p (pd_tunnels db)\<rparr>)"
  by (simp add: keyed_def distinct_delete_where)

lemma tunnel_of_delete:
  "keyed db \<Longrightarrow> tunnel_of (db\<lparr>pd_tunnels := delete_where p (pd_tunnels db)\<rparr>) m = (case tunnel_of db m of None \<Rightarrow> None | Some r \<Rightarrow> if p r then None else Some r)"
  by (simp add: keyed_def tunnel_of_def find_delete)

lemma tunnel_of_frame [simp]:
  "tunnel_of (see_machine m' t db) m = tunnel_of db m" "tunnel_of (beat relay nonce t db) m = tunnel_of db m"
  "keyed (see_machine m' t db) = keyed db" "keyed (beat relay nonce t db) = keyed db"
  by (simp_all add: tunnel_of_def see_machine_def beat_def keyed_def)

text \<open>What a refresh writes for one machine.\<close>

definition refreshed_row :: "ustring \<Rightarrow> int \<Rightarrow> tunnel_stats \<Rightarrow> tunnel_row" where
  "refreshed_row relay now st = \<lparr>tl_machine = tt_machineId st, tl_relay = relay, tl_connectedAt = tt_since st, tl_lastSeenAt = now,
     tl_requestsProxied = tt_requestsProxied st, tl_activeStreams = tt_activeStreams st\<rparr>"

definition yields :: "ustring \<Rightarrow> tunnel_stats \<Rightarrow> tunnel_row \<Rightarrow> bool" where
  "yields relay st r \<longleftrightarrow> tl_relay r = relay \<or> tl_connectedAt r \<le> tt_since st"

lemma tunnel_of_refresh:
  "tunnel_of (refresh_tunnel relay now st db) m =
     (if m = tt_machineId st then (case tunnel_of db m of None \<Rightarrow> Some (refreshed_row relay now st)
        | Some r \<Rightarrow> Some (if yields relay st r then refreshed_row relay now st else r)) else tunnel_of db m)"
  by (simp add: refresh_tunnel_def tunnel_of_upsert refreshed_row_def yields_def split: option.split)

lemma fold_refresh:
  "keyed db \<Longrightarrow> distinct (map tt_machineId live) \<Longrightarrow> keyed (fold (refresh_tunnel relay now) live db) \<and>
     tunnel_of (fold (refresh_tunnel relay now) live db) m =
       (case List.find (\<lambda>st. tt_machineId st = m) live of None \<Rightarrow> tunnel_of db m
        | Some st \<Rightarrow> (case tunnel_of db m of None \<Rightarrow> Some (refreshed_row relay now st)
            | Some r \<Rightarrow> Some (if yields relay st r then refreshed_row relay now st else r)))"
proof (induction live arbitrary: db)
  case (Cons st live)
  have k: "keyed (refresh_tunnel relay now st db)" using Cons.prems(1) by (simp add: refresh_tunnel_def keyed_upsert)
  have none: "List.find (\<lambda>x. tt_machineId x = tt_machineId st) live = None" using Cons.prems(2) by (auto simp: find_None_iff) (metis image_eqI)
  show ?case
  proof (cases "m = tt_machineId st")
    case True
    then show ?thesis using Cons.IH [OF k] Cons.prems(2) none by (simp add: tunnel_of_refresh)
  next
    case False
    then have "tunnel_of (refresh_tunnel relay now st db) m = tunnel_of db m" by (simp add: tunnel_of_refresh)
    with False show ?thesis using Cons.IH [OF k] Cons.prems(2) by (simp split: option.split)
  qed
qed simp

subsection \<open>Properties\<close>

text \<open>
  A flush tells what the relay holds and nothing else. Machine by machine: one it holds has
  afterwards a fresh row of this relay with the tunnel's numbers, unless another relay's row says the
  machine connected there later; one it does not hold has no row of this relay any more; and the row
  another relay wrote of a machine not held here is left as it was.
\<close>

theorem flush_tells_what_is_held:
  assumes "keyed db" and "distinct (map tt_machineId live)"
    and "\<forall>r\<in>set (pd_tunnels db). tl_relay r = relay \<longrightarrow> tl_lastSeenAt r < now"
  shows "tunnel_of (presence_flush relay nonce live now db) m =
    (case List.find (\<lambda>st. tt_machineId st = m) live of
       Some st \<Rightarrow> (case tunnel_of db m of
           Some r \<Rightarrow> if tl_relay r \<noteq> relay \<and> tt_since st < tl_connectedAt r then Some r else Some (refreshed_row relay now st)
         | None \<Rightarrow> Some (refreshed_row relay now st))
     | None \<Rightarrow> (case tunnel_of db m of Some r \<Rightarrow> if tl_relay r = relay then None else Some r | None \<Rightarrow> None))"
proof -
  let ?f = "fold (refresh_tunnel relay now) live db"
  note f = fold_refresh [OF assms(1,2), of relay now m]
  have old: "tl_lastSeenAt r < now" if "tunnel_of db m = Some r" "tl_relay r = relay" for r
    using assms(3) that by (auto simp: tunnel_of_def dest!: find_in)
  have "tunnel_of (presence_flush relay nonce live now db) m =
      (case tunnel_of ?f m of None \<Rightarrow> None | Some r \<Rightarrow> if tl_relay r = relay \<and> tl_lastSeenAt r < now then None else Some r)"
    using f by (simp add: presence_flush_def Let_def tunnel_of_delete)
  then show ?thesis using f old
    by (cases "tunnel_of db m") (auto simp: refreshed_row_def yields_def split: option.split)
qed

definition two_tunnels :: presence_db where
  "two_tunnels = \<lparr>pd_tunnels = [\<lparr>tl_machine = [1], tl_relay = [7], tl_connectedAt = 10, tl_lastSeenAt = 20, tl_requestsProxied = 0, tl_activeStreams = 0\<rparr>,
       \<lparr>tl_machine = [2], tl_relay = [8], tl_connectedAt = 15, tl_lastSeenAt = 20, tl_requestsProxied = 0, tl_activeStreams = 0\<rparr>],
     pd_lastSeen = Map.empty, pd_instances = Map.empty\<rparr>"

theorem flush_tells_what_is_held_witness:
  "let live = [\<lparr>tt_machineId = [2], tt_relayId = [7], tt_since = 12, tt_activeStreams = 1, tt_requestsProxied = 4\<rparr>];
       db = presence_flush [7] [] live 30 two_tunnels
   in tunnel_of db [1] = None \<and> map_option tl_relay (tunnel_of db [2]) = Some [8]"
proof -
  let ?live = "[\<lparr>tt_machineId = [2], tt_relayId = [7], tt_since = 12, tt_activeStreams = 1, tt_requestsProxied = 4\<rparr>]"
  have ok: "keyed two_tunnels" "distinct (map tt_machineId ?live)"
    "\<forall>r\<in>set (pd_tunnels two_tunnels). tl_relay r = [7] \<longrightarrow> tl_lastSeenAt r < 30"
    by (simp_all add: keyed_def two_tunnels_def)
  show ?thesis using flush_tells_what_is_held [OF ok, of "[]"] by (simp add: Let_def tunnel_of_def two_tunnels_def)
qed

text \<open>What a relay may still write of a machine that left it.\<close>

datatype presence_write = Flushes "tunnel_stats list" int | Goes_down ustring | Clears

fun relay_writes :: "ustring \<Rightarrow> ustring \<Rightarrow> presence_write \<Rightarrow> presence_db \<Rightarrow> presence_db" where
  "relay_writes relay nonce (Flushes live now) db = presence_flush relay nonce live now db"
| "relay_writes relay nonce (Goes_down m) db = presence_down relay m db"
| "relay_writes relay nonce Clears db = presence_clear relay db"

fun older_than :: "ustring \<Rightarrow> int \<Rightarrow> presence_write \<Rightarrow> bool" where
  "older_than m since (Flushes live now) \<longleftrightarrow> distinct (map tt_machineId live) \<and> (\<forall>st\<in>set live. tt_machineId st = m \<longrightarrow> tt_since st < since)"
| "older_than m since _ \<longleftrightarrow> True"

lemma moved_step:
  assumes "keyed db" and "tunnel_of db m = Some r" and "tl_relay r \<noteq> relay" and "older_than m (tl_connectedAt r) w"
  shows "keyed (relay_writes relay nonce w db) \<and> tunnel_of (relay_writes relay nonce w db) m = Some r"
proof (cases w)
  case (Flushes live now)
  let ?f = "fold (refresh_tunnel relay now) live db"
  have live: "distinct (map tt_machineId live)" "\<forall>st\<in>set live. tt_machineId st = m \<longrightarrow> tt_since st < tl_connectedAt r"
    using assms(4) Flushes by simp_all
  note f = fold_refresh [OF assms(1) live(1), of relay now m]
  have "tt_since st < tl_connectedAt r" if "List.find (\<lambda>st. tt_machineId st = m) live = Some st" for st
    using live(2) that by (auto dest: find_in)
  with f assms(2,3) have "tunnel_of ?f m = Some r" by (auto simp: yields_def split: option.splits dest: not_le_imp_less)
  with conjunct1 [OF f] assms(3) Flushes show ?thesis by (simp add: presence_flush_def Let_def tunnel_of_delete keyed_delete)
next
  case (Goes_down n)
  with assms show ?thesis by (simp add: presence_down_def tunnel_of_delete keyed_delete)
next
  case Clears
  with assms show ?thesis by (simp add: presence_clear_def tunnel_of_delete keyed_delete)
qed

text \<open>
  The relay a machine moved to keeps it. Once another relay has a row of the machine, nothing the
  relay it left still writes, in any order, as long as its own tunnel is the older one, takes the
  machine away from where it is: not its flushes, not the end of its tunnel, not its shutdown.
\<close>

theorem the_relay_moved_to_keeps_the_machine:
  assumes "keyed db" and "tunnel_of db m = Some r" and "tl_relay r \<noteq> relay" and "\<forall>w\<in>set writes. older_than m (tl_connectedAt r) w"
  shows "tunnel_of (fold (relay_writes relay nonce) writes db) m = Some r"
proof -
  have "keyed (fold (relay_writes relay nonce) writes db) \<and> tunnel_of (fold (relay_writes relay nonce) writes db) m = Some r"
    using assms
  proof (induction writes arbitrary: db)
    case (Cons w writes)
    with moved_step [of db m r relay w nonce] show ?case by simp
  qed simp
  then show ?thesis ..
qed

theorem the_relay_moved_to_keeps_the_machine_witness:
  "map_option tl_relay (tunnel_of (fold (relay_writes [7] [])
     [Flushes [\<lparr>tt_machineId = [2], tt_relayId = [7], tt_since = 12, tt_activeStreams = 1, tt_requestsProxied = 4\<rparr>] 30, Goes_down [2], Clears] two_tunnels) [2]) = Some [8]"
proof -
  have "keyed two_tunnels" "tunnel_of two_tunnels [2] = Some \<lparr>tl_machine = [2], tl_relay = [8], tl_connectedAt = 15, tl_lastSeenAt = 20, tl_requestsProxied = 0, tl_activeStreams = 0\<rparr>"
    by (simp_all add: keyed_def two_tunnels_def tunnel_of_def)
  from the_relay_moved_to_keeps_the_machine [OF this, where relay = "[7]" and nonce = "[]" and writes = "[Flushes [\<lparr>tt_machineId = [2], tt_relayId = [7], tt_since = 12,
      tt_activeStreams = 1, tt_requestsProxied = 4\<rparr>] 30, Goes_down [2], Clears]"] show ?thesis by simp
qed

datatype claim_act = Claims ustring int | Beats ustring int | Releases ustring

fun do_claim :: "ustring \<Rightarrow> claim_act \<Rightarrow> presence_db \<Rightarrow> relay_claim option \<times> presence_db" where
  "do_claim relay (Claims nonce now) db = (let (r, db) = claimRelayId relay nonce now db in (Some r, db))"
| "do_claim relay (Beats nonce now) db = (None, beat relay nonce now db)"
| "do_claim relay (Releases nonce) db = (None, releaseRelayId relay nonce db)"

fun claim_acts :: "ustring \<Rightarrow> claim_act list \<Rightarrow> presence_db \<Rightarrow> relay_claim option list \<times> presence_db" where
  "claim_acts relay [] db = ([], db)"
| "claim_acts relay (a # acts) db = (let (r, db) = do_claim relay a db; (rs, db) = claim_acts relay acts db in (r # rs, db))"

text \<open>The holder was last seen at \<open>seen\<close>; it does not release, and nobody tries too late.\<close>

fun kept_alive :: "ustring \<Rightarrow> int \<Rightarrow> claim_act list \<Rightarrow> bool" where
  "kept_alive holder seen [] \<longleftrightarrow> True"
| "kept_alive holder seen (Claims nonce now # acts) \<longleftrightarrow>
     (if nonce = holder then kept_alive holder now acts else now < seen + RELAY_CLAIM_STALE_MS \<and> kept_alive holder seen acts)"
| "kept_alive holder seen (Beats nonce now # acts) \<longleftrightarrow> kept_alive holder (if nonce = holder then now else seen) acts"
| "kept_alive holder seen (Releases nonce # acts) \<longleftrightarrow> nonce \<noteq> holder \<and> kept_alive holder seen acts"

definition held_by :: "presence_db \<Rightarrow> ustring \<Rightarrow> ustring \<Rightarrow> int \<Rightarrow> bool" where
  "held_by db relay holder seen \<longleftrightarrow> (\<exists>r. pd_instances db relay = Some r \<and> ri_nonce r = holder \<and> ri_lastSeenAt r = seen)"

text \<open>
  C37. One process holds a relay's name. As long as the process that claimed it flushes or claims anew
  less than twenty seconds before every attempt of another, every such attempt is refused, nothing
  another process releases or beats changes who holds it, and the holder holds it at the end.
\<close>

theorem one_process_holds_a_relay:
  assumes "held_by db relay holder seen" and "kept_alive holder seen acts"
  shows "list_all2 (\<lambda>a r. case a of Claims nonce now \<Rightarrow> (r = Some Claim_ok) = (nonce = holder) | _ \<Rightarrow> r = None) acts (fst (claim_acts relay acts db))
    \<and> (\<exists>seen'. held_by (snd (claim_acts relay acts db)) relay holder seen')"
  using assms
proof (induction acts arbitrary: db seen)
  case (Cons a acts)
  show ?case
  proof (cases a)
    case (Claims nonce now)
    show ?thesis
    proof (cases "nonce = holder")
      case True
      have "held_by (snd (claimRelayId relay nonce now db)) relay holder now" "fst (claimRelayId relay nonce now db) = Claim_ok"
        using Cons.prems(1) True by (auto simp: held_by_def claimRelayId_def)
      with Cons.IH [of "snd (claimRelayId relay nonce now db)" now] Cons.prems(2) Claims True
      show ?thesis by (simp add: Let_def case_prod_unfold)
    next
      case False
      have "snd (claimRelayId relay nonce now db) = db" "fst (claimRelayId relay nonce now db) \<noteq> Claim_ok"
        using Cons.prems Claims False by (auto simp: held_by_def claimRelayId_def)
      with Cons.IH [OF Cons.prems(1)] Cons.prems(2) Claims False
      show ?thesis by (simp add: Let_def case_prod_unfold)
    qed
  next
    case (Beats nonce now)
    have "held_by (beat relay nonce now db) relay holder (if nonce = holder then now else seen)"
      using Cons.prems(1) by (auto simp: held_by_def beat_def)
    from Cons.IH [OF this] Cons.prems(2) Beats show ?thesis by (simp add: Let_def case_prod_unfold)
  next
    case (Releases nonce)
    have "held_by (releaseRelayId relay nonce db) relay holder seen"
      using Cons.prems Releases by (auto simp: held_by_def releaseRelayId_def)
    from Cons.IH [OF this] Cons.prems(2) Releases show ?thesis by (simp add: Let_def case_prod_unfold)
  qed
qed (auto simp: held_by_def)

theorem one_process_holds_a_relay_witness:
  "fst (claim_acts [7] [Beats [1] 15000, Claims [2] 34999, Releases [2]]
      (snd (claimRelayId [7] [1] 0 \<lparr>pd_tunnels = [], pd_lastSeen = Map.empty, pd_instances = Map.empty\<rparr>))) ! 1 \<noteq> Some Claim_ok"
proof -
  let ?db = "snd (claimRelayId [7] [1] 0 \<lparr>pd_tunnels = [], pd_lastSeen = Map.empty, pd_instances = Map.empty\<rparr>)"
  have "held_by ?db [7] [1] 0" by (simp add: held_by_def claimRelayId_def)
  moreover have "kept_alive [1] 0 [Beats [1] 15000, Claims [2] 34999, Releases [2]]" by (simp add: RELAY_CLAIM_STALE_MS_def)
  ultimately show ?thesis
    using one_process_holds_a_relay [of ?db "[7]" "[1]" 0 "[Beats [1] 15000, Claims [2] 34999, Releases [2]]"]
    by (simp add: Let_def case_prod_unfold)
qed

text \<open>Text with no blank at either end.\<close>

definition tight :: "ustring \<Rightarrow> bool" where "tight s \<longleftrightarrow> s \<noteq> [] \<and> \<not> js_space (hd s) \<and> \<not> js_space (last s)"

lemma trim_tight: "tight s \<Longrightarrow> js_trim s = s"
proof -
  assume t: "tight s"
  then have "dropWhile js_space s = s" by (cases s) (simp_all add: tight_def)
  moreover have "dropWhile js_space (rev s) = rev s" using t by (cases s rule: rev_cases) (simp_all add: tight_def)
  ultimately show ?thesis by (simp add: js_trim_def)
qed

lemma tight_append: "tight a \<Longrightarrow> tight b \<Longrightarrow> tight (a @ c @ b)"
  by (cases a) (auto simp: tight_def)

definition url_entry :: "ustring \<times> ustring \<Rightarrow> ustring" where "url_entry e = fst e @ 61 # snd e"

definition address_ok :: "(ustring \<Rightarrow> ustring option) \<Rightarrow> ustring \<times> ustring \<Rightarrow> bool" where
  "address_ok scheme e \<longleftrightarrow> tight (fst e) \<and> tight (snd e) \<and> 61 \<notin> set (fst e) \<and> 44 \<notin> set (fst e) \<and> 44 \<notin> set (snd e) \<and> isBrowserReachable scheme (snd e)"

lemma tight_entry: "address_ok scheme e \<Longrightarrow> tight (url_entry e)"
  using tight_append [of "fst e" "snd e" "[61]"] by (simp add: address_ok_def url_entry_def)

lemma relay_entries_read:
  "\<forall>e\<in>set es. address_ok scheme e \<Longrightarrow> distinct (map fst (out @ es)) \<Longrightarrow> out @ es \<noteq> [] \<Longrightarrow>
     relay_entries scheme (map url_entry es) out = Relay_urls (out @ es)"
proof (induction es arbitrary: out)
  case (Cons e es)
  have ok: "address_ok scheme e" using Cons.prems(1) by simp
  have key: "takeWhile (\<lambda>c. c \<noteq> 61) (url_entry e) = fst e" using ok by (auto simp: url_entry_def address_ok_def takeWhile_tail)
  have "relay_entries scheme (map url_entry es) (out @ [e]) = Relay_urls ((out @ [e]) @ es)"
    by (rule Cons.IH) (use Cons.prems in auto)
  moreover have "fst e \<notin> fst ` set out" using Cons.prems(2) by auto
  moreover have "url_entry e \<noteq> []" "61 \<in> set (url_entry e)" "drop (length (fst e) + 1) (url_entry e) = snd e" by (simp_all add: url_entry_def)
  ultimately show ?case using ok trim_tight [OF tight_entry [OF ok]] trim_tight [of "fst e"] trim_tight [of "snd e"] key
    by (simp add: Let_def address_ok_def tight_def)
qed simp

lemma split_entries:
  assumes "\<forall>e\<in>set (e0 # es). address_ok scheme e"
  shows "split_on 44 (join [44] (map url_entry (e0 # es))) = map url_entry (e0 # es)"
  using assms
proof (induction es arbitrary: e0)
  case Nil
  then show ?case by (auto simp: split_on_none url_entry_def address_ok_def)
next
  case (Cons e es)
  then have "44 \<notin> set (url_entry e0)" by (auto simp: url_entry_def address_ok_def)
  from split_on_plain [OF this] Cons show ?case by simp
qed

lemma tight_join: "\<forall>e\<in>set (e0 # es). address_ok scheme e \<Longrightarrow> tight (join [44] (map url_entry (e0 # es)))"
proof (induction es arbitrary: e0)
  case (Cons e es)
  have "tight (url_entry e0)" by (rule tight_entry) (use Cons.prems in auto)
  moreover have "tight (join [44] (map url_entry (e # es)))" by (rule Cons.IH) (use Cons.prems in auto)
  ultimately have "tight (url_entry e0 @ [44] @ join [44] (map url_entry (e # es)))" by (rule tight_append)
  then show ?case by simp
qed (auto simp: tight_entry)

text \<open>
  The addresses of relays read back. A setting that lists relays under different names, each with
  an address a browser can reach, is read as exactly those names and addresses.
\<close>

theorem relay_addresses_read_back:
  assumes "es \<noteq> []" and "distinct (map fst es)" and "\<forall>e\<in>set es. address_ok scheme e"
  shows "parseRelayUrls scheme (Some (join [44] (map url_entry es))) = Relay_urls es"
proof -
  obtain e0 rest where es: "es = e0 # rest" using assms(1) by (cases es) auto
  have t: "tight (join [44] (map url_entry es))" using tight_join [of e0 rest scheme] assms(3) by (simp add: es)
  have "split_on 44 (join [44] (map url_entry es)) = map url_entry es" using split_entries [of e0 rest scheme] assms(3) by (simp add: es)
  with relay_entries_read [of es scheme "[]"] assms t show ?thesis by (simp add: parseRelayUrls_def trim_tight Let_def tight_def)
qed

theorem relay_addresses_read_back_witness:
  "parseRelayUrls (\<lambda>u. Some (asc ''https:'')) (Some (join [44] (map url_entry [(asc ''eu'', asc ''https://eu''), (asc ''us'', asc ''https://us'')])))
    = Relay_urls [(asc ''eu'', asc ''https://eu''), (asc ''us'', asc ''https://us'')]"
  by (rule relay_addresses_read_back) (simp_all add: address_ok_def tight_def asc_def js_space_def isBrowserReachable_def)

end
