(* ===== verification/RelayTunnels.thy ===== *)
theory RelayTunnels
  imports RelayPresence
begin

text \<open>
  The tunnels a relay process holds (\<open>src/packages/control-plane/src/relay/registry.ts\<close>): a tunnel and
  the streams opened through it, one tunnel for each machine, a newer one superseding an older. A
  tunnel is named by a number, its HTTP/2 session and its socket are outside: whether the session is
  over and whether it takes a stream are arguments, what is asked of the socket, of the presence
  table and of the observer are effects, in their order.
\<close>

subsection \<open>A tunnel\<close>

definition MAX_STREAMS_PER_SUBJECT :: nat where "MAX_STREAMS_PER_SUBJECT = 64"

record relay_tunnel =
  tn_machineId :: ustring
  tn_since :: int
  tn_protocolVersion :: int
  tn_closed :: bool
  tn_sessionOver :: bool
  tn_opened :: nat
  tn_active :: nat
  tn_perSubject :: "ustring \<rightharpoonup> nat"

definition new_tunnel :: "ustring \<Rightarrow> int \<Rightarrow> int \<Rightarrow> relay_tunnel" where
  "new_tunnel machineId since protocolVersion = \<lparr>tn_machineId = machineId, tn_since = since, tn_protocolVersion = protocolVersion,
     tn_closed = False, tn_sessionOver = False, tn_opened = 0, tn_active = 0, tn_perSubject = Map.empty\<rparr>"

definition tn_isClosed :: "relay_tunnel \<Rightarrow> bool" where "tn_isClosed t \<longleftrightarrow> tn_closed t \<or> tn_sessionOver t"

definition streams_held :: "relay_tunnel \<Rightarrow> ustring \<Rightarrow> nat" where
  "streams_held t subject = (case tn_perSubject t subject of None \<Rightarrow> 0 | Some n \<Rightarrow> n)"

record stream_request =
  sq_version :: int
  sq_encryption :: ustring
  sq_subject :: ustring

text \<open>\<open>takes\<close>: the session does not throw on the request.\<close>

definition open_stream :: "bool \<Rightarrow> ustring \<Rightarrow> ustring \<Rightarrow> relay_tunnel \<Rightarrow> stream_request option \<times> relay_tunnel" where
  "open_stream takes subject encryption t =
     (if tn_isClosed t then (None, t)
      else if MAX_STREAMS_PER_SUBJECT \<le> streams_held t subject then (None, t)
      else if \<not> takes then (None, t)
      else (Some \<lparr>sq_version = tn_protocolVersion t, sq_encryption = encryption, sq_subject = subject\<rparr>,
        t\<lparr>tn_opened := tn_opened t + 1, tn_active := tn_active t + 1,
          tn_perSubject := (tn_perSubject t)(subject \<mapsto> streams_held t subject + 1)\<rparr>))"

text \<open>The listener on a stream's close.\<close>

definition stream_done :: "ustring \<Rightarrow> relay_tunnel \<Rightarrow> relay_tunnel" where
  "stream_done subject t =
     t\<lparr>tn_active := (if 0 < tn_active t then tn_active t - 1 else tn_active t),
       tn_perSubject := (if streams_held t subject \<le> 1 then (tn_perSubject t)(subject := None)
         else (tn_perSubject t)(subject \<mapsto> streams_held t subject - 1))\<rparr>"

subsection \<open>The registry\<close>

datatype registry_effect =
    Tells string ustring
  | Shuts nat nat string
  | Writes_up ustring int
  | Writes_down ustring

record tunnel_registry =
  rg_tunnels :: "(ustring \<times> nat) list"
  rg_heap :: "nat \<Rightarrow> relay_tunnel"

definition close_tunnel :: "nat \<Rightarrow> nat \<Rightarrow> string \<Rightarrow> tunnel_registry \<Rightarrow> registry_effect list \<times> tunnel_registry" where
  "close_tunnel tid code reason reg =
     (if tn_closed (rg_heap reg tid) then ([], reg)
      else ([Shuts tid code reason], reg\<lparr>rg_heap := (rg_heap reg)(tid := (rg_heap reg tid)\<lparr>tn_closed := True\<rparr>)\<rparr>))"

text \<open>\<open>Map.prototype.set\<close>: a key that is there keeps its place.\<close>

definition map_set :: "'a \<Rightarrow> 'b \<Rightarrow> ('a \<times> 'b) list \<Rightarrow> ('a \<times> 'b) list" where
  "map_set k v xs = (if k \<in> fst ` set xs then map (\<lambda>(x, y). (x, if x = k then v else y)) xs else xs @ [(k, v)])"

definition register_tunnel :: "nat \<Rightarrow> nat \<Rightarrow> tunnel_registry \<Rightarrow> registry_effect list \<times> tunnel_registry" where
  "register_tunnel tid supersededCode reg =
     (let m = tn_machineId (rg_heap reg tid);
          placed = reg\<lparr>rg_tunnels := map_set m tid (rg_tunnels reg)\<rparr>;
          (said, closed) = (case map_of (rg_tunnels reg) m of
             None \<Rightarrow> ([], placed)
           | Some old \<Rightarrow> (let (e, r) = close_tunnel old supersededCode ''superseded by a newer tunnel'' placed in (Tells ''tunnel_superseded'' m # e, r)))
      in (said @ [Tells ''tunnel_up'' m, Writes_up m (tn_since (rg_heap reg tid))], closed))"

definition unregister_tunnel :: "nat \<Rightarrow> tunnel_registry \<Rightarrow> registry_effect list \<times> tunnel_registry" where
  "unregister_tunnel tid reg =
     (let m = tn_machineId (rg_heap reg tid) in
      if map_of (rg_tunnels reg) m \<noteq> Some tid then ([], reg)
      else ([Tells ''tunnel_down'' m, Writes_down m], reg\<lparr>rg_tunnels := filter (\<lambda>(x, _). x \<noteq> m) (rg_tunnels reg)\<rparr>))"

definition get_tunnel :: "ustring \<Rightarrow> tunnel_registry \<Rightarrow> nat option \<times> registry_effect list \<times> tunnel_registry" where
  "get_tunnel machineId reg =
     (case map_of (rg_tunnels reg) machineId of
        None \<Rightarrow> (None, [], reg)
      | Some tid \<Rightarrow> if tn_isClosed (rg_heap reg tid) then (None, unregister_tunnel tid reg) else (Some tid, [], reg))"

definition tunnel_isOnline :: "ustring \<Rightarrow> tunnel_registry \<Rightarrow> bool \<times> registry_effect list \<times> tunnel_registry" where
  "tunnel_isOnline machineId reg = (let (found, rest) = get_tunnel machineId reg in (found \<noteq> None, rest))"

definition tunnel_relayFor :: "ustring \<Rightarrow> ustring \<Rightarrow> tunnel_registry \<Rightarrow> ustring option \<times> registry_effect list \<times> tunnel_registry" where
  "tunnel_relayFor relayId machineId reg = (let (found, rest) = get_tunnel machineId reg in (if found = None then None else Some relayId, rest))"

definition registry_stats :: "ustring \<Rightarrow> tunnel_registry \<Rightarrow> tunnel_stats list" where
  "registry_stats relayId reg =
     map (\<lambda>(_, tid). let t = rg_heap reg tid in \<lparr>tt_machineId = tn_machineId t, tt_relayId = relayId, tt_since = tn_since t,
         tt_activeStreams = tn_active t, tt_requestsProxied = tn_opened t\<rparr>) (rg_tunnels reg)"

definition closeAll :: "nat \<Rightarrow> string \<Rightarrow> tunnel_registry \<Rightarrow> registry_effect list \<times> tunnel_registry" where
  "closeAll code reason reg =
     (let (said, closed) = fold (\<lambda>(_, tid) (es, r). let (e, r') = close_tunnel tid code reason r
          in (es @ e @ [Writes_down (tn_machineId (rg_heap r tid))], r')) (rg_tunnels reg) ([], reg)
      in (said, closed\<lparr>rg_tunnels := []\<rparr>))"


subsection \<open>A tunnel's share for each caller\<close>

text \<open>A tunnel with the callers of the streams open through it, in any order.\<close>

inductive tunnel_serves :: "relay_tunnel \<Rightarrow> ustring list \<Rightarrow> bool" where
  serves_new: "tunnel_serves (new_tunnel m since v) []"
| serves_open: "tunnel_serves t ss \<Longrightarrow> open_stream takes s e t = (answer, t') \<Longrightarrow> tunnel_serves t' (if answer = None then ss else s # ss)"
| serves_done: "tunnel_serves t (xs @ s # ys) \<Longrightarrow> tunnel_serves (stream_done s t) (xs @ ys)"
| serves_over: "tunnel_serves t ss \<Longrightarrow> tunnel_serves (t\<lparr>tn_sessionOver := True\<rparr>) ss"
| serves_closed: "tunnel_serves t ss \<Longrightarrow> tunnel_serves (t\<lparr>tn_closed := True\<rparr>) ss"

lemma open_stream_cases:
  assumes "open_stream takes s e t = (answer, t')"
  obtains (refused) "answer = None" "t' = t" "tn_isClosed t \<or> MAX_STREAMS_PER_SUBJECT \<le> streams_held t s \<or> \<not> takes"
  | (opened) "answer = Some \<lparr>sq_version = tn_protocolVersion t, sq_encryption = e, sq_subject = s\<rparr>" "\<not> tn_isClosed t" "takes" "streams_held t s < MAX_STREAMS_PER_SUBJECT"
      "t' = t\<lparr>tn_opened := tn_opened t + 1, tn_active := tn_active t + 1, tn_perSubject := (tn_perSubject t)(s \<mapsto> streams_held t s + 1)\<rparr>"
  using assms by (auto simp: open_stream_def split: if_splits)

lemma streams_held_upd [simp]:
  "streams_held (t\<lparr>tn_perSubject := f\<rparr>) s = (case f s of None \<Rightarrow> 0 | Some n \<Rightarrow> n)"
  "streams_held (t\<lparr>tn_closed := b\<rparr>) s = streams_held t s" "streams_held (t\<lparr>tn_sessionOver := b\<rparr>) s = streams_held t s"
  by (simp_all add: streams_held_def)

definition counts :: "relay_tunnel \<Rightarrow> ustring list \<Rightarrow> bool" where
  "counts t ss \<longleftrightarrow> tn_active t = length ss \<and> length ss \<le> tn_opened t \<and>
     (\<forall>s. tn_perSubject t s = (if s \<in> set ss then Some (count_list ss s) else None)) \<and> (\<forall>s. count_list ss s \<le> MAX_STREAMS_PER_SUBJECT)"

lemma streams_held_counts: "counts t ss \<Longrightarrow> streams_held t s = count_list ss s"
  by (auto simp: counts_def streams_held_def count_list_0_iff)

lemma count_pos: "s \<in> set ss \<Longrightarrow> 0 < count_list ss s"
  by (meson count_list_0_iff gr0I)

lemma counts_open:
  assumes "counts t ss" and "open_stream takes s e t = (answer, t')"
  shows "counts t' (if answer = None then ss else s # ss)"
  using assms(2)
proof (cases rule: open_stream_cases)
  case refused
  with assms(1) show ?thesis by simp
next
  case opened
  with assms(1) streams_held_counts [OF assms(1), of s] show ?thesis
    by (auto simp: counts_def count_list_0_iff)
qed

lemma count_remove: "count_list (xs @ s # ys) x = count_list (xs @ ys) x + (if x = s then 1 else 0)"
  by (simp add: count_list_append)

lemma counts_done:
  assumes "counts t (xs @ s # ys)"
  shows "counts (stream_done s t) (xs @ ys)"
proof -
  let ?zs = "xs @ ys"
  have h: "streams_held t s = count_list ?zs s + 1" using streams_held_counts [OF assms, of s] by (simp add: count_remove)
  have per: "tn_perSubject t x = (if x \<in> set (xs @ s # ys) then Some (count_list (xs @ s # ys) x) else None)" for x
    using assms by (simp add: counts_def)
  have "count_list ?zs x \<le> MAX_STREAMS_PER_SUBJECT" for x
    using assms count_remove [of xs s ys x] by (auto simp: counts_def dest: spec [of _ x])
  moreover have "tn_perSubject (stream_done s t) x = (if x \<in> set ?zs then Some (count_list ?zs x) else None)" for x
  proof (cases "x = s")
    case True
    have "s \<in> set ?zs \<longleftrightarrow> 0 < count_list ?zs s" by (metis count_list_0_iff gr0I less_irrefl)
    with True h show ?thesis by (auto simp: stream_done_def)
  next
    case False
    with per [of x] h show ?thesis by (auto simp: stream_done_def count_list_append)
  qed
  ultimately show ?thesis using assms by (auto simp: counts_def stream_done_def)
qed

lemma serves_counts: "tunnel_serves t ss \<Longrightarrow> counts t ss"
proof (induction rule: tunnel_serves.induct)
  case (serves_new m since v)
  then show ?case by (simp add: counts_def new_tunnel_def)
next
  case (serves_open t ss takes s e answer t')
  then show ?case by (rule_tac counts_open)
next
  case (serves_done t xs s ys)
  then show ?case by (rule_tac counts_done)
qed (simp_all add: counts_def)

text \<open>
  C36. A caller's share of a tunnel is its own. After any sequence of streams opened, refused and
  closed: nobody holds more than 64 streams; a caller is refused exactly when the tunnel is closed,
  when the session does not take the stream or when the caller itself holds its share, however many
  the others hold; a stream that opens is stamped with the version and the mode its tunnel and its
  opener say; and the tunnel remembers nobody who holds no stream.
\<close>

theorem a_callers_share_is_its_own:
  assumes "tunnel_serves t ss"
  shows "count_list ss s \<le> 64 \<and> tn_active t = length ss \<and> dom (tn_perSubject t) = set ss \<and>
    fst (open_stream takes s e t) = (if \<not> tn_isClosed t \<and> count_list ss s < 64 \<and> takes
       then Some \<lparr>sq_version = tn_protocolVersion t, sq_encryption = e, sq_subject = s\<rparr> else None)"
proof -
  have c: "counts t ss" by (rule serves_counts [OF assms])
  have "dom (tn_perSubject t) = set ss" using c by (auto simp: counts_def split: if_splits)
  with c streams_held_counts [OF c, of s] show ?thesis
    by (auto simp: counts_def MAX_STREAMS_PER_SUBJECT_def open_stream_def)
qed

lemma serves_full:
  "tunnel_serves (new_tunnel m 0 1\<lparr>tn_opened := n, tn_active := n, tn_perSubject := (if n = 0 then Map.empty else [s \<mapsto> n])\<rparr>) (replicate n s)"
  if "n \<le> 64"
  using that
proof (induction n)
  case 0
  have "new_tunnel m 0 1\<lparr>tn_opened := 0, tn_active := 0, tn_perSubject := Map.empty\<rparr> = new_tunnel m 0 1" by (simp add: new_tunnel_def)
  then show ?case using serves_new [of m 0 1] by simp
next
  case (Suc n)
  let ?t = "new_tunnel m 0 1\<lparr>tn_opened := n, tn_active := n, tn_perSubject := (if n = 0 then Map.empty else [s \<mapsto> n])\<rparr>"
  have "open_stream True s [] ?t = (Some \<lparr>sq_version = 1, sq_encryption = [], sq_subject = s\<rparr>,
     new_tunnel m 0 1\<lparr>tn_opened := Suc n, tn_active := Suc n, tn_perSubject := [s \<mapsto> Suc n]\<rparr>)"
    using Suc.prems by (auto simp: open_stream_def new_tunnel_def tn_isClosed_def MAX_STREAMS_PER_SUBJECT_def streams_held_def)
  from serves_open [OF Suc.IH this] Suc.prems show ?case by (simp add: fun_upd_def)
qed

theorem a_callers_share_is_its_own_witness:
  "\<exists>t. fst (open_stream True (asc ''ann'') [] t) = None \<and> fst (open_stream True (asc ''bob'') [] t) \<noteq> None"
proof -
  let ?t = "new_tunnel [] 0 1\<lparr>tn_opened := 64, tn_active := 64, tn_perSubject := [asc ''ann'' \<mapsto> 64]\<rparr>"
  have t: "tunnel_serves ?t (replicate 64 (asc ''ann''))" using serves_full [where n = 64 and m = "[]" and s = "asc ''ann''"] by simp
  have "count_list (replicate n x) y = (if x = y then n else 0)" for n and x y :: ustring by (induction n) auto
  moreover have "asc ''ann'' \<noteq> asc ''bob''" by (simp add: asc_def)
  moreover have "\<not> tn_isClosed ?t" by (simp add: tn_isClosed_def new_tunnel_def)
  ultimately have "fst (open_stream True (asc ''ann'') [] ?t) = None \<and> fst (open_stream True (asc ''bob'') [] ?t) \<noteq> None"
    using a_callers_share_is_its_own [OF t, of "asc ''ann''" True "[]"] a_callers_share_is_its_own [OF t, of "asc ''bob''" True "[]"] by simp
  then show ?thesis by blast
qed


subsection \<open>Registry and table\<close>

text \<open>
  What the presence writer does of the registry's effects. Each effect comes with the number of its
  statements that succeed: \<open>guarded\<close> swallows what a statement throws.
\<close>

fun write_some :: "ustring \<Rightarrow> int \<Rightarrow> nat \<times> registry_effect \<Rightarrow> presence_db \<Rightarrow> presence_db" where
  "write_some me now (k, Writes_up m since) db = presence_up me m since now k db"
| "write_some me now (k, Writes_down m) db = (if k = 0 then db else presence_down me m db)"
| "write_some me now (k, Tells event m) db = db"
| "write_some me now (k, Shuts tid code reason) db = db"

fun write_lost :: "nat \<times> registry_effect \<Rightarrow> bool" where
  "write_lost (k, Writes_up m since) \<longleftrightarrow> k = 0"
| "write_lost (k, Writes_down m) \<longleftrightarrow> k = 0"
| "write_lost (k, Tells event m) \<longleftrightarrow> False"
| "write_lost (k, Shuts tid code reason) \<longleftrightarrow> False"

definition mirror :: "ustring \<Rightarrow> int \<Rightarrow> (nat \<times> registry_effect) list \<Rightarrow> presence_db \<Rightarrow> presence_db" where
  "mirror me now outs db = fold (write_some me now) outs db"

text \<open>A flush repairs when it comes after everything this relay wrote.\<close>

definition repairs :: "ustring \<Rightarrow> int \<Rightarrow> presence_db \<Rightarrow> bool" where
  "repairs me now db \<longleftrightarrow> (\<forall>r\<in>set (pd_tunnels db). tl_relay r = me \<longrightarrow> tl_lastSeenAt r < now)"

text \<open>
  A relay process beside others: tunnels arrive, each a new object; sockets close late; sessions end;
  streams come and go; lookups, flushes and the shutdown; and other relays write rows, only of the
  machines of the set \<open>shared\<close>. Any write may fail; \<open>lost\<close> says that one has since the last flush that
  repairs, or that a process before this one left rows behind. A flush is one transaction: one that
  fails is no step.
\<close>

inductive relay_runs :: "ustring \<Rightarrow> ustring set \<Rightarrow> bool \<Rightarrow> nat \<Rightarrow> tunnel_registry \<Rightarrow> presence_db \<Rightarrow> bool" for me shared where
  runs_start: "keyed db \<Longrightarrow> \<forall>m r. m \<notin> shared \<longrightarrow> tunnel_of db m = Some r \<longrightarrow> tl_relay r = me
    \<Longrightarrow> relay_runs me shared (\<exists>m r. tunnel_of db m = Some r \<and> tl_relay r = me) 0 \<lparr>rg_tunnels = [], rg_heap = h\<rparr> db"
| runs_arrive: "relay_runs me shared lost n reg db \<Longrightarrow> register_tunnel n code (reg\<lparr>rg_heap := (rg_heap reg)(n := new_tunnel m since v)\<rparr>) = (map snd outs, reg')
    \<Longrightarrow> relay_runs me shared (lost \<or> list_ex write_lost outs) (Suc n) reg' (mirror me now outs db)"
| runs_leave: "relay_runs me shared lost n reg db \<Longrightarrow> tid < n \<Longrightarrow> unregister_tunnel tid reg = (map snd outs, reg')
    \<Longrightarrow> relay_runs me shared (lost \<or> list_ex write_lost outs) n reg' (mirror me now outs db)"
| runs_ask: "relay_runs me shared lost n reg db \<Longrightarrow> get_tunnel m reg = (found, map snd outs, reg')
    \<Longrightarrow> relay_runs me shared (lost \<or> list_ex write_lost outs) n reg' (mirror me now outs db)"
| runs_over: "relay_runs me shared lost n reg db \<Longrightarrow> relay_runs me shared lost n (reg\<lparr>rg_heap := (rg_heap reg)(tid := (rg_heap reg tid)\<lparr>tn_sessionOver := True\<rparr>)\<rparr>) db"
| runs_stream: "relay_runs me shared lost n reg db \<Longrightarrow> open_stream takes s e (rg_heap reg tid) = (answer, t')
    \<Longrightarrow> relay_runs me shared lost n (reg\<lparr>rg_heap := (rg_heap reg)(tid := t')\<rparr>) db"
| runs_done: "relay_runs me shared lost n reg db \<Longrightarrow> relay_runs me shared lost n (reg\<lparr>rg_heap := (rg_heap reg)(tid := stream_done s (rg_heap reg tid))\<rparr>) db"
| runs_flush: "relay_runs me shared lost n reg db \<Longrightarrow> relay_runs me shared (lost \<and> \<not> repairs me now db) n reg (presence_flush me nonce (registry_stats me reg) now db)"
| runs_stop: "relay_runs me shared lost n reg db \<Longrightarrow> closeAll code reason reg = (map snd outs, reg')
    \<Longrightarrow> relay_runs me shared (lost \<or> list_ex write_lost outs) n reg' (mirror me now outs db)"
| runs_other_up: "relay_runs me shared lost n reg db \<Longrightarrow> other \<noteq> me \<Longrightarrow> m \<in> shared \<Longrightarrow> relay_runs me shared lost n reg (presence_up other m since now k db)"
| runs_other_down: "relay_runs me shared lost n reg db \<Longrightarrow> other \<noteq> me \<Longrightarrow> relay_runs me shared lost n reg (presence_down other m db)"
| runs_other_flush: "relay_runs me shared lost n reg db \<Longrightarrow> other \<noteq> me \<Longrightarrow> distinct (map tt_machineId live) \<Longrightarrow> tt_machineId ` set live \<subseteq> shared
    \<Longrightarrow> relay_runs me shared lost n reg (presence_flush other nonce live now db)"

text \<open>The writes when none is lost.\<close>

fun write_effect :: "ustring \<Rightarrow> int \<Rightarrow> registry_effect \<Rightarrow> presence_db \<Rightarrow> presence_db" where
  "write_effect me now (Writes_up m since) db = presence_up me m since now 2 db"
| "write_effect me now (Writes_down m) db = presence_down me m db"
| "write_effect me now _ db = db"

definition mirror_whole :: "ustring \<Rightarrow> int \<Rightarrow> registry_effect list \<Rightarrow> presence_db \<Rightarrow> presence_db" where
  "mirror_whole me now said db = fold (write_effect me now) said db"

lemma write_some_whole:
  "pd_tunnels db = pd_tunnels db' \<Longrightarrow> \<not> write_lost x \<Longrightarrow> pd_tunnels (write_some me now x db) = pd_tunnels (write_effect me now (snd x) db')"
  by (cases x rule: write_lost.cases) (auto simp: presence_up_def presence_down_def upsert_tunnel_def see_machine_def Let_def)

lemma mirror_no_loss:
  "\<not> list_ex write_lost outs \<Longrightarrow> pd_tunnels db = pd_tunnels db' \<Longrightarrow> pd_tunnels (mirror me now outs db) = pd_tunnels (mirror_whole me now (map snd outs) db')"
  by (induction outs arbitrary: db db') (simp_all add: mirror_def mirror_whole_def write_some_whole)

text \<open>The tunnels as a map, and a tunnel's machine and age never changing.\<close>

definition registered :: "tunnel_registry \<Rightarrow> ustring \<Rightarrow> nat option" where "registered reg m = map_of (rg_tunnels reg) m"

definition placed :: "nat \<Rightarrow> tunnel_registry \<Rightarrow> bool" where
  "placed n reg \<longleftrightarrow> distinct (map fst (rg_tunnels reg)) \<and> (\<forall>(m, tid)\<in>set (rg_tunnels reg). tid < n \<and> tn_machineId (rg_heap reg tid) = m)"

definition mirrored :: "ustring \<Rightarrow> ustring set \<Rightarrow> tunnel_registry \<Rightarrow> presence_db \<Rightarrow> bool" where
  "mirrored me shared reg db \<longleftrightarrow> keyed db \<and>
     (\<forall>m r. tunnel_of db m = Some r \<longrightarrow> tl_relay r = me \<longrightarrow> (\<exists>tid. registered reg m = Some tid \<and> tl_connectedAt r = tn_since (rg_heap reg tid))) \<and>
     (\<forall>m. m \<notin> shared \<longrightarrow> (\<forall>r. tunnel_of db m = Some r \<longrightarrow> tl_relay r = me) \<and> (registered reg m \<noteq> None \<longrightarrow> tunnel_of db m \<noteq> None))"

lemma mirrored_row:
  "mirrored me shared reg db \<Longrightarrow> tunnel_of db m = Some r \<Longrightarrow> tl_relay r = me \<Longrightarrow>
     \<exists>tid. registered reg m = Some tid \<and> tl_connectedAt r = tn_since (rg_heap reg tid)"
  by (simp add: mirrored_def)

lemma map_of_map_key: "map_of (map (\<lambda>(a, y). (a, f a y)) xs) x = map_option (f x) (map_of xs x)"
  by (induction xs) auto

lemma map_of_map_set: "map_of (map_set k v xs) x = (if x = k then Some v else map_of xs x)"
proof (cases "map_of xs k")
  case None
  then have "k \<notin> fst ` set xs" by (simp add: map_of_eq_None_iff)
  with None show ?thesis by (cases "map_of xs x"; cases "x = k") (simp_all add: map_set_def map_add_def)
next
  case (Some y)
  then have "k \<in> fst ` set xs" by (metis map_of_eq_None_iff option.distinct(1))
  with Some show ?thesis by (cases "map_of xs x"; cases "x = k") (simp_all add: map_set_def map_of_map_key)
qed

lemma distinct_map_set: "distinct (map fst xs) \<Longrightarrow> distinct (map fst (map_set k v xs))"
  by (auto simp: map_set_def comp_def case_prod_unfold)

lemma set_map_set: "set (map_set k v xs) \<subseteq> insert (k, v) {e \<in> set xs. fst e \<noteq> k}"
  by (auto simp: map_set_def split: if_splits)

lemma map_of_filter: "map_of (filter (\<lambda>(x, _). x \<noteq> k) xs) x = (if x = k then None else map_of xs x)"
  by (induction xs) auto

text \<open>Closing a tunnel changes neither its machine nor its age.\<close>

definition alike :: "tunnel_registry \<Rightarrow> tunnel_registry \<Rightarrow> bool" where
  "alike reg reg' \<longleftrightarrow> rg_tunnels reg' = rg_tunnels reg \<and>
     (\<forall>tid. tn_machineId (rg_heap reg' tid) = tn_machineId (rg_heap reg tid) \<and> tn_since (rg_heap reg' tid) = tn_since (rg_heap reg tid))"

lemma alike_close: "close_tunnel tid code reason reg = (said, reg') \<Longrightarrow> alike reg reg' \<and> (\<forall>me now db. mirror_whole me now said db = db)"
  by (auto simp: close_tunnel_def alike_def mirror_whole_def split: if_splits)

lemma alike_heap [intro]:
  "tn_machineId t' = tn_machineId (rg_heap reg tid) \<Longrightarrow> tn_since t' = tn_since (rg_heap reg tid) \<Longrightarrow> alike reg (reg\<lparr>rg_heap := (rg_heap reg)(tid := t')\<rparr>)"
  by (simp add: alike_def)

lemma alike_placed: "alike reg reg' \<Longrightarrow> placed n reg' = placed n reg"
  by (simp add: alike_def placed_def)

lemma alike_mirrored: "alike reg reg' \<Longrightarrow> mirrored me shared reg' db = mirrored me shared reg db"
  by (simp add: alike_def mirrored_def registered_def)

lemma register_cases:
  assumes "register_tunnel tid code reg = (said, reg')"
  shows "alike (reg\<lparr>rg_tunnels := map_set (tn_machineId (rg_heap reg tid)) tid (rg_tunnels reg)\<rparr>) reg'"
    and "mirror_whole me now said db = presence_up me (tn_machineId (rg_heap reg tid)) (tn_since (rg_heap reg tid)) now 2 db"
proof -
  let ?m = "tn_machineId (rg_heap reg tid)" let ?placed = "reg\<lparr>rg_tunnels := map_set ?m tid (rg_tunnels reg)\<rparr>"
  have "alike ?placed reg' \<and> mirror_whole me now said db = presence_up me ?m (tn_since (rg_heap reg tid)) now 2 db"
  proof (cases "map_of (rg_tunnels reg) ?m")
    case None
    with assms show ?thesis by (auto simp: register_tunnel_def Let_def alike_def mirror_whole_def)
  next
    case (Some old)
    obtain es r where c: "close_tunnel old code ''superseded by a newer tunnel'' ?placed = (es, r)" by (cases "close_tunnel old code ''superseded by a newer tunnel'' ?placed")
    with Some assms alike_close [OF c] show ?thesis by (auto simp: register_tunnel_def Let_def mirror_whole_def)
  qed
  then show "alike ?placed reg'" and "mirror_whole me now said db = presence_up me ?m (tn_since (rg_heap reg tid)) now 2 db" by auto
qed


subsection \<open>The invariant of the runs\<close>

lemma keyed_up: "keyed db \<Longrightarrow> keyed (presence_up other m since now k db)"
  by (simp add: presence_up_def keyed_upsert Let_def)

lemma tunnel_of_up:
  "tunnel_of (presence_up other m since now k db) x = (if x = m \<and> k \<noteq> 0 then Some \<lparr>tl_machine = m, tl_relay = other, tl_connectedAt = since,
     tl_lastSeenAt = now, tl_requestsProxied = 0, tl_activeStreams = 0\<rparr> else tunnel_of db x)"
  by (auto simp: presence_up_def Let_def tunnel_of_upsert split: option.split)

lemma keyed_down: "keyed db \<Longrightarrow> keyed (presence_down other m db)"
  by (simp add: presence_down_def keyed_delete)

lemma tunnel_of_machine: "tunnel_of db m = Some r \<Longrightarrow> tl_machine r = m"
  by (auto simp: tunnel_of_def find_Some_iff)

lemma tunnel_of_down:
  "keyed db \<Longrightarrow> tunnel_of (presence_down other m db) x =
     (case tunnel_of db x of None \<Rightarrow> None | Some r \<Rightarrow> if x = m \<and> tl_relay r = other then None else Some r)"
  by (auto simp: presence_down_def tunnel_of_delete dest: tunnel_of_machine split: option.split)

lemma keyed_flush: "keyed db \<Longrightarrow> distinct (map tt_machineId live) \<Longrightarrow> keyed (presence_flush other nonce live now db)"
  using fold_refresh [of db live other now] by (simp add: presence_flush_def Let_def keyed_delete)

lemma refreshed_row_sel [simp]:
  "tl_relay (refreshed_row other now st) = other" "tl_connectedAt (refreshed_row other now st) = tt_since st" "tl_lastSeenAt (refreshed_row other now st) = now"
  by (simp_all add: refreshed_row_def)

lemma tunnel_of_flush:
  assumes "keyed db" and "distinct (map tt_machineId live)"
  shows "tunnel_of (presence_flush other nonce live now db) m =
     (case List.find (\<lambda>st. tt_machineId st = m) live of
        None \<Rightarrow> (case tunnel_of db m of None \<Rightarrow> None | Some r \<Rightarrow> if tl_relay r = other \<and> tl_lastSeenAt r < now then None else Some r)
      | Some st \<Rightarrow> (case tunnel_of db m of None \<Rightarrow> Some (refreshed_row other now st)
          | Some r \<Rightarrow> Some (if yields other st r then refreshed_row other now st else r)))"
proof -
  note f = fold_refresh [OF assms, of other now m]
  then have "tunnel_of (presence_flush other nonce live now db) m = (case tunnel_of (fold (refresh_tunnel other now) live db) m of None \<Rightarrow> None
      | Some r \<Rightarrow> if tl_relay r = other \<and> tl_lastSeenAt r < now then None else Some r)"
    by (simp add: presence_flush_def Let_def tunnel_of_delete)
  with f show ?thesis by (auto simp: refreshed_row_def yields_def split: option.split)
qed

lemma registered_leave: "registered (reg\<lparr>rg_tunnels := filter (\<lambda>(x, _). x \<noteq> k) (rg_tunnels reg)\<rparr>) m = (if m = k then None else registered reg m)"
  by (simp add: registered_def map_of_filter)

lemma unregister_cases:
  assumes "unregister_tunnel tid reg = (said, reg')"
  obtains (other) "said = []" "reg' = reg"
  | (left) m where "registered reg m = Some tid" "m = tn_machineId (rg_heap reg tid)" "reg' = reg\<lparr>rg_tunnels := filter (\<lambda>(x, _). x \<noteq> m) (rg_tunnels reg)\<rparr>"
      "\<And>me now db. mirror_whole me now said db = presence_down me m db"
  using assms by (auto simp: unregister_tunnel_def Let_def mirror_whole_def registered_def split: if_splits)

lemma placed_leave: "unregister_tunnel tid reg = (said, reg') \<Longrightarrow> placed n reg \<Longrightarrow> placed n reg'"
  by (erule unregister_cases) (auto simp: placed_def distinct_map_filter)

lemma mirrored_leave:
  assumes "unregister_tunnel tid reg = (said, reg')" and "placed n reg" and "mirrored me shared reg db"
  shows "mirrored me shared reg' (mirror_whole me now said db)"
  using assms(1)
proof (cases rule: unregister_cases)
  case other
  with assms show ?thesis by (simp add: mirror_whole_def)
next
  case (left m)
  have "keyed db" using assms(3) by (simp add: mirrored_def)
  then have "mirrored me shared reg' (presence_down me m db)" using assms(3) left(3)
    by (auto simp: mirrored_def registered_leave tunnel_of_down keyed_down split: option.splits if_splits)
  then show ?thesis using left(4) by simp
qed

lemma arriving:
  assumes "register_tunnel n code (reg\<lparr>rg_heap := (rg_heap reg)(n := new_tunnel m since v)\<rparr>) = (said, reg')"
  shows "alike (reg\<lparr>rg_heap := (rg_heap reg)(n := new_tunnel m since v), rg_tunnels := map_set m n (rg_tunnels reg)\<rparr>) reg'"
    and "mirror_whole me now said db = presence_up me m since now 2 db"
  using register_cases [OF assms] by (simp_all add: new_tunnel_def)

lemma placed_arrive:
  assumes "register_tunnel n code (reg\<lparr>rg_heap := (rg_heap reg)(n := new_tunnel m since v)\<rparr>) = (said, reg')" and "placed n reg"
  shows "placed (Suc n) reg'"
proof -
  have "placed (Suc n) (reg\<lparr>rg_heap := (rg_heap reg)(n := new_tunnel m since v), rg_tunnels := map_set m n (rg_tunnels reg)\<rparr>)"
    using assms(2) set_map_set [of m n "rg_tunnels reg"] distinct_map_set [of "rg_tunnels reg" m n]
    by (fastforce simp: placed_def new_tunnel_def)
  with arriving(1) [OF assms(1)] show ?thesis by (simp add: alike_placed)
qed

lemma mirrored_arrive:
  assumes "register_tunnel n code (reg\<lparr>rg_heap := (rg_heap reg)(n := new_tunnel m since v)\<rparr>) = (said, reg')"
    and "placed n reg" and "mirrored me shared reg db"
  shows "mirrored me shared reg' (mirror_whole me now said db)"
proof -
  let ?fresh = "reg\<lparr>rg_heap := (rg_heap reg)(n := new_tunnel m since v)\<rparr>" let ?put = "?fresh\<lparr>rg_tunnels := map_set m n (rg_tunnels reg)\<rparr>"
  have n: "tn_machineId (new_tunnel m since v) = m" "tn_since (new_tunnel m since v) = since" by (simp_all add: new_tunnel_def)
  have a: "alike ?put reg'" and w: "mirror_whole me now said db = presence_up me m since now 2 db"
    using arriving [OF assms(1)] by simp_all
  have old: "registered reg x = Some tid \<Longrightarrow> tid < n" for x tid using assms(2) by (auto simp: placed_def registered_def dest!: map_of_SomeD)
  have reg: "registered ?put x = (if x = m then Some n else registered reg x)" for x by (simp add: registered_def map_of_map_set)
  have heap: "registered reg x = Some tid \<Longrightarrow> rg_heap ?put tid = rg_heap reg tid" for x tid using old [of x tid] by simp
  have "mirrored me shared ?put (presence_up me m since now 2 db)"
    unfolding mirrored_def
  proof (intro conjI allI impI)
    fix x r assume r: "tunnel_of (presence_up me m since now 2 db) x = Some r" "tl_relay r = me"
    show "\<exists>tid. registered ?put x = Some tid \<and> tl_connectedAt r = tn_since (rg_heap ?put tid)"
    proof (cases "x = m")
      case True
      with r show ?thesis by (auto simp: reg tunnel_of_up n)
    next
      case False
      with r have "tunnel_of db x = Some r" by (simp add: tunnel_of_up)
      with mirrored_row [OF assms(3) this r(2)] obtain tid where "registered reg x = Some tid" "tl_connectedAt r = tn_since (rg_heap reg tid)" by blast
      with False heap [of x tid] show ?thesis by (simp add: reg)
    qed
  qed (use assms(3) in \<open>auto simp: mirrored_def reg tunnel_of_up keyed_up split: if_splits\<close>)
  with a w show ?thesis by (simp add: alike_mirrored)
qed

text \<open>What a relay's own counts say of its registry.\<close>

lemma stats_of_registry:
  assumes "placed n reg"
  shows "distinct (map tt_machineId (registry_stats me reg))"
    and "List.find (\<lambda>st. tt_machineId st = m) (registry_stats me reg) = None \<longleftrightarrow> registered reg m = None"
    and "List.find (\<lambda>st. tt_machineId st = m) (registry_stats me reg) = Some st \<Longrightarrow> \<exists>tid. registered reg m = Some tid \<and> tt_since st = tn_since (rg_heap reg tid)"
proof -
  let ?live = "registry_stats me reg"
  have names: "map tt_machineId ?live = map fst (rg_tunnels reg)" using assms
    by (force simp: registry_stats_def placed_def Let_def)
  then show "distinct (map tt_machineId ?live)" using assms by (simp add: placed_def)
  show "List.find (\<lambda>st. tt_machineId st = m) ?live = None \<longleftrightarrow> registered reg m = None"
    using names by (simp add: registered_def map_of_eq_None_iff find_None_iff flip: set_map image_iff) (metis (mono_tags, lifting) image_iff list.set_map)
  show "\<exists>tid. registered reg m = Some tid \<and> tt_since st = tn_since (rg_heap reg tid)" if "List.find (\<lambda>st. tt_machineId st = m) ?live = Some st"
  proof -
    have st: "st \<in> set ?live" "tt_machineId st = m" using that by (auto simp: find_Some_iff)
    then obtain m' tid where "(m', tid) \<in> set (rg_tunnels reg)" "tt_since st = tn_since (rg_heap reg tid)" "m' = m"
      using assms by (auto simp: registry_stats_def Let_def placed_def)
    then show ?thesis using assms by (auto simp: registered_def placed_def map_of_is_SomeI)
  qed
qed

text \<open>What holds of the table also after writes that failed.\<close>

definition owned_rows :: "ustring \<Rightarrow> ustring set \<Rightarrow> presence_db \<Rightarrow> bool" where
  "owned_rows me shared db \<longleftrightarrow> keyed db \<and> (\<forall>m r. m \<notin> shared \<longrightarrow> tunnel_of db m = Some r \<longrightarrow> tl_relay r = me)"

lemma mirrored_owned: "mirrored me shared reg db \<Longrightarrow> owned_rows me shared db"
  by (auto simp: mirrored_def owned_rows_def)

lemma mirrored_cong: "pd_tunnels db = pd_tunnels db' \<Longrightarrow> mirrored me shared reg db = mirrored me shared reg db'"
  by (simp add: mirrored_def keyed_def tunnel_of_def)

lemma owned_write: "owned_rows me shared db \<Longrightarrow> owned_rows me shared (write_some me now x db)"
  by (cases x rule: write_lost.cases)
    (auto simp: owned_rows_def keyed_up keyed_down tunnel_of_up tunnel_of_down split: if_splits option.splits)

lemma owned_mirror: "owned_rows me shared db \<Longrightarrow> owned_rows me shared (mirror me now outs db)"
  unfolding mirror_def by (induction outs arbitrary: db) (simp_all add: owned_write)

lemma flush_rows:
  assumes "keyed db" and "distinct (map tt_machineId live)" and "tunnel_of (presence_flush other nonce live now db) m = Some r"
  obtains (kept) "tunnel_of db m = Some r" and "tl_relay r = other \<Longrightarrow> tl_lastSeenAt r < now \<Longrightarrow> False"
  | (refreshed) st where "List.find (\<lambda>st. tt_machineId st = m) live = Some st" and "r = refreshed_row other now st"
  using assms(3)
  by (cases "List.find (\<lambda>st. tt_machineId st = m) live"; cases "tunnel_of db m")
    (auto simp: tunnel_of_flush [OF assms(1,2)] yields_def split: if_splits)

lemma owned_flush:
  assumes "owned_rows me shared db" and "distinct (map tt_machineId live)" and "other = me \<or> tt_machineId ` set live \<subseteq> shared"
  shows "owned_rows me shared (presence_flush other nonce live now db)"
  unfolding owned_rows_def
proof (intro conjI allI impI)
  have k: "keyed db" using assms(1) by (simp add: owned_rows_def)
  show "keyed (presence_flush other nonce live now db)" by (rule keyed_flush [OF k assms(2)])
  fix m r assume m: "m \<notin> shared" and r: "tunnel_of (presence_flush other nonce live now db) m = Some r"
  show "tl_relay r = me" using k assms(2) r
  proof (cases rule: flush_rows)
    case kept
    with m assms(1) show ?thesis by (simp add: owned_rows_def)
  next
    case (refreshed st)
    then have "m \<in> tt_machineId ` set live" by (auto simp: find_Some_iff)
    with m refreshed assms(3) show ?thesis by auto
  qed
qed

lemma flush_held:
  assumes "placed n reg" and "owned_rows me shared db"
    and "\<And>m r. tunnel_of db m = Some r \<Longrightarrow> tl_relay r = me \<Longrightarrow> now \<le> tl_lastSeenAt r \<Longrightarrow> \<exists>tid. registered reg m = Some tid \<and> tl_connectedAt r = tn_since (rg_heap reg tid)"
  shows "mirrored me shared reg (presence_flush me nonce (registry_stats me reg) now db)"
proof -
  let ?live = "registry_stats me reg" let ?db = "presence_flush me nonce ?live now db"
  note stats = stats_of_registry [OF assms(1), where me = me]
  have k: "keyed db" using assms(2) by (simp add: owned_rows_def)
  have owned: "owned_rows me shared ?db" by (rule owned_flush [OF assms(2) stats(1)]) simp
  show ?thesis unfolding mirrored_def
  proof (intro conjI allI impI)
    show "keyed ?db" using owned by (simp add: owned_rows_def)
  next
    fix m r assume r: "tunnel_of ?db m = Some r" "tl_relay r = me"
    show "\<exists>tid. registered reg m = Some tid \<and> tl_connectedAt r = tn_since (rg_heap reg tid)" using k stats(1) r(1)
    proof (cases rule: flush_rows)
      case kept
      then have "now \<le> tl_lastSeenAt r" using r(2) by force
      with assms(3) [OF kept(1) r(2)] show ?thesis by simp
    next
      case (refreshed st)
      from stats(3) [OF refreshed(1)] refreshed(2) show ?thesis by simp
    qed
  next
    fix m r assume "m \<notin> shared" "tunnel_of ?db m = Some r"
    then show "tl_relay r = me" using owned by (simp add: owned_rows_def)
  next
    fix m assume "m \<notin> shared" "registered reg m \<noteq> None"
    then show "tunnel_of ?db m \<noteq> None" using stats(2) [of m] by (auto simp: tunnel_of_flush [OF k stats(1)] split: option.splits)
  qed
qed

lemma mirrored_flush:
  assumes "placed n reg" and "mirrored me shared reg db"
  shows "mirrored me shared reg (presence_flush me nonce (registry_stats me reg) now db)"
  by (rule flush_held [OF assms(1) mirrored_owned [OF assms(2)]]) (rule mirrored_row [OF assms(2)])

lemma repairing_flush:
  assumes "placed n reg" and "owned_rows me shared db" and "repairs me now db"
  shows "mirrored me shared reg (presence_flush me nonce (registry_stats me reg) now db)"
proof (rule flush_held [OF assms(1,2)])
  fix m r assume r: "tunnel_of db m = Some r" "tl_relay r = me" "now \<le> tl_lastSeenAt r"
  then have "r \<in> set (pd_tunnels db)" by (auto simp: tunnel_of_def dest: find_in)
  with r assms(3) show "\<exists>tid. registered reg m = Some tid \<and> tl_connectedAt r = tn_since (rg_heap reg tid)" by (auto simp: repairs_def)
qed

lemma mirrored_stop_step:
  "mirrored me shared (reg\<lparr>rg_tunnels := (m, tid) # rest\<rparr>) db \<Longrightarrow> m \<notin> fst ` set rest \<Longrightarrow> mirrored me shared (reg\<lparr>rg_tunnels := rest\<rparr>) (presence_down me m db)"
proof -
  assume a: "mirrored me shared (reg\<lparr>rg_tunnels := (m, tid) # rest\<rparr>) db" and b: "m \<notin> fst ` set rest"
  have k: "keyed db" using a by (simp add: mirrored_def)
  show "mirrored me shared (reg\<lparr>rg_tunnels := rest\<rparr>) (presence_down me m db)"
    unfolding mirrored_def
  proof (intro conjI allI impI)
    fix x r assume r: "tunnel_of (presence_down me m db) x = Some r" "tl_relay r = me"
    then have "tunnel_of db x = Some r" "x \<noteq> m" by (auto simp: tunnel_of_down [OF k] split: option.splits if_splits)
    with mirrored_row [OF a this(1) r(2)] show "\<exists>tid. registered (reg\<lparr>rg_tunnels := rest\<rparr>) x = Some tid \<and> tl_connectedAt r = tn_since (rg_heap (reg\<lparr>rg_tunnels := rest\<rparr>) tid)"
      by (auto simp: registered_def)
  next
    fix x assume x: "x \<notin> shared" "registered (reg\<lparr>rg_tunnels := rest\<rparr>) x \<noteq> None"
    then have "x \<noteq> m" using b by (auto simp: registered_def dest!: map_of_SomeD) (metis fst_conv image_eqI)
    with x a show "tunnel_of (presence_down me m db) x \<noteq> None"
      by (auto simp: mirrored_def registered_def tunnel_of_down [OF k] split: option.splits)
  qed (use a k in \<open>auto simp: mirrored_def tunnel_of_down keyed_down split: option.splits if_splits\<close>)
qed

definition stop_step :: "nat \<Rightarrow> string \<Rightarrow> ustring \<times> nat \<Rightarrow> registry_effect list \<times> tunnel_registry \<Rightarrow> registry_effect list \<times> tunnel_registry" where
  "stop_step code reason = (\<lambda>(_, tid) (es, r). let (e, r') = close_tunnel tid code reason r in (es @ e @ [Writes_down (tn_machineId (rg_heap r tid))], r'))"

lemma mirrored_stop_fold:
  "fold (stop_step code reason) rest (es, reg) = (said, reg') \<Longrightarrow> placed n (reg\<lparr>rg_tunnels := rest\<rparr>) \<Longrightarrow>
     mirrored me shared (reg\<lparr>rg_tunnels := rest\<rparr>) (mirror_whole me now es db) \<Longrightarrow> mirrored me shared (reg'\<lparr>rg_tunnels := []\<rparr>) (mirror_whole me now said db)"
proof (induction rest arbitrary: es reg)
  case (Cons e rest)
  obtain m tid where e: "e = (m, tid)" by (cases e)
  obtain x r where c: "close_tunnel tid code reason reg = (x, r)" by (cases "close_tunnel tid code reason reg")
  note a = alike_close [OF c]
  have m: "tn_machineId (rg_heap reg tid) = m" using Cons.prems(2) by (simp add: placed_def e)
  have step: "stop_step code reason e (es, reg) = (es @ x @ [Writes_down m], r)" by (simp add: stop_step_def e c m)
  have like: "alike (reg\<lparr>rg_tunnels := rest\<rparr>) (r\<lparr>rg_tunnels := rest\<rparr>)" using a by (simp add: alike_def)
  have "placed n (reg\<lparr>rg_tunnels := rest\<rparr>)" using Cons.prems(2) by (simp add: placed_def e)
  then have p: "placed n (r\<lparr>rg_tunnels := rest\<rparr>)" by (simp add: alike_placed [OF like])
  have w: "mirror_whole me now (es @ x @ [Writes_down m]) db = presence_down me m (mirror_whole me now es db)" using a by (simp add: mirror_whole_def)
  have "m \<notin> fst ` set rest" using Cons.prems(2) by (simp add: placed_def e)
  then have "mirrored me shared (reg\<lparr>rg_tunnels := rest\<rparr>) (presence_down me m (mirror_whole me now es db))"
    using Cons.prems(3) mirrored_stop_step by (simp add: e)
  then have "mirrored me shared (r\<lparr>rg_tunnels := rest\<rparr>) (mirror_whole me now (es @ x @ [Writes_down m]) db)" by (simp add: w alike_mirrored [OF like])
  with Cons.IH [of "es @ x @ [Writes_down m]" r] Cons.prems(1) p show ?case by (simp add: step)
qed simp

lemma placed_stop: "closeAll code reason reg = (said, reg') \<Longrightarrow> placed n reg'"
  by (auto simp: closeAll_def placed_def split: prod.splits)

lemma mirrored_stop:
  assumes "closeAll code reason reg = (said, reg')" and "placed n reg" and "mirrored me shared reg db"
  shows "mirrored me shared reg' (mirror_whole me now said db)"
proof -
  obtain s r where f: "fold (stop_step code reason) (rg_tunnels reg) ([], reg) = (s, r)" by (cases "fold (stop_step code reason) (rg_tunnels reg) ([], reg)")
  then have "said = s" "reg' = r\<lparr>rg_tunnels := []\<rparr>" using assms(1) by (simp_all add: closeAll_def stop_step_def)
  with mirrored_stop_fold [OF f, of n me shared now db] assms(2,3) show ?thesis by (simp add: placed_def mirror_whole_def)
qed

lemma mirrored_other_up: "mirrored me shared reg db \<Longrightarrow> other \<noteq> me \<Longrightarrow> m \<in> shared \<Longrightarrow> mirrored me shared reg (presence_up other m since now k db)"
  by (auto simp: mirrored_def tunnel_of_up keyed_up split: if_splits)

lemma mirrored_other_down: "mirrored me shared reg db \<Longrightarrow> other \<noteq> me \<Longrightarrow> mirrored me shared reg (presence_down other m db)"
  by (auto simp: mirrored_def tunnel_of_down keyed_down split: option.splits if_splits)

lemma mirrored_other_flush:
  assumes "mirrored me shared reg db" and "other \<noteq> me" and "distinct (map tt_machineId live)" and "tt_machineId ` set live \<subseteq> shared"
  shows "mirrored me shared reg (presence_flush other nonce live now db)"
proof -
  have k: "keyed db" using assms(1) by (simp add: mirrored_def)
  have "List.find (\<lambda>st. tt_machineId st = m) live \<noteq> None \<Longrightarrow> m \<in> shared" for m using assms(4) by (auto simp: find_Some_iff)
  with assms show ?thesis
    by (fastforce simp: mirrored_def tunnel_of_flush [OF k assms(3)] keyed_flush split: option.splits if_splits)
qed

lemma owned_other:
  "owned_rows me shared db \<Longrightarrow> other \<noteq> me \<Longrightarrow> m \<in> shared \<Longrightarrow> owned_rows me shared (presence_up other m since now k db)"
  "owned_rows me shared db \<Longrightarrow> owned_rows me shared (presence_down other m db)"
  by (auto simp: owned_rows_def keyed_up keyed_down tunnel_of_up tunnel_of_down split: if_splits option.splits)

text \<open>What every state of a run satisfies.\<close>

definition relay_ok :: "ustring \<Rightarrow> ustring set \<Rightarrow> bool \<Rightarrow> nat \<Rightarrow> tunnel_registry \<Rightarrow> presence_db \<Rightarrow> bool" where
  "relay_ok me shared lost n reg db \<longleftrightarrow> placed n reg \<and> owned_rows me shared db \<and> (\<not> lost \<longrightarrow> mirrored me shared reg db)"

lemma relay_ok_step:
  assumes "relay_ok me shared lost n reg db" and "placed n' reg'"
    and "mirrored me shared reg db \<Longrightarrow> mirrored me shared reg' (mirror_whole me now (map snd outs) db)"
  shows "relay_ok me shared (lost \<or> list_ex write_lost outs) n' reg' (mirror me now outs db)"
proof -
  have "mirrored me shared reg' (mirror me now outs db)" if "\<not> lost" "\<not> list_ex write_lost outs"
    using assms(1,3) that mirrored_cong [OF mirror_no_loss [OF that(2) refl, of me now db]] by (simp add: relay_ok_def)
  with assms(1,2) show ?thesis by (auto simp: relay_ok_def owned_mirror)
qed

lemma relay_ok_alike: "relay_ok me shared lost n reg db \<Longrightarrow> alike reg reg' \<Longrightarrow> relay_ok me shared lost n reg' db"
  by (simp add: relay_ok_def alike_placed alike_mirrored)

lemma runs_ok: "relay_runs me shared lost n reg db \<Longrightarrow> relay_ok me shared lost n reg db"
proof (induction rule: relay_runs.induct)
  case (runs_start db h)
  then show ?case by (auto simp: relay_ok_def placed_def mirrored_def owned_rows_def registered_def)
next
  case (runs_arrive lost n reg db code m since v outs reg' now)
  from mirrored_arrive [OF runs_arrive.hyps(2)] runs_arrive.IH show ?case
    by (intro relay_ok_step [OF runs_arrive.IH]) (auto simp: relay_ok_def placed_arrive [OF runs_arrive.hyps(2)])
next
  case (runs_leave lost n reg db tid outs reg' now)
  from mirrored_leave [OF runs_leave.hyps(3)] placed_leave [OF runs_leave.hyps(3)] runs_leave.IH show ?case
    by (intro relay_ok_step [OF runs_leave.IH]) (auto simp: relay_ok_def)
next
  case (runs_ask lost n reg db m found outs reg' now)
  have ok: "placed n reg" using runs_ask.IH by (simp add: relay_ok_def)
  consider "map snd outs = []" "reg' = reg" | tid where "unregister_tunnel tid reg = (map snd outs, reg')"
    using runs_ask.hyps(2) by (auto simp: get_tunnel_def split: option.splits if_splits)
  then show ?case
  proof cases
    case 1
    then show ?thesis by (intro relay_ok_step [OF runs_ask.IH]) (simp_all add: ok mirror_whole_def)
  next
    case 2
    from mirrored_leave [OF 2 ok] placed_leave [OF 2 ok] show ?thesis by (intro relay_ok_step [OF runs_ask.IH]) auto
  qed
next
  case (runs_over lost n reg db tid)
  show ?case by (rule relay_ok_alike [OF runs_over.IH alike_heap]) simp_all
next
  case (runs_stream lost n reg db takes s e tid answer t')
  have "tn_machineId t' = tn_machineId (rg_heap reg tid) \<and> tn_since t' = tn_since (rg_heap reg tid)" using runs_stream.hyps(2)
    by (cases rule: open_stream_cases) simp_all
  then show ?case by (intro relay_ok_alike [OF runs_stream.IH alike_heap]) simp_all
next
  case (runs_done lost n reg db tid s)
  show ?case by (rule relay_ok_alike [OF runs_done.IH alike_heap]) (simp_all add: stream_done_def)
next
  case (runs_flush lost n reg db now nonce)
  then have ok: "placed n reg" "owned_rows me shared db" by (simp_all add: relay_ok_def)
  have "owned_rows me shared (presence_flush me nonce (registry_stats me reg) now db)" by (rule owned_flush [OF ok(2) stats_of_registry(1) [OF ok(1)]]) simp
  with ok runs_flush.IH mirrored_flush repairing_flush [OF ok] show ?case by (auto simp: relay_ok_def)
next
  case (runs_stop lost n reg db code reason outs reg' now)
  from mirrored_stop [OF runs_stop.hyps(2)] placed_stop [OF runs_stop.hyps(2), of n] runs_stop.IH show ?case
    by (intro relay_ok_step [OF runs_stop.IH]) (auto simp: relay_ok_def)
next
  case (runs_other_up lost n reg db other m since now k)
  then show ?case by (auto simp: relay_ok_def owned_other mirrored_other_up)
next
  case (runs_other_down lost n reg db other m)
  then show ?case by (auto simp: relay_ok_def owned_other mirrored_other_down)
next
  case (runs_other_flush lost n reg db other live nonce now)
  then show ?case by (auto simp: relay_ok_def owned_flush mirrored_other_flush)
qed

text \<open>That the table says of a machine what the relay holds of it.\<close>

definition says_what_is_held :: "ustring \<Rightarrow> ustring set \<Rightarrow> tunnel_registry \<Rightarrow> presence_db \<Rightarrow> ustring \<Rightarrow> bool" where
  "says_what_is_held me shared reg db m \<longleftrightarrow>
     (\<forall>r. tunnel_of db m = Some r \<and> tl_relay r = me \<longrightarrow> (\<exists>tid. map_of (rg_tunnels reg) m = Some tid \<and> tn_since (rg_heap reg tid) = tl_connectedAt r)) \<and>
     (m \<notin> shared \<longrightarrow> (tunnel_of db m = None \<longleftrightarrow> map_of (rg_tunnels reg) m = None))"

lemma mirrored_says: "mirrored me shared reg db \<Longrightarrow> says_what_is_held me shared reg db m"
proof -
  assume i: "mirrored me shared reg db"
  have "\<exists>tid. map_of (rg_tunnels reg) m = Some tid \<and> tn_since (rg_heap reg tid) = tl_connectedAt r" if "tunnel_of db m = Some r" "tl_relay r = me" for r
    using mirrored_row [OF i that] by (auto simp: registered_def)
  moreover have "tunnel_of db m = None \<longleftrightarrow> map_of (rg_tunnels reg) m = None" if m: "m \<notin> shared"
  proof (cases "tunnel_of db m")
    case None
    with i m show ?thesis by (auto simp: mirrored_def registered_def)
  next
    case (Some r)
    then have "tl_relay r = me" using i m by (auto simp: mirrored_def)
    from mirrored_row [OF i Some this] Some show ?thesis by (auto simp: registered_def)
  qed
  ultimately show ?thesis by (simp add: says_what_is_held_def)
qed

text \<open>
  C35. The table says what the relay holds. In every run of a relay beside others, whatever order
  tunnels arrive, supersede each other, end and are shut in and whichever writes fail: unless a write
  failed since the last flush, and after any flush that comes later than what was written before, a
  row of this relay names a machine the relay holds a tunnel of, and that tunnel's age, so the
  tunnel that was superseded is never the one described; and for a machine no other relay writes of
  there is a row exactly while a tunnel is held. The late close of a superseded tunnel takes nothing
  down.
\<close>

theorem presence_follows_the_registry:
  assumes "relay_runs me shared lost n reg db"
  shows "(\<not> lost \<longrightarrow> says_what_is_held me shared reg db m) \<and>
    (\<forall>nonce now. (\<forall>r\<in>set (pd_tunnels db). tl_relay r = me \<longrightarrow> tl_lastSeenAt r < now) \<longrightarrow>
       says_what_is_held me shared reg (presence_flush me nonce (registry_stats me reg) now db) m) \<and>
    (\<forall>tid. map_of (rg_tunnels reg) m \<noteq> Some tid \<and> tn_machineId (rg_heap reg tid) = m \<longrightarrow> unregister_tunnel tid reg = ([], reg))"
proof -
  have ok: "placed n reg" "owned_rows me shared db" "\<not> lost \<longrightarrow> mirrored me shared reg db" using runs_ok [OF assms] by (simp_all add: relay_ok_def)
  have "says_what_is_held me shared reg (presence_flush me nonce (registry_stats me reg) now db) m"
    if "\<forall>r\<in>set (pd_tunnels db). tl_relay r = me \<longrightarrow> tl_lastSeenAt r < now" for nonce now
    by (rule mirrored_says [OF repairing_flush [OF ok(1,2)]]) (simp add: repairs_def that)
  moreover have "unregister_tunnel tid reg = ([], reg)" if "map_of (rg_tunnels reg) m \<noteq> Some tid" "tn_machineId (rg_heap reg tid) = m" for tid
    using that by (simp add: unregister_tunnel_def Let_def)
  ultimately show ?thesis using ok(3) mirrored_says by blast
qed

text \<open>The witness: two tunnels of one machine in turn, the second's row lost; the next flush tells of it.\<close>

theorem presence_follows_the_registry_witness:
  "\<exists>n reg db row. relay_runs (asc ''eu'') {} True n reg db \<and> map_of (rg_tunnels reg) (asc ''m'') = Some 1 \<and>
     tunnel_of (presence_flush (asc ''eu'') [] (registry_stats (asc ''eu'') reg) 20 db) (asc ''m'') = Some row \<and> tl_relay row = asc ''eu'' \<and> tl_connectedAt row = 7
     \<and> unregister_tunnel 0 reg = ([], reg)"
proof -
  let ?m = "asc ''m''" let ?me = "asc ''eu''"
  define reg0 where "reg0 = \<lparr>rg_tunnels = [], rg_heap = (\<lambda>_. new_tunnel [] 0 1)\<rparr>"
  define db0 where "db0 = \<lparr>pd_tunnels = [], pd_lastSeen = Map.empty, pd_instances = Map.empty\<rparr>"
  define x1 where "x1 = register_tunnel 0 4409 (reg0\<lparr>rg_heap := (rg_heap reg0)(0 := new_tunnel ?m 5 1)\<rparr>)"
  define x2 where "x2 = register_tunnel 1 4409 ((snd x1)\<lparr>rg_heap := (rg_heap (snd x1))(1 := new_tunnel ?m 7 1)\<rparr>)"
  define db1 where "db1 = mirror ?me 6 (map (Pair 2) (fst x1)) db0"
  define db2 where "db2 = mirror ?me 8 (map (Pair 0) (fst x2)) db1"
  have said: "fst x1 = [Tells ''tunnel_up'' ?m, Writes_up ?m 5]"
    "fst x2 = [Tells ''tunnel_superseded'' ?m, Shuts 0 4409 ''superseded by a newer tunnel'', Tells ''tunnel_up'' ?m, Writes_up ?m 7]"
    by (simp_all add: x2_def x1_def reg0_def register_tunnel_def Let_def new_tunnel_def map_set_def close_tunnel_def)
  have "relay_runs ?me {} (\<exists>m r. tunnel_of db0 m = Some r \<and> tl_relay r = ?me) 0 reg0 db0"
    unfolding reg0_def by (rule runs_start) (simp_all add: db0_def keyed_def tunnel_of_def)
  then have "relay_runs ?me {} False 0 reg0 db0" by (simp add: db0_def tunnel_of_def)
  moreover have "register_tunnel 0 4409 (reg0\<lparr>rg_heap := (rg_heap reg0)(0 := new_tunnel ?m 5 1)\<rparr>) = (map snd (map (Pair (2 :: nat)) (fst x1)), snd x1)"
    by (simp add: x1_def comp_def)
  ultimately have "relay_runs ?me {} (False \<or> list_ex write_lost (map (Pair 2) (fst x1))) (Suc 0) (snd x1) db1"
    unfolding db1_def by (rule runs_arrive)
  then have "relay_runs ?me {} False (Suc 0) (snd x1) db1" by (simp only: said(1)) simp
  moreover have "register_tunnel (Suc 0) 4409 ((snd x1)\<lparr>rg_heap := (rg_heap (snd x1))(Suc 0 := new_tunnel ?m 7 1)\<rparr>) = (map snd (map (Pair (0 :: nat)) (fst x2)), snd x2)"
    by (simp add: x2_def comp_def)
  ultimately have "relay_runs ?me {} (False \<or> list_ex write_lost (map (Pair 0) (fst x2))) (Suc (Suc 0)) (snd x2) db2"
    unfolding db2_def by (rule runs_arrive)
  then have r: "relay_runs ?me {} True (Suc (Suc 0)) (snd x2) db2" by (simp only: said(2)) simp
  have tunnels: "rg_tunnels (snd x2) = [(?m, 1)]" "tn_since (rg_heap (snd x2) 1) = 7" "tn_machineId (rg_heap (snd x2) 0) = ?m"
    by (simp_all add: x2_def x1_def reg0_def register_tunnel_def Let_def new_tunnel_def map_set_def close_tunnel_def)
  have rows: "pd_tunnels db2 = [\<lparr>tl_machine = ?m, tl_relay = ?me, tl_connectedAt = 5, tl_lastSeenAt = 6, tl_requestsProxied = 0, tl_activeStreams = 0\<rparr>]"
    by (simp add: db2_def db1_def mirror_def said presence_up_def upsert_tunnel_def see_machine_def Let_def db0_def)
  let ?db = "presence_flush ?me [] (registry_stats ?me (snd x2)) 20 db2"
  note all = presence_follows_the_registry [OF r, of ?m]
  have "says_what_is_held ?me {} (snd x2) ?db ?m" using all rows by simp
  then obtain row where row: "tunnel_of ?db ?m = Some row" and age: "tl_relay row = ?me \<longrightarrow> tl_connectedAt row = 7"
    using tunnels by (auto simp: says_what_is_held_def)
  have "owned_rows ?me {} ?db"
    using runs_ok [OF runs_flush [OF r, of 20 "[]"]] by (simp add: relay_ok_def)
  with row have "tl_relay row = ?me" by (simp add: owned_rows_def)
  moreover have "unregister_tunnel 0 (snd x2) = ([], snd x2)" using all tunnels by simp
  ultimately show ?thesis using r row age tunnels by (intro exI [of _ "Suc (Suc 0)"] exI [of _ "snd x2"] exI [of _ db2] exI [of _ row]) simp
qed

end
