(* ===== verification/Spec2Isabelle.thy ===== *)
theory Spec2Isabelle
  imports Prelude JsText Frames Noise Events EventStore EventQueue AgentBounds AsyncTasks
    AgentSession Token Auth ControlFrames LiveStream SecureSession SecureChannel
    Throttle Settings ControlDb Credentials Accounts MachineLimits RelayProtocol ControlApi
    MachineRoutes MachineSafety MachineRuns MachinePromises RelayAccess
    PasswordSlots RelayPresence RelayTunnels
begin

text \<open>
  Reemoat runs coding agents on somebody's own machines and lets them be driven from a browser. A
  daemon (\<open>src/src\<close>) runs on each machine: it keeps sessions with agents, their event logs, and serves
  both over HTTP and web sockets. A control plane (\<open>src/packages/control-plane\<close>) knows accounts,
  machines, owners and shares, and signs capabilities that say who may do what on which machine. A
  relay, part of the control plane or a process of its own, carries a browser's bytes down a tunnel a
  daemon dialled, and reads as little of them as it can: browser and daemon speak Noise IK through it
  (\<open>src/packages/protocol\<close>). This development models the parts of that system that carry its logic and
  proves what they promise. Paths below are those of the repository, which stands under \<open>src/\<close>.

  \<^bold>\<open>Ground.\<close> Prelude has the collections and the facts about lists and words that several components
  use. JsText has strings as sequences of UTF-16 code units, their length in UTF-8, JSON values, and
  the operations of JavaScript text the program leans on (trim, split, join, slicing).

  \<^bold>\<open>What goes over the wire.\<close>
  \<^item> Frames: \<open>packages/protocol/src/frames.ts\<close>, the length-prefixed reader, the frames of a conversation
    and the bounded assembler of messages. The reader is a model of the contract \<open>stream_reader\<close>.
  \<^item> Noise: \<open>packages/protocol/src/noise.ts\<close>, key schedule, cipher and symmetric states, both
    messages of the handshake. X25519, the AEAD and the hashes are fields of a record \<open>crypto\<close>; that
    Diffie-Hellman agrees and that opening undoes sealing are hypotheses of what rests on them.
  \<^item> SecureSession, SecureChannel: \<open>src/e2ee.ts\<close>. A state record with the fields of the class, one
    definition for each callback, \<open>secure_step\<close> over all of them. A session reads bytes, completes the
    handshake, has its capability checked over the channel, then drives one request or one socket at a
    time towards the daemon. Lemmas: what is handled is what was sealed however the stream was cut;
    only the device whose key the handshake proved is served; what is written is a well formed
    conversation; nothing throws; nothing is left behind.

  \<^bold>\<open>Capabilities.\<close>
  \<^item> Token: \<open>src/token.ts\<close>, strict base64url, decoding, claims, signing.
  \<^item> Auth: \<open>src/auth.ts\<close>, the verifier of a shared secret, of signed capabilities, and of both, each an
    interpretation of the contract \<open>token_verifier\<close>.

  \<^bold>\<open>Sessions and their events.\<close>
  \<^item> Events: the vocabulary of \<open>src/events.ts\<close>, what an event weighs and how one that weighs too much is cut.
  \<^item> EventStore: the numbered log of a session and the memory store behind it, an interpretation of the
    contract \<open>event_store\<close>; the fan-out to subscribers; paging.
  \<^item> EventQueue: the hand-over queue of \<open>src/session.ts\<close> between an agent's callbacks and the reader.
  \<^item> AgentBounds, AsyncTasks: what an agent says of itself and of work in the background, bounded
    (\<open>src/session.ts\<close>, \<open>src/acp/asynctasks.ts\<close>, \<open>src/acp/subagents.ts\<close>).
  \<^item> AgentSession: \<open>class Session\<close> of \<open>src/session.ts\<close>: updates, permissions, file writes, prompts, their
    endings and their abandonment, as operations on one record.
  \<^item> ControlFrames, LiveStream: \<open>class StreamConnection\<close> of \<open>src/server.ts\<close> (attach, queue, collapse,
    flush, heartbeat) together with the reducer of \<open>packages/web/src/stream.ts\<close> that reads it.

  \<^bold>\<open>The control plane.\<close>
  \<^item> Throttle: \<open>throttle.ts\<close> and \<open>net.ts\<close>; the table with its pruning and its cap, refined from counters
    that forget nothing. Settings: \<open>settings.ts\<close> and the check of addresses. PasswordSlots:
    \<open>password.ts\<close>, the two lanes hashing runs in and what is stored of a password.
  \<^item> ControlDb: the tables of \<open>schema.sql\<close> as lists of rows (\<open>users\<close>, \<open>machines\<close>, \<open>machine_owners\<close>,
    \<open>grants\<close>, keys, codes, sessions, devices) and the reads of \<open>store.ts\<close>. Credentials: \<open>keys.ts\<close> and
    \<open>machinekeys.ts\<close>. Accounts: \<open>sessions.ts\<close>, \<open>devices.ts\<close>, \<open>emails.ts\<close>, \<open>registration.ts\<close>.
    MachineLimits: \<open>machines.ts\<close> and \<open>quota.ts\<close>. RelayProtocol: \<open>src/relay/protocol.ts\<close>.
  \<^item> ControlApi, MachineRoutes: the handlers of \<open>app.ts\<close> that change machines, owners, grants, codes,
    keys and limits, that issue capabilities, or that suspend and remove accounts. A handler is a
    state transformer that ends in an answer, its guards in the order of the code.
  \<^item> MachineSafety, MachineRuns, MachinePromises: a small calculus of preconditions over such handlers,
    the relations between the tables (\<open>db_ok\<close>) which no foreign key keeps, and what is never taken
    back (\<open>evolves\<close>); that every handler respects both; and what follows for any run of requests.
  \<^item> RelayAccess: \<open>relay/authorize.ts\<close>, the keys a relay caches and whom it lets through, with the
    composition of a capability issued by the handler and admitted by the relay.
  \<^item> RelayPresence, RelayTunnels: \<open>relay/presence.ts\<close>, \<open>relay/routing.ts\<close>, \<open>relay/registry.ts\<close>: the
    tunnels a relay holds, the rows it writes of them for other processes, who holds a relay's name.

  \<^bold>\<open>How state is modelled.\<close> A class is a record with its fields prefixed, a method a definition that
  returns the record updated; a callback the code hands out becomes an operation of its own, and what
  it may meet is a step relation or a list of steps (\<open>secure_step\<close>, \<open>runs_to\<close>, \<open>relay_runs\<close>,
  \<open>hashing\<close>, \<open>tunnel_serves\<close>, \<open>turn_step\<close>). A throw is a value of a sum. What the code asks of a socket, an observer
  or another table is a list of effects in their order. A \<open>Map\<close> whose order the code reads is an
  association list.

  \<^bold>\<open>Arguments of the model.\<close> Clocks, random text, hashes, signatures, key derivation, \<open>JSON.parse\<close>, the
  URL parser, letter case and Unicode normalisation are arguments, and what a theorem needs of them
  is one of its hypotheses, each shown satisfiable by a witness. Numbers are unbounded where the code
  stays below \<open>2^53\<close>; bytes, lengths on the wire and nonces are at their width.

  \<^bold>\<open>Bounds and fuel.\<close> Loops are structural or have measures. The one number of steps given from outside
  is that of \<open>read_all\<close>, a client that pages until a page is empty: any number above the last event's is
  enough, since every page but the last moves the cursor, and \<open>reader_catches_up\<close> says so. Limits of
  the code (queue lengths, frame sizes, shares, lanes, time windows) are the code's own constants.

  \<^bold>\<open>Simplifications that a reader should know.\<close>
  \<^item> A request of the control plane is one step. In the code the body is read between the first
    throttle and the rest; two requests may interleave there, and a caller captured before it may be
    removed meanwhile. The amount a throttle is charged before the body is read is charged in the step.
  \<^item> Rows SQL returns in no stated order, or with equal sort keys, come in the order of insertion.
    Columns no code reads are left out, and so are timers that only prune.
  \<^item> Answers carry their status, code and data; their wording is left out where no client reads it.
  \<^item> The relay addresses are a list in the order they are written; a JavaScript object would list keys
    that look like numbers first.
  \<^item> Of a prompt's answer the \<open>then\<close> and the \<open>finally\<close> are steps of their own; a prompt or an abandonment,
    which come from a request or a timer, find every \<open>finally\<close> run.
  \<^item> The relay reads the clock once where \<open>keyFor\<close> reads it twice, before and after it reads the keys:
    there the next reading may come later by as long as this one takes.
  \<^item> Hashing and verifying a password are modelled beside the lanes they wait in: a caller who waits
    or is turned away as busy changes nothing of what is stored.

  \<^bold>\<open>Not modelled.\<close> Sign-in, registration, passwords, mail, settings and listings among the routes of
  \<open>app.ts\<close>, which compose what Accounts, PasswordSlots, Settings and Throttle model; the daemon's HTTP
  routes (\<open>src/server.ts\<close> apart from its streams) and the session registry (\<open>src/registry.ts\<close>), which are
  glue around AgentSession and EventStore; the SQLite store, whose work is in SQL; processes, files, git
  and installation of agents; plugins; the sockets of tunnel and proxy; SMTP; the user interface; the
  check drivers and the scripts of deployment.
\<close>

end
